(* ===== verification/Prelude.thy ===== *)
theory Prelude
  imports Main "HOL-Library.Word"
begin

text \<open>
  Shared vocabulary of the development.

  The node is C++ on a two's-complement machine: fixed-width unsigned integers are words
  (\<open>u8\<close>, \<open>u16\<close>, \<open>u32\<close>, \<open>u64\<close>), byte vectors and scripts are lists of \<open>u8\<close>, and the
  signed \<open>int\<close>/\<open>int64_t\<close> values of the consensus code, whose arithmetic may not overflow,
  are mathematical integers with the ranges stated where they matter.

  The theory also holds the positional notation \<open>val_base\<close> over a list of digits, with
  the lemmas that the limb arithmetic, the little-endian codecs and the script numbers
  share, and the collections \<open>model_simps\<close> and \<open>wf_intros\<close> that the component proofs use.
\<close>

unbundle bit_operations_syntax

type_synonym u8 = "8 word"
type_synonym u16 = "16 word"
type_synonym u32 = "32 word"
type_synonym u64 = "64 word"
type_synonym bytes = "8 word list"

named_theorems model_simps \<open>equations that evaluate the model's operations\<close>
named_theorems wf_intros \<open>preservation of well-formedness by the model's operations\<close>

section \<open>Machine integers\<close>

lemma unat_lt_pow2: "unat (x :: 'a::len word) < 2 ^ LENGTH('a)"
  by (rule unsigned_less)

lemma unat_u32_lt: "unat (x :: u32) < 4294967296"
  using unsigned_less [of x] by simp

lemma unat_u8_lt: "unat (x :: u8) < 256"
  using unsigned_less [of x] by simp

lemma unat_u64_lt: "unat (x :: u64) < 18446744073709551616"
  using unsigned_less [of x] by simp

lemma unat_u16_lt: "unat (x :: u16) < 65536"
  using unsigned_less [of x] by simp

text \<open>The idiom \<open>x & (1 << k)\<close> tests bit \<open>k\<close>.\<close>

lemma test_bit_mask: "(w :: 'a::len word) AND push_bit k 1 \<noteq> 0 \<longleftrightarrow> bit w k"
  by (simp add: and_exp_eq_0_iff_not_bit)

lemma bit_imp_ge: "bit (n :: nat) i \<Longrightarrow> 2 ^ i \<le> n"
  by (metis bit_iff_odd div_less even_zero not_less)

lemma no_high_bits_less:
  assumes "\<And>k. m \<le> k \<Longrightarrow> \<not> bit (n :: nat) k"
  shows "n < 2 ^ m"
proof -
  have "take_bit m n = n"
  proof (rule bit_eqI)
    fix k
    show "bit (take_bit m n) k \<longleftrightarrow> bit n k"
      using assms [of k] by (cases "k < m") (simp_all add: bit_take_bit_iff)
  qed
  then show ?thesis by (metis take_bit_nat_less_exp)
qed

lemma bit_unat: "bit (unat (w :: 'a::len word)) k \<longleftrightarrow> bit w k"
  by (simp add: bit_unsigned_iff)

lemma unat_drop_bit: "unat (drop_bit k (w :: 'a::len word)) = unat w div 2 ^ k"
proof -
  have "unat (drop_bit k w) = drop_bit k (unat w)"
    by (rule bit_eqI) (auto simp: bit_simps)
  then show ?thesis by (simp only: drop_bit_eq_div)
qed

lemma unat_push_bit:
  "unat (push_bit k (w :: 'a::len word)) = (unat w * 2 ^ k) mod 2 ^ LENGTH('a)"
proof -
  have "unat (push_bit k w) = take_bit LENGTH('a) (push_bit k (unat w))"
    by (rule bit_eqI) (auto simp: bit_simps)
  then show ?thesis by (simp only: push_bit_eq_mult take_bit_eq_mod)
qed

lemma unat_NOT: "unat (NOT (w :: 'a::len word)) + unat w + 1 = 2 ^ LENGTH('a)"
proof -
  have "NOT w = - 1 - w" by (simp add: not_eq_complement)
  then have "unat (NOT w) = unat (- 1 :: 'a word) - unat w" by (simp add: unat_sub)
  moreover have "unat (- 1 :: 'a word) + 1 = 2 ^ LENGTH('a)"
    by (simp add: unsigned_minus_1_eq_mask mask_eq_exp_minus_1)
  moreover have "unat w < 2 ^ LENGTH('a)" by (rule unsigned_less)
  ultimately show ?thesis by linarith
qed

text \<open>Conversion to \<open>int\<close> and \<open>int64_t\<close> wraps around.\<close>

definition i32 :: "int \<Rightarrow> int" where
  "i32 x = signed_take_bit 31 x"

definition i64 :: "int \<Rightarrow> int" where
  "i64 x = signed_take_bit 63 x"

lemma i32_ident: "-2147483648 \<le> x \<Longrightarrow> x \<le> 2147483647 \<Longrightarrow> i32 x = x"
  by (simp add: i32_def signed_take_bit_int_eq_self_iff)

lemma i64_ident: "-9223372036854775808 \<le> x \<Longrightarrow> x \<le> 9223372036854775807 \<Longrightarrow> i64 x = x"
  by (simp add: i64_def signed_take_bit_int_eq_self_iff)

lemma i64_range: "-9223372036854775808 \<le> i64 x" "i64 x \<le> 9223372036854775807"
  using signed_take_bit_int_greater_eq_minus_exp [of 63 x] signed_take_bit_int_less_exp [of 63 x]
  by (simp_all add: i64_def)

text \<open>C's integer division truncates toward zero.\<close>

definition cdiv :: "int \<Rightarrow> int \<Rightarrow> int" where
  "cdiv a b = sgn a * sgn b * (\<bar>a\<bar> div \<bar>b\<bar>)"

definition cmod :: "int \<Rightarrow> int \<Rightarrow> int" where
  "cmod a b = a - cdiv a b * b"

lemma cdiv_nonneg [simp]: "0 \<le> a \<Longrightarrow> 0 < b \<Longrightarrow> cdiv a b = a div b"
  by (cases "a = 0") (auto simp: cdiv_def)

lemma cmod_nonneg [simp]: "0 \<le> a \<Longrightarrow> 0 < b \<Longrightarrow> cmod a b = a mod b"
  by (simp add: cmod_def minus_div_mult_eq_mod)

section \<open>Positional notation\<close>

text \<open>The number with the given digits, least significant first.\<close>

fun val_base :: "nat \<Rightarrow> nat list \<Rightarrow> nat" where
  "val_base B [] = 0"
| "val_base B (d # ds) = d + B * val_base B ds"

lemma val_base_append:
  "val_base B (xs @ ys) = val_base B xs + B ^ length xs * val_base B ys"
  by (induction xs) (auto simp: algebra_simps)

lemma val_base_bound:
  "\<forall>d \<in> set ds. d < B \<Longrightarrow> val_base B ds < B ^ length ds"
proof (induction ds)
  case Nil
  then show ?case by simp
next
  case (Cons d ds)
  then have "d < B" and "val_base B ds < B ^ length ds" by auto
  then have "d + B * val_base B ds < B + B * val_base B ds" by simp
  also have "\<dots> = B * Suc (val_base B ds)" by simp
  also have "\<dots> \<le> B * B ^ length ds"
    using \<open>val_base B ds < B ^ length ds\<close> by (intro mult_le_mono2) simp
  finally show ?case by simp
qed

lemma val_base_replicate_zero [simp]: "val_base B (replicate n 0) = 0"
  by (induction n) auto


section \<open>Little-endian bytes\<close>

definition le_encode :: "nat \<Rightarrow> 'a::len word \<Rightarrow> bytes" where
  "le_encode k x = map (\<lambda>i. ucast (drop_bit (8 * i) x)) [0..<k]"

fun le_decode :: "bytes \<Rightarrow> 'a::len word" where
  "le_decode [] = 0"
| "le_decode (b # bs) = ucast b OR push_bit 8 (le_decode bs)"

lemma length_le_encode [simp]: "length (le_encode k x) = k"
  by (simp add: le_encode_def)

lemma bit_le_decode:
  "bit (le_decode bs :: 'a::len word) n \<longleftrightarrow>
     n < LENGTH('a) \<and> n < 8 * length bs \<and> bit (bs ! (n div 8)) (n mod 8)"
proof (induction bs arbitrary: n)
  case Nil
  then show ?case by simp
next
  case (Cons b bs)
  show ?case
  proof (cases "n < 8")
    case True
    then show ?thesis by (auto simp: bit_simps Cons.IH)
  next
    case False
    then have "\<not> bit b n" using bit_imp_le_length [of b n] by auto
    moreover have "n div 8 = Suc ((n - 8) div 8)" "n mod 8 = (n - 8) mod 8"
      using False by (simp_all add: le_div_geq le_mod_geq)
    ultimately show ?thesis using False by (auto simp: bit_simps Cons.IH)
  qed
qed

lemma le_decode_encode:
  assumes "LENGTH('a) \<le> 8 * k"
  shows "le_decode (le_encode k x) = (x :: 'a::len word)"
proof (rule bit_eqI)
  fix n
  assume "possible_bit TYPE('a word) n"
  then have n: "n < LENGTH('a)" by simp
  then have "n div 8 < k" "n mod 8 < 8" "8 * (n div 8) + n mod 8 = n" using assms by auto
  with n assms show "bit (le_decode (le_encode k x) :: 'a word) n \<longleftrightarrow> bit x n"
    by (simp add: bit_le_decode le_encode_def bit_simps)
qed

lemma le_encode_decode:
  assumes "8 * length bs \<le> LENGTH('a)"
  shows "le_encode (length bs) (le_decode bs :: 'a::len word) = bs"
proof (rule nth_equalityI)
  fix i
  assume "i < length (le_encode (length bs) (le_decode bs :: 'a word))"
  then have i: "i < length bs" by simp
  show "le_encode (length bs) (le_decode bs :: 'a word) ! i = bs ! i"
  proof (rule bit_eqI)
    fix n
    assume "possible_bit TYPE(8 word) n"
    then have n: "n < 8" by simp
    then have "(8 * i + n) div 8 = i" "(8 * i + n) mod 8 = n" by simp_all
    moreover have "8 * i + n < 8 * length bs" using i n by linarith
    ultimately show "bit (le_encode (length bs) (le_decode bs :: 'a word) ! i) n \<longleftrightarrow> bit (bs ! i) n"
      using i n assms by (simp add: le_encode_def bit_simps bit_le_decode)
  qed
qed simp

section \<open>Computations that may fail\<close>

fun sbind :: "'e + 'a \<Rightarrow> ('a \<Rightarrow> 'e + 'b) \<Rightarrow> 'e + 'b" where
  "sbind (Inl e) f = Inl e"
| "sbind (Inr x) f = f x"

lemma sbind_Inr_iff: "sbind m f = Inr y \<longleftrightarrow> (\<exists>x. m = Inr x \<and> f x = Inr y)"
  by (cases m) auto

lemma sbind_Inl_iff: "sbind m f = Inl e \<longleftrightarrow> m = Inl e \<or> (\<exists>x. m = Inr x \<and> f x = Inl e)"
  by (cases m) auto

lemma sbind_cong [fundef_cong]:
  "m = n \<Longrightarrow> (\<And>x. n = Inr x \<Longrightarrow> f x = g x) \<Longrightarrow> sbind m f = sbind n g"
  by (cases n) auto

lemma sbind_split:
  "P (sbind m f) \<longleftrightarrow> (\<forall>e. m = Inl e \<longrightarrow> P (Inl e)) \<and> (\<forall>x. m = Inr x \<longrightarrow> P (f x))"
  by (cases m) auto

end
