(* ===== verification/Arith_Uint256.thy ===== *)
theory Arith_Uint256
  imports Prelude
begin

text \<open>
  \<open>base_uint<256>\<close> of \<open>src/src/arith_uint256.h\<close> and \<open>arith_uint256.cpp\<close>: the 256-bit
  unsigned integers of the difficulty and chain-work computations.

  A value is the array \<open>pn\<close> of 32-bit limbs, least significant first, here a list of words.
  Every operator is the loop the source has: the carry chains of \<open>+=\<close> and \<open>*=\<close> run on 64-bit
  words, \<open>-\<close> is complement and increment, the shifts scatter two parts of each limb with
  \<open>|=\<close>, division is the bit-by-bit shift-and-subtract loop and throws \<open>uint_error\<close> on zero.
  The template parameter is the length of the list, so the lemmas hold for every width; the
  program instantiates eight limbs.

  The lemmas \<open>val_add\<close>, \<open>val_sub\<close>, \<open>val_mul\<close>, \<open>val_shl\<close>, \<open>val_shr\<close>, \<open>div_uint_correct\<close>,
  \<open>CompareTo_val\<close> and their kin say that the loops compute on the number \<open>val\<close> that the
  limbs denote, modulo \<open>2 ^ 256\<close>. The locale \<open>modular_uint\<close> states that as an interface;
  the difficulty code uses it through the interpretation \<open>u256\<close>.
\<close>

section \<open>Representation\<close>

type_synonym base_uint = "u32 list"

text \<open>\<open>WIDTH\<close> is \<open>BITS / 32\<close>.\<close>

definition WIDTH :: nat where
  "WIDTH = 8"

definition valid256 :: "base_uint \<Rightarrow> bool" where
  "valid256 a \<longleftrightarrow> length a = WIDTH"

definition val :: "base_uint \<Rightarrow> nat" where
  "val a = val_base (2 ^ 32) (map unat a)"

lemma val_Nil [simp]: "val [] = 0"
  by (simp add: val_def)

lemma val_Cons [simp]: "val (x # xs) = unat x + 2 ^ 32 * val xs"
  by (simp add: val_def)

lemma val_append: "val (xs @ ys) = val xs + 2 ^ (32 * length xs) * val ys"
  by (simp add: val_def val_base_append power_mult)

lemma val_bound: "val a < 2 ^ (32 * length a)"
  using val_base_bound [of "map unat a" "2 ^ 32"] by (simp add: val_def power_mult unat_u32_lt)

lemma val_replicate [simp]: "val (replicate n 0) = 0"
  by (simp add: val_def)

lemma val_inject: "length a = length b \<Longrightarrow> val a = val b \<longleftrightarrow> a = b"
proof (induction a b rule: list_induct2)
  case Nil
  then show ?case by simp
next
  case (Cons x xs y ys)
  have "unat x + 2 ^ 32 * val xs = unat y + 2 ^ 32 * val ys \<longleftrightarrow> unat x = unat y \<and> val xs = val ys"
    (is "?l \<longleftrightarrow> ?r")
  proof
    assume ?l
    then have "(unat x + 2 ^ 32 * val xs) mod 2 ^ 32 = (unat y + 2 ^ 32 * val ys) mod 2 ^ 32"
      by simp
    then have "unat x = unat y" using unat_u32_lt [of x] unat_u32_lt [of y] by simp
    with \<open>?l\<close> show ?r by simp
  qed simp
  with Cons.IH show ?case by (simp add: word_unat_eq_iff)
qed

text \<open>The constructor and assignment from \<open>uint64_t\<close>.\<close>

definition of_u64 :: "u64 \<Rightarrow> base_uint" where
  "of_u64 b = ucast b # ucast (drop_bit 32 b) # replicate (WIDTH - 2) 0"

definition zero256 :: base_uint where
  "zero256 = replicate WIDTH 0"

section \<open>Addition\<close>

fun add_loop :: "u64 \<Rightarrow> base_uint \<Rightarrow> base_uint \<Rightarrow> base_uint" where
  "add_loop carry (p # ps) (b # bs) =
     (let n = carry + ucast p + ucast b
      in ucast (n AND 0xffffffff) # add_loop (drop_bit 32 n) ps bs)"
| "add_loop carry _ _ = []"

definition add :: "base_uint \<Rightarrow> base_uint \<Rightarrow> base_uint" where
  "add a b = add_loop 0 a b"

lemma unat_ucast_u32_u64 [simp]: "unat (ucast (x::u32) :: u64) = unat x"
  using unat_u32_lt [of x] by (simp add: unsigned_ucast_eq take_bit_eq_mod)

lemma unat_ucast_u64_u32: "unat (ucast (n::u64) :: u32) = unat n mod 2 ^ 32"
  by (simp add: unsigned_ucast_eq take_bit_eq_mod)

lemma low_limb: "unat (ucast (n AND 0xffffffff :: u64) :: u32) = unat n mod 2 ^ 32"
proof -
  have "n AND 0xffffffff = take_bit 32 n"
    by (simp add: take_bit_eq_mask mask_eq_exp_minus_1)
  then show ?thesis
    by (simp add: unat_ucast_u64_u32 take_bit_eq_mod unat_mod_distrib)
qed

lemma high_part: "unat (drop_bit 32 (n::u64)) = unat n div 2 ^ 32"
  by (simp add: drop_bit_eq_div unat_div_distrib)

lemma limb_step:
  "x mod B + B * ((x div B + y) mod M) = (x + B * y) mod (B * M)" if "0 < B" for B :: nat
  using that by (simp add: mod_mult2_eq add.commute)

lemma length_add_loop [simp]: "length (add_loop c a b) = min (length a) (length b)"
  by (induction c a b rule: add_loop.induct) (auto simp: Let_def)

lemma val_add_loop:
  "length a = length b \<Longrightarrow> unat c < 2 ^ 32 \<Longrightarrow>
     val (add_loop c a b) = (unat c + val a + val b) mod 2 ^ (32 * length a)"
proof (induction c a b rule: add_loop.induct)
  case (1 c p ps b bs)
  let ?n = "c + ucast p + ucast b :: u64"
  have small: "unat c + unat p + unat b < 2 ^ 64"
    using "1.prems"(2) unat_u32_lt [of p] unat_u32_lt [of b] by simp
  then have n: "unat ?n = unat c + unat p + unat b"
    by (simp add: unat_word_ariths)
  have c': "unat (drop_bit 32 ?n) < 2 ^ 32"
    unfolding high_part n using "1.prems"(2) unat_u32_lt [of p] unat_u32_lt [of b] by simp
  have IH: "val (add_loop (drop_bit 32 ?n) ps bs)
      = (unat (drop_bit 32 ?n) + val ps + val bs) mod 2 ^ (32 * length ps)"
    using "1.IH" [OF refl] "1.prems"(1) c' by simp
  have "val (add_loop c (p # ps) (b # bs))
      = unat ?n mod 2 ^ 32 + 2 ^ 32 * ((unat ?n div 2 ^ 32 + (val ps + val bs)) mod 2 ^ (32 * length ps))"
    by (simp only: add_loop.simps Let_def val_Cons low_limb IH high_part add.assoc [of "unat ?n div 2 ^ 32"])
  also have "\<dots> = (unat ?n + 2 ^ 32 * (val ps + val bs)) mod (2 ^ 32 * 2 ^ (32 * length ps))"
    by (rule limb_step) simp
  also have "\<dots> = (unat c + val (p # ps) + val (b # bs)) mod 2 ^ (32 * length (p # ps))"
    unfolding n by (simp add: power_add algebra_simps)
  finally show ?case .
qed auto

theorem val_add:
  "length a = length b \<Longrightarrow> val (add a b) = (val a + val b) mod 2 ^ (32 * length a)"
  by (simp add: add_def val_add_loop)

section \<open>Increment, complement, negation and subtraction\<close>

fun incr :: "base_uint \<Rightarrow> base_uint" where
  "incr [] = []"
| "incr [p] = [p + 1]"
| "incr (p # ps) = (if p + 1 = 0 then (p + 1) # incr ps else (p + 1) # ps)"

fun decr :: "base_uint \<Rightarrow> base_uint" where
  "decr [] = []"
| "decr [p] = [p - 1]"
| "decr (p # ps) = (if p - 1 = - 1 then (p - 1) # decr ps else (p - 1) # ps)"

definition bnot :: "base_uint \<Rightarrow> base_uint" where
  "bnot a = map NOT a"

definition neg :: "base_uint \<Rightarrow> base_uint" where
  "neg a = incr (bnot a)"

definition sub :: "base_uint \<Rightarrow> base_uint \<Rightarrow> base_uint" where
  "sub a b = add a (neg b)"

lemma length_incr [simp]: "length (incr a) = length a"
  by (induction a rule: incr.induct) auto

lemma length_decr [simp]: "length (decr a) = length a"
  by (induction a rule: decr.induct) auto

lemma length_bnot [simp]: "length (bnot a) = length a"
  by (simp add: bnot_def)

lemma length_neg [simp]: "length (neg a) = length a"
  by (simp add: neg_def)

lemma length_add [simp]: "length (add a b) = min (length a) (length b)"
  by (simp add: add_def)

lemma length_sub [simp]: "length (sub a b) = min (length a) (length b)"
  by (simp add: sub_def)

lemma unat_plus1_u32: "unat (p + 1 :: u32) = (unat p + 1) mod 2 ^ 32"
  by (simp add: unat_word_ariths)

lemma plus1_eq_0_u32: "p + 1 = (0 :: u32) \<longleftrightarrow> unat p + 1 = 2 ^ 32"
proof -
  have "p + 1 = (0 :: u32) \<longleftrightarrow> (unat p + 1) mod 2 ^ 32 = 0"
    by (simp add: unat_plus1_u32 word_unat_eq_iff)
  also have "\<dots> \<longleftrightarrow> unat p + 1 = 2 ^ 32"
    using unat_u32_lt [of p] by (auto simp: dest: dvd_imp_le)
  finally show ?thesis .
qed

lemma val_incr: "val (incr a) = (val a + 1) mod 2 ^ (32 * length a)"
proof (induction a rule: incr.induct)
  case (3 p q ps)
  let ?t = "q # ps"
  show ?case
  proof (cases "p + 1 = 0")
    case True
    then have p: "unat p = 2 ^ 32 - 1"
      by (simp add: plus1_eq_0_u32)
    have "val (incr (p # ?t)) = 2 ^ 32 * ((val ?t + 1) mod 2 ^ (32 * length ?t))"
      using True "3" [OF True] by (simp only: incr.simps if_True refl val_Cons unat_0 add_0)
    also have "\<dots> = (2 ^ 32 * (val ?t + 1)) mod (2 ^ 32 * 2 ^ (32 * length ?t))"
      by (simp only: mult_mod_right)
    also have "\<dots> = (val (p # ?t) + 1) mod 2 ^ (32 * length (p # ?t))"
      by (simp add: p power_add del: val_Cons add: val_Cons [of p])
    finally show ?thesis .
  next
    case False
    then have "unat p + 1 < 2 ^ 32"
      using unat_u32_lt [of p] by (auto simp: plus1_eq_0_u32)
    then have p: "unat (p + 1) = unat p + 1"
      by (simp add: unat_plus1_u32)
    then have "val (incr (p # ?t)) = val (p # ?t) + 1"
      using False by simp
    moreover have "val (incr (p # ?t)) < 2 ^ (32 * length (p # ?t))"
      using val_bound [of "incr (p # ?t)"] by (simp only: length_incr)
    ultimately show ?thesis by (metis mod_less)
  qed
qed (auto simp: unat_plus1_u32)


lemma val_bnot: "val (bnot a) + val a + 1 = 2 ^ (32 * length a)"
proof (induction a)
  case Nil
  then show ?case by (simp add: bnot_def)
next
  case (Cons x xs)
  have "unat (NOT x) + unat x + 1 = 2 ^ 32"
    using unat_NOT [of x] by simp
  then have "val (bnot (x # xs)) + val (x # xs) + 1 = 2 ^ 32 * (val (bnot xs) + val xs + 1)"
    by (simp add: bnot_def algebra_simps)
  also have "\<dots> = 2 ^ (32 * length (x # xs))"
    unfolding Cons.IH by (simp add: power_add)
  finally show ?case .
qed

lemma val_neg: "val (neg a) = (2 ^ (32 * length a) - val a) mod 2 ^ (32 * length a)"
proof -
  have "val (bnot a) + 1 = 2 ^ (32 * length a) - val a"
    using val_bnot [of a] by linarith
  then show ?thesis by (simp add: neg_def val_incr)
qed

lemma val_sub:
  assumes "length a = length b"
  shows "val (sub a b) = (val a + (2 ^ (32 * length a) - val b)) mod 2 ^ (32 * length a)"
  using assms by (simp add: sub_def val_add val_neg mod_simps)

lemma val_sub_le:
  assumes "length a = length b" and "val b \<le> val a"
  shows "val (sub a b) = val a - val b"
proof -
  have "val a + (2 ^ (32 * length a) - val b) = (val a - val b) + 2 ^ (32 * length a)"
    using assms val_bound [of b] by simp
  moreover have "val a - val b < 2 ^ (32 * length a)"
    using val_bound [of a] by linarith
  ultimately have "(val a + (2 ^ (32 * length a) - val b)) mod 2 ^ (32 * length a) = val a - val b"
    by (simp only: mod_add_self2 mod_less)
  then show ?thesis by (simp only: val_sub [OF assms(1)])
qed

section \<open>Multiplication\<close>

fun mul32_loop :: "u64 \<Rightarrow> base_uint \<Rightarrow> u32 \<Rightarrow> base_uint" where
  "mul32_loop carry [] b32 = []"
| "mul32_loop carry (p # ps) b32 =
     (let n = carry + ucast b32 * ucast p
      in ucast (n AND 0xffffffff) # mul32_loop (drop_bit 32 n) ps b32)"

definition mul32 :: "base_uint \<Rightarrow> u32 \<Rightarrow> base_uint" where
  "mul32 a b32 = mul32_loop 0 a b32"

fun mul_inner :: "u64 \<Rightarrow> u32 \<Rightarrow> base_uint \<Rightarrow> base_uint \<Rightarrow> base_uint" where
  "mul_inner carry aj (p # ps) (b # bs) =
     (let n = carry + ucast p + ucast aj * ucast b
      in ucast (n AND 0xffffffff) # mul_inner (drop_bit 32 n) aj ps bs)"
| "mul_inner carry aj _ _ = []"

definition mul_row :: "base_uint \<Rightarrow> base_uint \<Rightarrow> nat \<Rightarrow> base_uint \<Rightarrow> base_uint" where
  "mul_row a b j pn = take j pn @ mul_inner 0 (a ! j) (drop j pn) b"

definition mul :: "base_uint \<Rightarrow> base_uint \<Rightarrow> base_uint" where
  "mul a b = fold (mul_row a b) [0..<length a] (replicate (length a) 0)"

lemma length_mul32_loop [simp]: "length (mul32_loop c a b) = length a"
  by (induction c a b rule: mul32_loop.induct) (auto simp: Let_def)

lemma length_mul32 [simp]: "length (mul32 a b) = length a"
  by (simp add: mul32_def)

lemma limb_product: "unat (x :: u32) * unat (y :: u32) \<le> (2 ^ 32 - 1) * (2 ^ 32 - 1)"
  using unat_u32_lt [of x] unat_u32_lt [of y] by (intro mult_le_mono) simp_all

lemma val_mul32_loop:
  "unat c < 2 ^ 32 \<Longrightarrow>
     val (mul32_loop c a b) = (unat c + val a * unat b) mod 2 ^ (32 * length a)"
proof (induction c a b rule: mul32_loop.induct)
  case (2 c p ps b)
  let ?n = "c + ucast b * ucast p :: u64"
  have small: "unat c + unat b * unat p < 2 ^ 64"
    using "2.prems" limb_product [of b p] by simp
  then have n: "unat ?n = unat c + unat b * unat p"
    by (simp add: unat_word_ariths)
  have c': "unat (drop_bit 32 ?n) < 2 ^ 32"
    unfolding high_part n using small by simp
  have "val (mul32_loop c (p # ps) b)
      = unat ?n mod 2 ^ 32 + 2 ^ 32 * ((unat ?n div 2 ^ 32 + val ps * unat b) mod 2 ^ (32 * length ps))"
    by (simp only: mul32_loop.simps Let_def val_Cons low_limb "2.IH" [OF refl c'] high_part)
  also have "\<dots> = (unat ?n + 2 ^ 32 * (val ps * unat b)) mod (2 ^ 32 * 2 ^ (32 * length ps))"
    by (rule limb_step) simp
  also have "\<dots> = (unat c + val (p # ps) * unat b) mod 2 ^ (32 * length (p # ps))"
    unfolding n by (simp add: power_add algebra_simps)
  finally show ?case .
qed simp

lemma val_mul32: "val (mul32 a b) = (val a * unat b) mod 2 ^ (32 * length a)"
  by (simp add: mul32_def val_mul32_loop)

lemma length_mul_inner [simp]: "length (mul_inner c x a b) = min (length a) (length b)"
  by (induction c x a b rule: mul_inner.induct) (auto simp: Let_def)

lemma val_mul_inner:
  "unat c < 2 ^ 32 \<Longrightarrow> length ps \<le> length bs \<Longrightarrow>
     val (mul_inner c x ps bs) = (unat c + val ps + unat x * val bs) mod 2 ^ (32 * length ps)"
proof (induction c x ps bs rule: mul_inner.induct)
  case (1 c x p ps b bs)
  let ?n = "c + ucast p + ucast x * ucast b :: u64"
  have small: "unat c + unat p + unat x * unat b < 2 ^ 64"
    using "1.prems"(1) limb_product [of x b] unat_u32_lt [of p] by simp
  then have n: "unat ?n = unat c + unat p + unat x * unat b"
    by (simp add: unat_word_ariths)
  have c': "unat (drop_bit 32 ?n) < 2 ^ 32"
    unfolding high_part n using small by simp
  have len: "length ps \<le> length bs" using "1.prems"(2) by simp
  have "val (mul_inner c x (p # ps) (b # bs))
      = unat ?n mod 2 ^ 32
        + 2 ^ 32 * ((unat ?n div 2 ^ 32 + (val ps + unat x * val bs)) mod 2 ^ (32 * length ps))"
    by (simp only: mul_inner.simps Let_def val_Cons low_limb "1.IH" [OF refl c' len] high_part
        add.assoc [of "unat ?n div 2 ^ 32"])
  also have "\<dots> = (unat ?n + 2 ^ 32 * (val ps + unat x * val bs)) mod (2 ^ 32 * 2 ^ (32 * length ps))"
    by (rule limb_step) simp
  also have "\<dots> = (unat c + val (p # ps) + unat x * val (b # bs)) mod 2 ^ (32 * length (p # ps))"
    unfolding n by (simp add: power_add algebra_simps)
  finally show ?case .
qed auto

lemma val_take_drop: "j \<le> length a \<Longrightarrow> val a = val (take j a) + 2 ^ (32 * j) * val (drop j a)"
  using val_append [of "take j a" "drop j a"] by simp

lemma val_take_Suc:
  "j < length a \<Longrightarrow> val (take (Suc j) a) = val (take j a) + 2 ^ (32 * j) * unat (a ! j)"
  by (simp add: take_Suc_conv_app_nth val_append)

lemma length_mul_row [simp]:
  "length b = length pn \<Longrightarrow> length (mul_row a b j pn) = length pn"
  by (simp add: mul_row_def)

lemma val_mul_row:
  assumes "j < length pn" and "length b = length pn"
  shows "val (mul_row a b j pn) = (val pn + 2 ^ (32 * j) * unat (a ! j) * val b) mod 2 ^ (32 * length pn)"
proof -
  let ?M = "2 ^ (32 * (length pn - j)) :: nat" and ?B = "2 ^ (32 * j) :: nat"
  let ?y = "val (drop j pn) + unat (a ! j) * val b"
  have BM: "?B * ?M = 2 ^ (32 * length pn)"
    using assms(1) by (simp flip: power_add)
  have tk: "val (take j pn) < ?B"
    using val_bound [of "take j pn"] assms(1) by (simp add: min_def)
  have "val (mul_row a b j pn) = val (take j pn) + ?B * (?y mod ?M)"
    using assms by (simp add: mul_row_def val_append val_mul_inner)
  also have "\<dots> = (val (take j pn) + ?B * ?y) mod (?B * ?M)"
    using limb_step [of ?B "val (take j pn)" ?y ?M] tk by simp
  also have "val (take j pn) + ?B * ?y = val pn + ?B * unat (a ! j) * val b"
    using val_take_drop [of j pn] assms(1) by (simp add: algebra_simps)
  finally show ?thesis by (simp only: BM)
qed

lemma mul_rows:
  assumes "length b = length a" and "m \<le> length a"
  shows "length (fold (mul_row a b) [0..<m] (replicate (length a) 0)) = length a \<and>
    val (fold (mul_row a b) [0..<m] (replicate (length a) 0))
      = (val (take m a) * val b) mod 2 ^ (32 * length a)"
  using assms(2)
proof (induction m)
  case 0
  then show ?case by simp
next
  case (Suc m)
  let ?p = "fold (mul_row a b) [0..<m] (replicate (length a) 0)"
  from Suc have len: "length ?p = length a"
    and v: "val ?p = (val (take m a) * val b) mod 2 ^ (32 * length a)" by auto
  have "val (mul_row a b m ?p)
      = (val (take m a) * val b + 2 ^ (32 * m) * unat (a ! m) * val b) mod 2 ^ (32 * length a)"
    using val_mul_row [of m ?p b a] Suc.prems len assms(1) by (simp add: v mod_simps)
  also have "val (take m a) * val b + 2 ^ (32 * m) * unat (a ! m) * val b = val (take (Suc m) a) * val b"
    using Suc.prems by (simp add: val_take_Suc algebra_simps)
  finally show ?case using len assms(1) by simp
qed

lemma length_mul [simp]: "length b = length a \<Longrightarrow> length (mul a b) = length a"
  using mul_rows [of b a "length a"] by (simp add: mul_def)

lemma val_mul:
  "length b = length a \<Longrightarrow> val (mul a b) = (val a * val b) mod 2 ^ (32 * length a)"
  using mul_rows [of b a "length a"] by (simp add: mul_def)


section \<open>Comparison and bit length\<close>

fun compare_loop :: "base_uint \<Rightarrow> base_uint \<Rightarrow> nat \<Rightarrow> int" where
  "compare_loop a b 0 = 0"
| "compare_loop a b (Suc i) =
     (if a ! i < b ! i then -1 else if a ! i > b ! i then 1 else compare_loop a b i)"

definition CompareTo :: "base_uint \<Rightarrow> base_uint \<Rightarrow> int" where
  "CompareTo a b = compare_loop a b (length a)"

definition EqualTo :: "base_uint \<Rightarrow> u64 \<Rightarrow> bool" where
  "EqualTo a b \<longleftrightarrow>
     \<not> list_ex (\<lambda>p. p \<noteq> 0) (drop 2 a) \<and>
     (ucast (a ! 1) :: u64) = drop_bit 32 b \<and>
     (ucast (a ! 0) :: u64) = b AND 0xffffffff"

fun nbits_loop :: "u32 \<Rightarrow> nat \<Rightarrow> nat option" where
  "nbits_loop p 0 = None"
| "nbits_loop p (Suc n) = (if p AND push_bit (Suc n) 1 \<noteq> 0 then Some (Suc n) else nbits_loop p n)"

fun bits_loop :: "base_uint \<Rightarrow> nat \<Rightarrow> nat" where
  "bits_loop a 0 = 0"
| "bits_loop a (Suc pos) =
     (if a ! pos \<noteq> 0
      then (case nbits_loop (a ! pos) 31 of
              Some nbits \<Rightarrow> 32 * pos + nbits + 1
            | None \<Rightarrow> 32 * pos + 1)
      else bits_loop a pos)"

definition bits :: "base_uint \<Rightarrow> nat" where
  "bits a = bits_loop a (length a)"

lemma two_level_less:
  fixes x y :: nat
  assumes "u < M" "v < M" "x < y"
  shows "u + M * x < v + M * y"
proof -
  have "u + M * x < M * (x + 1)" using assms(1) by simp
  also have "\<dots> \<le> M * y" using assms(3) by (intro mult_le_mono2) simp
  finally show ?thesis by simp
qed

lemma compare_loop_sgn:
  "length a = length b \<Longrightarrow> m \<le> length a \<Longrightarrow>
     compare_loop a b m = sgn (int (val (take m a)) - int (val (take m b)))"
proof (induction m)
  case 0
  then show ?case by simp
next
  case (Suc m)
  have ta: "val (take m a) < 2 ^ (32 * m)" and tb: "val (take m b) < 2 ^ (32 * m)"
    using val_bound [of "take m a"] val_bound [of "take m b"] Suc.prems by (simp_all add: min_def)
  have split: "val (take (Suc m) a) = val (take m a) + 2 ^ (32 * m) * unat (a ! m)"
    "val (take (Suc m) b) = val (take m b) + 2 ^ (32 * m) * unat (b ! m)"
    using Suc.prems by (simp_all add: val_take_Suc)
  consider "a ! m < b ! m" | "b ! m < a ! m" | "a ! m = b ! m" by fastforce
  then show ?case
  proof cases
    case 1
    then have "val (take (Suc m) a) < val (take (Suc m) b)"
      unfolding split by (intro two_level_less ta tb) (simp add: word_less_nat_alt)
    with 1 show ?thesis by simp
  next
    case 2
    then have "val (take (Suc m) b) < val (take (Suc m) a)"
      unfolding split by (intro two_level_less ta tb) (simp add: word_less_nat_alt)
    with 2 show ?thesis by simp
  next
    case 3
    with Suc split show ?thesis by simp
  qed
qed

lemma CompareTo_val:
  "length a = length b \<Longrightarrow> CompareTo a b = sgn (int (val a) - int (val b))"
  by (simp add: CompareTo_def compare_loop_sgn)

lemma nbits_loop_Suc:
  "nbits_loop p (Suc n) = (if bit p (Suc n) then Some (Suc n) else nbits_loop p n)"
  by (simp only: nbits_loop.simps test_bit_mask)

lemma nbits_loop_spec:
  "(case nbits_loop p n of
      None \<Rightarrow> \<forall>k. 0 < k \<and> k \<le> n \<longrightarrow> \<not> bit p k
    | Some i \<Rightarrow> bit p i \<and> i \<le> n \<and> (\<forall>k. i < k \<and> k \<le> n \<longrightarrow> \<not> bit p k))"
proof (induction n)
  case 0
  then show ?case by simp
next
  case (Suc n)
  then show ?case
    by (auto simp: nbits_loop_Suc le_Suc_eq split: option.splits simp del: nbits_loop.simps(2))
qed

lemma top_bit_bounds:
  fixes p :: u32
  assumes "p \<noteq> 0"
  defines "k \<equiv> (case nbits_loop p 31 of Some i \<Rightarrow> i | None \<Rightarrow> 0)"
  shows "2 ^ k \<le> unat p" and "unat p < 2 ^ Suc k" and "k \<le> 31"
proof -
  have spec: "(\<forall>j. k < j \<and> j \<le> 31 \<longrightarrow> \<not> bit p j) \<and> k \<le> 31 \<and> (k = 0 \<or> bit p k)"
    using nbits_loop_spec [where p = p and n = 31] by (auto simp: k_def split: option.splits)
  then show "k \<le> 31" by simp
  have "\<not> bit (unat p) j" if "Suc k \<le> j" for j
    using spec that bit_imp_le_length [of p j] by (force simp: bit_unat)
  then show "unat p < 2 ^ Suc k" by (rule no_high_bits_less)
  show "2 ^ k \<le> unat p"
  proof (cases "k = 0")
    case True
    then show ?thesis using assms(1) by (simp add: unat_gt_0 Suc_leI)
  next
    case False
    then show ?thesis using spec by (intro bit_imp_ge) (simp add: bit_unat)
  qed
qed

lemma bits_loop_bounds:
  "m \<le> length a \<Longrightarrow>
     val (take m a) < 2 ^ bits_loop a m \<and> bits_loop a m \<le> 32 * m \<and>
     (0 < bits_loop a m \<longrightarrow> 2 ^ (bits_loop a m - 1) \<le> val (take m a))"
proof (induction m)
  case 0
  then show ?case by simp
next
  case (Suc m)
  show ?case
  proof (cases "a ! m = 0")
    case True
    with Suc show ?thesis by (auto simp: val_take_Suc)
  next
    case False
    define k where "k = (case nbits_loop (a ! m) 31 of Some i \<Rightarrow> i | None \<Rightarrow> 0)"
    have lo: "2 ^ k \<le> unat (a ! m)" and hi: "unat (a ! m) < 2 ^ Suc k" and k31: "k \<le> 31"
      unfolding k_def by (fact top_bit_bounds [OF False])+
    have loop: "bits_loop a (Suc m) = 32 * m + k + 1"
      using False by (simp add: k_def del: nbits_loop.simps split: option.splits)
    have tk: "val (take m a) < 2 ^ (32 * m)"
      using val_bound [of "take m a"] Suc.prems by (simp add: min_def)
    have sp: "val (take (Suc m) a) = val (take m a) + 2 ^ (32 * m) * unat (a ! m)"
      using Suc.prems by (simp add: val_take_Suc)
    have "val (take (Suc m) a) < 2 ^ (32 * m) * (unat (a ! m) + 1)"
      using sp tk by simp
    also have "\<dots> \<le> 2 ^ (32 * m) * 2 ^ Suc k"
      using hi by (intro mult_le_mono2) simp
    finally have up: "val (take (Suc m) a) < 2 ^ (32 * m + k + 1)"
      by (simp add: power_add)
    have "2 ^ (32 * m) * 2 ^ k \<le> 2 ^ (32 * m) * unat (a ! m)"
      using lo by (intro mult_le_mono2)
    then have "2 ^ (32 * m + k) \<le> val (take (Suc m) a)"
      unfolding sp power_add by linarith
    with up loop k31 show ?thesis by simp
  qed
qed

lemma bits_upper: "val a < 2 ^ bits a"
  and bits_le: "bits a \<le> 32 * length a"
  and bits_lower: "0 < bits a \<Longrightarrow> 2 ^ (bits a - 1) \<le> val a"
  using bits_loop_bounds [of "length a" a] by (simp_all add: bits_def)

lemma bits_eq_0: "bits a = 0 \<longleftrightarrow> val a = 0"
  using bits_upper [of a] bits_lower [of a] by (cases "bits a") auto


section \<open>Shifts\<close>

definition or_at :: "nat \<Rightarrow> u32 \<Rightarrow> base_uint \<Rightarrow> base_uint" where
  "or_at i w pn = pn[i := pn ! i OR w]"

definition shl_step :: "base_uint \<Rightarrow> nat \<Rightarrow> nat \<Rightarrow> nat \<Rightarrow> base_uint \<Rightarrow> base_uint" where
  "shl_step a k s i pn =
     (let pn = (if i + k + 1 < length a \<and> s \<noteq> 0
                then or_at (i + k + 1) (drop_bit (32 - s) (a ! i)) pn else pn)
      in if i + k < length a then or_at (i + k) (push_bit s (a ! i)) pn else pn)"

definition shl :: "base_uint \<Rightarrow> nat \<Rightarrow> base_uint" where
  "shl a shift = fold (shl_step a (shift div 32) (shift mod 32)) [0..<length a] (replicate (length a) 0)"

definition shr_step :: "base_uint \<Rightarrow> nat \<Rightarrow> nat \<Rightarrow> nat \<Rightarrow> base_uint \<Rightarrow> base_uint" where
  "shr_step a k s i pn =
     (let pn = (if int i - int k - 1 \<ge> 0 \<and> s \<noteq> 0
                then or_at (i - k - 1) (push_bit (32 - s) (a ! i)) pn else pn)
      in if int i - int k \<ge> 0 then or_at (i - k) (drop_bit s (a ! i)) pn else pn)"

definition shr :: "base_uint \<Rightarrow> nat \<Rightarrow> base_uint" where
  "shr a shift = fold (shr_step a (shift div 32) (shift mod 32)) [0..<length a] (replicate (length a) 0)"

lemma length_or_at [simp]: "length (or_at i w pn) = length pn"
  by (simp add: or_at_def)

lemma nth_or_at:
  "j < length pn \<Longrightarrow> or_at i w pn ! j = (if i = j then pn ! j OR w else pn ! j)"
  by (simp add: or_at_def nth_list_update)

lemma shl_fold:
  assumes "m \<le> length a"
  shows "length (fold (shl_step a k s) [0..<m] (replicate (length a) 0)) = length a \<and>
    (\<forall>j < length a. fold (shl_step a k s) [0..<m] (replicate (length a) 0) ! j =
       (if k \<le> j \<and> j - k < m then push_bit s (a ! (j - k)) else 0) OR
       (if k < j \<and> j - k - 1 < m \<and> s \<noteq> 0 then drop_bit (32 - s) (a ! (j - k - 1)) else 0))"
  using assms
proof (induction m)
  case 0
  then show ?case by simp
next
  case (Suc m)
  define p where "p = fold (shl_step a k s) [0..<m] (replicate (length a) 0)"
  from Suc have len: "length p = length a"
    and nth: "\<And>j. j < length a \<Longrightarrow> p ! j =
       (if k \<le> j \<and> j - k < m then push_bit s (a ! (j - k)) else 0) OR
       (if k < j \<and> j - k - 1 < m \<and> s \<noteq> 0 then drop_bit (32 - s) (a ! (j - k - 1)) else 0)"
    by (auto simp: p_def)
  have "shl_step a k s m p ! j =
       (if k \<le> j \<and> j - k < Suc m then push_bit s (a ! (j - k)) else 0) OR
       (if k < j \<and> j - k - 1 < Suc m \<and> s \<noteq> 0 then drop_bit (32 - s) (a ! (j - k - 1)) else 0)"
    if "j < length a" for j
  proof -
    consider "j = m + k" | "j = m + k + 1" | "j \<noteq> m + k" "j \<noteq> m + k + 1" by blast
    then show ?thesis
      using that len
      by cases (auto simp: shl_step_def Let_def nth_or_at nth or.commute less_Suc_eq)
  qed
  moreover have "length (shl_step a k s m p) = length a"
    using len by (simp add: shl_step_def Let_def)
  ultimately show ?case by (simp add: p_def)
qed

lemma shr_fold:
  assumes "m \<le> length a"
  shows "length (fold (shr_step a k s) [0..<m] (replicate (length a) 0)) = length a \<and>
    (\<forall>j < length a. fold (shr_step a k s) [0..<m] (replicate (length a) 0) ! j =
       (if j + k < m then drop_bit s (a ! (j + k)) else 0) OR
       (if j + k + 1 < m \<and> s \<noteq> 0 then push_bit (32 - s) (a ! (j + k + 1)) else 0))"
  using assms
proof (induction m)
  case 0
  then show ?case by simp
next
  case (Suc m)
  define p where "p = fold (shr_step a k s) [0..<m] (replicate (length a) 0)"
  from Suc have len: "length p = length a"
    and nth: "\<And>j. j < length a \<Longrightarrow> p ! j =
       (if j + k < m then drop_bit s (a ! (j + k)) else 0) OR
       (if j + k + 1 < m \<and> s \<noteq> 0 then push_bit (32 - s) (a ! (j + k + 1)) else 0)"
    by (auto simp: p_def)
  have "shr_step a k s m p ! j =
       (if j + k < Suc m then drop_bit s (a ! (j + k)) else 0) OR
       (if j + k + 1 < Suc m \<and> s \<noteq> 0 then push_bit (32 - s) (a ! (j + k + 1)) else 0)"
    if "j < length a" for j
  proof -
    consider "m = j + k" | "m = j + k + 1" | "m \<noteq> j + k" "m \<noteq> j + k + 1" by blast
    then show ?thesis
      using that len
      by cases (auto simp: shr_step_def Let_def nth_or_at nth or.commute less_Suc_eq)
  qed
  moreover have "length (shr_step a k s m p) = length a"
    using len by (simp add: shr_step_def Let_def)
  ultimately show ?case by (simp add: p_def)
qed

lemma length_shl [simp]: "length (shl a n) = length a"
  and length_shr [simp]: "length (shr a n) = length a"
  using shl_fold [of "length a" a] shr_fold [of "length a" a] by (simp_all add: shl_def shr_def)

lemma bit_limb_sum:
  assumes "x < 2 ^ 32"
  shows "bit (x + 2 ^ 32 * y :: nat) n \<longleftrightarrow> (if n < 32 then bit x n else bit y (n - 32))"
proof (cases "n < 32")
  case True
  have "(2 :: nat) ^ 32 = 2 ^ n * 2 ^ (32 - n)"
    using True by (simp only: power_add [symmetric]) simp
  then have "(x + 2 ^ 32 * y) div 2 ^ n = x div 2 ^ n + 2 ^ (32 - n) * y"
    by (simp only: mult.assoc div_mult_self2) simp
  with True show ?thesis by (simp add: bit_iff_odd)
next
  case False
  have "(2 :: nat) ^ n = 2 ^ 32 * 2 ^ (n - 32)"
    using False by (simp only: power_add [symmetric]) simp
  then have "(x + 2 ^ 32 * y) div 2 ^ n = y div 2 ^ (n - 32)"
    using assms by (simp add: div_mult2_eq)
  with False show ?thesis by (simp add: bit_iff_odd)
qed

lemma bit_val: "bit (val a) n \<longleftrightarrow> n < 32 * length a \<and> bit (a ! (n div 32)) (n mod 32)"
proof (induction a arbitrary: n)
  case Nil
  then show ?case by simp
next
  case (Cons x xs)
  have "bit (val (x # xs)) n \<longleftrightarrow> (if n < 32 then bit x n else bit (val xs) (n - 32))"
    using bit_limb_sum [of "unat x" "val xs" n] unat_u32_lt [of x] by (simp add: bit_unat)
  also have "\<dots> \<longleftrightarrow> n < 32 * length (x # xs) \<and> bit ((x # xs) ! (n div 32)) (n mod 32)"
    by (auto simp: Cons.IH nth_Cons le_div_geq le_mod_geq split: nat.splits)
  finally show ?case .
qed


lemma limb_index: "n = 32 * q + r \<Longrightarrow> r < 32 \<Longrightarrow> n div 32 = q \<and> n mod 32 = r" for n :: nat
  by simp

lemma limb_index_eq: "n = s \<longleftrightarrow> n div 32 = s div 32 \<and> n mod 32 = s mod 32" for n :: nat
  by (metis div_mult_mod_eq)

lemma CompareTo_ge: "length a = length b \<Longrightarrow> CompareTo a b \<ge> 0 \<longleftrightarrow> val b \<le> val a"
  by (auto simp: CompareTo_val sgn_if)

lemma CompareTo_gt: "length a = length b \<Longrightarrow> CompareTo a b > 0 \<longleftrightarrow> val b < val a"
  by (auto simp: CompareTo_val sgn_if)

lemma bit_shl:
  "bit (val (shl a sh)) n \<longleftrightarrow> n < 32 * length a \<and> sh \<le> n \<and> bit (val a) (n - sh)"
proof (cases "n < 32 * length a")
  case True
  define q r k s where "q = n div 32" and "r = n mod 32" and "k = sh div 32" and "s = sh mod 32"
  have n: "n = 32 * q + r" "r < 32" and sh: "sh = 32 * k + s" "s < 32"
    by (simp_all add: q_def r_def k_def s_def)
  have q: "q < length a" using True n by simp
  have nth: "shl a sh ! q =
       (if k \<le> q then push_bit s (a ! (q - k)) else 0) OR
       (if k < q \<and> s \<noteq> 0 then drop_bit (32 - s) (a ! (q - k - 1)) else 0)"
    using shl_fold [of "length a" a k s] q by (simp add: shl_def less_imp_diff_less flip: k_def s_def)
  have "bit (val (shl a sh)) n \<longleftrightarrow> bit (shl a sh ! q) r"
    using True by (simp add: bit_val q_def r_def)
  also have "\<dots> \<longleftrightarrow> (k \<le> q \<and> s \<le> r \<and> bit (a ! (q - k)) (r - s)) \<or>
      (k < q \<and> s \<noteq> 0 \<and> bit (a ! (q - k - 1)) (32 - s + r))"
    unfolding nth using n(2) by (auto simp: bit_simps)
  also have "\<dots> \<longleftrightarrow> sh \<le> n \<and> bit (val a) (n - sh)"
  proof (cases "s \<le> r")
    case sr: True
    have hi: "\<not> bit w (32 - s + r)" for w :: u32
      using sr bit_imp_le_length [of w "32 - s + r"] by auto
    have "k \<le> q \<Longrightarrow> (n - sh) div 32 = q - k \<and> (n - sh) mod 32 = r - s"
    proof -
      assume "k \<le> q"
      then have "n - sh = 32 * (q - k) + (r - s)" using n sh sr by simp
      moreover have "r - s < 32" using n(2) by simp
      ultimately show ?thesis by simp
    qed
    moreover have "sh \<le> n \<longleftrightarrow> k \<le> q" using n sh sr by auto
    ultimately show ?thesis using hi True sr by (auto simp: bit_val)
  next
    case sr: False
    have "k < q \<Longrightarrow> (n - sh) div 32 = q - k - 1 \<and> (n - sh) mod 32 = 32 - s + r"
    proof -
      assume "k < q"
      then have "n - sh = 32 * (q - k - 1) + (32 - s + r)" using n sh sr by (simp add: diff_mult_distrib2)
      moreover have "32 - s + r < 32" using sr sh(2) by simp
      ultimately show ?thesis by simp
    qed
    moreover have "sh \<le> n \<longleftrightarrow> k < q" using n sh sr by auto
    ultimately show ?thesis using True sr by (auto simp: bit_val)
  qed
  finally show ?thesis using True by simp
next
  case False
  then show ?thesis by (simp add: bit_val)
qed

lemma val_shl: "val (shl a n) = (val a * 2 ^ n) mod 2 ^ (32 * length a)"
proof -
  have "val (shl a n) = take_bit (32 * length a) (push_bit n (val a))"
    by (rule bit_eqI) (auto simp: bit_shl bit_simps)
  then show ?thesis by (simp add: take_bit_eq_mod push_bit_eq_mult)
qed

lemma bit_shr: "bit (val (shr a sh)) n \<longleftrightarrow> bit (val a) (n + sh)"
proof (cases "n < 32 * length a")
  case True
  define q r k s where "q = n div 32" and "r = n mod 32" and "k = sh div 32" and "s = sh mod 32"
  have n: "n = 32 * q + r" "r < 32" and sh: "sh = 32 * k + s" "s < 32"
    by (simp_all add: q_def r_def k_def s_def)
  have q: "q < length a" using True n by simp
  have nth: "shr a sh ! q =
       (if q + k < length a then drop_bit s (a ! (q + k)) else 0) OR
       (if q + k + 1 < length a \<and> s \<noteq> 0 then push_bit (32 - s) (a ! (q + k + 1)) else 0)"
    using shr_fold [of "length a" a k s] q by (simp add: shr_def flip: k_def s_def)
  have "bit (val (shr a sh)) n \<longleftrightarrow> bit (shr a sh ! q) r"
    using True by (simp add: bit_val q_def r_def)
  also have "\<dots> \<longleftrightarrow> (q + k < length a \<and> bit (a ! (q + k)) (s + r)) \<or>
      (q + k + 1 < length a \<and> s \<noteq> 0 \<and> 32 - s \<le> r \<and> bit (a ! (q + k + 1)) (r - (32 - s)))"
    unfolding nth using n(2) by (auto simp: bit_simps)
  also have "\<dots> \<longleftrightarrow> bit (val a) (n + sh)"
  proof (cases "s + r < 32")
    case sr: True
    have "n + sh = 32 * (q + k) + (s + r)" using n sh by simp
    from limb_index [OF this sr] have "(n + sh) div 32 = q + k" "(n + sh) mod 32 = s + r"
      by auto
    moreover have "n + sh < 32 * length a \<longleftrightarrow> q + k < length a" using n sh sr by auto
    ultimately show ?thesis using sr n sh by (auto simp: bit_val)
  next
    case sr: False
    have "n + sh = 32 * (q + k + 1) + (s + r - 32)" using n sh sr by simp
    moreover have "s + r - 32 < 32" using n sh by simp
    ultimately have dm: "(n + sh) div 32 = q + k + 1" "(n + sh) mod 32 = s + r - 32"
      using limb_index [of "n + sh" "q + k + 1" "s + r - 32"] by auto
    have "n + sh < 32 * length a \<longleftrightarrow> q + k + 1 < length a" using n sh sr by auto
    moreover have "\<not> bit w (s + r)" for w :: u32
      using sr bit_imp_le_length [of w "s + r"] by auto
    moreover have "s \<noteq> 0" "32 - s \<le> r" "r - (32 - s) = s + r - 32" using n sh sr by auto
    ultimately show ?thesis using dm by (simp add: bit_val)
  qed
  finally show ?thesis .
next
  case False
  then show ?thesis by (simp add: bit_val)
qed

lemma val_shr: "val (shr a n) = val a div 2 ^ n"
proof -
  have "val (shr a n) = drop_bit n (val a)"
    by (rule bit_eqI) (auto simp: bit_shr bit_simps add.commute)
  then show ?thesis by (simp add: drop_bit_eq_div)
qed

section \<open>Division\<close>

datatype uint_error = DivisionByZero

fun div_loop :: "nat \<Rightarrow> base_uint \<Rightarrow> base_uint \<Rightarrow> base_uint \<Rightarrow> base_uint" where
  "div_loop 0 num dv q = q"
| "div_loop (Suc shift) num dv q =
     (let (num, q) = (if CompareTo num dv \<ge> 0
                      then (sub num dv, or_at (shift div 32) (push_bit (shift mod 32) 1) q)
                      else (num, q))
      in div_loop shift num (shr dv 1) q)"

definition div_uint :: "base_uint \<Rightarrow> base_uint \<Rightarrow> uint_error + base_uint" where
  "div_uint a b =
     (let num_bits = bits a; div_bits = bits b; q = replicate (length a) 0
      in if div_bits = 0 then Inl DivisionByZero
         else if div_bits > num_bits then Inr q
         else let shift = num_bits - div_bits
              in Inr (div_loop (Suc shift) a (shl b shift) q))"

lemma val_set_bit:
  assumes "s < 32 * length q" and "\<not> bit (val q) s"
  shows "val (or_at (s div 32) (push_bit (s mod 32) 1) q) = val q + 2 ^ s"
proof -
  have "val (or_at (s div 32) (push_bit (s mod 32) 1) q) = val q OR 2 ^ s"
  proof (rule bit_eqI)
    fix n
    show "bit (val (or_at (s div 32) (push_bit (s mod 32) 1) q)) n \<longleftrightarrow> bit (val q OR 2 ^ s) n"
      using assms(1) limb_index_eq [of n s]
      by (cases "n = s") (auto simp: bit_val nth_or_at bit_simps split: if_splits)
  qed
  moreover have "val q AND 2 ^ s = 0"
    using assms(2) by (simp add: and_exp_eq_0_iff_not_bit)
  ultimately show ?thesis by (simp add: disjunctive_add_eq_or)
qed


lemma div_loop_correct:
  assumes "0 < val b" and "length b = length q" and "length num = length q" "length dv = length q"
    and "k \<le> 32 * length q"
    and "k \<noteq> 0 \<Longrightarrow> val dv = val b * 2 ^ (k - 1)"
    and "val num < val b * 2 ^ k" and "2 ^ k dvd val q"
  shows "val (div_loop k num dv q) = val q + val num div val b"
    and "length (div_loop k num dv q) = length q"
proof -
  have "val (div_loop k num dv q) = val q + val num div val b \<and> length (div_loop k num dv q) = length q"
    using assms
  proof (induction k arbitrary: num dv q)
    case 0
    then show ?case by simp
  next
    case (Suc k)
    let ?dv' = "shr dv 1"
    have dv: "val dv = val b * 2 ^ k" using Suc.prems(6) by simp
    have dv': "k \<noteq> 0 \<Longrightarrow> val ?dv' = val b * 2 ^ (k - 1)"
      by (cases k) (simp_all add: val_shr dv)
    have k32: "k < 32 * length q" using Suc.prems(5) by simp
    have "even (val q div 2 ^ k)"
      using Suc.prems(8) by auto
    then have nb: "\<not> bit (val q) k" by (simp add: bit_iff_odd)
    have dvd: "2 ^ k dvd val q"
      using Suc.prems(8) by (metis dvd_mult_left power_Suc2)
    show ?case
    proof (cases "CompareTo num dv \<ge> 0")
      case True
      let ?num = "sub num dv" and ?q = "or_at (k div 32) (push_bit (k mod 32) 1) q"
      have ge: "val dv \<le> val num"
        using True Suc.prems(3,4) by (simp add: CompareTo_ge)
      have num': "val ?num = val num - val b * 2 ^ k"
        using ge Suc.prems(3,4) by (simp add: val_sub_le dv)
      have q': "val ?q = val q + 2 ^ k"
        using val_set_bit [OF k32 nb] .
      have "val (div_loop k ?num ?dv' ?q) = val ?q + val ?num div val b \<and>
          length (div_loop k ?num ?dv' ?q) = length ?q"
      proof (rule Suc.IH)
        show "val ?num < val b * 2 ^ k" using num' Suc.prems(7) by simp
        show "2 ^ k dvd val ?q" using q' dvd by simp
      qed (use Suc.prems dv' in simp_all)
      moreover have "val ?num div val b + 2 ^ k = val num div val b"
      proof -
        have "val num = val ?num + val b * 2 ^ k" using num' ge dv by simp
        then show ?thesis using Suc.prems(1) by simp
      qed
      ultimately show ?thesis using True q' by simp
    next
      case False
      then have lt: "val num < val b * 2 ^ k"
        using Suc.prems(3,4) dv by (simp add: CompareTo_ge)
      have "val (div_loop k num ?dv' q) = val q + val num div val b \<and>
          length (div_loop k num ?dv' q) = length q"
        by (rule Suc.IH) (use Suc.prems dv' lt dvd in simp_all)
      with False show ?thesis by simp
    qed
  qed
  then show "val (div_loop k num dv q) = val q + val num div val b"
    and "length (div_loop k num dv q) = length q" by auto
qed

lemma div_uint_correct:
  assumes "length a = length b"
  shows "div_uint a b = (if val b = 0 then Inl DivisionByZero else Inr (projr (div_uint a b)))"
    and "val b \<noteq> 0 \<Longrightarrow> val (projr (div_uint a b)) = val a div val b"
    and "val b \<noteq> 0 \<Longrightarrow> length (projr (div_uint a b)) = length a"
proof -
  show "div_uint a b = (if val b = 0 then Inl DivisionByZero else Inr (projr (div_uint a b)))"
    by (simp add: div_uint_def Let_def bits_eq_0)
  have main: "val (projr (div_uint a b)) = val a div val b \<and> length (projr (div_uint a b)) = length a"
    if nz: "val b \<noteq> 0"
  proof (cases "bits b > bits a")
    case True
    have "val a < 2 ^ bits a" by (rule bits_upper)
    also have "\<dots> \<le> 2 ^ (bits b - 1)" using True by (intro power_increasing) simp_all
    also have "\<dots> \<le> val b" using True by (intro bits_lower) simp
    finally have "val a div val b = 0" by simp
    with True show ?thesis by (simp add: div_uint_def bits_eq_0 nz)
  next
    case False
    let ?s = "bits a - bits b"
    have bb: "0 < bits b" using nz by (simp add: bits_eq_0 [symmetric])
    have "val b * 2 ^ ?s < 2 ^ bits b * 2 ^ ?s" using bits_upper [of b] by simp
    also have "\<dots> = 2 ^ bits a" using False by (simp flip: power_add)
    also have "\<dots> \<le> 2 ^ (32 * length b)" using bits_le [of a] assms by (intro power_increasing) simp_all
    finally have sh: "val (shl b ?s) = val b * 2 ^ ?s" by (simp add: val_shl)
    have "val a < 2 ^ bits a" by (rule bits_upper)
    also have "\<dots> = 2 ^ (bits b - 1) * 2 ^ Suc ?s" using False bb by (simp flip: power_add power_Suc)
    also have "\<dots> \<le> val b * 2 ^ Suc ?s" using bits_lower [OF bb] by (intro mult_le_mono1)
    finally have num: "val a < val b * 2 ^ Suc ?s" .
    have "Suc ?s \<le> 32 * length a" using bits_le [of a] bb False by simp
    then have "val (div_loop (Suc ?s) a (shl b ?s) (replicate (length a) 0)) = 0 + val a div val b"
      and "length (div_loop (Suc ?s) a (shl b ?s) (replicate (length a) 0)) = length a"
      using div_loop_correct [of b "replicate (length a) 0" a "shl b ?s" "Suc ?s"] assms nz sh num
      by simp_all
    with False bb show ?thesis by (simp add: div_uint_def Let_def del: div_loop.simps)
  qed
  then show "val b \<noteq> 0 \<Longrightarrow> val (projr (div_uint a b)) = val a div val b"
    and "val b \<noteq> 0 \<Longrightarrow> length (projr (div_uint a b)) = length a" by auto
qed


section \<open>Bitwise operators and equality with a word\<close>

definition bxor :: "base_uint \<Rightarrow> base_uint \<Rightarrow> base_uint" where
  "bxor a b = map2 (XOR) a b"

definition band :: "base_uint \<Rightarrow> base_uint \<Rightarrow> base_uint" where
  "band a b = map2 (AND) a b"

definition bor :: "base_uint \<Rightarrow> base_uint \<Rightarrow> base_uint" where
  "bor a b = map2 (OR) a b"

lemma bit_val_bitwise:
  assumes "length a = length b"
  shows "val (bxor a b) = val a XOR val b"
    and "val (band a b) = val a AND val b"
    and "val (bor a b) = val a OR val b"
  using assms
  by (auto intro!: bit_eqI simp: bit_val bit_simps bxor_def band_def bor_def less_mult_imp_div_less mult.commute)

lemma val_eq_0: "val a = 0 \<longleftrightarrow> (\<forall>p \<in> set a. p = 0)"
  by (induction a) (auto simp: unat_eq_0)

lemma EqualTo_val:
  assumes "2 \<le> length a"
  shows "EqualTo a b \<longleftrightarrow> val a = unat b"
proof -
  obtain x y zs where a: "a = x # y # zs"
    using assms by (metis One_nat_def Suc_1 Suc_le_length_iff)
  have lo: "(ucast x :: u64) = b AND 0xffffffff \<longleftrightarrow> unat x = unat b mod 2 ^ 32"
  proof -
    have "b AND 0xffffffff = take_bit 32 b" by (simp add: take_bit_eq_mask mask_eq_exp_minus_1)
    then show ?thesis by (simp add: word_unat_eq_iff take_bit_eq_mod unat_mod_distrib)
  qed
  have hi: "(ucast y :: u64) = drop_bit 32 b \<longleftrightarrow> unat y = unat b div 2 ^ 32"
    by (simp only: word_unat_eq_iff unat_drop_bit unat_ucast_u32_u64)
  have "EqualTo a b \<longleftrightarrow> val zs = 0 \<and> unat y = unat b div 2 ^ 32 \<and> unat x = unat b mod 2 ^ 32"
    by (auto simp: EqualTo_def a lo hi val_eq_0 list_ex_iff numeral_2_eq_2)
  also have "\<dots> \<longleftrightarrow> val a = unat b"
  proof
    assume "val zs = 0 \<and> unat y = unat b div 2 ^ 32 \<and> unat x = unat b mod 2 ^ 32"
    then show "val a = unat b" by (simp add: a)
  next
    assume eq: "val a = unat b"
    then have z: "val zs = 0"
      using unat_u64_lt [of b] by (cases "val zs") (simp_all add: a)
    with eq have b: "unat b = unat x + 2 ^ 32 * unat y" by (simp add: a)
    have "unat x < 2 ^ 32" using unat_u32_lt [of x] by simp
    then have "unat b mod 2 ^ 32 = unat x" "unat b div 2 ^ 32 = unat y"
      unfolding b by (simp_all only: mod_mult_self2 mod_less div_mult_self2 div_less)
    with z show "val zs = 0 \<and> unat y = unat b div 2 ^ 32 \<and> unat x = unat b mod 2 ^ 32"
      by simp
  qed
  finally show ?thesis .
qed

section \<open>The low 64 bits\<close>

definition GetLow64 :: "base_uint \<Rightarrow> u64" where
  "GetLow64 a = ucast (a ! 0) OR push_bit 32 (ucast (a ! 1))"

lemma length_of_u64 [simp]: "length (of_u64 b) = 8"
  by (simp add: of_u64_def WIDTH_def)

lemma val_of_u64 [simp]: "val (of_u64 b) = unat b"
proof -
  have "val (of_u64 b) = unat b mod 2 ^ 32 + 2 ^ 32 * (unat b div 2 ^ 32 mod 2 ^ 32)"
    by (simp add: of_u64_def unat_ucast_u64_u32 high_part)
  also have "\<dots> = unat b mod 2 ^ 64"
    by (simp add: mod_mult2_eq [of _ "2 ^ 32" "2 ^ 32", simplified])
  finally show ?thesis using unat_u64_lt [of b] by simp
qed

lemma unat_GetLow64:
  assumes "2 \<le> length a"
  shows "unat (GetLow64 a) = val a mod 2 ^ 64"
proof -
  obtain x y zs where a: "a = x # y # zs"
    using assms by (metis One_nat_def Suc_1 Suc_le_length_iff)
  have "(ucast x :: u64) AND push_bit 32 (ucast y) = 0"
    by (rule bit_eqI) (auto simp: bit_simps dest: bit_imp_le_length)
  then have "GetLow64 a = ucast x + push_bit 32 (ucast y)"
    by (simp add: GetLow64_def a disjunctive_add_eq_or)
  moreover have "unat (ucast x + push_bit 32 (ucast y) :: u64) = unat x + 2 ^ 32 * unat y"
    using unat_u32_lt [of x] unat_u32_lt [of y]
    by (simp add: unat_word_ariths push_bit_eq_mult mult.commute)
  moreover have "val a mod 2 ^ 64 = unat x + 2 ^ 32 * unat y"
  proof -
    have "val a = (unat x + 2 ^ 32 * unat y) + 2 ^ 64 * val zs"
      by (simp add: a)
    moreover have "unat x + 2 ^ 32 * unat y < 2 ^ 64"
      using unat_u32_lt [of x] unat_u32_lt [of y] by simp
    ultimately show ?thesis by (simp only: mod_mult_self2 mod_less)
  qed
  ultimately show ?thesis by simp
qed


section \<open>The interface the difficulty code relies on\<close>

text \<open>
  A number type with a representation predicate, in which the arithmetic is exact modulo
  \<open>M\<close>, division truncates and fails only on zero, and comparison is that of the numbers.
\<close>

locale modular_uint =
  fixes good :: "'u \<Rightarrow> bool"
    and num :: "'u \<Rightarrow> nat"
    and M :: nat
    and plus :: "'u \<Rightarrow> 'u \<Rightarrow> 'u"
    and minus :: "'u \<Rightarrow> 'u \<Rightarrow> 'u"
    and times :: "'u \<Rightarrow> 'u \<Rightarrow> 'u"
    and scale :: "'u \<Rightarrow> u32 \<Rightarrow> 'u"
    and quot :: "'u \<Rightarrow> 'u \<Rightarrow> uint_error + 'u"
    and cmp :: "'u \<Rightarrow> 'u \<Rightarrow> int"
  assumes num_bound: "good a \<Longrightarrow> num a < M"
    and plus_law: "good a \<Longrightarrow> good b \<Longrightarrow> good (plus a b) \<and> num (plus a b) = (num a + num b) mod M"
    and minus_law: "good a \<Longrightarrow> good b \<Longrightarrow>
          good (minus a b) \<and> num (minus a b) = (num a + (M - num b)) mod M"
    and times_law: "good a \<Longrightarrow> good b \<Longrightarrow> good (times a b) \<and> num (times a b) = (num a * num b) mod M"
    and scale_law: "good a \<Longrightarrow> good (scale a w) \<and> num (scale a w) = (num a * unat w) mod M"
    and quot_zero: "good a \<Longrightarrow> good b \<Longrightarrow> num b = 0 \<Longrightarrow> quot a b = Inl DivisionByZero"
    and quot_law: "good a \<Longrightarrow> good b \<Longrightarrow> num b \<noteq> 0 \<Longrightarrow>
          \<exists>q. quot a b = Inr q \<and> good q \<and> num q = num a div num b"
    and cmp_law: "good a \<Longrightarrow> good b \<Longrightarrow> cmp a b = sgn (int (num a) - int (num b))"
begin

text \<open>Scaling by a ratio and capping, the last step of every retargeting rule.\<close>

lemma scaled_quotient_capped:
  assumes "good x" and "good d" and "good limit" and "num d \<noteq> 0"
  obtains q where "quot (scale x w) d = Inr q"
    and "good (if cmp q limit > 0 then limit else q)"
    and "num (if cmp q limit > 0 then limit else q)
           = min ((num x * unat w) mod M div num d) (num limit)"
proof -
  have s: "good (scale x w)" "num (scale x w) = (num x * unat w) mod M"
    using scale_law [OF assms(1)] by auto
  obtain q where q: "quot (scale x w) d = Inr q" "good q" "num q = num (scale x w) div num d"
    using quot_law [OF s(1) assms(2,4)] by blast
  have "cmp q limit > 0 \<longleftrightarrow> num limit < num q"
    by (auto simp: cmp_law [OF q(2) assms(3)] sgn_if)
  with q s assms(3) show thesis by (intro that [of q]) (auto simp: min_def)
qed

text \<open>A running average \<open>(p * k + x) / (k + 1)\<close> that does not wrap stays between its arguments.\<close>

lemma average_between:
  assumes "good p" and "good x" and "good k1"
    and "num k1 = Suc (unat k)" and "num p * unat k + num x < M"
  obtains q where "quot (plus (scale p k) x) k1 = Inr q" and "good q"
    and "num q = (num p * unat k + num x) div Suc (unat k)"
    and "min (num p) (num x) \<le> num q" and "num q \<le> max (num p) (num x)"
proof -
  have s: "good (scale p k)" "num (scale p k) = num p * unat k"
    using scale_law [OF assms(1), of k] assms(5) by auto
  have a: "good (plus (scale p k) x)" "num (plus (scale p k) x) = num p * unat k + num x"
    using plus_law [OF s(1) assms(2)] s(2) assms(5) by auto
  obtain q where q: "quot (plus (scale p k) x) k1 = Inr q" "good q"
      "num q = (num p * unat k + num x) div Suc (unat k)"
    using quot_law [OF a(1) assms(3)] a(2) assms(4) by auto
  have "min (num p) (num x) * Suc (unat k) \<le> num p * unat k + num x"
    by (auto simp: min_def intro: add_mono mult_le_mono1)
  then have "min (num p) (num x) \<le> num q"
    unfolding q(3) by (simp add: less_eq_div_iff_mult_less_eq)
  moreover have "num p * unat k + num x \<le> max (num p) (num x) * Suc (unat k)"
    by (auto simp: max_def intro: add_mono mult_le_mono1)
  then have "num q \<le> max (num p) (num x)"
    unfolding q(3) by (metis div_le_mono div_mult_self1_is_m mult.commute zero_less_Suc)
  ultimately show thesis using q by (intro that)
qed

end

interpretation u256: modular_uint "\<lambda>a. length a = 8" val "2 ^ 256" add sub mul mul32 div_uint CompareTo
proof unfold_locales
  fix a b :: base_uint
  assume len: "length a = 8" "length b = 8"
  then have e: "length a = length b" by simp
  show "length (add a b) = 8 \<and> val (add a b) = (val a + val b) mod 2 ^ 256"
    using val_add [OF e] len by simp
  show "length (sub a b) = 8 \<and> val (sub a b) = (val a + (2 ^ 256 - val b)) mod 2 ^ 256"
    using val_sub [OF e] len by simp
  show "length (mul a b) = 8 \<and> val (mul a b) = (val a * val b) mod 2 ^ 256"
    using val_mul [of b a] len by simp
  show "CompareTo a b = sgn (int (val a) - int (val b))"
    by (rule CompareTo_val [OF e])
  show "val b = 0 \<Longrightarrow> div_uint a b = Inl DivisionByZero"
    using div_uint_correct(1) [OF e] by simp
  show "val b \<noteq> 0 \<Longrightarrow> \<exists>q. div_uint a b = Inr q \<and> length q = 8 \<and> val q = val a div val b"
    using div_uint_correct [OF e] len by metis
next
  fix a :: base_uint and w :: u32
  assume "length a = 8"
  then show "val a < 2 ^ 256" "length (mul32 a w) = 8 \<and> val (mul32 a w) = (val a * unat w) mod 2 ^ 256"
    using val_bound [of a] by (simp_all add: val_mul32)
qed


section \<open>Properties\<close>

text \<open>
  On eight-limb values the carry loops of \<open>+=\<close>, \<open>-=\<close>, \<open>*=\<close> (by a
  256-bit value and by a 32-bit word) and \<open>++\<close> compute the sum, difference and product of the
  numbers modulo \<open>2 ^ 256\<close>, and \<open>CompareTo\<close> is the sign of their difference.
\<close>

theorem uint256_ring_ops:
  assumes "valid256 a" and "valid256 b"
  shows "val (add a b) = (val a + val b) mod 2 ^ 256 \<and>
    val (sub a b) = (val a + (2 ^ 256 - val b)) mod 2 ^ 256 \<and>
    val (mul a b) = (val a * val b) mod 2 ^ 256 \<and>
    val (mul32 a w) = (val a * unat w) mod 2 ^ 256 \<and>
    val (incr a) = (val a + 1) mod 2 ^ 256 \<and>
    CompareTo a b = sgn (int (val a) - int (val b))"
proof -
  have a: "length a = 8" and b: "length b = 8" using assms by (simp_all add: valid256_def WIDTH_def)
  have "val (incr a) = (val a + 1) mod 2 ^ 256" using val_incr [of a] a by simp
  then show ?thesis
    using u256.plus_law [OF a b] u256.minus_law [OF a b] u256.times_law [OF a b]
      u256.scale_law [OF a] u256.cmp_law [OF a b] by blast
qed

theorem uint256_ring_ops_witness:
  "val (add [0xffffffff, 0, 0, 0, 0, 0, 0, 0] [1, 0, 0, 0, 0, 0, 0, 0]) = 2 ^ 32 \<and>
   val (sub [0, 1, 0, 0, 0, 0, 0, 0] [1, 0, 0, 0, 0, 0, 0, 0]) = 2 ^ 32 - 1"
proof -
  let ?a = "[0xffffffff, 0, 0, 0, 0, 0, 0, 0] :: base_uint" and ?b = "[1, 0, 0, 0, 0, 0, 0, 0] :: base_uint"
    and ?c = "[0, 1, 0, 0, 0, 0, 0, 0] :: base_uint"
  have ok: "valid256 ?a" "valid256 ?b" "valid256 ?c" by (simp_all add: valid256_def WIDTH_def)
  have "val (add ?a ?b) = (val ?a + val ?b) mod 2 ^ 256" using uint256_ring_ops [OF ok(1,2)] by blast
  moreover have "val (sub ?c ?b) = (val ?c + (2 ^ 256 - val ?b)) mod 2 ^ 256"
    using uint256_ring_ops [OF ok(3,2)] by blast
  ultimately show ?thesis by simp
qed

text \<open>
  C31. \<open>operator/=\<close> throws exactly when the divisor is zero, and otherwise its
  shift-and-subtract loop ends with the truncated quotient.
\<close>

theorem uint256_division:
  assumes "valid256 a" and "valid256 b"
  shows "if val b = 0 then div_uint a b = Inl DivisionByZero
         else \<exists>q. div_uint a b = Inr q \<and> valid256 q \<and> val q = val a div val b"
  using assms u256.quot_law [of a b] u256.quot_zero [of a b]
  by (simp add: valid256_def WIDTH_def)

theorem uint256_division_witness:
  "\<exists>q. div_uint [0, 0, 5, 0, 0, 0, 0, 0] [0, 2, 0, 0, 0, 0, 0, 0] = Inr q \<and> val q = 5 * 2 ^ 32 div 2"
proof -
  let ?a = "[0, 0, 5, 0, 0, 0, 0, 0] :: base_uint" and ?b = "[0, 2, 0, 0, 0, 0, 0, 0] :: base_uint"
  have ok: "valid256 ?a" "valid256 ?b" by (simp_all add: valid256_def WIDTH_def)
  have v: "val ?b \<noteq> 0" "val ?a div val ?b = 5 * 2 ^ 32 div 2" by simp_all
  show ?thesis using uint256_division [OF ok] v by metis
qed

text \<open>
  The limb-scattering shifts multiply by, and divide by, a power of
  two, also for shifts of 256 bits and more, and \<open>bits()\<close> is the position of the highest set
  bit plus one.
\<close>

theorem uint256_shifts_and_length:
  assumes "valid256 a"
  shows "val (shl a n) = (val a * 2 ^ n) mod 2 ^ 256 \<and>
    val (shr a n) = val a div 2 ^ n \<and>
    (if val a = 0 then bits a = 0 else 2 ^ (bits a - 1) \<le> val a \<and> val a < 2 ^ bits a)"
proof -
  have "32 * length a = 256" using assms by (simp add: valid256_def WIDTH_def)
  then have "val (shl a n) = (val a * 2 ^ n) mod 2 ^ 256" by (simp only: val_shl)
  then show ?thesis
    using val_shr [of a n] bits_eq_0 [of a] bits_lower [of a] bits_upper [of a]
    by (cases "val a = 0") simp_all
qed

theorem uint256_shifts_and_length_witness:
  "val (shl [0x80000000, 0, 0, 0, 0, 0, 0, 1] 1) = 2 ^ 32 + 2 ^ 225"
proof -
  let ?a = "[0x80000000, 0, 0, 0, 0, 0, 0, 1] :: base_uint"
  have ok: "valid256 ?a" by (simp add: valid256_def WIDTH_def)
  have "val (shl ?a 1) = (val ?a * 2 ^ 1) mod 2 ^ 256" using uint256_shifts_and_length [OF ok] by blast
  then show ?thesis by simp
qed

end
