(* ===== verification/Uint256_Compact.thy ===== *)
theory Uint256_Compact
  imports Arith_Uint256
begin

text \<open>
  The compact format of \<open>arith_uint256\<close> (\<open>SetCompact\<close>, \<open>GetCompact\<close> in
  \<open>src/src/arith_uint256.cpp\<close>), in which a block header carries its difficulty target
  (\<open>nBits\<close>): eight bits of size, a sign bit and twenty-three bits of mantissa. The two
  \<open>assert\<close>s of \<open>GetCompact\<close> are the \<open>None\<close> branches. Also the conversions between
  \<open>arith_uint256\<close> and the opaque byte blob \<open>uint256\<close>.

  Encoding never asserts on a 256-bit value; decoding the code gives back the value rounded
  down to its leading mantissa, without sign and without overflow; and the code of the
  decoded value is the same code, so that a target that went through \<open>nBits\<close> once is stable.
\<close>

section \<open>The compact format\<close>

definition SetCompact :: "u32 \<Rightarrow> base_uint \<times> bool \<times> bool" where
  "SetCompact nCompact =
     (let nSize = unat (drop_bit 24 nCompact);
          nWord = nCompact AND 0x007fffff;
          (nWord, r) = (if nSize \<le> 3
                        then (let nWord = drop_bit (8 * (3 - nSize)) nWord
                              in (nWord, of_u64 (ucast nWord)))
                        else (nWord, shl (of_u64 (ucast nWord)) (8 * (nSize - 3))));
          fNegative = (nWord \<noteq> 0 \<and> nCompact AND 0x00800000 \<noteq> 0);
          fOverflow = (nWord \<noteq> 0 \<and> (nSize > 34 \<or> (nWord > 0xff \<and> nSize > 33) \<or>
                                      (nWord > 0xffff \<and> nSize > 32)))
      in (r, fNegative, fOverflow))"

definition GetCompact :: "base_uint \<Rightarrow> bool \<Rightarrow> u32 option" where
  "GetCompact a fNegative =
     (let nSize = (bits a + 7) div 8;
          nCompact = (if nSize \<le> 3
                      then ucast (push_bit (8 * (3 - nSize)) (GetLow64 a))
                      else ucast (GetLow64 (shr a (8 * (nSize - 3)))));
          (nCompact, nSize) = (if nCompact AND 0x00800000 \<noteq> 0
                               then (drop_bit 8 nCompact, nSize + 1) else (nCompact, nSize))
      in if nCompact AND NOT 0x007fffff \<noteq> 0 then None
         else if \<not> nSize < 256 then None
         else let nCompact = nCompact OR push_bit 24 (of_nat nSize);
                  nCompact = nCompact OR
                    (if fNegative \<and> nCompact AND 0x007fffff \<noteq> 0 then 0x00800000 else 0)
              in Some nCompact)"

text \<open>Packing a 23-bit mantissa and an 8-bit size.\<close>

lemma and_low_mask: "(c :: u32) AND 0x007fffff = take_bit 23 c"
  by (simp add: take_bit_eq_mask mask_eq_exp_minus_1)

lemma and_sign: "(c :: u32) AND 0x00800000 \<noteq> 0 \<longleftrightarrow> bit c 23"
  using test_bit_mask [of c 23] by simp

lemma and_high_mask: "(c :: u32) AND NOT 0x007fffff = 0 \<longleftrightarrow> unat c < 2 ^ 23"
proof -
  have "c AND NOT 0x007fffff = c AND NOT (mask 23)"
    by (simp add: mask_eq_exp_minus_1)
  then have "c AND NOT 0x007fffff = 0 \<longleftrightarrow> take_bit 23 c = c"
    by (auto simp: bit_eq_iff bit_simps)
  also have "\<dots> \<longleftrightarrow> unat c < 2 ^ 23"
    using mod_less_divisor [of "2 ^ 23" "unat c"]
    by (auto simp: word_unat_eq_iff take_bit_eq_mod unat_mod_distrib)
  finally show ?thesis .
qed


lemma pack_compact:
  assumes "unat m < 2 ^ 23" and "n < 256"
  defines "c \<equiv> (m :: u32) OR push_bit 24 (of_nat n)"
  shows "unat (drop_bit 24 c) = n" and "c AND 0x007fffff = m" and "\<not> bit c 23"
proof -
  have nob: "\<not> bit m k" if "23 \<le> k" for k
    using bit_imp_ge [of "unat m" k] assms(1) that power_increasing [of 23 k "2 :: nat"]
    by (auto simp: bit_unat)
  have "m AND push_bit 24 (of_nat n) = 0"
    by (rule bit_eqI) (auto simp: bit_simps nob)
  then have "c = m + push_bit 24 (of_nat n)"
    by (simp add: c_def disjunctive_add_eq_or)
  then have c: "unat c = unat m + 2 ^ 24 * n"
    using assms(1,2) by (simp add: unat_word_ariths push_bit_eq_mult mult.commute unat_of_nat)
  show "unat (drop_bit 24 c) = n"
    using assms(1) by (simp add: drop_bit_eq_div unat_div_distrib c)
  show "c AND 0x007fffff = m"
    by (auto simp: and_low_mask c_def nob bit_eq_iff bit_simps)
  show "\<not> bit c 23"
    by (auto simp: c_def bit_simps nob)
qed

lemma pow2_mult: "i + j = k \<Longrightarrow> (2 :: nat) ^ i * 2 ^ j = 2 ^ k"
  by (simp flip: power_add)

lemma mantissa_unat:
  assumes "length a = 8"
  defines "n \<equiv> (bits a + 7) div 8"
  defines "w \<equiv> (if n \<le> 3 then ucast (push_bit (8 * (3 - n)) (GetLow64 a))
                 else ucast (GetLow64 (shr a (8 * (n - 3))))) :: u32"
  shows "unat w = (if n \<le> 3 then val a * 2 ^ (8 * (3 - n)) else val a div 2 ^ (8 * (n - 3)))"
    and "unat w < 2 ^ 24" and "val a \<noteq> 0 \<Longrightarrow> 2 ^ 16 \<le> unat w" and "n \<le> 32"
proof -
  have bn: "bits a \<le> 8 * n" "8 * n \<le> bits a + 7" by (simp_all add: n_def)
  show "n \<le> 32" using bits_le [of a] assms(1) by (simp add: n_def)
  have up: "val a < 2 ^ (8 * n)"
    by (rule less_le_trans [OF bits_upper power_increasing]) (use bn in simp_all)
  have lo: "val a \<noteq> 0 \<Longrightarrow> 0 < n \<and> 2 ^ (8 * (n - 1)) \<le> val a"
  proof -
    assume "val a \<noteq> 0"
    then have b: "0 < bits a" by (simp add: bits_eq_0 [symmetric])
    have "8 * (n - 1) \<le> bits a - 1" using bn(2) b by simp
    then have "(2 :: nat) ^ (8 * (n - 1)) \<le> 2 ^ (bits a - 1)" by (intro power_increasing) simp_all
    with bits_lower [OF b] b bn(1) show ?thesis by (metis gr0I le_trans mult_0_right not_le)
  qed
  have small: "unat w = (if n \<le> 3 then val a * 2 ^ (8 * (3 - n)) else val a div 2 ^ (8 * (n - 3)))
    \<and> unat w < 2 ^ 24 \<and> (val a \<noteq> 0 \<longrightarrow> 2 ^ 16 \<le> unat w)"
  proof (cases "n \<le> 3")
    case True
    have "val a * 2 ^ (8 * (3 - n)) < 2 ^ (8 * n) * 2 ^ (8 * (3 - n))" using up by simp
    also have "\<dots> = 2 ^ 24" using True by (intro pow2_mult) simp
    finally have lt: "val a * 2 ^ (8 * (3 - n)) < 2 ^ 24" .
    have "val a < 2 ^ 24" using up True power_increasing [of "8 * n" 24 "2 :: nat"] by simp
    then have "unat (GetLow64 a) = val a" using unat_GetLow64 [of a] assms(1) by simp
    then have "unat w = val a * 2 ^ (8 * (3 - n))"
      using True lt by (simp add: w_def unat_ucast_u64_u32 unat_push_bit)
    moreover have "2 ^ 16 \<le> val a * 2 ^ (8 * (3 - n))" if "val a \<noteq> 0"
    proof -
      have "(2 :: nat) ^ 16 = 2 ^ (8 * (n - 1)) * 2 ^ (8 * (3 - n))"
        using True lo [OF that] by (intro pow2_mult [symmetric]) auto
      also have "\<dots> \<le> val a * 2 ^ (8 * (3 - n))" using lo [OF that] by simp
      finally show ?thesis .
    qed
    ultimately show ?thesis using True lt by simp
  next
    case False
    have "(2 :: nat) ^ (8 * n) = 2 ^ 24 * 2 ^ (8 * (n - 3))"
      using False by (intro pow2_mult [symmetric]) simp
    with up have lt: "val a div 2 ^ (8 * (n - 3)) < 2 ^ 24" by (simp add: less_mult_imp_div_less)
    have "unat (GetLow64 (shr a (8 * (n - 3)))) = val a div 2 ^ (8 * (n - 3))"
      using unat_GetLow64 [of "shr a (8 * (n - 3))"] assms(1) lt by (simp add: val_shr)
    then have "unat w = val a div 2 ^ (8 * (n - 3))"
      using False lt by (simp add: w_def unat_ucast_u64_u32)
    moreover have "2 ^ 16 \<le> val a div 2 ^ (8 * (n - 3))" if "val a \<noteq> 0"
    proof -
      have "2 ^ 16 * 2 ^ (8 * (n - 3)) = (2 :: nat) ^ (8 * (n - 1))"
        using False by (intro pow2_mult) simp
      also have "\<dots> \<le> val a" using lo [OF that] by simp
      finally show ?thesis by (simp add: less_eq_div_iff_mult_less_eq)
    qed
    ultimately show ?thesis using False lt by simp
  qed
  then show "unat w = (if n \<le> 3 then val a * 2 ^ (8 * (3 - n)) else val a div 2 ^ (8 * (n - 3)))"
    and "unat w < 2 ^ 24" and "val a \<noteq> 0 \<Longrightarrow> 2 ^ 16 \<le> unat w" by auto
qed


text \<open>The mantissa and size of the encoding, after the sign-bit adjustment, as numbers.\<close>

definition compact_parts :: "nat \<Rightarrow> nat \<Rightarrow> nat \<times> nat" where
  "compact_parts v b =
     (let n = (b + 7) div 8;
          w = (if n \<le> 3 then v * 2 ^ (8 * (3 - n)) else v div 2 ^ (8 * (n - 3)))
      in if 2 ^ 23 \<le> w then (w div 2 ^ 8, n + 1) else (w, n))"

lemma GetCompact_parts:
  assumes "length a = 8" and "compact_parts (val a) (bits a) = (w, n)"
  shows "GetCompact a False = Some (of_nat w OR push_bit 24 (of_nat n))"
    and "w < 2 ^ 23" and "n \<le> 33" and "n = 33 \<Longrightarrow> w < 2 ^ 16" and "val a \<noteq> 0 \<Longrightarrow> 2 ^ 15 \<le> w"
    and "w = (if n \<le> 3 then val a * 2 ^ (8 * (3 - n)) else val a div 2 ^ (8 * (n - 3)))"
proof -
  define n0 where "n0 = (bits a + 7) div 8"
  define w0 :: u32 where "w0 = (if n0 \<le> 3 then ucast (push_bit (8 * (3 - n0)) (GetLow64 a))
                 else ucast (GetLow64 (shr a (8 * (n0 - 3)))))"
  note m = mantissa_unat [OF assms(1), folded n0_def, folded w0_def]
  have sign: "bit w0 23 \<longleftrightarrow> 2 ^ 23 \<le> unat w0"
  proof -
    have "unat w0 div 2 ^ 23 < 2" using m(2) by simp
    then have "odd (unat w0 div 2 ^ 23) \<longleftrightarrow> unat w0 div 2 ^ 23 \<noteq> 0"
      by (metis One_nat_def even_zero less_2_cases odd_one)
    then show ?thesis by (simp add: bit_unat [symmetric] bit_iff_odd div_eq_0_iff not_less)
  qed
  have parts: "(w, n) = (if bit w0 23 then (unat w0 div 2 ^ 8, n0 + 1) else (unat w0, n0))"
    using assms(2) by (simp only: compact_parts_def Let_def n0_def [symmetric] m(1) [symmetric] sign)
  show w: "w < 2 ^ 23" and n: "n \<le> 33" and "n = 33 \<Longrightarrow> w < 2 ^ 16"
    using parts m(2,4) sign by (auto split: if_splits)
  show "val a \<noteq> 0 \<Longrightarrow> 2 ^ 15 \<le> w"
    using parts m(3) sign by (auto split: if_splits)
  show "w = (if n \<le> 3 then val a * 2 ^ (8 * (3 - n)) else val a div 2 ^ (8 * (n - 3)))"
  proof (cases "bit w0 23")
    case False
    then show ?thesis using parts m(1) by simp
  next
    case True
    consider "n0 < 3" | "n0 = 3" | "3 < n0" by linarith
    then show ?thesis
    proof cases
      case 1
      then have "(2 :: nat) ^ (8 * (3 - n0)) = 2 ^ (8 * (3 - Suc n0)) * 2 ^ 8"
        by (intro pow2_mult [symmetric]) simp
      then have "val a * 2 ^ (8 * (3 - n0)) div 2 ^ 8 = val a * 2 ^ (8 * (3 - Suc n0))"
        by (simp only: mult.assoc [symmetric]) simp
      with 1 True parts m(1) show ?thesis by simp
    next
      case 2
      with True parts m(1) show ?thesis by simp
    next
      case 3
      then have "(2 :: nat) ^ (8 * (n - 3)) = 2 ^ (8 * (n0 - 3)) * 2 ^ 8"
        using True parts by (intro pow2_mult [symmetric]) simp
      with 3 True parts m(1) show ?thesis by (simp add: div_mult2_eq)
    qed
  qed
  have wn: "(if bit w0 23 then (drop_bit 8 w0, n0 + 1) else (w0, n0)) = (of_nat w, n)"
    using parts by (auto simp: word_unat_eq_iff drop_bit_eq_div unat_div_distrib unat_of_nat
        intro!: mod_less [symmetric] split: if_splits) (use m(2) in simp_all)
  have "unat (of_nat w :: u32) < 2 ^ 23" using w by (simp add: unat_of_nat)
  then have ok: "(of_nat w :: u32) AND NOT 0x007fffff = 0" by (simp only: and_high_mask)
  show "GetCompact a False = Some (of_nat w OR push_bit 24 (of_nat n))"
    unfolding GetCompact_def n0_def [symmetric] w0_def [symmetric] Let_def and_sign wn
    using ok n by simp
qed


lemma SetCompact_pack:
  assumes "w < 2 ^ 23" and "n \<le> 33" and "n = 33 \<Longrightarrow> w < 2 ^ 16"
  defines "c \<equiv> of_nat w OR push_bit 24 (of_nat n) :: u32"
  obtains t where "SetCompact c = (t, False, False)" and "length t = 8"
    and "val t = (if n \<le> 3 then w div 2 ^ (8 * (3 - n)) else (w * 2 ^ (8 * (n - 3))) mod 2 ^ 256)"
proof -
  have uw: "unat (of_nat w :: u32) = w" using assms(1) by (simp add: unat_of_nat)
  note p = pack_compact [of "of_nat w" n, unfolded uw, OF assms(1), folded c_def]
  have n: "unat (drop_bit 24 c) = n" "c AND 0x007fffff = of_nat w" "c AND 0x00800000 = 0"
    using p assms(2) and_sign [of c] by auto
  have big: "\<not> (of_nat w > (0xffff :: u32))" if "n = 33"
    using assms(3) [OF that] by (simp add: word_less_nat_alt uw not_less)
  define t where "t = fst (SetCompact c)"
  have "SetCompact c = (t, False, False)"
    using n big assms(2) by (auto simp: SetCompact_def Let_def t_def split: if_splits)
  moreover have "length t = 8"
    by (simp add: t_def SetCompact_def Let_def)
  moreover have "val t = (if n \<le> 3 then w div 2 ^ (8 * (3 - n)) else (w * 2 ^ (8 * (n - 3))) mod 2 ^ 256)"
    using n by (simp add: t_def SetCompact_def Let_def val_shl uw unat_drop_bit)
  ultimately show thesis by (rule that)
qed

lemma floor_error:
  fixes v d w :: nat
  assumes "w = v div d" "m \<le> w" "0 < d"
  shows "w * d \<le> v" and "m * (v - w * d) \<le> w * d"
proof -
  show "w * d \<le> v" using assms(1) by simp
  have "v - w * d < d" using assms by (metis add_diff_cancel_left' div_mult_mod_eq mod_less_divisor)
  then show "m * (v - w * d) \<le> w * d" using assms(2) by (intro mult_le_mono) simp_all
qed


lemma compact_decode_encode:
  assumes "length a = 8"
  obtains c t w n where "GetCompact a False = Some c" and "SetCompact c = (t, False, False)"
    and "length t = 8" and "compact_parts (val a) (bits a) = (w, n)"
    and "c = of_nat w OR push_bit 24 (of_nat n)"
    and "val t = (if n \<le> 3 then val a else w * 2 ^ (8 * (n - 3)))"
    and "n > 3 \<Longrightarrow> w = val a div 2 ^ (8 * (n - 3))" and "val a \<noteq> 0 \<Longrightarrow> 2 ^ 15 \<le> w"
proof -
  obtain w n where parts: "compact_parts (val a) (bits a) = (w, n)" by fastforce
  note g = GetCompact_parts [OF assms parts]
  obtain t where t: "SetCompact (of_nat w OR push_bit 24 (of_nat n)) = (t, False, False)" "length t = 8"
    and v: "val t = (if n \<le> 3 then w div 2 ^ (8 * (3 - n)) else (w * 2 ^ (8 * (n - 3))) mod 2 ^ 256)"
    using SetCompact_pack [OF g(2-4)] by blast
  have "val t = (if n \<le> 3 then val a else w * 2 ^ (8 * (n - 3)))"
  proof (cases "n \<le> 3")
    case True
    with v g(6) show ?thesis by simp
  next
    case False
    have "w * 2 ^ (8 * (n - 3)) \<le> val a" using g(6) False by simp
    also have "\<dots> < 2 ^ 256" using val_bound [of a] assms by simp
    finally show ?thesis using v False by simp
  qed
  with g t parts that show thesis by simp
qed

text \<open>
  Decoding the compact form of a target gives a target no easier than the original, and
  exact to fifteen bits.
\<close>

lemma compact_floor:
  assumes "length a = 8"
  shows "\<exists>c t. GetCompact a False = Some c \<and> SetCompact c = (t, False, False) \<and> length t = 8 \<and>
    val t \<le> val a \<and> 2 ^ 15 * (val a - val t) \<le> val t"
proof -
  obtain c t w n where d: "GetCompact a False = Some c" "SetCompact c = (t, False, False)" "length t = 8"
    and v: "val t = (if n \<le> 3 then val a else w * 2 ^ (8 * (n - 3)))"
    and w: "n > 3 \<Longrightarrow> w = val a div 2 ^ (8 * (n - 3))" "val a \<noteq> 0 \<Longrightarrow> 2 ^ 15 \<le> w"
    by (rule compact_decode_encode [OF assms], rule that) auto
  have "val t \<le> val a \<and> 2 ^ 15 * (val a - val t) \<le> val t"
  proof (cases "n \<le> 3 \<or> val a = 0")
    case True
    with v w(1) show ?thesis by auto
  next
    case False
    then show ?thesis
      using v w floor_error [of w "val a" "2 ^ (8 * (n - 3))" "2 ^ 15"] by simp
  qed
  with d show ?thesis by blast
qed

lemma bits_unique:
  assumes "2 ^ (b - 1) \<le> val a" and "val a < 2 ^ b" and "0 < b"
  shows "bits a = b"
proof (rule antisym)
  have "0 < val a" using assms(1) by (metis gr0I not_le zero_less_numeral zero_less_power)
  then have p: "0 < bits a" using bits_eq_0 [of a] by simp
  have "(2 :: nat) ^ (bits a - 1) < 2 ^ b"
    by (rule le_less_trans [OF bits_lower [OF p] assms(2)])
  then have "bits a - 1 < b" by (rule power_less_imp_less_exp [rotated]) simp
  then show "bits a \<le> b" using p by simp
  have "(2 :: nat) ^ (b - 1) < 2 ^ bits a"
    by (rule le_less_trans [OF assms(1) bits_upper])
  then have "b - 1 < bits a" by (rule power_less_imp_less_exp [rotated]) simp
  then show "b \<le> bits a" using assms(3) by simp
qed

lemma compact_parts_floor:
  assumes "compact_parts v b = (w, n)" and "3 < n"
  shows "compact_parts (v div 2 ^ (8 * (n - 3)) * 2 ^ (8 * (n - 3))) b = (w, n)"
proof -
  define n0 where "n0 = (b + 7) div 8"
  define f where "f u = (if n0 \<le> 3 then u * 2 ^ (8 * (3 - n0)) else u div 2 ^ (8 * (n0 - 3)))" for u :: nat
  have cp: "compact_parts u b = (if 2 ^ 23 \<le> f u then (f u div 2 ^ 8, n0 + 1) else (f u, n0))" for u
    by (simp add: compact_parts_def Let_def n0_def f_def)
  let ?d = "2 ^ (8 * (n - 3)) :: nat"
  show ?thesis
  proof (cases "2 ^ 23 \<le> f v")
    case False
    then have "n = n0" using assms(1) by (simp add: cp)
    then have "f (v div ?d * ?d) = f v" using assms(2) by (simp add: f_def)
    then show ?thesis using assms(1) by (simp only: cp)
  next
    case True
    then have n: "n = n0 + 1" "w = f v div 2 ^ 8" using assms(1) by (simp_all add: cp)
    have n03: "3 \<le> n0" using assms(2) n(1) by simp
    then have d: "?d = 2 ^ (8 * (n0 - 3)) * 2 ^ 8"
      using n(1) by (intro pow2_mult [symmetric]) simp
    have fv: "f u = u div 2 ^ (8 * (n0 - 3))" for u
      using n03 by (auto simp: f_def)
    have eq: "f (v div ?d * ?d) = f v div 2 ^ 8 * 2 ^ 8"
      by (simp add: fv d div_mult2_eq)
    have "2 ^ 15 \<le> f v div 2 ^ 8"
      using True by (simp add: less_eq_div_iff_mult_less_eq)
    then have "2 ^ 23 \<le> f v div 2 ^ 8 * 2 ^ 8" by simp
    with True eq n show ?thesis by (simp add: cp)
  qed
qed

lemma compact_canonical:
  assumes "length a = 8" and "GetCompact a False = Some c" and "SetCompact c = (t, False, False)"
  shows "GetCompact t False = Some c"
proof -
  obtain w n where parts: "compact_parts (val a) (bits a) = (w, n)" and len: "length t = 8"
    and c: "c = of_nat w OR push_bit 24 (of_nat n)"
    and v: "val t = (if n \<le> 3 then val a else w * 2 ^ (8 * (n - 3)))"
    and w: "n > 3 \<Longrightarrow> w = val a div 2 ^ (8 * (n - 3))" "val a \<noteq> 0 \<Longrightarrow> 2 ^ 15 \<le> w"
    by (rule compact_decode_encode [OF assms(1)], rule that) (use assms(2,3) in auto)
  show ?thesis
  proof (cases "n \<le> 3")
    case True
    then have "t = a" using v len assms(1) val_inject [of t a] by simp
    then show ?thesis using assms(2) by simp
  next
    case False
    have "compact_parts (val t) (bits t) = (w, n)"
    proof (cases "val a = 0")
      case True
      then have "t = a" using v w(1) False len assms(1) val_inject [of t a] by simp
      with parts show ?thesis by simp
    next
      case nz: False
      let ?d = "2 ^ (8 * (n - 3)) :: nat"
      have n: "n \<le> (bits a + 7) div 8 + 1" using parts by (auto simp: compact_parts_def Let_def split: if_splits)
      have b: "0 < bits a" using nz bits_eq_0 [of a] by simp
      have "8 * (n - 3) \<le> bits a - 1" using n b False by linarith
      then obtain r where r: "(2 :: nat) ^ (bits a - 1) = ?d * 2 ^ r"
        by (metis le_Suc_ex power_add)
      have "2 ^ r \<le> val a div ?d" using bits_lower [OF b] r
        by (simp add: less_eq_div_iff_mult_less_eq mult.commute)
      then have "2 ^ (bits a - 1) \<le> val t" using v w(1) False r by (simp add: mult.commute)
      moreover have "val t < 2 ^ bits a"
        using v w(1) False by (simp add: le_less_trans [OF div_times_less_eq_dividend bits_upper])
      ultimately have "bits t = bits a" using b by (intro bits_unique)
      moreover have "val t = val a div ?d * ?d" using v w(1) False by simp
      ultimately show ?thesis using compact_parts_floor [OF parts] False by simp
    qed
    from GetCompact_parts(1) [OF len this] show ?thesis by (simp add: c)
  qed
qed


section \<open>Conversion to and from the byte blob\<close>

definition WriteLE32 :: "u32 \<Rightarrow> bytes" where
  "WriteLE32 x = le_encode 4 x"

definition ReadLE32 :: "bytes \<Rightarrow> u32" where
  "ReadLE32 p = le_decode (take 4 p)"

definition ArithToUint256 :: "base_uint \<Rightarrow> bytes" where
  "ArithToUint256 a = concat (map (\<lambda>x. WriteLE32 (a ! x)) [0..<WIDTH])"

definition UintToArith256 :: "bytes \<Rightarrow> base_uint" where
  "UintToArith256 b = map (\<lambda>x. ReadLE32 (drop (x * 4) b)) [0..<WIDTH]"

lemma ArithToUint256_roundtrip:
  assumes "length a = 8"
  shows "UintToArith256 (ArithToUint256 a) = a"
proof -
  obtain a0 a1 a2 a3 a4 a5 a6 a7 where a: "a = [a0, a1, a2, a3, a4, a5, a6, a7]"
    using assms by (auto simp: numeral_eq_Suc length_Suc_conv)
  have rd: "ReadLE32 (WriteLE32 x @ ys) = x" for x ys
    by (simp add: ReadLE32_def WriteLE32_def le_decode_encode)
  have len: "length (WriteLE32 x) = 4" for x by (simp add: WriteLE32_def)
  show ?thesis
    by (simp add: UintToArith256_def ArithToUint256_def WIDTH_def a upt_rec len rd rd [of _ "[]", simplified])
qed


lemma SetCompact_value:
  "fst (SetCompact c) =
     (if unat (drop_bit 24 c) \<le> 3
      then of_u64 (ucast (drop_bit (8 * (3 - unat (drop_bit 24 c))) (c AND 0x007fffff)))
      else shl (of_u64 (ucast (c AND 0x007fffff))) (8 * (unat (drop_bit 24 c) - 3)))"
  by (simp add: SetCompact_def Let_def)

lemma length_SetCompact [simp]: "length (fst (SetCompact c)) = 8"
  by (simp add: SetCompact_def Let_def)

lemma SetCompact_not_max: "val (fst (SetCompact c)) + 1 < 2 ^ 256"
proof -
  define w n where "w = c AND 0x007fffff" and "n = unat (drop_bit 24 c)"
  have t: "fst (SetCompact c) = (if n \<le> 3 then of_u64 (ucast (drop_bit (8 * (3 - n)) w))
                                else shl (of_u64 (ucast w)) (8 * (n - 3)))"
    unfolding w_def n_def by (rule SetCompact_value)
  show ?thesis
  proof (cases "n \<le> 3")
    case True
    then show ?thesis
      using t unat_u32_lt [of "drop_bit (8 * (3 - n)) w"] by simp
  next
    case False
    then have v: "val (fst (SetCompact c)) = (unat w * 2 ^ (8 * (n - 3))) mod 2 ^ 256"
      using t by (simp add: val_shl)
    have "even (unat w * 2 ^ (8 * (n - 3)) :: nat)" using False by simp
    then have "even (val (fst (SetCompact c)))" unfolding v by (simp add: dvd_mod)
    moreover have "odd (2 ^ 256 - 1 :: nat)" by simp
    ultimately have "val (fst (SetCompact c)) \<noteq> 2 ^ 256 - 1" by metis
    moreover have "val (fst (SetCompact c)) < 2 ^ 256" unfolding v by simp
    ultimately show ?thesis by linarith
  qed
qed


section \<open>Properties\<close>

text \<open>
  C29. \<open>GetCompact\<close> never trips an assertion on a 256-bit target; decoding
  its code with \<open>SetCompact\<close> reports neither sign nor overflow, never gives an easier target,
  loses less than one part in \<open>2 ^ 15\<close>, and re-encodes to the same code.
\<close>

theorem compact_encode_decode:
  assumes "valid256 a"
  shows "\<exists>c t. GetCompact a False = Some c \<and> SetCompact c = (t, False, False) \<and> valid256 t \<and>
    val t \<le> val a \<and> 2 ^ 15 * (val a - val t) \<le> val t \<and> GetCompact t False = Some c"
proof -
  have "length a = 8" using assms by (simp add: valid256_def WIDTH_def)
  note len = this
  obtain c t where c: "GetCompact a False = Some c" "SetCompact c = (t, False, False)" "length t = 8"
      "val t \<le> val a" "2 ^ 15 * (val a - val t) \<le> val t"
    using compact_floor [OF len] by blast
  have "valid256 t" using c(3) by (simp only: valid256_def WIDTH_def)
  with c compact_canonical [OF len c(1,2)] show ?thesis by blast
qed

theorem compact_encode_decode_witness:
  "\<exists>c t. GetCompact [0x12345678, 0x9a, 0, 0, 0, 0, 0, 0] False = Some c \<and>
     SetCompact c = (t, False, False) \<and> val t \<le> 0x9a12345678"
proof -
  let ?a = "[0x12345678, 0x9a, 0, 0, 0, 0, 0, 0] :: base_uint"
  have ok: "valid256 ?a" and v: "val ?a = 0x9a12345678" by (simp_all add: valid256_def WIDTH_def)
  from compact_encode_decode [OF ok] obtain c t where "GetCompact ?a False = Some c"
      "SetCompact c = (t, False, False)" "val t \<le> val ?a"
    by blast
  then show ?thesis unfolding v by blast
qed

text \<open>
  \<open>UintToArith256\<close> reads back the limbs that \<open>ArithToUint256\<close> writes
  in little-endian order.
\<close>

theorem uint256_blob_roundtrip:
  assumes "valid256 a"
  shows "UintToArith256 (ArithToUint256 a) = a"
  using assms ArithToUint256_roundtrip [of a] by (simp add: valid256_def WIDTH_def)

theorem uint256_blob_roundtrip_witness:
  "UintToArith256 (ArithToUint256 [1, 2, 3, 4, 5, 6, 7, 8]) = [1, 2, 3, 4, 5, 6, 7, 8]"
  using uint256_blob_roundtrip [of "[1, 2, 3, 4, 5, 6, 7, 8]"] by (simp add: valid256_def WIDTH_def)

end
