(* ===== verification/Chain_Index.thy ===== *)
theory Chain_Index
  imports Uint256_Compact "HOL-Library.Multiset"
begin

text \<open>
  The block index of \<open>src/src/chain.h\<close> and \<open>chain.cpp\<close>: the tree of known block headers.

  A \<open>CBlockIndex*\<close> is an address \<open>bptr\<close>, \<open>NULL\<close> is \<open>None\<close>, and the heap that the
  pointers live in is the map \<open>store\<close>; a method of \<open>CBlockIndex\<close> takes the store and the
  address of \<open>this\<close>. The record keeps the fields that the consensus code reads. \<open>GetAncestor\<close>
  is the walk along \<open>pskip\<close> and \<open>pprev\<close> with the source's choice between them; its
  \<open>assert(pindexWalk->pprev)\<close> is the error \<open>AssertFailed\<close>. \<open>GetMedianTimePast\<close> collects the
  times of eleven blocks, sorts them and takes the middle one.

  \<open>block_ok\<close> says that the predecessors of a block lead down to a genesis block of height 0 in
  steps of one, and that every skip pointer on the way is the ancestor at the skip height.
  Under it the skip list finds what a walk along \<open>pprev\<close> finds, and \<open>BuildSkip\<close> keeps it.
  The locale \<open>ancestor_index\<close> is the interface under which the period arithmetic of the
  version-bits code is done.
\<close>

section \<open>Block index entries and the store\<close>

type_synonym bptr = nat
type_synonym uint256 = bytes

record CBlockIndex =
  phashBlock :: uint256
  pprev :: "bptr option"
  pskip :: "bptr option"
  nHeight :: int
  nChainWork :: base_uint
  nStatus :: u32
  nVersion :: u32
  nTime :: u32
  nBits :: u32
  nTimeMax :: u32

type_synonym store = "bptr \<Rightarrow> CBlockIndex"

datatype chain_error = AssertFailed | NullDereference

definition GetBlockTime :: "CBlockIndex \<Rightarrow> int" where
  "GetBlockTime b = uint (nTime b)"

definition GetBlockTimeMax :: "CBlockIndex \<Rightarrow> int" where
  "GetBlockTimeMax b = uint (nTimeMax b)"

section \<open>Skip heights\<close>

definition InvertLowestOne :: "int \<Rightarrow> int" where
  "InvertLowestOne n = n AND (n - 1)"

definition GetSkipHeight :: "int \<Rightarrow> int" where
  "GetSkipHeight height =
     (if height < 2 then 0
      else if height AND 1 \<noteq> 0 then InvertLowestOne (InvertLowestOne (height - 1)) + 1
      else InvertLowestOne height)"

lemma InvertLowestOne_bounds:
  assumes "1 \<le> n"
  shows "0 \<le> InvertLowestOne n" and "InvertLowestOne n < n"
  using assms AND_upper2 [of "n - 1" n] by (simp_all add: InvertLowestOne_def)

lemma GetSkipHeight_bounds:
  assumes "1 \<le> h"
  shows "0 \<le> GetSkipHeight h" and "GetSkipHeight h < h"
proof -
  have a: "0 \<le> InvertLowestOne (h - 1) \<and> InvertLowestOne (h - 1) < h - 1" if "2 \<le> h"
    using that InvertLowestOne_bounds [of "h - 1"] by simp
  have b: "0 \<le> InvertLowestOne (InvertLowestOne (h - 1)) \<and>
           InvertLowestOne (InvertLowestOne (h - 1)) < h - 1" if "2 \<le> h"
  proof (cases "InvertLowestOne (h - 1) = 0")
    case True
    then show ?thesis using that by (simp add: InvertLowestOne_def)
  next
    case False
    then show ?thesis using a [OF that] InvertLowestOne_bounds [of "InvertLowestOne (h - 1)"] by linarith
  qed
  show "0 \<le> GetSkipHeight h" and "GetSkipHeight h < h"
    using assms b InvertLowestOne_bounds [of h] by (auto simp: GetSkipHeight_def)
qed

section \<open>Ancestors\<close>

text \<open>
  The loop of \<open>GetAncestor\<close>. Its caller has checked \<open>0 \<le> height\<close>, which is what makes the walk
  height decrease in every round; the guard repeats that check so that the function is total.
\<close>

function GetAncestor_walk :: "store \<Rightarrow> bptr \<Rightarrow> int \<Rightarrow> int \<Rightarrow> chain_error + bptr option" where
  "GetAncestor_walk S pindexWalk heightWalk height =
     (if heightWalk > height \<and> height \<ge> 0 then
        let heightSkip = GetSkipHeight heightWalk;
            heightSkipPrev = GetSkipHeight (heightWalk - 1)
        in case pskip (S pindexWalk) of
             Some k \<Rightarrow>
               (if heightSkip = height \<or>
                   (heightSkip > height \<and> \<not> (heightSkipPrev < heightSkip - 2 \<and> heightSkipPrev \<ge> height))
                then GetAncestor_walk S k heightSkip height
                else (case pprev (S pindexWalk) of
                        None \<Rightarrow> Inl AssertFailed
                      | Some q \<Rightarrow> GetAncestor_walk S q (heightWalk - 1) height))
           | None \<Rightarrow>
               (case pprev (S pindexWalk) of
                  None \<Rightarrow> Inl AssertFailed
                | Some q \<Rightarrow> GetAncestor_walk S q (heightWalk - 1) height)
      else Inr (Some pindexWalk))"
  by pat_completeness auto
termination
  by (relation "measure (\<lambda>(S, p, hw, h). nat hw)")
    (use GetSkipHeight_bounds in \<open>force+\<close>)

declare GetAncestor_walk.simps [simp del]

definition GetAncestor :: "store \<Rightarrow> bptr \<Rightarrow> int \<Rightarrow> chain_error + bptr option" where
  "GetAncestor S p height =
     (if height > nHeight (S p) \<or> height < 0 then Inr None
      else GetAncestor_walk S p (nHeight (S p)) height)"

definition BuildSkip :: "store \<Rightarrow> bptr \<Rightarrow> chain_error + store" where
  "BuildSkip S p =
     (case pprev (S p) of
        None \<Rightarrow> Inr S
      | Some q \<Rightarrow> (case GetAncestor S q (GetSkipHeight (nHeight (S p))) of
                     Inl e \<Rightarrow> Inl e
                   | Inr a \<Rightarrow> Inr (S(p := (S p)\<lparr>pskip := a\<rparr>))))"

text \<open>The specification: \<open>n\<close> steps along \<open>pprev\<close>.\<close>

fun anc :: "store \<Rightarrow> nat \<Rightarrow> bptr \<Rightarrow> bptr option" where
  "anc S 0 p = Some p"
| "anc S (Suc n) p = (case pprev (S p) of None \<Rightarrow> None | Some q \<Rightarrow> anc S n q)"

inductive block_ok :: "store \<Rightarrow> bptr \<Rightarrow> bool" for S where
  genesis: "pprev (S p) = None \<Longrightarrow> nHeight (S p) = 0 \<Longrightarrow> pskip (S p) = None \<Longrightarrow> block_ok S p"
| child: "pprev (S p) = Some q \<Longrightarrow> block_ok S q \<Longrightarrow> nHeight (S p) = nHeight (S q) + 1 \<Longrightarrow>
    (\<And>k. pskip (S p) = Some k \<Longrightarrow>
       anc S (nat (nHeight (S p) - GetSkipHeight (nHeight (S p)))) p = Some k) \<Longrightarrow>
    block_ok S p"

inductive_cases block_ok_childE: "block_ok S p"

lemma block_ok_height: "block_ok S p \<Longrightarrow> 0 \<le> nHeight (S p)"
  by (induction rule: block_ok.induct) auto

lemma block_ok_prev:
  "block_ok S p \<Longrightarrow> pprev (S p) = Some q \<Longrightarrow> block_ok S q \<and> nHeight (S p) = nHeight (S q) + 1"
  by (erule block_ok.cases) auto

lemma block_ok_genesis: "block_ok S p \<Longrightarrow> pprev (S p) = None \<longleftrightarrow> nHeight (S p) = 0"
  by (erule block_ok.cases) (auto dest: block_ok_height)

lemma anc_add: "anc S (m + n) p = (case anc S m p of None \<Rightarrow> None | Some q \<Rightarrow> anc S n q)"
  by (induction m arbitrary: p) (auto split: option.splits)

lemma anc_exists:
  "block_ok S p \<Longrightarrow> int n \<le> nHeight (S p) \<Longrightarrow>
     \<exists>q. anc S n p = Some q \<and> block_ok S q \<and> nHeight (S q) = nHeight (S p) - int n"
proof (induction n arbitrary: p)
  case 0
  then show ?case by simp
next
  case (Suc n)
  then obtain r where r: "pprev (S p) = Some r"
    using block_ok_genesis [of S p] by fastforce
  with Suc.prems have "block_ok S r" "nHeight (S p) = nHeight (S r) + 1"
    using block_ok_prev by auto
  with Suc.IH [of r] Suc.prems(2) r show ?case by auto
qed

lemma GetAncestor_walk_anc:
  "block_ok S p \<Longrightarrow> hw = nHeight (S p) \<Longrightarrow> 0 \<le> h \<Longrightarrow> h \<le> hw \<Longrightarrow>
     GetAncestor_walk S p hw h = Inr (anc S (nat (hw - h)) p)"
proof (induction S p hw h rule: GetAncestor_walk.induct)
  case (1 S p hw h)
  show ?case
  proof (cases "h < hw")
    case False
    with "1.prems" show ?thesis by (subst GetAncestor_walk.simps) simp
  next
    case True
    let ?hs = "GetSkipHeight hw" and ?hp = "GetSkipHeight (hw - 1)"
    let ?c = "?hs = h \<or> (?hs > h \<and> \<not> (?hp < ?hs - 2 \<and> ?hp \<ge> h))"
    have guard: "hw > h \<and> h \<ge> 0" using True "1.prems" by simp
    from True "1.prems" have "nHeight (S p) \<noteq> 0" by simp
    then obtain q where q: "pprev (S p) = Some q"
      using block_ok_genesis [OF "1.prems"(1)] by fastforce
    with "1.prems" have okq: "block_ok S q" "hw - 1 = nHeight (S q)"
      using block_ok_prev by auto
    have n: "nat (hw - h) = Suc (nat (hw - 1 - h))" using True by simp
    have prev: "GetAncestor_walk S q (hw - 1) h = Inr (anc S (nat (hw - h)) p)" if "pskip (S p) = None \<or> \<not> ?c"
    proof -
      have "GetAncestor_walk S q (hw - 1) h = Inr (anc S (nat (hw - 1 - h)) q)"
        using that "1.IH"(3) [OF guard refl refl _ _ q okq "1.prems"(3)]
          "1.IH"(1) [OF guard refl refl _ q okq "1.prems"(3)] True
        by (cases "pskip (S p)") auto
      then show ?thesis by (simp add: n q)
    qed
    show ?thesis
    proof (cases "\<exists>k. pskip (S p) = Some k \<and> ?c")
      case False
      then have "GetAncestor_walk S p hw h = GetAncestor_walk S q (hw - 1) h"
        using guard q by (auto simp: GetAncestor_walk.simps [of S p hw h] Let_def split: option.splits)
      with prev False show ?thesis by (cases "pskip (S p)") auto
    next
      case True
      then obtain k where k: "pskip (S p) = Some k" and c: ?c by blast
      from "1.prems"(1) q k have a: "anc S (nat (hw - ?hs)) p = Some k"
        using "1.prems"(2) by (auto elim: block_ok.cases)
      have hs: "0 \<le> ?hs" "?hs < hw" using GetSkipHeight_bounds [of hw] guard by auto
      obtain k' where "anc S (nat (hw - ?hs)) p = Some k'" "block_ok S k'"
          "nHeight (S k') = nHeight (S p) - int (nat (hw - ?hs))"
        using anc_exists [OF "1.prems"(1), of "nat (hw - ?hs)"] hs "1.prems"(2) by auto
      with a hs "1.prems"(2) have okk: "block_ok S k" "?hs = nHeight (S k)" by auto
      have "GetAncestor_walk S p hw h = GetAncestor_walk S k ?hs h"
        using guard k c by (simp add: GetAncestor_walk.simps [of S p hw h] Let_def)
      also have "\<dots> = Inr (anc S (nat (?hs - h)) k)"
        using "1.IH"(2) [OF guard refl refl k c] okk "1.prems"(3) c by auto
      also have "anc S (nat (?hs - h)) k = anc S (nat (hw - h)) p"
      proof -
        have "nat (hw - h) = nat (hw - ?hs) + nat (?hs - h)" using hs c by auto
        then show ?thesis by (simp add: anc_add a)
      qed
      finally show ?thesis .
    qed
  qed
qed

lemma GetAncestor_anc:
  assumes "block_ok S p"
  shows "GetAncestor S p h =
    (if 0 \<le> h \<and> h \<le> nHeight (S p) then Inr (anc S (nat (nHeight (S p) - h)) p) else Inr None)"
  using GetAncestor_walk_anc [OF assms refl, of h] by (auto simp: GetAncestor_def)


lemma anc_update:
  "block_ok S q \<Longrightarrow> nHeight (S q) < nHeight (S p) \<Longrightarrow> anc (S(p := b)) n q = anc S n q"
proof (induction n arbitrary: q)
  case 0
  then show ?case by simp
next
  case (Suc n)
  then have "q \<noteq> p" by auto
  with Suc show ?case by (auto split: option.splits dest: block_ok_prev)
qed

lemma block_ok_update:
  assumes "block_ok S q" and "nHeight (S q) < nHeight (S p)"
  shows "block_ok (S(p := b)) q"
proof -
  define S' where "S' = S(p := b)"
  have same: "S' x = S x" if "x \<noteq> p" for x using that by (simp add: S'_def)
  from assms have "block_ok S' q"
  proof (induction q rule: block_ok.induct)
    case (genesis q)
    then have "q \<noteq> p" by auto
    with genesis same show ?case by (intro block_ok.genesis) auto
  next
    case (child q r)
    have "block_ok S q" using child.hyps by (rule block_ok.child)
    then have "anc S' n q = anc S n q" for n
      using child.prems unfolding S'_def by (intro anc_update)
    moreover have "q \<noteq> p" "r \<noteq> p" using child by auto
    ultimately show ?case
      using child same by (intro block_ok.child [of _ q r]) auto
  qed
  then show ?thesis by (simp add: S'_def)
qed

lemma BuildSkip_correct:
  assumes "pprev (S p) = Some q" and "block_ok S q" and "nHeight (S p) = nHeight (S q) + 1"
  obtains a where "BuildSkip S p = Inr (S(p := (S p)\<lparr>pskip := Some a\<rparr>))"
    and "block_ok (S(p := (S p)\<lparr>pskip := Some a\<rparr>)) p"
    and "anc S (nat (nHeight (S p) - GetSkipHeight (nHeight (S p)))) p = Some a"
proof -
  let ?sk = "GetSkipHeight (nHeight (S p))"
  have h: "0 \<le> nHeight (S q)" using assms(2) by (rule block_ok_height)
  then have sk: "0 \<le> ?sk" "?sk \<le> nHeight (S q)"
    using GetSkipHeight_bounds [of "nHeight (S p)"] assms(3) by auto
  obtain a where a: "anc S (nat (nHeight (S q) - ?sk)) q = Some a"
    using anc_exists [OF assms(2), of "nat (nHeight (S q) - ?sk)"] sk by auto
  have n: "nat (nHeight (S p) - ?sk) = Suc (nat (nHeight (S q) - ?sk))"
    using assms(3) sk by simp
  let ?S = "S(p := (S p)\<lparr>pskip := Some a\<rparr>)"
  have lt: "nHeight (S q) < nHeight (S p)" using assms(3) by simp
  have "q \<noteq> p" using lt by auto
  then have "block_ok ?S p"
    using assms block_ok_update [OF assms(2) lt] a n anc_update [OF assms(2) lt]
    by (intro block_ok.child [of _ p q]) auto
  moreover have "BuildSkip S p = Inr ?S"
    using assms(1,2) sk a by (simp add: BuildSkip_def GetAncestor_anc)
  moreover have "anc S (nat (nHeight (S p) - ?sk)) p = Some a" by (simp add: n assms(1) a)
  ultimately show thesis by (intro that)
qed

section \<open>Median time past\<close>

definition nMedianTimeSpan :: nat where
  "nMedianTimeSpan = 11"

fun past_times :: "store \<Rightarrow> nat \<Rightarrow> bptr option \<Rightarrow> int list \<Rightarrow> int list" where
  "past_times S 0 pindex pmedian = pmedian"
| "past_times S (Suc i) None pmedian = pmedian"
| "past_times S (Suc i) (Some p) pmedian = past_times S i (pprev (S p)) (GetBlockTime (S p) # pmedian)"

lemma past_times_numeral [simp]:
  "past_times S (numeral k) None acc = acc"
  "past_times S (numeral k) (Some p) acc =
     past_times S (pred_numeral k) (pprev (S p)) (GetBlockTime (S p) # acc)"
  by (simp_all add: numeral_eq_Suc)

definition GetMedianTimePast :: "store \<Rightarrow> bptr \<Rightarrow> int" where
  "GetMedianTimePast S p =
     (let pmedian = sort (past_times S nMedianTimeSpan (Some p) [])
      in pmedian ! (length pmedian div 2))"

lemma sorted_nth_ge:
  fixes m :: "'a::linorder"
  assumes "sorted xs" and "k < length xs"
  shows "m \<le> xs ! k \<longleftrightarrow> length (filter (\<lambda>x. x < m) xs) \<le> k"
proof
  assume "m \<le> xs ! k"
  then have "{i. i < length xs \<and> xs ! i < m} \<subseteq> {..<k}"
    using assms by (auto simp: not_le) (meson leD le_less_linear le_less_trans not_le sorted_nth_mono)
  then have "card {i. i < length xs \<and> xs ! i < m} \<le> card {..<k}" by (intro card_mono) auto
  then show "length (filter (\<lambda>x. x < m) xs) \<le> k" by (simp add: length_filter_conv_card)
next
  assume *: "length (filter (\<lambda>x. x < m) xs) \<le> k"
  show "m \<le> xs ! k"
  proof (rule ccontr)
    assume "\<not> m \<le> xs ! k"
    then have "{..k} \<subseteq> {i. i < length xs \<and> xs ! i < m}"
      using assms by auto (meson le_less_trans not_le sorted_nth_mono)
    then have "card {..k} \<le> card {i. i < length xs \<and> xs ! i < m}" by (intro card_mono) auto
    with * show False by (simp add: length_filter_conv_card)
  qed
qed

lemma past_times_acc: "past_times S n p acc = past_times S n p [] @ acc"
proof (induction n arbitrary: p acc)
  case 0
  then show ?case by simp
next
  case (Suc n)
  show ?case
  proof (cases p)
    case (Some q)
    then show ?thesis
      using Suc [of "pprev (S q)" "GetBlockTime (S q) # acc"] Suc [of "pprev (S q)" "[GetBlockTime (S q)]"] by simp
  qed simp
qed

lemma past_times_Cons:
  "past_times S (Suc n) (Some p) [] = past_times S n (pprev (S p)) [] @ [GetBlockTime (S p)]"
  by (simp add: past_times_acc [of S n _ "[_]"])

lemma past_times_extend:
  "\<exists>ys. past_times S (Suc n) p [] = ys @ past_times S n p [] \<and> length ys \<le> 1"
proof (induction n arbitrary: p)
  case 0
  then show ?case by (cases p) auto
next
  case (Suc n)
  show ?case
  proof (cases p)
    case None
    then show ?thesis by simp
  next
    case (Some q)
    then show ?thesis using Suc [of "pprev (S q)"] by (auto simp: past_times_Cons simp del: past_times.simps)
  qed
qed

text \<open>
  A block whose time is later than the median of its predecessors does not lower the median.
\<close>

lemma GetMedianTimePast_mono:
  assumes "pprev (S p) = Some q" and "GetMedianTimePast S q < GetBlockTime (S p)"
  shows "GetMedianTimePast S q \<le> GetMedianTimePast S p"
proof -
  define m where "m = GetMedianTimePast S q"
  define old where "old = past_times S 11 (Some q) []"
  define new where "new = past_times S 11 (Some p) []"
  define lt where "lt xs = length (filter (\<lambda>x. x < m) xs)" for xs :: "int list"
  obtain ys where ys: "old = ys @ past_times S 10 (Some q) []" "length ys \<le> 1"
    using past_times_extend [of S 10 "Some q"] by (auto simp: old_def)
  have new: "new = past_times S 10 (Some q) [] @ [GetBlockTime (S p)]"
    using past_times_Cons [of S 10 p] assms(1) by (simp add: new_def)
  have ne: "old \<noteq> []" using past_times_Cons [of S 10 q] by (simp add: old_def)
  have srt: "length (filter (\<lambda>x. x < m) (sort xs)) = lt xs" for xs
    by (simp add: lt_def filter_sort)
  have m: "m = sort old ! (length old div 2)"
    by (simp add: m_def GetMedianTimePast_def nMedianTimeSpan_def old_def Let_def)
  have "lt old \<le> length old div 2"
    using sorted_nth_ge [of "sort old" "length old div 2" m] ne eq_refl [OF m] by (simp add: srt)
  moreover have "lt new \<le> lt old" using assms(2) by (simp add: lt_def new ys(1) m_def [symmetric])
  moreover have "length old \<le> length new" using ys new by simp
  ultimately have "lt new \<le> length new div 2" by (meson div_le_mono le_trans)
  moreover have "length new div 2 < length new" using new by simp
  ultimately have "m \<le> sort new ! (length new div 2)"
    using sorted_nth_ge [of "sort new" "length new div 2" m] by (simp add: srt)
  then show ?thesis
    by (simp add: m_def GetMedianTimePast_def [of S p] nMedianTimeSpan_def new_def Let_def)
qed

section \<open>Validity flags\<close>

definition BLOCK_VALID_MASK :: u32 where "BLOCK_VALID_MASK = 1 OR 2 OR 3 OR 4 OR 5"
definition BLOCK_FAILED_MASK :: u32 where "BLOCK_FAILED_MASK = 32 OR 64"

definition IsValid :: "CBlockIndex \<Rightarrow> u32 \<Rightarrow> bool option" where
  "IsValid b nUpTo =
     (if nUpTo AND NOT BLOCK_VALID_MASK \<noteq> 0 then None
      else if nStatus b AND BLOCK_FAILED_MASK \<noteq> 0 then Some False
      else Some (nStatus b AND BLOCK_VALID_MASK \<ge> nUpTo))"

definition RaiseValidity :: "CBlockIndex \<Rightarrow> u32 \<Rightarrow> (bool \<times> CBlockIndex) option" where
  "RaiseValidity b nUpTo =
     (if nUpTo AND NOT BLOCK_VALID_MASK \<noteq> 0 then None
      else if nStatus b AND BLOCK_FAILED_MASK \<noteq> 0 then Some (False, b)
      else if nStatus b AND BLOCK_VALID_MASK < nUpTo
      then Some (True, b\<lparr>nStatus := (nStatus b AND NOT BLOCK_VALID_MASK) OR nUpTo\<rparr>)
      else Some (False, b))"

lemma replace_masked:
  fixes x u V F :: u32
  assumes "u AND NOT V = 0" and "V AND F = 0"
  shows "((x AND NOT V) OR u) AND V = u"
    and "((x AND NOT V) OR u) AND NOT V = x AND NOT V"
    and "((x AND NOT V) OR u) AND F = x AND F"
  using assms by (auto simp: bit_eq_iff bit_simps)

lemma RaiseValidity_raises:
  assumes "RaiseValidity b nUpTo = Some (r, b')"
  shows "IsValid b' nUpTo = Some (nStatus b AND BLOCK_FAILED_MASK = 0)"
    and "nStatus b' AND NOT BLOCK_VALID_MASK = nStatus b AND NOT BLOCK_VALID_MASK"
    and "nStatus b AND BLOCK_VALID_MASK \<le> nStatus b' AND BLOCK_VALID_MASK"
proof -
  have "BLOCK_VALID_MASK AND BLOCK_FAILED_MASK = 0"
    by (simp add: BLOCK_VALID_MASK_def BLOCK_FAILED_MASK_def)
  note sum = replace_masked [OF _ this, of nUpTo "nStatus b"]
  show "IsValid b' nUpTo = Some (nStatus b AND BLOCK_FAILED_MASK = 0)"
    using assms sum
    by (auto simp: RaiseValidity_def IsValid_def split: if_splits)
  show "nStatus b' AND NOT BLOCK_VALID_MASK = nStatus b AND NOT BLOCK_VALID_MASK"
    "nStatus b AND BLOCK_VALID_MASK \<le> nStatus b' AND BLOCK_VALID_MASK"
    using assms sum by (auto simp: RaiseValidity_def split: if_splits)
qed


section \<open>The interface of the block tree\<close>

text \<open>
  What the code that walks the tree relies on: heights count the steps to the genesis block,
  and looking a height up finds the ancestor at that height.
\<close>

locale ancestor_index =
  fixes good :: "'p \<Rightarrow> bool"
    and prev :: "'p \<Rightarrow> 'p option"
    and height :: "'p \<Rightarrow> int"
    and look :: "'p \<Rightarrow> int \<Rightarrow> 'p option"
  assumes height_nonneg: "good p \<Longrightarrow> 0 \<le> height p"
    and prev_None: "good p \<Longrightarrow> prev p = None \<longleftrightarrow> height p = 0"
    and prev_Some: "good p \<Longrightarrow> prev p = Some q \<Longrightarrow> good q \<and> height p = height q + 1"
    and look_out: "good p \<Longrightarrow> h < 0 \<or> height p < h \<Longrightarrow> look p h = None"
    and look_self: "good p \<Longrightarrow> look p (height p) = Some p"
    and look_prev: "good p \<Longrightarrow> prev p = Some q \<Longrightarrow> h \<le> height q \<Longrightarrow> look p h = look q h"
begin

lemma look_ex:
  "good p \<Longrightarrow> 0 \<le> h \<Longrightarrow> h \<le> height p \<Longrightarrow> \<exists>q. look p h = Some q \<and> good q \<and> height q = h"
proof (induction "nat (height p - h)" arbitrary: p)
  case 0
  then have "h = height p" by simp
  with 0 show ?case by (simp add: look_self)
next
  case (Suc n)
  then have "height p \<noteq> 0" by simp
  then obtain q where q: "prev p = Some q" using prev_None [OF Suc(3)] by fastforce
  with Suc(3) have "good q" "height p = height q + 1" by (auto dest: prev_Some)
  with Suc(1) [of q] Suc(2,4) q Suc(3) show ?case by (auto simp: look_prev)
qed

lemma look_Some:
  assumes "good p" and "look p h = Some q"
  shows "good q" and "height q = h" and "0 \<le> h" and "h \<le> height p"
proof -
  show h: "0 \<le> h" "h \<le> height p" using assms look_out [of p h] by force+
  then show "good q" "height q = h" using look_ex [OF assms(1)] assms(2) by force+
qed

lemma look_look:
  "good p \<Longrightarrow> look p h = Some q \<Longrightarrow> h' \<le> h \<Longrightarrow> look q h' = look p h'"
proof (induction "nat (height p - h)" arbitrary: p)
  case 0
  then have "h = height p" using look_Some(4) [of p h q] by simp
  with 0 show ?case by (simp add: look_self)
next
  case (Suc n)
  have h: "0 \<le> h" using look_Some(3) [OF Suc(3,4)] .
  then have "height p \<noteq> 0" using Suc(2) by simp
  then obtain r where r: "prev p = Some r" using prev_None [OF Suc(3)] by fastforce
  with Suc(3) have ok: "good r" "height p = height r + 1" by (auto dest: prev_Some)
  then have "h \<le> height r" using Suc(2) by simp
  with ok r Suc show ?case by (auto simp: look_prev)
qed

end

definition lookup_anc :: "store \<Rightarrow> bptr \<Rightarrow> int \<Rightarrow> bptr option" where
  "lookup_anc S p h = (case GetAncestor S p h of Inl _ \<Rightarrow> None | Inr a \<Rightarrow> a)"

interpretation idx: ancestor_index "block_ok S" "\<lambda>p. pprev (S p)" "\<lambda>p. nHeight (S p)" "lookup_anc S"
  for S
proof unfold_locales
  fix p q h
  assume ok: "block_ok S p"
  show "0 \<le> nHeight (S p)" by (rule block_ok_height [OF ok])
  show "pprev (S p) = None \<longleftrightarrow> nHeight (S p) = 0" by (rule block_ok_genesis [OF ok])
  show "h < 0 \<or> nHeight (S p) < h \<Longrightarrow> lookup_anc S p h = None"
    using GetAncestor_anc [OF ok, of h] by (auto simp: lookup_anc_def)
  show "lookup_anc S p (nHeight (S p)) = Some p"
    using GetAncestor_anc [OF ok] block_ok_height [OF ok] by (simp add: lookup_anc_def)
  assume q: "pprev (S p) = Some q"
  then show okq: "block_ok S q \<and> nHeight (S p) = nHeight (S q) + 1" by (rule block_ok_prev [OF ok])
  assume h: "h \<le> nHeight (S q)"
  then have "0 \<le> h \<Longrightarrow> nat (nHeight (S p) - h) = Suc (nat (nHeight (S q) - h))" using okq by simp
  then show "lookup_anc S p h = lookup_anc S q h"
    using GetAncestor_anc [OF ok, of h] GetAncestor_anc [of S q h] okq q h by (auto simp: lookup_anc_def)
qed

lemma GetAncestor_lookup:
  "block_ok S p \<Longrightarrow> GetAncestor S p h = Inr (lookup_anc S p h)"
  by (auto simp: lookup_anc_def GetAncestor_anc)


section \<open>A three-block index\<close>

definition empty_block :: CBlockIndex where
  "empty_block = \<lparr>phashBlock = [], pprev = None, pskip = None, nHeight = 0, nChainWork = zero256,
     nStatus = 0, nVersion = 0, nTime = 0, nBits = 0, nTimeMax = 0\<rparr>"

definition ex_store :: store where
  "ex_store = (\<lambda>_. empty_block)(
     0 := empty_block\<lparr>phashBlock := [0], nTime := 10, nTimeMax := 10, nVersion := 0x20000002\<rparr>,
     1 := empty_block\<lparr>phashBlock := [1], pprev := Some 0, pskip := Some 0, nHeight := 1, nTime := 20,
            nTimeMax := 20, nVersion := 0x20000002\<rparr>,
     2 := empty_block\<lparr>phashBlock := [2], pprev := Some 1, pskip := Some 0, nHeight := 2, nTime := 30,
            nTimeMax := 30, nVersion := 0x20000002\<rparr>)"

lemma ex_store_ok: "block_ok ex_store 0" "block_ok ex_store 1" "block_ok ex_store 2"
proof -
  show 0: "block_ok ex_store 0" by (rule block_ok.genesis) (simp_all add: ex_store_def empty_block_def)
  show 1: "block_ok ex_store 1"
    by (rule block_ok.child [OF _ 0]) (simp_all add: ex_store_def empty_block_def GetSkipHeight_def)
  show "block_ok ex_store 2"
    by (rule block_ok.child [OF _ 1])
      (simp_all add: ex_store_def empty_block_def GetSkipHeight_def InvertLowestOne_def numeral_2_eq_2)
qed

section \<open>Properties\<close>

text \<open>
  C11. On a well-formed index \<open>GetAncestor\<close> never asserts: for a height between
  0 and the block's own it returns exactly the block reached by that many steps along
  \<open>pprev\<close>, which exists and has that height, and for any other height \<open>NULL\<close>.
\<close>

theorem GetAncestor_skiplist:
  assumes "block_ok S p"
  shows "if 0 \<le> h \<and> h \<le> nHeight (S p)
         then \<exists>a. GetAncestor S p h = Inr (Some a) \<and> anc S (nat (nHeight (S p) - h)) p = Some a \<and>
                nHeight (S a) = h
         else GetAncestor S p h = Inr None"
proof (cases "0 \<le> h \<and> h \<le> nHeight (S p)")
  case True
  then show ?thesis
    using GetAncestor_anc [OF assms, of h] anc_exists [OF assms, of "nat (nHeight (S p) - h)"] by auto
next
  case False
  then show ?thesis using GetAncestor_anc [OF assms, of h] by auto
qed

theorem GetAncestor_skiplist_witness:
  "\<exists>a. GetAncestor ex_store 2 1 = Inr (Some a) \<and> anc ex_store 1 2 = Some a \<and> nHeight (ex_store a) = 1"
  using GetAncestor_skiplist [OF ex_store_ok(3), of 1] by (simp add: ex_store_def empty_block_def)

text \<open>
  Linking a new block to a well-formed parent and calling \<open>BuildSkip\<close> gives a
  well-formed block and changes no other entry; blocks that were well-formed below it stay so.
\<close>

theorem BuildSkip_preserves:
  assumes "pprev (S p) = Some q" and "block_ok S q" and "nHeight (S p) = nHeight (S q) + 1"
  shows "\<exists>S'. BuildSkip S p = Inr S' \<and> block_ok S' p \<and> block_ok S' q \<and> (\<forall>x. x \<noteq> p \<longrightarrow> S' x = S x)"
proof -
  obtain a where a: "BuildSkip S p = Inr (S(p := (S p)\<lparr>pskip := Some a\<rparr>))"
      "block_ok (S(p := (S p)\<lparr>pskip := Some a\<rparr>)) p"
    by (rule BuildSkip_correct [OF assms])
  have "block_ok (S(p := (S p)\<lparr>pskip := Some a\<rparr>)) q"
    using assms(3) by (intro block_ok_update [OF assms(2)]) simp
  with a show ?thesis by auto
qed

theorem BuildSkip_preserves_witness:
  "\<exists>S'. BuildSkip (ex_store(3 := empty_block\<lparr>pprev := Some 2, nHeight := 3\<rparr>)) 3 = Inr S' \<and> block_ok S' 3"
proof -
  let ?S = "ex_store(3 := empty_block\<lparr>pprev := Some 2, nHeight := 3\<rparr>)"
  have "block_ok ?S 2"
  proof -
    have 0: "block_ok ?S 0" by (rule block_ok.genesis) (simp_all add: ex_store_def empty_block_def)
    have 1: "block_ok ?S 1"
      by (rule block_ok.child [OF _ 0]) (simp_all add: ex_store_def empty_block_def GetSkipHeight_def)
    show ?thesis
      by (rule block_ok.child [OF _ 1])
        (simp_all add: ex_store_def empty_block_def GetSkipHeight_def InvertLowestOne_def numeral_2_eq_2)
  qed
  then show ?thesis
    using BuildSkip_preserves [of ?S 3 2] by (auto simp: ex_store_def empty_block_def)
qed

text \<open>
  A block whose timestamp is later than the median time past of its
  parent, which header validation demands, never has a smaller median time past than its
  parent, also near the genesis block where the window is shorter than eleven.
\<close>

theorem GetMedianTimePast_monotone:
  assumes "pprev (S p) = Some q" and "GetMedianTimePast S q < GetBlockTime (S p)"
  shows "GetMedianTimePast S q \<le> GetMedianTimePast S p"
  by (rule GetMedianTimePast_mono [OF assms])

theorem GetMedianTimePast_monotone_witness:
  "GetMedianTimePast ex_store 1 = 20 \<and> GetMedianTimePast ex_store 1 \<le> GetMedianTimePast ex_store 2"
proof -
  have m: "GetMedianTimePast ex_store 1 = 20"
    by (simp add: GetMedianTimePast_def nMedianTimeSpan_def ex_store_def empty_block_def
        GetBlockTime_def)
  have "GetMedianTimePast ex_store 1 \<le> GetMedianTimePast ex_store 2"
  proof (rule GetMedianTimePast_monotone)
    show "pprev (ex_store 2) = Some 1" by (simp add: ex_store_def empty_block_def)
    have "GetBlockTime (ex_store 2) = 30" by (simp add: ex_store_def empty_block_def GetBlockTime_def)
    with m show "GetMedianTimePast ex_store 1 < GetBlockTime (ex_store 2)" by simp
  qed
  with m show ?thesis by simp
qed

end
