(* ===== verification/Active_Chain.thy ===== *)
theory Active_Chain
  imports Chain_Index
begin

text \<open>
  \<open>CChain\<close> of \<open>src/src/chain.h\<close> and \<open>chain.cpp\<close>: the active chain as a vector indexed by height,
  with \<open>SetTip\<close>, \<open>Contains\<close>, \<open>FindFork\<close>, \<open>GetLocator\<close> and \<open>FindEarliestAtLeast\<close>.

  The vector holds pointers, \<open>None\<close> being the \<open>NULL\<close> that \<open>resize\<close> fills in. A walk that
  could run forever on a malformed index is a \<^theory_text>\<open>partial_function\<close>, with \<open>None\<close> for "does not
  return" (and, in \<open>SetTip_walk\<close>, for an access beyond the vector); the lemmas prove that it
  returns. \<open>chain_inv\<close> is the invariant that entry \<open>i\<close> is a block of height \<open>i\<close> whose
  predecessor is entry \<open>i - 1\<close>; \<open>SetTip\<close> establishes it although it stops rewriting at the first
  entry that is already right.
\<close>

section \<open>The active chain\<close>

type_synonym CChain = "bptr option list"

definition Genesis :: "CChain \<Rightarrow> bptr option" where
  "Genesis vChain = (if length vChain > 0 then vChain ! 0 else None)"

definition Tip :: "CChain \<Rightarrow> bptr option" where
  "Tip vChain = (if length vChain > 0 then vChain ! (length vChain - 1) else None)"

definition chain_at :: "CChain \<Rightarrow> int \<Rightarrow> bptr option" where
  "chain_at vChain h = (if h < 0 \<or> h \<ge> int (length vChain) then None else vChain ! nat h)"

definition Contains :: "store \<Rightarrow> CChain \<Rightarrow> bptr \<Rightarrow> bool" where
  "Contains S vChain p \<longleftrightarrow> chain_at vChain (nHeight (S p)) = Some p"

definition Next :: "store \<Rightarrow> CChain \<Rightarrow> bptr \<Rightarrow> bptr option" where
  "Next S vChain p = (if Contains S vChain p then chain_at vChain (nHeight (S p) + 1) else None)"

definition Height :: "CChain \<Rightarrow> int" where
  "Height vChain = int (length vChain) - 1"

definition resize :: "nat \<Rightarrow> 'a \<Rightarrow> 'a list \<Rightarrow> 'a list" where
  "resize n d xs = take n xs @ replicate (n - length xs) d"

partial_function (option) SetTip_walk :: "store \<Rightarrow> bptr option \<Rightarrow> CChain \<Rightarrow> CChain option" where
  "SetTip_walk S pindex vChain =
     (case pindex of
        None \<Rightarrow> Some vChain
      | Some p \<Rightarrow>
          if 0 \<le> nHeight (S p) \<and> nHeight (S p) < int (length vChain) then
            (if vChain ! nat (nHeight (S p)) \<noteq> Some p
             then SetTip_walk S (pprev (S p)) (vChain[nat (nHeight (S p)) := Some p])
             else Some vChain)
          else None)"

definition SetTip :: "store \<Rightarrow> bptr option \<Rightarrow> CChain \<Rightarrow> CChain option" where
  "SetTip S pindex vChain =
     (case pindex of
        None \<Rightarrow> Some []
      | Some p \<Rightarrow> SetTip_walk S (Some p) (resize (nat (nHeight (S p) + 1)) None vChain))"

partial_function (option) fork_walk :: "store \<Rightarrow> CChain \<Rightarrow> bptr option \<Rightarrow> bptr option option" where
  "fork_walk S vChain pindex =
     (case pindex of
        None \<Rightarrow> Some None
      | Some p \<Rightarrow> if \<not> Contains S vChain p then fork_walk S vChain (pprev (S p)) else Some (Some p))"

definition FindFork :: "store \<Rightarrow> CChain \<Rightarrow> bptr option \<Rightarrow> bptr option option" where
  "FindFork S vChain pindex =
     (case pindex of
        None \<Rightarrow> Some None
      | Some p \<Rightarrow>
          if nHeight (S p) > Height vChain
          then (case GetAncestor S p (Height vChain) of
                  Inl _ \<Rightarrow> None
                | Inr a \<Rightarrow> fork_walk S vChain a)
          else fork_walk S vChain (Some p))"

text \<open>Invariant: entry \<open>i\<close> is a block of height \<open>i\<close> whose predecessor is entry \<open>i - 1\<close>.\<close>

definition entry_ok :: "store \<Rightarrow> CChain \<Rightarrow> nat \<Rightarrow> bool" where
  "entry_ok S v i \<longleftrightarrow> (\<exists>r. v ! i = Some r \<and> block_ok S r \<and> nHeight (S r) = int i \<and>
     (0 < i \<longrightarrow> pprev (S r) = v ! (i - 1)))"

definition chain_inv :: "store \<Rightarrow> CChain \<Rightarrow> bool" where
  "chain_inv S v \<longleftrightarrow> (\<forall>i < length v. entry_ok S v i)"

lemma entries_below:
  assumes "\<forall>i \<le> j. v ! i = None \<or> entry_ok S v i" and "v ! j \<noteq> None"
  shows "\<forall>i \<le> j. entry_ok S v i"
  using assms
proof (induction j)
  case 0
  then show ?case by auto
next
  case (Suc j)
  then have "entry_ok S v (Suc j)" by auto
  then obtain r where "v ! Suc j = Some r" "block_ok S r" "nHeight (S r) = int (Suc j)"
      "pprev (S r) = v ! j"
    by (auto simp: entry_ok_def)
  then have "v ! j \<noteq> None" using block_ok_genesis [of S r] by auto
  with Suc \<open>entry_ok S v (Suc j)\<close> show ?case by (auto simp: le_Suc_eq)
qed

lemma SetTip_walk_correct:
  "block_ok S q \<Longrightarrow> nHeight (S q) = int h \<Longrightarrow> h < length v \<Longrightarrow>
   (\<forall>i \<le> h. v ! i = None \<or> entry_ok S v i) \<Longrightarrow>
   (\<forall>i. h < i \<and> i < length v \<longrightarrow> entry_ok S (v[h := Some q]) i) \<Longrightarrow>
   \<exists>v'. SetTip_walk S (Some q) v = Some v' \<and> chain_inv S v' \<and> length v' = length v \<and>
        v' ! h = Some q \<and> (\<forall>i. h < i \<and> i < length v \<longrightarrow> v' ! i = v ! i)"
proof (induction h arbitrary: q v)
  case 0
  show ?case
  proof (cases "v ! 0 = Some q")
    case True
    with "0.prems" show ?thesis
      by (auto simp: SetTip_walk.simps [of S "Some q"] chain_inv_def) (metis gr0I list_update_id)
  next
    case False
    have g: "pprev (S q) = None" using block_ok_genesis "0.prems"(1,2) by simp
    have "entry_ok S (v[0 := Some q]) i" if "i < length v" for i
      using "0.prems" that by (cases "i = 0") (auto simp: entry_ok_def)
    with False g "0.prems" show ?thesis
      by (simp add: SetTip_walk.simps [of S "Some q"] SetTip_walk.simps [of S None] chain_inv_def)
  qed
next
  case (Suc h)
  obtain r where r: "pprev (S q) = Some r"
    using block_ok_genesis [OF Suc.prems(1)] Suc.prems(2) by fastforce
  with Suc.prems(1,2) have okr: "block_ok S r" "nHeight (S r) = int h"
    using block_ok_prev [of S q r] by auto
  show ?case
  proof (cases "v ! Suc h = Some q")
    case True
    have "entry_ok S v i" if "i < length v" for i
    proof (cases "i \<le> Suc h")
      case True
      then show ?thesis using entries_below [OF Suc.prems(4)] \<open>v ! Suc h = Some q\<close> by simp
    next
      case False
      then show ?thesis using Suc.prems(5) that True by (metis list_update_id not_le)
    qed
    with True Suc.prems show ?thesis
      by (simp add: SetTip_walk.simps [of S "Some q"] chain_inv_def del: of_nat_Suc)
  next
    case False
    let ?v = "v[Suc h := Some q]"
    have step: "SetTip_walk S (Some q) v = SetTip_walk S (Some r) ?v"
      using False Suc.prems(2,3) r by (simp add: SetTip_walk.simps [of S "Some q"] del: of_nat_Suc)
    have low: "\<forall>i \<le> h. ?v ! i = None \<or> entry_ok S ?v i"
      using Suc.prems(4) by (auto simp: entry_ok_def)
    have up: "\<forall>i. h < i \<and> i < length ?v \<longrightarrow> entry_ok S (?v[h := Some r]) i"
    proof (intro allI impI)
      fix i
      assume i: "h < i \<and> i < length ?v"
      show "entry_ok S (?v[h := Some r]) i"
      proof (cases "i = Suc h")
        case True
        then show ?thesis using Suc.prems(1,2,3) r by (auto simp: entry_ok_def)
      next
        case False
        with i have "entry_ok S ?v i" using Suc.prems(5) by simp
        then show ?thesis using i False by (auto simp: entry_ok_def)
      qed
    qed
    obtain v' where v': "SetTip_walk S (Some r) ?v = Some v'" "chain_inv S v'" "length v' = length ?v"
        "\<forall>i. h < i \<and> i < length ?v \<longrightarrow> v' ! i = ?v ! i"
      using Suc.IH [OF okr _ low up] Suc.prems(3) by auto
    then show ?thesis using step Suc.prems(3) by auto
  qed
qed

lemma SetTip_correct:
  assumes "block_ok S p" and "chain_inv S v"
  obtains v' where "SetTip S (Some p) v = Some v'" and "chain_inv S v'" and "Tip v' = Some p"
    and "Height v' = nHeight (S p)"
proof -
  define h where "h = nat (nHeight (S p))"
  have h: "nHeight (S p) = int h" using block_ok_height [OF assms(1)] by (simp add: h_def)
  let ?v = "resize (Suc h) None v"
  have len: "length ?v = Suc h" by (simp add: resize_def)
  have low: "?v ! i = None \<or> entry_ok S ?v i" if "i \<le> h" for i
  proof (cases "i < length v")
    case True
    then show ?thesis using assms(2) that
      by (auto simp: chain_inv_def entry_ok_def resize_def nth_append)
  next
    case False
    then show ?thesis using that by (simp add: resize_def nth_append)
  qed
  have "\<exists>v'. SetTip_walk S (Some p) ?v = Some v' \<and> chain_inv S v' \<and> length v' = length ?v \<and>
      v' ! h = Some p \<and> (\<forall>i. h < i \<and> i < length ?v \<longrightarrow> v' ! i = ?v ! i)"
    by (rule SetTip_walk_correct [OF assms(1) h]) (use low len in auto)
  then obtain v' where "SetTip_walk S (Some p) ?v = Some v'" "chain_inv S v'"
      "length v' = length ?v" "v' ! h = Some p"
    by blast
  with len h show thesis
    by (intro that [of v']) (auto simp: SetTip_def Tip_def Height_def nat_add_distrib)
qed


lemma chain_inv_anc:
  assumes "chain_inv S v" and "v ! j = Some q" and "j < length v" and "i \<le> j"
  shows "v ! i = anc S (j - i) q"
  using assms(2-4)
proof (induction j arbitrary: q)
  case 0
  then show ?case by simp
next
  case (Suc j)
  show ?case
  proof (cases "i = Suc j")
    case True
    then show ?thesis using Suc.prems by simp
  next
    case False
    from assms(1) Suc.prems have "pprev (S q) = v ! j"
      by (force simp: chain_inv_def entry_ok_def)
    moreover have "entry_ok S v j" using assms(1) Suc.prems(2) by (simp add: chain_inv_def)
    ultimately obtain r where r: "pprev (S q) = Some r" "v ! j = Some r"
      by (auto simp: entry_ok_def)
    have "v ! i = anc S (j - i) r" using Suc.IH [OF r(2)] Suc.prems False by simp
    then show ?thesis using False Suc.prems(3) r by (simp add: Suc_diff_le)
  qed
qed

lemma chain_at_Contains:
  assumes "chain_inv S v" and "chain_at v h = Some q"
  shows "Contains S v q \<and> block_ok S q \<and> nHeight (S q) = h"
proof -
  have h: "0 \<le> h" "nat h < length v" "v ! nat h = Some q"
    using assms(2) by (auto simp: chain_at_def nat_less_iff split: if_splits)
  then have "entry_ok S v (nat h)" using assms(1) by (simp add: chain_inv_def)
  then show ?thesis using h by (auto simp: entry_ok_def Contains_def chain_at_def)
qed

text \<open>An ancestor of a block of the chain is in the chain.\<close>

lemma Contains_anc:
  assumes "chain_inv S v" and "block_ok S p" and "Contains S v p" and "anc S n p = Some a"
    and "int n \<le> nHeight (S p)"
  shows "Contains S v a"
proof -
  have h: "0 \<le> nHeight (S p)" "nHeight (S p) < int (length v)" "v ! nat (nHeight (S p)) = Some p"
    using assms(3) block_ok_height [OF assms(2)] by (auto simp: Contains_def chain_at_def split: if_splits)
  have a: "nHeight (S a) = nHeight (S p) - int n"
    using anc_exists [OF assms(2,5)] assms(4) by auto
  have "v ! nat (nHeight (S a)) = anc S (nat (nHeight (S p)) - nat (nHeight (S a))) p"
    using h a by (intro chain_inv_anc [OF assms(1) h(3)]) auto
  also have "nat (nHeight (S p)) - nat (nHeight (S a)) = n" using a assms(5) by simp
  finally show ?thesis using h a assms(4,5) by (simp add: Contains_def chain_at_def)
qed

lemma fork_walk_correct:
  assumes "block_ok S p"
  obtains r where "fork_walk S v (Some p) = Some r"
    and "\<And>f. r = Some f \<Longrightarrow> \<exists>n. anc S n p = Some f \<and> int n \<le> nHeight (S p) \<and> Contains S v f \<and>
                 (\<forall>m < n. \<forall>a. anc S m p = Some a \<longrightarrow> \<not> Contains S v a)"
    and "r = None \<Longrightarrow> \<forall>m a. int m \<le> nHeight (S p) \<longrightarrow> anc S m p = Some a \<longrightarrow> \<not> Contains S v a"
proof -
  have "\<exists>r. fork_walk S v (Some p) = Some r \<and>
    (\<forall>f. r = Some f \<longrightarrow> (\<exists>n. anc S n p = Some f \<and> int n \<le> nHeight (S p) \<and> Contains S v f \<and>
                 (\<forall>m < n. \<forall>a. anc S m p = Some a \<longrightarrow> \<not> Contains S v a))) \<and>
    (r = None \<longrightarrow> (\<forall>m a. int m \<le> nHeight (S p) \<longrightarrow> anc S m p = Some a \<longrightarrow> \<not> Contains S v a))"
    using assms
  proof (induction "nat (nHeight (S p))" arbitrary: p)
    case 0
    then have h: "nHeight (S p) = 0" using block_ok_height [of S p] by simp
    then have "pprev (S p) = None" using block_ok_genesis [OF 0(2)] by simp
    with h show ?case
      by (auto simp: fork_walk.simps [of S v "Some p"] fork_walk.simps [of S v None]
          intro!: exI [of _ "0 :: nat"])
  next
    case (Suc k)
    then obtain q where q: "pprev (S p) = Some q" using block_ok_genesis [OF Suc(3)] by fastforce
    with Suc have okq: "block_ok S q" "nHeight (S p) = nHeight (S q) + 1" "k = nat (nHeight (S q))"
      using block_ok_prev [of S p q] by auto
    show ?case
    proof (cases "Contains S v p")
      case True
      then show ?thesis using block_ok_height [OF Suc(3)]
        by (auto simp: fork_walk.simps [of S v "Some p"] intro!: exI [of _ "0 :: nat"])
    next
      case False
      from Suc(1) [OF okq(3,1)] obtain r where r: "fork_walk S v (Some q) = Some r"
        "\<And>f. r = Some f \<Longrightarrow> (\<exists>n. anc S n q = Some f \<and> int n \<le> nHeight (S q) \<and> Contains S v f \<and>
                 (\<forall>m < n. \<forall>a. anc S m q = Some a \<longrightarrow> \<not> Contains S v a))"
        "r = None \<Longrightarrow> (\<forall>m a. int m \<le> nHeight (S q) \<longrightarrow> anc S m q = Some a \<longrightarrow> \<not> Contains S v a)"
        by blast
      have "fork_walk S v (Some p) = Some r"
        using False q r(1) by (simp add: fork_walk.simps [of S v "Some p"])
      moreover have "\<exists>n. anc S n p = Some f \<and> int n \<le> nHeight (S p) \<and> Contains S v f \<and>
                 (\<forall>m < n. \<forall>a. anc S m p = Some a \<longrightarrow> \<not> Contains S v a)" if f: "r = Some f" for f
      proof -
        from r(2) [OF f] obtain n where n: "anc S n q = Some f" "int n \<le> nHeight (S q)" "Contains S v f"
          "\<forall>m < n. \<forall>a. anc S m q = Some a \<longrightarrow> \<not> Contains S v a" by blast
        have "\<not> Contains S v a" if "m < Suc n" "anc S m p = Some a" for m a
          using that n(4) False q by (cases m) auto
        then show ?thesis using n q okq by (intro exI [of _ "Suc n"]) auto
      qed
      moreover have "\<not> Contains S v a" if "r = None" "int m \<le> nHeight (S p)" "anc S m p = Some a" for m a
        using r(3) [OF that(1)] that(2,3) False q okq(2) by (cases m) auto
      ultimately show ?thesis by blast
    qed
  qed
  then show thesis using that by blast
qed


lemma FindFork_correct:
  assumes "block_ok S p" and "chain_inv S v"
  obtains r where "FindFork S v (Some p) = Some r"
    and "\<And>f. r = Some f \<Longrightarrow> \<exists>n. anc S n p = Some f \<and> int n \<le> nHeight (S p) \<and> Contains S v f \<and>
                 (\<forall>m < n. \<forall>a. anc S m p = Some a \<longrightarrow> \<not> Contains S v a)"
    and "r = None \<Longrightarrow> \<forall>m a. int m \<le> nHeight (S p) \<longrightarrow> anc S m p = Some a \<longrightarrow> \<not> Contains S v a"
proof (cases "nHeight (S p) > Height v")
  case False
  then have "FindFork S v (Some p) = fork_walk S v (Some p)" by (simp add: FindFork_def)
  then show thesis using fork_walk_correct [OF assms(1), of v] that by metis
next
  case True
  have high: "\<not> Contains S v a" if "Height v < nHeight (S a)" for a
    using that by (auto simp: Contains_def chain_at_def Height_def split: if_splits)
  define k where "k = nat (nHeight (S p) - Height v)"
  show thesis
  proof (cases "Height v < 0")
    case neg: True
    then have "FindFork S v (Some p) = Some None"
      using True assms(1) by (simp add: FindFork_def GetAncestor_anc fork_walk.simps)
    moreover have "\<not> Contains S v a" for a
      using neg by (auto simp: Contains_def chain_at_def Height_def split: if_splits)
    ultimately show thesis by (intro that [of None]) auto
  next
    case nn: False
    then have k: "int k \<le> nHeight (S p)" "0 < k" using True by (simp_all add: k_def)
    obtain q where q: "anc S k p = Some q" "block_ok S q" "nHeight (S q) = nHeight (S p) - int k"
      using anc_exists [OF assms(1) k(1)] by blast
    have ff: "FindFork S v (Some p) = fork_walk S v (Some q)"
      using True nn assms(1) q(1) by (simp add: FindFork_def GetAncestor_anc k_def)
    have below: "\<not> Contains S v a" if "m < k" "anc S m p = Some a" for m a
    proof -
      have "nHeight (S a) = nHeight (S p) - int m"
        using anc_exists [OF assms(1), of m] that k by auto
      then show ?thesis using that nn True by (intro high) (simp add: k_def)
    qed
    obtain r where r: "fork_walk S v (Some q) = Some r"
      "\<And>f. r = Some f \<Longrightarrow> \<exists>n. anc S n q = Some f \<and> int n \<le> nHeight (S q) \<and> Contains S v f \<and>
                 (\<forall>m < n. \<forall>a. anc S m q = Some a \<longrightarrow> \<not> Contains S v a)"
      "r = None \<Longrightarrow> \<forall>m a. int m \<le> nHeight (S q) \<longrightarrow> anc S m q = Some a \<longrightarrow> \<not> Contains S v a"
      using fork_walk_correct [OF q(2), of v] by metis
    have shift: "anc S m p = anc S (m - k) q" if "k \<le> m" for m
      using that anc_add [of S k "m - k" p] q(1) by simp
    show thesis
    proof (rule that [of r])
      show "FindFork S v (Some p) = Some r" using ff r(1) by simp
    next
      fix f
      assume "r = Some f"
      from r(2) [OF this] obtain n where n: "anc S n q = Some f" "int n \<le> nHeight (S q)" "Contains S v f"
        "\<forall>m < n. \<forall>a. anc S m q = Some a \<longrightarrow> \<not> Contains S v a" by blast
      have "\<not> Contains S v a" if "m < k + n" "anc S m p = Some a" for m a
      proof (cases "m < k")
        case False
        then have "m - k < n" "anc S (m - k) q = Some a" using that shift by auto
        then show ?thesis using n(4) by blast
      qed (use that below in blast)
      then show "\<exists>n. anc S n p = Some f \<and> int n \<le> nHeight (S p) \<and> Contains S v f \<and>
                 (\<forall>m < n. \<forall>a. anc S m p = Some a \<longrightarrow> \<not> Contains S v a)"
        using n q shift [of "k + n"] by (intro exI [of _ "k + n"]) auto
    next
      assume "r = None"
      from r(3) [OF this] show "\<forall>m a. int m \<le> nHeight (S p) \<longrightarrow> anc S m p = Some a \<longrightarrow> \<not> Contains S v a"
        using below shift q(3) by (metis le_diff_eq not_le of_nat_diff diff_right_mono)
    qed
  qed
qed

section \<open>Locators\<close>

partial_function (option) locator_walk ::
  "store \<Rightarrow> CChain \<Rightarrow> bptr option \<Rightarrow> int \<Rightarrow> uint256 list \<Rightarrow> uint256 list option" where
  "locator_walk S vChain pindex nStep vHave =
     (case pindex of
        None \<Rightarrow> Some vHave
      | Some p \<Rightarrow>
          let vHave = vHave @ [phashBlock (S p)]
          in if nHeight (S p) = 0 then Some vHave
             else let h = max (nHeight (S p) - nStep) 0;
                      nStep' = (if length vHave > 10 then nStep * 2 else nStep)
                  in if Contains S vChain p then locator_walk S vChain (chain_at vChain h) nStep' vHave
                     else (case GetAncestor S p h of
                             Inl _ \<Rightarrow> None
                           | Inr a \<Rightarrow> locator_walk S vChain a nStep' vHave))"

definition GetLocator :: "store \<Rightarrow> CChain \<Rightarrow> bptr option \<Rightarrow> uint256 list option" where
  "GetLocator S vChain pindex =
     locator_walk S vChain (case pindex of None \<Rightarrow> Tip vChain | Some p \<Rightarrow> Some p) 1 []"

definition ancestor_hash :: "store \<Rightarrow> bptr \<Rightarrow> int \<Rightarrow> uint256" where
  "ancestor_hash S p h = phashBlock (S (the (anc S (nat (nHeight (S p) - h)) p)))"

lemma chain_step_anc:
  assumes "block_ok S p" and "chain_inv S v" and "Contains S v p" and "0 \<le> h" and "h \<le> nHeight (S p)"
  shows "chain_at v h = anc S (nat (nHeight (S p) - h)) p"
proof -
  have b: "nHeight (S p) < int (length v)" "v ! nat (nHeight (S p)) = Some p"
    using assms(1,3) by (auto simp: Contains_def chain_at_def split: if_splits)
  have "v ! nat h = anc S (nat (nHeight (S p)) - nat h) p"
    using b assms(4,5) by (intro chain_inv_anc [OF assms(2) b(2)]) auto
  then show ?thesis using b assms(4,5) by (simp add: chain_at_def nat_diff_distrib)
qed

lemma locator_walk_correct:
  assumes "block_ok S p" and "chain_inv S v" and "1 \<le> nStep"
  shows "\<exists>hs. locator_walk S v (Some p) nStep acc = Some (acc @ map (ancestor_hash S p) hs) \<and>
     hs \<noteq> [] \<and> hd hs = nHeight (S p) \<and> last hs = 0 \<and> sorted_wrt (>) hs"
  using assms
proof (induction "nat (nHeight (S p))" arbitrary: p nStep acc rule: less_induct)
  case less
  show ?case
  proof (cases "nHeight (S p) = 0")
    case True
    then show ?thesis
      by (intro exI [of _ "[0]"]) (simp add: locator_walk.simps [of S v "Some p"] ancestor_hash_def)
  next
    case False
    define h where "h = max (nHeight (S p) - nStep) 0"
    define st where "st = (if length (acc @ [phashBlock (S p)]) > 10 then nStep * 2 else nStep)"
    have pos: "0 < nHeight (S p)" using False block_ok_height [OF less(2)] by simp
    then have h: "0 \<le> h" "h < nHeight (S p)" using less(4) by (auto simp: h_def)
    have st: "1 \<le> st" using less(4) by (simp add: st_def)
    obtain q where q: "anc S (nat (nHeight (S p) - h)) p = Some q" "block_ok S q" "nHeight (S q) = h"
      using anc_exists [OF less(2), of "nat (nHeight (S p) - h)"] h by auto
    have "locator_walk S v (Some p) nStep acc = locator_walk S v (Some q) st (acc @ [phashBlock (S p)])"
      using False h q(1) chain_step_anc [OF less(2,3) _ h(1)] GetAncestor_anc [OF less(2), of h]
      by (simp add: locator_walk.simps [of S v "Some p"] Let_def flip: h_def st_def [simplified])
    moreover obtain hs where hs: "locator_walk S v (Some q) st (acc @ [phashBlock (S p)])
        = Some ((acc @ [phashBlock (S p)]) @ map (ancestor_hash S q) hs)"
        "hs \<noteq> []" "hd hs = h" "last hs = 0" "sorted_wrt (>) hs"
      using less(1) [of q st "acc @ [phashBlock (S p)]"] q h less(3) st by (metis nat_less_eq_zless)
    moreover have "ancestor_hash S q i = ancestor_hash S p i" if "i \<in> set hs" for i
    proof -
      have "i \<le> h" using hs(2,3,5) that by (cases hs) auto
      moreover have "nat (nHeight (S p) - i) = nat (nHeight (S p) - h) + nat (h - i)"
        using \<open>i \<le> h\<close> h by simp
      ultimately show ?thesis using q by (simp add: ancestor_hash_def anc_add)
    qed
    then have "map (ancestor_hash S q) hs = map (ancestor_hash S p) hs" by simp
    moreover have "sorted_wrt (>) (nHeight (S p) # hs)"
      using hs(2,3,5) h by (cases hs) auto
    ultimately show ?thesis
      using hs(2,4) by (intro exI [of _ "nHeight (S p) # hs"]) (simp add: ancestor_hash_def)
  qed
qed


section \<open>Searching the active chain by time\<close>

definition before_time :: "store \<Rightarrow> int \<Rightarrow> bptr option \<Rightarrow> bool" where
  "before_time S time e = (case e of Some p \<Rightarrow> GetBlockTimeMax (S p) < time | None \<Rightarrow> False)"

text \<open>\<open>std::lower_bound\<close> on the \<open>len\<close> entries from \<open>first\<close> on: a binary search.\<close>

function lower_bound :: "('a \<Rightarrow> bool) \<Rightarrow> 'a list \<Rightarrow> nat \<Rightarrow> nat \<Rightarrow> nat" where
  "lower_bound before xs first len =
     (if len = 0 then first
      else let half = len div 2; middle = first + half in
        if before (xs ! middle) then lower_bound before xs (middle + 1) (len - half - 1)
        else lower_bound before xs first half)"
  by pat_completeness auto
termination
  by (relation "measure (\<lambda>(before, xs, first, len). len)") auto

declare lower_bound.simps [simp del]

definition FindEarliestAtLeast :: "store \<Rightarrow> CChain \<Rightarrow> int \<Rightarrow> bptr option" where
  "FindEarliestAtLeast S vChain time =
     (let lower = lower_bound (before_time S time) vChain 0 (length vChain)
      in if lower = length vChain then None else vChain ! lower)"


text \<open>On a list whose elements with the property come first, the search finds where they end.\<close>

definition splits_at :: "('a \<Rightarrow> bool) \<Rightarrow> 'a list \<Rightarrow> nat \<Rightarrow> bool" where
  "splits_at before xs m \<longleftrightarrow> m \<le> length xs \<and> (\<forall>i < length xs. before (xs ! i) \<longleftrightarrow> i < m)"

lemma lower_bound_split:
  assumes "splits_at before xs m"
  shows "first \<le> m \<Longrightarrow> m \<le> first + len \<Longrightarrow> first + len \<le> length xs \<Longrightarrow> lower_bound before xs first len = m"
proof (induction len arbitrary: first rule: less_induct)
  case (less len)
  show ?case
  proof (cases "len = 0")
    case True
    then show ?thesis using less.prems by (subst lower_bound.simps) simp
  next
    case False
    define middle where "middle = first + len div 2"
    have "middle < length xs" using False less.prems(3) by (simp add: middle_def)
    then have split: "before (xs ! middle) \<longleftrightarrow> middle < m" using assms by (simp add: splits_at_def)
    have step: "lower_bound before xs first len =
        (if middle < m then lower_bound before xs (middle + 1) (len - len div 2 - 1) else lower_bound before xs first (len div 2))"
      using False split by (subst lower_bound.simps) (simp add: Let_def middle_def)
    show ?thesis
    proof (cases "middle < m")
      case True
      have "lower_bound before xs (middle + 1) (len - len div 2 - 1) = m"
        by (rule less.IH) (use True False less.prems in \<open>auto simp: middle_def\<close>)
      then show ?thesis using step True by simp
    next
      case no: False
      have "lower_bound before xs first (len div 2) = m" by (rule less.IH) (use no False less.prems in \<open>auto simp: middle_def\<close>)
      then show ?thesis using step no by simp
    qed
  qed
qed

text \<open>Along the chain \<open>nTimeMax\<close> does not decrease, each block taking the maximum of its own time and that of its predecessor.\<close>

lemma FindEarliestAtLeast_correct:
  assumes "chain_inv S v"
    and mono: "\<And>i j p q. i < j \<Longrightarrow> j < length v \<Longrightarrow> v ! i = Some p \<Longrightarrow> v ! j = Some q \<Longrightarrow> GetBlockTimeMax (S p) \<le> GetBlockTimeMax (S q)"
  shows "case FindEarliestAtLeast S v time of
      None \<Rightarrow> \<forall>p. Some p \<in> set v \<longrightarrow> GetBlockTimeMax (S p) < time
    | Some p \<Rightarrow> Contains S v p \<and> time \<le> GetBlockTimeMax (S p) \<and>
        (\<forall>q. Contains S v q \<and> nHeight (S q) < nHeight (S p) \<and> 0 \<le> nHeight (S q) \<longrightarrow>
             GetBlockTimeMax (S q) < time)"
proof -
  let ?n = "lower_bound (before_time S time) v 0 (length v)"
  have entry: "\<exists>p. v ! i = Some p \<and> nHeight (S p) = int i" if "i < length v" for i
    using assms(1) that by (auto simp: chain_inv_def entry_ok_def)
  have before: "before_time S time (v ! i)" if ij: "i < j" "j < length v" "before_time S time (v ! j)" for i j
  proof -
    obtain p q where "v ! i = Some p" "v ! j = Some q" using entry [of i] entry [of j] ij(1,2) by auto
    then show ?thesis using mono [OF ij(1,2), of p q] ij(3) by (simp add: before_time_def)
  qed
  let ?m = "length (takeWhile (before_time S time) v)"
  have "before_time S time (v ! i) \<longleftrightarrow> i < ?m" if "i < length v" for i
  proof (cases "i < ?m")
    case True
    then show ?thesis by (metis nth_mem set_takeWhileD takeWhile_nth)
  next
    case False
    then have "\<not> before_time S time (v ! ?m)" using that by (intro nth_length_takeWhile) simp
    then show ?thesis using False before [of ?m i] that by (cases "i = ?m") auto
  qed
  then have m: "splits_at (before_time S time) v ?m" by (simp add: splits_at_def length_takeWhile_le)
  then have "?n = ?m" by (intro lower_bound_split) (simp_all add: length_takeWhile_le)
  then have n: "?n \<le> length v" "\<And>i. i < length v \<Longrightarrow> before_time S time (v ! i) \<longleftrightarrow> i < ?n" using m by (simp_all add: splits_at_def)
  show ?thesis
  proof (cases "?n = length v")
    case True
    then have "\<forall>e \<in> set v. before_time S time e" using n(2) by (metis in_set_conv_nth)
    with True show ?thesis by (auto simp: FindEarliestAtLeast_def before_time_def Let_def split: option.splits)
  next
    case False
    then have lt: "?n < length v" using n(1) by simp
    then obtain p where p: "v ! ?n = Some p" "nHeight (S p) = int ?n" using entry by blast
    have c: "Contains S v p" using p lt by (simp add: Contains_def chain_at_def)
    have "time \<le> GetBlockTimeMax (S p)" using n(2) [OF lt] p(1) by (simp add: before_time_def)
    moreover have "GetBlockTimeMax (S q) < time"
      if "Contains S v q" "nHeight (S q) < nHeight (S p)" "0 \<le> nHeight (S q)" for q
    proof -
      have "nat (nHeight (S q)) < ?n" using that p(2) by simp
      then have "before_time S time (v ! nat (nHeight (S q)))" using n(2) lt by simp
      then show ?thesis using that by (auto simp: Contains_def chain_at_def before_time_def split: if_splits)
    qed
    ultimately show ?thesis using False p c by (auto simp: FindEarliestAtLeast_def Let_def)
  qed
qed

section \<open>Properties\<close>

definition ex_chain :: CChain where
  "ex_chain = [Some 0, Some 1]"

lemma ex_chain_inv: "chain_inv ex_store ex_chain"
  using ex_store_ok by (auto simp: chain_inv_def entry_ok_def ex_chain_def less_Suc_eq ex_store_def empty_block_def)

text \<open>
  C32. From any consistent chain, \<open>SetTip\<close> to a well-formed block terminates
  with a consistent chain that ends in that block: entry \<open>i\<close> is then the block's ancestor of
  height \<open>i\<close>, so \<open>Contains\<close> answers exactly "is an ancestor of the tip".
\<close>

theorem SetTip_establishes_chain:
  assumes "block_ok S p" and "chain_inv S v"
  shows "\<exists>v'. SetTip S (Some p) v = Some v' \<and> chain_inv S v' \<and> Tip v' = Some p \<and>
     Height v' = nHeight (S p) \<and>
     (\<forall>a. block_ok S a \<longrightarrow> Contains S v' a = (\<exists>n. int n \<le> nHeight (S p) \<and> anc S n p = Some a))"
proof -
  obtain v' where v': "SetTip S (Some p) v = Some v'" "chain_inv S v'" "Tip v' = Some p"
      "Height v' = nHeight (S p)"
    by (rule SetTip_correct [OF assms])
  have "nat (nHeight (S p)) = length v' - 1" using v'(4) by (simp add: Height_def)
  then have tip: "Contains S v' p"
    using v'(3,4) block_ok_height [OF assms(1)]
    by (auto simp: Contains_def chain_at_def Tip_def Height_def split: if_splits)
  have "Contains S v' a = (\<exists>n. int n \<le> nHeight (S p) \<and> anc S n p = Some a)" if "block_ok S a" for a
  proof
    assume c: "Contains S v' a"
    then have h: "0 \<le> nHeight (S a)" "nHeight (S a) \<le> nHeight (S p)"
      using block_ok_height [OF that] v'(4) by (auto simp: Contains_def chain_at_def Height_def split: if_splits)
    have "chain_at v' (nHeight (S a)) = anc S (nat (nHeight (S p) - nHeight (S a))) p"
      by (rule chain_step_anc [OF assms(1) v'(2) tip h])
    with c h show "\<exists>n. int n \<le> nHeight (S p) \<and> anc S n p = Some a"
      by (intro exI [of _ "nat (nHeight (S p) - nHeight (S a))"]) (simp add: Contains_def)
  next
    assume "\<exists>n. int n \<le> nHeight (S p) \<and> anc S n p = Some a"
    then show "Contains S v' a" using Contains_anc [OF v'(2) assms(1) tip] by blast
  qed
  with v' show ?thesis by blast
qed

theorem SetTip_establishes_chain_witness:
  "\<exists>v'. SetTip ex_store (Some 2) ex_chain = Some v' \<and> chain_inv ex_store v' \<and> Tip v' = Some 2"
  using SetTip_establishes_chain [OF ex_store_ok(3) ex_chain_inv] by blast

text \<open>
  \<open>FindFork\<close> terminates and returns the last common block: an ancestor of the
  argument that is in the chain while no later ancestor is, or \<open>NULL\<close> when no ancestor is.
\<close>

theorem FindFork_last_common:
  assumes "block_ok S p" and "chain_inv S v"
  shows "\<exists>r. FindFork S v (Some p) = Some r \<and>
    (case r of
       Some f \<Rightarrow> \<exists>n. anc S n p = Some f \<and> int n \<le> nHeight (S p) \<and> Contains S v f \<and>
                 (\<forall>m < n. \<forall>a. anc S m p = Some a \<longrightarrow> \<not> Contains S v a)
     | None \<Rightarrow> \<forall>m a. int m \<le> nHeight (S p) \<longrightarrow> anc S m p = Some a \<longrightarrow> \<not> Contains S v a)"
proof -
  obtain r where "FindFork S v (Some p) = Some r"
    and "\<And>f. r = Some f \<Longrightarrow> \<exists>n. anc S n p = Some f \<and> int n \<le> nHeight (S p) \<and> Contains S v f \<and>
                 (\<forall>m < n. \<forall>a. anc S m p = Some a \<longrightarrow> \<not> Contains S v a)"
    and "r = None \<Longrightarrow> \<forall>m a. int m \<le> nHeight (S p) \<longrightarrow> anc S m p = Some a \<longrightarrow> \<not> Contains S v a"
    using FindFork_correct [OF assms] by metis
  then show ?thesis by (intro exI [of _ r]) (cases r; simp)
qed

theorem FindFork_last_common_witness:
  "\<exists>r. FindFork ex_store ex_chain (Some 2) = Some r"
  using FindFork_last_common [OF ex_store_ok(3) ex_chain_inv] by blast

text \<open>
  \<open>GetLocator\<close> terminates; the locator lists hashes of ancestors of the block at
  strictly decreasing heights, starting with the block itself and ending with the genesis
  block, whether the steps go through the vector or through the skip list.
\<close>

theorem GetLocator_shape:
  assumes "block_ok S p" and "chain_inv S v"
  shows "\<exists>hs. GetLocator S v (Some p) = Some (map (ancestor_hash S p) hs) \<and>
     hs \<noteq> [] \<and> hd hs = nHeight (S p) \<and> last hs = 0 \<and> sorted_wrt (>) hs"
  using locator_walk_correct [OF assms, of 1 "[]"] by (simp add: GetLocator_def)

theorem GetLocator_shape_witness:
  "\<exists>hs. GetLocator ex_store ex_chain (Some 2) = Some (map (ancestor_hash ex_store 2) hs) \<and> hd hs = 2 \<and> last hs = 0"
  using GetLocator_shape [OF ex_store_ok(3) ex_chain_inv] by (auto simp: ex_store_def empty_block_def)

end
