(* ===== verification/Chain_Work.thy ===== *)
theory Chain_Work
  imports Chain_Index
begin

text \<open>
  Work and work-equivalent time, \<open>GetBlockProof\<close> and \<open>GetBlockProofEquivalentTime\<close> of
  \<open>src/src/chain.cpp\<close>. Both divide with \<open>operator/=\<close> of \<open>arith_uint256\<close>, whose exception on a
  zero divisor is the \<open>Inl\<close> branch. The work of a block is \<open>2 ^ 256 / (target + 1)\<close>, which
  the source computes as \<open>~target / (target + 1) + 1\<close> because \<open>2 ^ 256\<close> does not fit.
\<close>

section \<open>Work\<close>

definition GetBlockProof :: "CBlockIndex \<Rightarrow> uint_error + base_uint" where
  "GetBlockProof block =
     (let (bnTarget, fNegative, fOverflow) = SetCompact (nBits block)
      in if fNegative \<or> fOverflow \<or> EqualTo bnTarget 0 then Inr (of_u64 0)
         else (case div_uint (bnot bnTarget) (add bnTarget (of_u64 1)) of
                 Inl e \<Rightarrow> Inl e
               | Inr q \<Rightarrow> Inr (add q (of_u64 1))))"

definition int64_max :: int where
  "int64_max = 2 ^ 63 - 1"

definition GetBlockProofEquivalentTime ::
  "CBlockIndex \<Rightarrow> CBlockIndex \<Rightarrow> CBlockIndex \<Rightarrow> u64 \<Rightarrow> uint_error + int" where
  "GetBlockProofEquivalentTime to_b from_b tip nPowTargetSpacing =
     (let (r, sgn) = (if CompareTo (nChainWork to_b) (nChainWork from_b) > 0
                      then (sub (nChainWork to_b) (nChainWork from_b), 1)
                      else (sub (nChainWork from_b) (nChainWork to_b), -1))
      in case GetBlockProof tip of
           Inl e \<Rightarrow> Inl e
         | Inr pr \<Rightarrow>
             (case div_uint (mul r (of_u64 nPowTargetSpacing)) pr of
                Inl e \<Rightarrow> Inl e
              | Inr r \<Rightarrow> if bits r > 63 then Inr (sgn * int64_max)
                         else Inr (sgn * uint (GetLow64 r))))"

lemma target_work_arith:
  fixes t M :: nat
  assumes "t < M"
  shows "(M - 1 - t) div (t + 1) + 1 = M div (t + 1)"
proof -
  have "M = (M - 1 - t) + (t + 1)" using assms by simp
  then have "M div (t + 1) = ((M - 1 - t) + (t + 1)) div (t + 1)" by simp
  also have "\<dots> = (M - 1 - t) div (t + 1) + 1" by (simp only: div_add_self2)
  finally show ?thesis by simp
qed

lemma GetBlockProof_work:
  assumes "SetCompact (nBits b) = (t, fneg, ovf)"
  obtains w where "GetBlockProof b = Inr w" and "length w = 8"
    and "val w = (if fneg \<or> ovf \<or> val t = 0 then 0 else 2 ^ 256 div (val t + 1))"
proof (cases "fneg \<or> ovf \<or> val t = 0")
  case True
  have "length t = 8" using length_SetCompact [of "nBits b"] assms by simp
  then have "EqualTo t 0 \<longleftrightarrow> val t = 0" by (simp add: EqualTo_val)
  with True have "GetBlockProof b = Inr (of_u64 0)" using assms by (auto simp: GetBlockProof_def)
  with True show thesis by (intro that) auto
next
  case False
  have len: "length t = 8" using length_SetCompact [of "nBits b"] assms by simp
  have small: "val t + 1 < 2 ^ 256" using SetCompact_not_max [of "nBits b"] assms by simp
  then have t1: "length (add t (of_u64 1)) = 8" "val (add t (of_u64 1)) = val t + 1"
    using u256.plus_law [of t "of_u64 1"] len by auto
  have nt: "length (bnot t) = 8" "val (bnot t) = 2 ^ 256 - 1 - val t"
    using val_bnot [of t] len by simp_all
  obtain q where q: "div_uint (bnot t) (add t (of_u64 1)) = Inr q" "length q = 8"
      "val q = (2 ^ 256 - 1 - val t) div (val t + 1)"
    using u256.quot_law [OF nt(1) t1(1)] t1(2) nt(2) by auto
  have "val q + 1 = 2 ^ 256 div (val t + 1)"
    unfolding q(3) using small by (intro target_work_arith) linarith
  moreover have "2 ^ 256 div (val t + 1) \<le> 2 ^ 256 div 2"
    using False by (intro div_le_mono2) auto
  ultimately have "val (add q (of_u64 1)) = 2 ^ 256 div (val t + 1)"
    using u256.plus_law [of q "of_u64 1"] q(2) by simp
  moreover have "GetBlockProof b = Inr (add q (of_u64 1))"
    using assms False q(1) len by (simp add: GetBlockProof_def EqualTo_val)
  ultimately show thesis using False q(2) by (intro that) simp_all
qed

lemma GetBlockProofEquivalentTime_value:
  assumes "length (nChainWork a) = 8" and "length (nChainWork b) = 8"
    and "GetBlockProof tip = Inr pr" and "val pr \<noteq> 0" and "length pr = 8"
    and "nat \<bar>int (val (nChainWork a)) - int (val (nChainWork b))\<bar> * unat sp < 2 ^ 256"
  shows "GetBlockProofEquivalentTime a b tip sp = Inr
     ((if val (nChainWork b) < val (nChainWork a) then 1 else -1) *
        (let q = nat \<bar>int (val (nChainWork a)) - int (val (nChainWork b))\<bar> * unat sp div val pr
         in if q < 2 ^ 63 then int q else int64_max))"
proof -
  let ?a = "nChainWork a" and ?b = "nChainWork b"
  define d where "d = nat \<bar>int (val ?a) - int (val ?b)\<bar>"
  define r where "r = (if CompareTo ?a ?b > 0 then sub ?a ?b else sub ?b ?a)"
  have cmp: "CompareTo ?a ?b > 0 \<longleftrightarrow> val ?b < val ?a" using assms(1,2) by (simp add: CompareTo_gt)
  have r: "length r = 8" "val r = d"
    using assms(1,2) cmp by (auto simp: r_def d_def val_sub_le)
  have m: "length (mul r (of_u64 sp)) = 8" "val (mul r (of_u64 sp)) = d * unat sp"
    using u256.times_law [of r "of_u64 sp"] r assms(6) by (simp_all add: d_def [symmetric])
  obtain q where q: "div_uint (mul r (of_u64 sp)) pr = Inr q" "length q = 8" "val q = d * unat sp div val pr"
    using u256.quot_law [OF m(1) assms(5,4)] m(2) by auto
  have "bits q > 63 \<longleftrightarrow> 2 ^ 63 \<le> val q"
  proof
    assume "63 < bits q"
    then have "(2 :: nat) ^ 63 \<le> 2 ^ (bits q - 1)" by (intro power_increasing) simp_all
    also have "\<dots> \<le> val q" using \<open>63 < bits q\<close> by (intro bits_lower) simp
    finally show "2 ^ 63 \<le> val q" .
  next
    assume "2 ^ 63 \<le> val q"
    then have "(2 :: nat) ^ 63 < 2 ^ bits q" using bits_upper [of q] by (rule le_less_trans)
    then show "63 < bits q" by (rule power_less_imp_less_exp [rotated]) simp
  qed
  moreover have "uint (GetLow64 q) = int (val q)" if "val q < 2 ^ 63"
  proof -
    have "unat (GetLow64 q) = val q" using unat_GetLow64 [of q] q(2) that by simp
    then show ?thesis by (metis uint_nat)
  qed
  ultimately show ?thesis
    using q assms(3) cmp
    by (auto simp: GetBlockProofEquivalentTime_def Let_def r_def d_def not_less split: if_splits)
qed


section \<open>Properties\<close>

text \<open>
  The work of a block is \<open>2 ^ 256 div (target + 1)\<close>, and 0 for a target
  that is negative, overflowing or zero; the division never throws.
\<close>

theorem GetBlockProof_is_work:
  assumes "SetCompact (nBits b) = (t, fneg, fovf)"
  shows "\<exists>w. GetBlockProof b = Inr w \<and> valid256 w \<and>
     val w = (if fneg \<or> fovf \<or> val t = 0 then 0 else 2 ^ 256 div (val t + 1))"
  using GetBlockProof_work [OF assms] by (metis valid256_def WIDTH_def)

theorem GetBlockProof_is_work_witness:
  "\<exists>w. GetBlockProof (empty_block\<lparr>nBits := 0x01010000\<rparr>) = Inr w \<and> val w = 2 ^ 256 div 2"
proof -
  have s: "SetCompact (nBits (empty_block\<lparr>nBits := 0x01010000\<rparr>)) = (of_u64 1, False, False)"
    by (simp add: SetCompact_def empty_block_def Let_def)
  have v: "(if False \<or> False \<or> val (of_u64 1) = 0 then 0 else 2 ^ 256 div (val (of_u64 1) + 1)) = (2 ^ 256 div 2 :: nat)"
    by (simp add: numeral_2_eq_2 [symmetric] del: One_nat_def)
  from GetBlockProof_is_work [OF s] show ?thesis unfolding v by blast
qed

end
