(* ===== verification/Consensus_Params.thy ===== *)
theory Consensus_Params
  imports Chain_Index
begin

text \<open>
  The chain parameters of \<open>src/src/consensus/params.h\<close> that the modelled code reads, and the
  constants of \<open>versionbits.h\<close>. \<open>int64_t\<close> and \<open>int\<close> fields are integers, narrowed by \<open>i32\<close>
  where the code stores them into a smaller type; unsigned fields are words.
  \<open>fProdChain\<close> stands for \<open>Params().NetworkIDString() == "main"\<close>.
\<close>

record BIP9Deployment =
  bit_pos :: int
  nStartTime :: int
  nTimeout :: int
  nWindowSize :: int
  nThreshold :: int

record Params =
  nRuleChangeActivationThreshold :: u32
  nMinerConfirmationWindow :: u32
  vDeployments :: "BIP9Deployment list"
  powLimit :: uint256
  fPowAllowMinDifficultyBlocks :: bool
  fPowNoRetargeting :: bool
  nPowTargetSpacing :: int
  nPowTargetTimespan :: int
  F11000_CUTOVER_HEIGHT :: int
  F12000_CUTOVER_HEIGHT :: int
  F13000_CUTOVER_HEIGHT :: int
  EVOLUTION_CUTOVER_HEIGHT :: int
  ANTI_GPU_HEIGHT :: int
  RANDOMX_HEIGHT :: int
  POOM_PHASEOUT_HEIGHT :: int
  fProdChain :: bool
  DIP0001Height :: int
  DIP0003Height :: int

definition MAX_VERSION_BITS_DEPLOYMENTS :: nat where
  "MAX_VERSION_BITS_DEPLOYMENTS = 6"

definition DifficultyAdjustmentInterval :: "Params \<Rightarrow> int" where
  "DifficultyAdjustmentInterval params = cdiv (nPowTargetTimespan params) (nPowTargetSpacing params)"

definition VERSIONBITS_TOP_BITS_LEGACY :: u32 where
  "VERSIONBITS_TOP_BITS_LEGACY = 0x20000000"

definition VERSIONBITS_TOP_BITS :: u32 where
  "VERSIONBITS_TOP_BITS = 0x50000000"

definition VERSIONBITS_TOP_MASK :: u32 where
  "VERSIONBITS_TOP_MASK = 0xE0000000"

text \<open>
  The values that \<open>CMainParams\<close> of \<open>chainparams.cpp\<close> gives to these fields, except that the
  deployments have a window of two blocks, so that examples stay small.
\<close>

definition ex_params :: Params where
  "ex_params = \<lparr>nRuleChangeActivationThreshold = 21600, nMinerConfirmationWindow = 2016,
     vDeployments = replicate 6 \<lparr>bit_pos = 1, nStartTime = 15, nTimeout = 100, nWindowSize = 2, nThreshold = 1\<rparr>,
     powLimit = replicate 32 0xff,
     fPowAllowMinDifficultyBlocks = False, fPowNoRetargeting = False,
     nPowTargetSpacing = 420, nPowTargetTimespan = 86400,
     F11000_CUTOVER_HEIGHT = 33440, F12000_CUTOVER_HEIGHT = 35110, F13000_CUTOVER_HEIGHT = 57700,
     EVOLUTION_CUTOVER_HEIGHT = 123200, ANTI_GPU_HEIGHT = 170830, RANDOMX_HEIGHT = 184675, POOM_PHASEOUT_HEIGHT = 199000,
     fProdChain = True, DIP0001Height = 280000, DIP0003Height = 133891\<rparr>"

end
