(* ===== verification/Version_Bits.thy ===== *)
theory Version_Bits
  imports Consensus_Params
begin

text \<open>
  Version-bits deployments: \<open>src/src/versionbits.cpp\<close>, \<open>versionbits.h\<close> and
  \<open>ComputeBlockVersion\<close> of \<open>validation.cpp\<close>.

  The abstract class \<open>AbstractThresholdConditionChecker\<close> is the record \<open>checker\<close> of its five
  virtual methods; \<open>VersionBitsConditionChecker\<close> fills it. The condition cache is a partial map
  from block pointers (\<open>None\<close> for \<open>NULL\<close>) to states, and every operation returns the updated
  cache. The loops of \<open>GetStateFor\<close> end only because heights go down, so they are
  \<open>partial_function\<close>s, and the theorems state that they return.

  \<open>bip9\<close> is the specification: the state after so many whole periods of a branch, computed
  from the first one on, without a cache and without the shortcut for blocks that are before
  the start time. \<open>cache_ok\<close> says that a cache holds only states that \<open>bip9\<close> gives.
\<close>

section \<open>The checker and its cache\<close>

datatype ThresholdState =
    THRESHOLD_DEFINED | THRESHOLD_STARTED | THRESHOLD_LOCKED_IN | THRESHOLD_ACTIVE | THRESHOLD_FAILED

record checker =
  Condition :: "store \<Rightarrow> bptr \<Rightarrow> bool"
  BeginTime :: int
  EndTime :: int
  Period :: int
  Threshold :: int

type_synonym ThresholdConditionCache = "bptr option \<Rightarrow> ThresholdState option"

fun count_window :: "store \<Rightarrow> checker \<Rightarrow> nat \<Rightarrow> bptr option \<Rightarrow> int \<Rightarrow> chain_error + int" where
  "count_window S ck 0 pindexCount nCount = Inr nCount"
| "count_window S ck (Suc i) None nCount = Inl NullDereference"
| "count_window S ck (Suc i) (Some p) nCount =
     count_window S ck i (pprev (S p)) (if Condition ck S p then nCount + 1 else nCount)"

definition next_state :: "store \<Rightarrow> checker \<Rightarrow> bptr \<Rightarrow> ThresholdState \<Rightarrow> chain_error + ThresholdState" where
  "next_state S ck p state =
     (case state of
        THRESHOLD_DEFINED \<Rightarrow>
          Inr (if GetMedianTimePast S p \<ge> EndTime ck then THRESHOLD_FAILED
               else if GetMedianTimePast S p \<ge> BeginTime ck then THRESHOLD_STARTED
               else state)
      | THRESHOLD_STARTED \<Rightarrow>
          (if GetMedianTimePast S p \<ge> EndTime ck then Inr THRESHOLD_FAILED
           else case count_window S ck (nat (Period ck)) (Some p) 0 of
                  Inl e \<Rightarrow> Inl e
                | Inr nCount \<Rightarrow> Inr (if nCount \<ge> Threshold ck then THRESHOLD_LOCKED_IN else state))
      | THRESHOLD_LOCKED_IN \<Rightarrow> Inr THRESHOLD_ACTIVE
      | THRESHOLD_FAILED \<Rightarrow> Inr state
      | THRESHOLD_ACTIVE \<Rightarrow> Inr state)"

text \<open>
  The backward walk. \<open>vToCompute\<close> is kept with its back at the head of the list, where
  \<open>push_back\<close> and \<open>pop_back\<close> work.
\<close>

partial_function (option) walk_back ::
    "store \<Rightarrow> checker \<Rightarrow> bptr option \<Rightarrow> ThresholdConditionCache \<Rightarrow> bptr list \<Rightarrow>
     (chain_error + bptr option \<times> ThresholdConditionCache \<times> bptr list) option" where
  "walk_back S ck pindexPrev cache vToCompute =
     (if cache pindexPrev \<noteq> None then Some (Inr (pindexPrev, cache, vToCompute))
      else case pindexPrev of
             None \<Rightarrow> Some (Inr (None, cache(None \<mapsto> THRESHOLD_DEFINED), vToCompute))
           | Some p \<Rightarrow>
               (if GetMedianTimePast S p < BeginTime ck
                then Some (Inr (Some p, cache(Some p \<mapsto> THRESHOLD_DEFINED), vToCompute))
                else case GetAncestor S p (nHeight (S p) - Period ck) of
                       Inl e \<Rightarrow> Some (Inl e)
                     | Inr a \<Rightarrow> walk_back S ck a cache (p # vToCompute)))"

fun walk_forward ::
    "store \<Rightarrow> checker \<Rightarrow> ThresholdState \<Rightarrow> ThresholdConditionCache \<Rightarrow> bptr list \<Rightarrow>
     chain_error + ThresholdState \<times> ThresholdConditionCache" where
  "walk_forward S ck state cache [] = Inr (state, cache)"
| "walk_forward S ck state cache (p # vToCompute) =
     (case next_state S ck p state of
        Inl e \<Rightarrow> Inl e
      | Inr stateNext \<Rightarrow> walk_forward S ck stateNext (cache(Some p \<mapsto> stateNext)) vToCompute)"

definition period_parent :: "store \<Rightarrow> checker \<Rightarrow> bptr \<Rightarrow> chain_error + bptr option" where
  "period_parent S ck p = GetAncestor S p (nHeight (S p) - cmod (nHeight (S p) + 1) (Period ck))"

definition GetStateFor ::
    "store \<Rightarrow> checker \<Rightarrow> bptr option \<Rightarrow> ThresholdConditionCache \<Rightarrow>
     (chain_error + ThresholdState \<times> ThresholdConditionCache) option" where
  "GetStateFor S ck pindexPrev cache =
     (case (case pindexPrev of None \<Rightarrow> Inr None | Some p \<Rightarrow> period_parent S ck p) of
        Inl e \<Rightarrow> Some (Inl e)
      | Inr q \<Rightarrow>
          (case walk_back S ck q cache [] of
             None \<Rightarrow> None
           | Some (Inl e) \<Rightarrow> Some (Inl e)
           | Some (Inr (r, cache', vToCompute)) \<Rightarrow>
               (case cache' r of
                  None \<Rightarrow> Some (Inl AssertFailed)
                | Some state \<Rightarrow> Some (walk_forward S ck state cache' vToCompute))))"

text \<open>The loop of \<open>GetStateSinceHeightFor\<close>.\<close>

partial_function (option) since_walk ::
    "store \<Rightarrow> checker \<Rightarrow> ThresholdState \<Rightarrow> bptr \<Rightarrow> bptr option \<Rightarrow> ThresholdConditionCache \<Rightarrow>
     (chain_error + int \<times> ThresholdConditionCache) option" where
  "since_walk S ck initialState pindexPrev previousPeriodParent cache =
     (case previousPeriodParent of
        None \<Rightarrow> Some (Inr (nHeight (S pindexPrev) + 1, cache))
      | Some q \<Rightarrow>
          (case GetStateFor S ck (Some q) cache of
             None \<Rightarrow> None
           | Some (Inl e) \<Rightarrow> Some (Inl e)
           | Some (Inr (st, cache')) \<Rightarrow>
               (if st = initialState then
                  (case GetAncestor S q (nHeight (S q) - Period ck) of
                     Inl e \<Rightarrow> Some (Inl e)
                   | Inr a \<Rightarrow> since_walk S ck initialState q a cache')
                else Some (Inr (nHeight (S pindexPrev) + 1, cache')))))"

definition GetStateSinceHeightFor ::
    "store \<Rightarrow> checker \<Rightarrow> bptr option \<Rightarrow> ThresholdConditionCache \<Rightarrow>
     (chain_error + int \<times> ThresholdConditionCache) option" where
  "GetStateSinceHeightFor S ck pindexPrev cache =
     (case GetStateFor S ck pindexPrev cache of
        None \<Rightarrow> None
      | Some (Inl e) \<Rightarrow> Some (Inl e)
      | Some (Inr (initialState, cache')) \<Rightarrow>
          (if initialState = THRESHOLD_DEFINED then Some (Inr (0, cache'))
           else case pindexPrev of
                  None \<Rightarrow> Some (Inl NullDereference)
                | Some p \<Rightarrow>
                    (case period_parent S ck p of
                       Inl e \<Rightarrow> Some (Inl e)
                     | Inr None \<Rightarrow> Some (Inl NullDereference)
                     | Inr (Some q) \<Rightarrow>
                         (case GetAncestor S q (nHeight (S q) - Period ck) of
                            Inl e \<Rightarrow> Some (Inl e)
                          | Inr a \<Rightarrow> since_walk S ck initialState q a cache'))))"

partial_function (option) count_until :: "store \<Rightarrow> checker \<Rightarrow> bptr option \<Rightarrow> int \<Rightarrow> int \<Rightarrow> int option" where
  "count_until S ck pindexCount nStopHeight nCount =
     (case pindexCount of
        None \<Rightarrow> Some nCount
      | Some p \<Rightarrow>
          (if nHeight (S p) \<noteq> nStopHeight
           then count_until S ck (pprev (S p)) nStopHeight (if Condition ck S p then nCount + 1 else nCount)
           else Some nCount))"

definition CountBlocksInWindow :: "store \<Rightarrow> checker \<Rightarrow> bptr \<Rightarrow> int option" where
  "CountBlocksInWindow S ck p =
     count_until S ck (Some p) (nHeight (S p) - cmod (nHeight (S p)) (Period ck) - 1) 0"

section \<open>Version bits\<close>

definition Mask :: "Params \<Rightarrow> nat \<Rightarrow> u32" where
  "Mask params pos = push_bit (nat (bit_pos (vDeployments params ! pos))) 1"

definition VersionBitsConditionChecker :: "Params \<Rightarrow> nat \<Rightarrow> checker" where
  "VersionBitsConditionChecker params pos =
     (let d = vDeployments params ! pos in
      \<lparr>Condition = (\<lambda>S p. nVersion (S p) AND VERSIONBITS_TOP_MASK = VERSIONBITS_TOP_BITS \<and>
                          nVersion (S p) AND Mask params pos \<noteq> 0),
       BeginTime = nStartTime d,
       EndTime = nTimeout d,
       Period = (if nWindowSize d \<noteq> 0 then i32 (nWindowSize d)
                 else i32 (uint (nMinerConfirmationWindow params))),
       Threshold = (if nThreshold d \<noteq> 0 then i32 (nThreshold d)
                    else i32 (uint (nRuleChangeActivationThreshold params)))\<rparr>)"

type_synonym VersionBitsCache = "ThresholdConditionCache list"

definition VersionBitsState ::
    "store \<Rightarrow> bptr option \<Rightarrow> Params \<Rightarrow> nat \<Rightarrow> VersionBitsCache \<Rightarrow>
     (chain_error + ThresholdState \<times> VersionBitsCache) option" where
  "VersionBitsState S pindexPrev params pos caches =
     (case GetStateFor S (VersionBitsConditionChecker params pos) pindexPrev (caches ! pos) of
        None \<Rightarrow> None
      | Some (Inl e) \<Rightarrow> Some (Inl e)
      | Some (Inr (state, cache)) \<Rightarrow> Some (Inr (state, caches[pos := cache])))"

definition VersionBitsStateSinceHeight ::
    "store \<Rightarrow> bptr option \<Rightarrow> Params \<Rightarrow> nat \<Rightarrow> VersionBitsCache \<Rightarrow>
     (chain_error + int \<times> VersionBitsCache) option" where
  "VersionBitsStateSinceHeight S pindexPrev params pos caches =
     (case GetStateSinceHeightFor S (VersionBitsConditionChecker params pos) pindexPrev (caches ! pos) of
        None \<Rightarrow> None
      | Some (Inl e) \<Rightarrow> Some (Inl e)
      | Some (Inr (h, cache)) \<Rightarrow> Some (Inr (h, caches[pos := cache])))"

definition VersionBitsCountBlocksInWindow :: "store \<Rightarrow> bptr \<Rightarrow> Params \<Rightarrow> nat \<Rightarrow> int option" where
  "VersionBitsCountBlocksInWindow S p params pos =
     CountBlocksInWindow S (VersionBitsConditionChecker params pos) p"

definition Clear :: "VersionBitsCache \<Rightarrow> VersionBitsCache" where
  "Clear caches = map (\<lambda>_. Map.empty) caches"

text \<open>
  The flag \<open>fCheckMasternodesUpgraded\<close> guards an empty block in the source and is left out.
\<close>

fun version_loop ::
    "store \<Rightarrow> bptr \<Rightarrow> Params \<Rightarrow> nat list \<Rightarrow> u32 \<Rightarrow> VersionBitsCache \<Rightarrow>
     (chain_error + u32 \<times> VersionBitsCache) option" where
  "version_loop S p params [] nVers caches = Some (Inr (nVers, caches))"
| "version_loop S p params (i # is) nVers caches =
     (case VersionBitsState S (Some p) params i caches of
        None \<Rightarrow> None
      | Some (Inl e) \<Rightarrow> Some (Inl e)
      | Some (Inr (state, caches')) \<Rightarrow>
          version_loop S p params is
            (if state = THRESHOLD_LOCKED_IN \<or> state = THRESHOLD_STARTED
             then nVers OR Mask params i else nVers) caches')"

definition ComputeBlockVersion ::
    "store \<Rightarrow> bptr \<Rightarrow> Params \<Rightarrow> VersionBitsCache \<Rightarrow> (chain_error + u32 \<times> VersionBitsCache) option" where
  "ComputeBlockVersion S p params caches =
     version_loop S p params [0..<MAX_VERSION_BITS_DEPLOYMENTS]
       (if nHeight (S p) < RANDOMX_HEIGHT params then VERSIONBITS_TOP_BITS_LEGACY
        else VERSIONBITS_TOP_BITS) caches"

section \<open>The specification\<close>

definition signals :: "store \<Rightarrow> checker \<Rightarrow> bptr \<Rightarrow> nat \<Rightarrow> int" where
  "signals S ck p n =
     int (length (filter (\<lambda>i. case anc S i p of None \<Rightarrow> False | Some q \<Rightarrow> Condition ck S q) [0..<n]))"

definition spec_next :: "store \<Rightarrow> checker \<Rightarrow> bptr \<Rightarrow> ThresholdState \<Rightarrow> ThresholdState" where
  "spec_next S ck p state =
     (let mtp = GetMedianTimePast S p in
      case state of
        THRESHOLD_DEFINED \<Rightarrow> if EndTime ck \<le> mtp then THRESHOLD_FAILED
                             else if BeginTime ck \<le> mtp then THRESHOLD_STARTED else THRESHOLD_DEFINED
      | THRESHOLD_STARTED \<Rightarrow> if EndTime ck \<le> mtp then THRESHOLD_FAILED
                             else if Threshold ck \<le> signals S ck p (nat (Period ck)) then THRESHOLD_LOCKED_IN
                             else THRESHOLD_STARTED
      | THRESHOLD_LOCKED_IN \<Rightarrow> THRESHOLD_ACTIVE
      | THRESHOLD_ACTIVE \<Rightarrow> THRESHOLD_ACTIVE
      | THRESHOLD_FAILED \<Rightarrow> THRESHOLD_FAILED)"

fun bip9 :: "store \<Rightarrow> checker \<Rightarrow> bptr \<Rightarrow> nat \<Rightarrow> ThresholdState" where
  "bip9 S ck p 0 = THRESHOLD_DEFINED"
| "bip9 S ck p (Suc k) =
     (case lookup_anc S p (Period ck * (int k + 1) - 1) of
        None \<Rightarrow> THRESHOLD_DEFINED
      | Some q \<Rightarrow> spec_next S ck q (bip9 S ck p k))"

definition spec_state :: "store \<Rightarrow> checker \<Rightarrow> bptr option \<Rightarrow> ThresholdState" where
  "spec_state S ck pindexPrev =
     (case pindexPrev of
        None \<Rightarrow> THRESHOLD_DEFINED
      | Some p \<Rightarrow> bip9 S ck p (nat ((nHeight (S p) + 1) div Period ck)))"

definition cache_ok :: "store \<Rightarrow> checker \<Rightarrow> ThresholdConditionCache \<Rightarrow> bool" where
  "cache_ok S ck cache \<longleftrightarrow>
     (\<forall>p s. cache p = Some s \<longrightarrow> s = spec_state S ck p \<and>
        (\<forall>q. p = Some q \<longrightarrow> block_ok S q \<and> (nHeight (S q) + 1) mod Period ck = 0))"

definition times_ok :: "store \<Rightarrow> bptr \<Rightarrow> bool" where
  "times_ok S p \<longleftrightarrow>
     (\<forall>n q r. anc S n p = Some q \<longrightarrow> pprev (S q) = Some r \<longrightarrow> GetMedianTimePast S r < GetBlockTime (S q))"

lemma signals_Suc:
  "pprev (S p) = Some q \<Longrightarrow>
     signals S ck p (Suc n) = (if Condition ck S p then 1 else 0) + signals S ck q n"
  by (simp add: signals_def upt_conv_Cons filter_map o_def map_Suc_upt [symmetric] del: upt_Suc)

lemma signals_1: "signals S ck p (Suc 0) = (if Condition ck S p then 1 else 0)"
  by (simp add: signals_def)

lemma count_window_signals:
  "block_ok S p \<Longrightarrow> int n \<le> nHeight (S p) + 1 \<Longrightarrow>
     count_window S ck n (Some p) c = Inr (c + signals S ck p n)"
proof (induction n arbitrary: p c)
  case 0
  then show ?case by (simp add: signals_def)
next
  case (Suc n)
  show ?case
  proof (cases n)
    case 0
    then show ?thesis by (simp add: signals_1)
  next
    case (Suc m)
    with Suc.prems obtain q where q: "pprev (S p) = Some q"
      using block_ok_genesis [of S p] by fastforce
    with Suc.prems have "block_ok S q" "nHeight (S p) = nHeight (S q) + 1"
      using block_ok_prev by auto
    with Suc.IH [of q] Suc.prems(2) q show ?thesis by (simp add: signals_Suc)
  qed
qed

lemma next_state_spec:
  assumes "block_ok S p" and "Period ck \<le> nHeight (S p) + 1"
  shows "next_state S ck p st = Inr (spec_next S ck p st)"
proof -
  have "int (nat (Period ck)) \<le> nHeight (S p) + 1" using assms block_ok_height [of S p] by simp
  then have "count_window S ck (nat (Period ck)) (Some p) 0 = Inr (signals S ck p (nat (Period ck)))"
    using count_window_signals [OF assms(1)] by simp
  then show ?thesis by (cases st) (simp_all add: next_state_def spec_next_def Let_def)
qed

lemma lookup_is_anc:
  "block_ok S p \<Longrightarrow> lookup_anc S p h = Some q \<Longrightarrow> anc S (nat (nHeight (S p) - h)) p = Some q"
  by (auto simp: lookup_anc_def GetAncestor_anc split: if_splits)

lemma times_ok_lookup:
  assumes "block_ok S p" and "times_ok S p" and "lookup_anc S p h = Some q"
  shows "times_ok S q"
  unfolding times_ok_def
proof (intro allI impI)
  fix n r s
  assume "anc S n q = Some r" and r: "pprev (S r) = Some s"
  then have "anc S (nat (nHeight (S p) - h) + n) p = Some r"
    using lookup_is_anc [OF assms(1,3)] by (simp add: anc_add)
  with r assms(2) show "GetMedianTimePast S s < GetBlockTime (S r)" unfolding times_ok_def by blast
qed

lemma median_time_ancestor:
  "times_ok S p \<Longrightarrow> anc S n p = Some q \<Longrightarrow> GetMedianTimePast S q \<le> GetMedianTimePast S p"
proof (induction n arbitrary: q)
  case 0
  then show ?case by simp
next
  case (Suc n)
  have "anc S (n + 1) p = Some q" using Suc.prems by simp
  then obtain r where r: "anc S n p = Some r" "pprev (S r) = Some q"
    unfolding anc_add by (auto split: option.splits)
  then have "GetMedianTimePast S q < GetBlockTime (S r)" using Suc.prems unfolding times_ok_def by blast
  with GetMedianTimePast_mono [of S r q] r(2) Suc.IH [OF Suc.prems(1) r(1)] show ?case by simp
qed

lemma bip9_ancestor:
  assumes "block_ok S p" and "lookup_anc S p h = Some q" and "0 < Period ck"
  shows "Period ck * int k - 1 \<le> h \<Longrightarrow> bip9 S ck q k = bip9 S ck p k"
proof (induction k)
  case 0
  then show ?case by simp
next
  case (Suc k)
  have "Period ck * int k - 1 \<le> h" using Suc.prems assms(3) by (simp add: algebra_simps)
  moreover have "lookup_anc S q (Period ck * (int k + 1) - 1) = lookup_anc S p (Period ck * (int k + 1) - 1)"
    using Suc.prems by (intro idx.look_look [OF assms(1,2)]) (simp add: algebra_simps)
  ultimately show ?case using Suc.IH by (simp split: option.split)
qed

lemma bip9_before_start:
  assumes "block_ok S p" and "times_ok S p" and "BeginTime ck \<le> EndTime ck"
    and "GetMedianTimePast S p < BeginTime ck"
  shows "bip9 S ck p k = THRESHOLD_DEFINED"
proof (induction k)
  case (Suc k)
  have "GetMedianTimePast S q < BeginTime ck" if "lookup_anc S p h = Some q" for h q
    using median_time_ancestor [OF assms(2) lookup_is_anc [OF assms(1) that]] assms(4) by simp
  with Suc assms(3) show ?case by (fastforce simp: spec_next_def Let_def split: option.split)
qed simp

section \<open>The cached computation\<close>

definition aligned :: "store \<Rightarrow> checker \<Rightarrow> bptr \<Rightarrow> bool" where
  "aligned S ck p \<longleftrightarrow> block_ok S p \<and> times_ok S p \<and> (nHeight (S p) + 1) mod Period ck = 0"

definition period_prev :: "store \<Rightarrow> checker \<Rightarrow> bptr \<Rightarrow> bptr option" where
  "period_prev S ck p = lookup_anc S p (nHeight (S p) - Period ck)"

fun period_path :: "store \<Rightarrow> checker \<Rightarrow> bptr option \<Rightarrow> bptr list \<Rightarrow> bptr option \<Rightarrow> bool" where
  "period_path S ck r [] p \<longleftrightarrow> r = p"
| "period_path S ck r (v # vs) p \<longleftrightarrow> aligned S ck v \<and> period_prev S ck v = r \<and> period_path S ck (Some v) vs p"

lemma period_path_snoc:
  "period_path S ck r vs (period_prev S ck p) \<Longrightarrow> aligned S ck p \<Longrightarrow> period_path S ck r (vs @ [p]) (Some p)"
  by (induction vs arbitrary: r) auto

lemma aligned_Period:
  assumes "aligned S ck p" and "0 < Period ck"
  obtains k where "nHeight (S p) + 1 = Period ck * (int k + 1)"
proof -
  from assms obtain j where j: "nHeight (S p) + 1 = Period ck * j" by (auto simp: aligned_def dvd_eq_mod_eq_0 [symmetric])
  have "0 < nHeight (S p) + 1" using assms block_ok_height by (fastforce simp: aligned_def)
  with j assms(2) have "0 < j" by (simp add: zero_less_mult_iff)
  with j show thesis by (intro that [of "nat (j - 1)"]) simp
qed

lemma aligned_prev:
  assumes "aligned S ck p" and "0 < Period ck" and "period_prev S ck p = Some q"
  shows "aligned S ck q" and "nHeight (S q) = nHeight (S p) - Period ck"
proof -
  have ok: "block_ok S p" "times_ok S p" and m: "(nHeight (S p) + 1) mod Period ck = 0"
    using assms(1) by (auto simp: aligned_def)
  have l: "lookup_anc S p (nHeight (S p) - Period ck) = Some q" using assms(3) by (simp add: period_prev_def)
  then show h: "nHeight (S q) = nHeight (S p) - Period ck" using idx.look_Some(2) [OF ok(1)] by blast
  have "nHeight (S q) + 1 = nHeight (S p) + 1 - Period ck" using h by simp
  then have "(nHeight (S q) + 1) mod Period ck = 0" using m by (simp only: minus_mod_self2)
  then show "aligned S ck q"
    using idx.look_Some(1) [OF ok(1) l] times_ok_lookup [OF ok l] by (simp add: aligned_def)
qed

lemma spec_state_step:
  assumes "aligned S ck p" and "0 < Period ck"
  shows "spec_state S ck (Some p) = spec_next S ck p (spec_state S ck (period_prev S ck p))"
proof -
  obtain k where k: "nHeight (S p) + 1 = Period ck * (int k + 1)" by (rule aligned_Period [OF assms])
  have ok: "block_ok S p" using assms by (simp add: aligned_def)
  have h: "Period ck * (int k + 1) - 1 = nHeight (S p)" using k by simp
  have "nat ((nHeight (S p) + 1) div Period ck) = Suc k" using assms(2) by (simp add: k)
  then have 1: "spec_state S ck (Some p) = spec_next S ck p (bip9 S ck p k)"
    using idx.look_self [OF ok] by (simp add: spec_state_def h)
  have "spec_state S ck (period_prev S ck p) = bip9 S ck p k"
  proof (cases "period_prev S ck p")
    case None
    have "\<not> 0 \<le> nHeight (S p) - Period ck"
      using idx.look_ex [OF ok, of "nHeight (S p) - Period ck"] None assms(2) by (auto simp: period_prev_def)
    moreover have "nHeight (S p) - Period ck = Period ck * int k - 1" using k by (simp add: algebra_simps)
    ultimately have "Period ck * int k < 1" by simp
    then have "int k \<le> 0" using assms(2) by (smt (verit) zero_less_mult_iff)
    then have "k = 0" by simp
    then show ?thesis using None by (simp add: spec_state_def)
  next
    case (Some q)
    then have q: "nHeight (S q) + 1 = Period ck * int k"
      using aligned_prev(2) [OF assms Some] k by (simp add: algebra_simps)
    have l: "lookup_anc S p (nHeight (S p) - Period ck) = Some q" using Some by (simp add: period_prev_def)
    have "bip9 S ck q k = bip9 S ck p k"
      using k by (intro bip9_ancestor [OF ok l assms(2)]) (simp add: algebra_simps)
    then show ?thesis using Some q assms(2) by (simp add: spec_state_def)
  qed
  with 1 show ?thesis by simp
qed

lemma cache_ok_update:
  "cache_ok S ck cache \<Longrightarrow> aligned S ck p \<Longrightarrow> s = spec_state S ck (Some p) \<Longrightarrow> cache_ok S ck (cache(Some p \<mapsto> s))"
  by (auto simp: cache_ok_def aligned_def)

lemma cache_ok_null: "cache_ok S ck cache \<Longrightarrow> cache_ok S ck (cache(None \<mapsto> THRESHOLD_DEFINED))"
  by (auto simp: cache_ok_def spec_state_def)

lemma cache_ok_hit: "cache_ok S ck cache \<Longrightarrow> cache p = Some s \<Longrightarrow> s = spec_state S ck p"
  by (simp add: cache_ok_def)

lemma cache_ok_empty [simp]: "cache_ok S ck Map.empty"
  by (simp add: cache_ok_def)

lemma walk_back_path:
  assumes "0 < Period ck" and "BeginTime ck \<le> EndTime ck" and "cache_ok S ck cache"
    and "\<And>q. p = Some q \<Longrightarrow> aligned S ck q"
  shows "\<exists>r cache' vs. walk_back S ck p cache acc = Some (Inr (r, cache', vs @ acc)) \<and>
    cache_ok S ck cache' \<and> cache' r \<noteq> None \<and> period_path S ck r vs p"
  using assms(4)
proof (induction "case p of None \<Rightarrow> 0 | Some q \<Rightarrow> Suc (nat (nHeight (S q)))" arbitrary: p acc rule: less_induct)
  case less
  consider (hit) "cache p \<noteq> None" | (null) "cache p = None" "p = None"
    | (early) q where "cache p = None" "p = Some q" "GetMedianTimePast S q < BeginTime ck"
    | (step) q where "cache p = None" "p = Some q" "\<not> GetMedianTimePast S q < BeginTime ck"
    by (cases p) auto
  then show ?case
  proof cases
    case hit
    then show ?thesis using assms(3) by (subst walk_back.simps) fastforce
  next
    case null
    then show ?thesis using cache_ok_null [OF assms(3)] by (subst walk_back.simps) auto
  next
    case early
    have al: "aligned S ck q" using less.prems early by simp
    then have "spec_state S ck (Some q) = THRESHOLD_DEFINED"
      using bip9_before_start [OF _ _ assms(2) early(3)] by (simp add: spec_state_def aligned_def)
    then have "cache_ok S ck (cache(Some q \<mapsto> THRESHOLD_DEFINED))" using cache_ok_update [OF assms(3) al] by simp
    then show ?thesis using early by (subst walk_back.simps) auto
  next
    case step
    have al: "aligned S ck q" using less.prems step by simp
    then have ok: "block_ok S q" by (simp add: aligned_def)
    let ?a = "period_prev S ck q"
    have 1: "walk_back S ck p cache acc = walk_back S ck ?a cache (q # acc)"
      using step by (subst walk_back.simps) (simp add: GetAncestor_lookup [OF ok] period_prev_def)
    have al': "\<And>r. ?a = Some r \<Longrightarrow> aligned S ck r" using aligned_prev(1) [OF al assms(1)] .
    have "(case ?a of None \<Rightarrow> 0 | Some q \<Rightarrow> Suc (nat (nHeight (S q)))) < Suc (nat (nHeight (S q)))"
    proof (cases ?a)
      case (Some r)
      then have "nHeight (S r) < nHeight (S q)" using aligned_prev(2) [OF al assms(1)] assms(1) by simp
      moreover have "0 \<le> nHeight (S r)" using al' [OF Some] block_ok_height by (auto simp: aligned_def)
      ultimately show ?thesis using Some by simp
    qed simp
    then obtain r cache' vs where r: "walk_back S ck ?a cache (q # acc) = Some (Inr (r, cache', vs @ q # acc))"
        "cache_ok S ck cache'" "cache' r \<noteq> None" "period_path S ck r vs ?a"
      using less.hyps [of ?a "q # acc"] al' step(2) by auto
    then show ?thesis using 1 period_path_snoc [OF r(4) al] step(2)
      by (intro exI [of _ r] exI [of _ cache'] exI [of _ "vs @ [q]"]) simp
  qed
qed

lemma walk_forward_path:
  assumes "0 < Period ck"
  shows "cache_ok S ck cache \<Longrightarrow> period_path S ck r vs p \<Longrightarrow>
    \<exists>cache'. walk_forward S ck (spec_state S ck r) cache vs = Inr (spec_state S ck p, cache') \<and> cache_ok S ck cache'"
proof (induction vs arbitrary: r cache)
  case Nil
  then show ?case by simp
next
  case (Cons v vs)
  then have al: "aligned S ck v" and r: "r = period_prev S ck v" and path: "period_path S ck (Some v) vs p" by auto
  obtain k where k: "nHeight (S v) + 1 = Period ck * (int k + 1)" by (rule aligned_Period [OF al assms])
  have "Period ck \<le> nHeight (S v) + 1" using assms unfolding k by (simp add: algebra_simps)
  then have "next_state S ck v (spec_state S ck r) = Inr (spec_state S ck (Some v))"
    using next_state_spec [of S v ck] al by (simp add: spec_state_step [OF al assms] r aligned_def)
  with Cons.IH [OF cache_ok_update [OF Cons.prems(1) al refl] path] show ?case
    by (simp add: fun_upd_def)
qed

lemma period_parent_lookup:
  assumes "block_ok S p" and "0 < Period ck"
  shows "period_parent S ck p = Inr (lookup_anc S p (nHeight (S p) - (nHeight (S p) + 1) mod Period ck))"
  using assms block_ok_height [OF assms(1)] by (simp add: period_parent_def GetAncestor_lookup)

lemma period_parent_spec:
  assumes "block_ok S p" and "times_ok S p" and "0 < Period ck"
    and q: "q = lookup_anc S p (nHeight (S p) - (nHeight (S p) + 1) mod Period ck)"
  shows "spec_state S ck q = spec_state S ck (Some p)"
    and "q = Some r \<Longrightarrow> aligned S ck r \<and> nHeight (S r) + 1 = Period ck * ((nHeight (S p) + 1) div Period ck)"
proof -
  let ?h = "nHeight (S p)" and ?P = "Period ck"
  have e: "?h - (?h + 1) mod ?P = ?P * ((?h + 1) div ?P) - 1"
    using minus_mod_eq_mult_div [of "?h + 1" ?P] by simp
  have h0: "0 \<le> ?h" by (rule block_ok_height [OF assms(1)])
  show *: "aligned S ck r \<and> nHeight (S r) + 1 = ?P * ((?h + 1) div ?P)" if r: "q = Some r" for r
  proof -
    have l: "lookup_anc S p (?h - (?h + 1) mod ?P) = Some r" using r q by simp
    have "nHeight (S r) + 1 = ?P * ((?h + 1) div ?P)" using idx.look_Some(2) [OF assms(1) l] e by simp
    then show ?thesis
      using idx.look_Some(1) [OF assms(1) l] times_ok_lookup [OF assms(1,2) l] by (simp add: aligned_def)
  qed
  show "spec_state S ck q = spec_state S ck (Some p)"
  proof (cases q)
    case None
    have "\<not> 0 \<le> ?P * ((?h + 1) div ?P) - 1"
      using idx.look_ex [OF assms(1), of "?h - (?h + 1) mod ?P"] None q e pos_mod_sign [OF assms(3), of "?h + 1"]
      by fastforce
    moreover have "0 \<le> (?h + 1) div ?P" using h0 assms(3) by (simp add: pos_imp_zdiv_nonneg_iff)
    ultimately have "(?h + 1) div ?P = 0" using assms(3)
      by (smt (verit) zero_less_mult_iff)
    then show ?thesis using None by (simp add: spec_state_def)
  next
    case (Some r)
    have l: "lookup_anc S p (?h - (?h + 1) mod ?P) = Some r" using Some q by simp
    have d: "(nHeight (S r) + 1) div ?P = (?h + 1) div ?P" using * [OF Some] assms(3) by simp
    have "0 \<le> (?h + 1) div ?P" using h0 assms(3) by (simp add: pos_imp_zdiv_nonneg_iff)
    then have "bip9 S ck r (nat ((?h + 1) div ?P)) = bip9 S ck p (nat ((?h + 1) div ?P))"
      by (intro bip9_ancestor [OF assms(1) l assms(3)]) (simp add: e)
    then show ?thesis using Some d by (simp add: spec_state_def)
  qed
qed

lemma GetStateFor_spec:
  assumes "0 < Period ck" and "BeginTime ck \<le> EndTime ck" and "cache_ok S ck cache"
    and "\<And>p. pindexPrev = Some p \<Longrightarrow> block_ok S p \<and> times_ok S p"
  obtains cache' where "GetStateFor S ck pindexPrev cache = Some (Inr (spec_state S ck pindexPrev, cache'))"
    and "cache_ok S ck cache'"
proof -
  obtain q where q: "(case pindexPrev of None \<Rightarrow> Inr None | Some p \<Rightarrow> period_parent S ck p) = Inr q"
      "spec_state S ck q = spec_state S ck pindexPrev" "\<And>r. q = Some r \<Longrightarrow> aligned S ck r"
  proof (cases pindexPrev)
    case None
    then show ?thesis using that [of None] by simp
  next
    case (Some p)
    then have p: "block_ok S p" "times_ok S p" using assms(4) by auto
    show ?thesis
    proof (rule that)
      show "(case pindexPrev of None \<Rightarrow> Inr None | Some p \<Rightarrow> period_parent S ck p) =
          Inr (lookup_anc S p (nHeight (S p) - (nHeight (S p) + 1) mod Period ck))"
        unfolding Some by (simp only: option.case period_parent_lookup [OF p(1) assms(1)])
      show "spec_state S ck (lookup_anc S p (nHeight (S p) - (nHeight (S p) + 1) mod Period ck)) =
          spec_state S ck pindexPrev"
        unfolding Some by (rule period_parent_spec(1) [OF p assms(1) refl])
      show "aligned S ck r"
        if "lookup_anc S p (nHeight (S p) - (nHeight (S p) + 1) mod Period ck) = Some r" for r
        using period_parent_spec(2) [OF p assms(1) refl that] by blast
    qed
  qed
  obtain r cache1 vs where b: "walk_back S ck q cache [] = Some (Inr (r, cache1, vs))"
      "cache_ok S ck cache1" "cache1 r \<noteq> None" "period_path S ck r vs q"
    using walk_back_path [OF assms(1,2,3), of q "[]"] q(3) by fastforce
  then have "cache1 r = Some (spec_state S ck r)" using cache_ok_hit by fastforce
  moreover obtain cache' where "walk_forward S ck (spec_state S ck r) cache1 vs = Inr (spec_state S ck q, cache')"
      "cache_ok S ck cache'"
    using walk_forward_path [OF assms(1) b(2,4)] by blast
  ultimately show thesis using b(1) q by (intro that [of cache']) (simp_all add: GetStateFor_def)
qed


section \<open>Since when a state holds\<close>

lemma spec_state_aligned:
  assumes "aligned S ck q" and "nHeight (S q) + 1 = Period ck * int k" and "0 < Period ck"
  shows "spec_state S ck (Some q) = bip9 S ck q k"
  using assms by (simp add: spec_state_def)

lemma since_walk_spec:
  assumes "0 < Period ck" and "BeginTime ck \<le> EndTime ck" and "st \<noteq> THRESHOLD_DEFINED"
  shows "cache_ok S ck cache \<Longrightarrow> aligned S ck q \<Longrightarrow> nHeight (S q) + 1 = Period ck * int k \<Longrightarrow>
    bip9 S ck q k = st \<Longrightarrow>
    \<exists>j cache'. since_walk S ck st q (period_prev S ck q) cache = Some (Inr (Period ck * int j, cache')) \<and>
      cache_ok S ck cache' \<and> 0 < j \<and> j \<le> k \<and> (\<forall>i. j \<le> i \<and> i \<le> k \<longrightarrow> bip9 S ck q i = st) \<and> bip9 S ck q (j - 1) \<noteq> st"
proof (induction k arbitrary: q cache)
  case 0
  then show ?case using assms(3) by simp
next
  case (Suc k)
  have ok: "block_ok S q" using Suc.prems(2) by (simp add: aligned_def)
  have hq: "nHeight (S q) - Period ck = Period ck * int k - 1" using Suc.prems(3) by (simp add: algebra_simps)
  show ?case
  proof (cases "period_prev S ck q")
    case None
    have "\<not> 0 \<le> nHeight (S q) - Period ck"
      using idx.look_ex [OF ok, of "nHeight (S q) - Period ck"] None assms(1) by (auto simp: period_prev_def)
    then have "int k \<le> 0" using hq assms(1) by (smt (verit) zero_less_mult_iff)
    then have "k = 0" by simp
    moreover have "since_walk S ck st q None cache = Some (Inr (nHeight (S q) + 1, cache))"
      by (subst since_walk.simps) simp
    ultimately show ?thesis using None Suc.prems assms(3) by (intro exI [of _ 1] exI [of _ cache]) (auto simp: le_Suc_eq)
  next
    case (Some r)
    note al = aligned_prev [OF Suc.prems(2) assms(1) Some]
    have rk: "nHeight (S r) + 1 = Period ck * int k" using al(2) hq by simp
    have l: "lookup_anc S q (nHeight (S q) - Period ck) = Some r" using Some by (simp add: period_prev_def)
    have same: "bip9 S ck r i = bip9 S ck q i" if "i \<le> k" for i
    proof (rule bip9_ancestor [OF ok l assms(1)])
      show "Period ck * int i - 1 \<le> nHeight (S q) - Period ck" 
        using mult_left_mono [of "int i" "int k" "Period ck"] that assms(1) unfolding hq by linarith
    qed
    obtain cache1 where c1: "GetStateFor S ck (Some r) cache = Some (Inr (bip9 S ck r k, cache1))"
        "cache_ok S ck cache1"
      using GetStateFor_spec [OF assms(1,2) Suc.prems(1), of "Some r"] al(1)
      by (auto simp: spec_state_aligned [OF al(1) rk assms(1)] aligned_def)
    show ?thesis
    proof (cases "bip9 S ck q k = st")
      case False
      then have "since_walk S ck st q (Some r) cache = Some (Inr (nHeight (S q) + 1, cache1))"
        using c1(1) same [of k] by (subst since_walk.simps) simp
      then show ?thesis using Some Suc.prems False c1(2)
        by (intro exI [of _ "Suc k"] exI [of _ cache1]) (auto simp: le_Suc_eq)
    next
      case True
      then have "since_walk S ck st q (Some r) cache = since_walk S ck st r (period_prev S ck r) cache1"
        using c1(1) same [of k] al(1)
        by (subst since_walk.simps) (simp add: GetAncestor_lookup period_prev_def aligned_def)
      moreover obtain j cache' where "since_walk S ck st r (period_prev S ck r) cache1 = Some (Inr (Period ck * int j, cache'))"
          "cache_ok S ck cache'" "0 < j" "j \<le> k" "\<forall>i. j \<le> i \<and> i \<le> k \<longrightarrow> bip9 S ck r i = st" "bip9 S ck r (j - 1) \<noteq> st"
        using Suc.IH [OF c1(2) al(1) rk] same [of k] True by auto
      ultimately show ?thesis using Some same Suc.prems
        by (intro exI [of _ j] exI [of _ cache']) (auto simp: le_Suc_eq)
    qed
  qed
qed

lemma count_until_signals:
  "block_ok S p \<Longrightarrow> stop < nHeight (S p) \<Longrightarrow> -1 \<le> stop \<Longrightarrow>
     count_until S ck (Some p) stop c = Some (c + signals S ck p (nat (nHeight (S p) - stop)))"
proof (induction "nat (nHeight (S p) - stop)" arbitrary: p c)
  case 0
  then show ?case by simp
next
  case (Suc n)
  have 1: "count_until S ck (Some p) stop c =
      count_until S ck (pprev (S p)) stop (if Condition ck S p then c + 1 else c)"
    using Suc.prems(2) by (subst count_until.simps) simp
  show ?case
  proof (cases "pprev (S p)")
    case None
    then have "nHeight (S p) = 0" using block_ok_genesis [OF Suc.prems(1)] by simp
    then have "nat (nHeight (S p) - stop) = Suc 0" using Suc.prems by simp
    then show ?thesis using 1 None by (simp add: count_until.simps [of S ck None] signals_1)
  next
    case (Some q)
    then have q: "block_ok S q" "nHeight (S p) = nHeight (S q) + 1" using block_ok_prev Suc.prems(1) by auto
    have n: "nat (nHeight (S p) - stop) = Suc n" "n = nat (nHeight (S q) - stop)" using Suc(2) q(2) by simp_all
    show ?thesis
    proof (cases "stop < nHeight (S q)")
      case True
      then show ?thesis using Suc.hyps(1) [OF n(2) q(1) True Suc.prems(3)] 1 Some
        by (simp add: n(1) signals_Suc [of S p q] n(2) [symmetric])
    next
      case False
      then have "stop = nHeight (S q)" using Suc.prems(2) q(2) by simp
      then show ?thesis using 1 Some n by (simp add: count_until.simps [of S ck "Some q"] signals_1)
    qed
  qed
qed

section \<open>Signalling never happens\<close>

lemma Condition_never: "\<not> Condition (VersionBitsConditionChecker params pos) S p"
proof
  assume "Condition (VersionBitsConditionChecker params pos) S p"
  then have "nVersion (S p) AND VERSIONBITS_TOP_MASK = VERSIONBITS_TOP_BITS"
    by (simp add: VersionBitsConditionChecker_def Let_def)
  then have "bit (nVersion (S p) AND VERSIONBITS_TOP_MASK) 28 \<longleftrightarrow> bit VERSIONBITS_TOP_BITS 28" by simp
  then show False by (simp add: bit_and_iff VERSIONBITS_TOP_MASK_def VERSIONBITS_TOP_BITS_def bit_numeral_rec(1))
qed

lemma signals_never: "signals S (VersionBitsConditionChecker params pos) p n = 0"
  by (simp add: signals_def Condition_never split: option.split)

lemma bip9_never_locked:
  assumes "0 < Threshold (VersionBitsConditionChecker params pos)"
  shows "bip9 S (VersionBitsConditionChecker params pos) p k
    \<in> {THRESHOLD_DEFINED, THRESHOLD_STARTED, THRESHOLD_FAILED}"
proof (induction k)
  case (Suc k)
  then show ?case using assms
    by (auto simp: spec_next_def Let_def signals_never split: option.split)
qed simp


section \<open>Examples\<close>

text \<open>A checker for which the three blocks of \<open>ex_store\<close> signal.\<close>

definition ex_checker :: checker where
  "ex_checker = \<lparr>Condition = (\<lambda>S p. bit (nVersion (S p)) 1), BeginTime = 15, EndTime = 100, Period = 1, Threshold = 1\<rparr>"

lemma ex_store_mtp:
  "GetMedianTimePast ex_store 0 = 10" "GetMedianTimePast ex_store (Suc 0) = 20" "GetMedianTimePast ex_store 2 = 20"
  by (simp_all add: GetMedianTimePast_def nMedianTimeSpan_def ex_store_def empty_block_def GetBlockTime_def)

lemma ex_store_times_ok: "times_ok ex_store 2"
proof -
  have prev: "pprev (ex_store 0) = None" "pprev (ex_store 1) = Some 0" "pprev (ex_store 2) = Some 1"
    by (simp_all add: ex_store_def empty_block_def)
  have a: "anc ex_store n 0 = Some q \<Longrightarrow> q = 0" for n q
    by (cases n) (auto simp: prev)
  have b: "anc ex_store n 1 = Some q \<Longrightarrow> q = 0 \<or> q = 1" for n q
    using a by (cases n) (auto simp: prev [unfolded One_nat_def])
  have c: "anc ex_store n 2 = Some q \<Longrightarrow> q = 0 \<or> q = 1 \<or> q = 2" for n q
    using b [unfolded One_nat_def] by (cases n) (auto simp: prev [unfolded One_nat_def])
  note prev
  moreover have "GetBlockTime (ex_store 1) = 20" "GetBlockTime (ex_store 2) = 30"
    by (simp_all add: ex_store_def empty_block_def GetBlockTime_def)
  ultimately show ?thesis unfolding times_ok_def using c ex_store_mtp by fastforce
qed

section \<open>Properties\<close>

text \<open>
  C12. For a period that is positive and a start time not after the timeout, on a
  well-formed branch in which every block is later than its parent's median time,
  \<open>GetStateFor\<close> returns, without an assertion failure or a null dereference, the state of the
  cache-free BIP 9 state machine run over the branch from its first period; this holds for
  every consistent cache, and the cache it leaves behind is consistent again.
\<close>

theorem GetStateFor_is_bip9:
  assumes "0 < Period ck" and "BeginTime ck \<le> EndTime ck" and "cache_ok S ck cache"
    and "block_ok S p" and "times_ok S p"
  shows "\<exists>cache'. GetStateFor S ck (Some p) cache =
      Some (Inr (bip9 S ck p (nat ((nHeight (S p) + 1) div Period ck)), cache')) \<and> cache_ok S ck cache'"
  using GetStateFor_spec [OF assms(1,2,3), of "Some p"] assms(4,5) by (auto simp: spec_state_def)

theorem GetStateFor_is_bip9_witness:
  "\<exists>cache'. GetStateFor ex_store ex_checker (Some 2) Map.empty =
      Some (Inr (bip9 ex_store ex_checker 2 3, cache')) \<and> cache_ok ex_store ex_checker cache'"
proof -
  have h: "nHeight (ex_store 2) = 2" by (simp add: ex_store_def empty_block_def)
  show ?thesis
    using GetStateFor_is_bip9 [of ex_checker ex_store Map.empty 2, OF _ _ _ ex_store_ok(3) ex_store_times_ok] h
    by (simp add: ex_checker_def)
qed

text \<open>
  \<open>GetStateSinceHeightFor\<close> returns 0 for the state DEFINED, and
  otherwise the height at which the current state began: the first block of a period \<open>j\<close> such
  that the state has been the same in every period from \<open>j\<close> on and was another one before.
\<close>

theorem GetStateSinceHeightFor_first:
  assumes "0 < Period ck" and "BeginTime ck \<le> EndTime ck" and "cache_ok S ck cache"
    and "block_ok S p" and "times_ok S p" and "k = nat ((nHeight (S p) + 1) div Period ck)"
  shows "\<exists>h cache'. GetStateSinceHeightFor S ck (Some p) cache = Some (Inr (h, cache')) \<and> cache_ok S ck cache' \<and>
    (if bip9 S ck p k = THRESHOLD_DEFINED then h = 0
     else \<exists>j. h = Period ck * int j \<and> 0 < j \<and> j \<le> k \<and>
            (\<forall>i. j \<le> i \<and> i \<le> k \<longrightarrow> bip9 S ck p i = bip9 S ck p k) \<and> bip9 S ck p (j - 1) \<noteq> bip9 S ck p k)"
proof -
  let ?st = "bip9 S ck p k"
  let ?l = "lookup_anc S p (nHeight (S p) - (nHeight (S p) + 1) mod Period ck)"
  have st: "spec_state S ck (Some p) = ?st" by (simp add: spec_state_def assms(6))
  obtain cache1 where c1: "GetStateFor S ck (Some p) cache = Some (Inr (?st, cache1))" "cache_ok S ck cache1"
    using GetStateFor_spec [OF assms(1,2,3), of "Some p"] assms(4,5) st by auto
  show ?thesis
  proof (cases "?st = THRESHOLD_DEFINED")
    case True
    then show ?thesis using c1 by (simp add: GetStateSinceHeightFor_def)
  next
    case False
    have pp: "spec_state S ck ?l = ?st" using period_parent_spec(1) [OF assms(4,5,1) refl] st by simp
    obtain q where q: "?l = Some q" using False pp by (cases ?l) (auto simp: spec_state_def)
    have al: "aligned S ck q" and hq: "nHeight (S q) + 1 = Period ck * int k"
    proof -
      have "0 \<le> (nHeight (S p) + 1) div Period ck"
        using block_ok_height [OF assms(4)] assms(1) by (simp add: pos_imp_zdiv_nonneg_iff)
      then show "aligned S ck q" "nHeight (S q) + 1 = Period ck * int k"
        using period_parent_spec(2) [OF assms(4,5,1) refl q] assms(6) by auto
    qed
    have same: "bip9 S ck q i = bip9 S ck p i" if "i \<le> k" for i
    proof (rule bip9_ancestor [OF assms(4) q assms(1)])
      have "nHeight (S p) - (nHeight (S p) + 1) mod Period ck = nHeight (S q)"
        using idx.look_Some(2) [OF assms(4) q] by simp
      then show "Period ck * int i - 1 \<le> nHeight (S p) - (nHeight (S p) + 1) mod Period ck"
        using hq mult_left_mono [of "int i" "int k" "Period ck"] that assms(1) by linarith
    qed
    have ok: "block_ok S q" using al by (simp add: aligned_def)
    have "period_parent S ck p = Inr (Some q)" by (simp only: period_parent_lookup [OF assms(4,1)] q)
    moreover have "GetAncestor S q (nHeight (S q) - Period ck) = Inr (period_prev S ck q)"
      unfolding period_prev_def by (rule GetAncestor_lookup [OF ok])
    ultimately have "GetStateSinceHeightFor S ck (Some p) cache = since_walk S ck ?st q (period_prev S ck q) cache1"
      unfolding GetStateSinceHeightFor_def using False c1(1)
      by (simp only: option.case sum.case prod.case if_False)
    moreover obtain j cache' where j: "since_walk S ck ?st q (period_prev S ck q) cache1 = Some (Inr (Period ck * int j, cache'))"
        "cache_ok S ck cache'" "0 < j" "j \<le> k" "\<forall>i. j \<le> i \<and> i \<le> k \<longrightarrow> bip9 S ck q i = ?st" "bip9 S ck q (j - 1) \<noteq> ?st"
      using since_walk_spec [OF assms(1,2) False c1(2) al hq same [OF order_refl]] by (elim exE conjE)
    ultimately have r: "GetStateSinceHeightFor S ck (Some p) cache = Some (Inr (Period ck * int j, cache'))" by metis
    have first: "bip9 S ck p (j - 1) \<noteq> ?st" using j(4,6) same [of "j - 1"] by (metis diff_le_self order_trans)
    have all: "\<forall>i. j \<le> i \<and> i \<le> k \<longrightarrow> bip9 S ck p i = ?st"
    proof (intro allI impI)
      fix i
      assume "j \<le> i \<and> i \<le> k"
      then show "bip9 S ck p i = ?st" using j(5) same [of i] by metis
    qed
    show ?thesis unfolding if_not_P [OF False] using r j(2-4) first all by blast
  qed
qed

theorem GetStateSinceHeightFor_first_witness:
  "\<exists>h cache'. GetStateSinceHeightFor ex_store ex_checker (Some 2) Map.empty = Some (Inr (h, cache')) \<and>
     cache_ok ex_store ex_checker cache'"
proof -
  have h: "nHeight (ex_store 2) = 2" by (simp add: ex_store_def empty_block_def)
  show ?thesis
    using GetStateSinceHeightFor_first [of ex_checker ex_store Map.empty 2 3, OF _ _ _ ex_store_ok(3) ex_store_times_ok] h
    by (auto simp: ex_checker_def)
qed

text \<open>
  \<open>CountBlocksInWindow\<close> returns, and counts exactly the signalling
  blocks from the start of the window that contains the block up to the block itself.
\<close>

theorem CountBlocksInWindow_counts:
  assumes "block_ok S p" and "0 < Period ck"
  shows "CountBlocksInWindow S ck p = Some (signals S ck p (nat (nHeight (S p) mod Period ck + 1)))"
proof -
  have h: "0 \<le> nHeight (S p)" by (rule block_ok_height [OF assms(1)])
  have m: "0 \<le> nHeight (S p) mod Period ck" "nHeight (S p) mod Period ck \<le> nHeight (S p)"
    using h assms(2) zmod_le_nonneg_dividend by auto
  then show ?thesis
    using count_until_signals [OF assms(1), of "nHeight (S p) - nHeight (S p) mod Period ck - 1" ck 0] h assms(2)
    by (simp add: CountBlocksInWindow_def del: pos_mod_sign)
qed

theorem CountBlocksInWindow_counts_witness:
  "CountBlocksInWindow ex_store (ex_checker\<lparr>Period := 2\<rparr>) 1 = Some 2"
proof -
  have s: "signals ex_store (ex_checker\<lparr>Period := 2\<rparr>) 1 (Suc (Suc 0)) = 2"
    by (simp add: signals_def ex_store_def empty_block_def ex_checker_def bit_numeral_rec(1) bit_Suc)
  have h: "nHeight (ex_store 1) = 1" by (simp add: ex_store_def empty_block_def)
  show ?thesis
    using CountBlocksInWindow_counts [OF ex_store_ok(2), of "ex_checker\<lparr>Period := 2\<rparr>"] s h
    by (simp add: ex_checker_def numeral_2_eq_2)
qed

text \<open>
  C36. With the version-bits prefix \<open>VERSIONBITS_TOP_BITS = 0x50000000\<close>
  the test \<open>(nVersion & VERSIONBITS_TOP_MASK) == VERSIONBITS_TOP_BITS\<close> fails for every block version,
  because the mask \<open>0xE0000000\<close> clears bit 28 which the prefix has set. So no deployment
  with a positive threshold is ever locked in or active, whatever the miners signal.
\<close>

theorem VersionBitsState_never_locks_in:
  assumes "ck = VersionBitsConditionChecker params pos" and "pos < length caches"
    and "0 < Period ck" and "0 < Threshold ck" and "BeginTime ck \<le> EndTime ck"
    and "cache_ok S ck (caches ! pos)" and "block_ok S p" and "times_ok S p"
  shows "\<exists>st caches'. VersionBitsState S (Some p) params pos caches = Some (Inr (st, caches')) \<and>
    st \<noteq> THRESHOLD_LOCKED_IN \<and> st \<noteq> THRESHOLD_ACTIVE \<and> cache_ok S ck (caches' ! pos)"
proof -
  obtain cache' where "GetStateFor S ck (Some p) (caches ! pos) = Some (Inr (spec_state S ck (Some p), cache'))"
      "cache_ok S ck cache'"
    using GetStateFor_spec [OF assms(3,5,6), of "Some p"] assms(7,8) by auto
  moreover have "spec_state S ck (Some p) \<in> {THRESHOLD_DEFINED, THRESHOLD_STARTED, THRESHOLD_FAILED}"
    using bip9_never_locked assms(1,4) unfolding spec_state_def by simp
  ultimately show ?thesis using assms(1,2) by (auto simp: VersionBitsState_def)
qed

theorem VersionBitsState_never_locks_in_witness:
  "\<exists>st caches'. VersionBitsState ex_store (Some 2) ex_params 1 (replicate 6 Map.empty) = Some (Inr (st, caches')) \<and>
    st \<noteq> THRESHOLD_LOCKED_IN \<and> st \<noteq> THRESHOLD_ACTIVE"
  using VersionBitsState_never_locks_in
    [of "VersionBitsConditionChecker ex_params 1" ex_params 1 "replicate 6 Map.empty" ex_store 2, OF refl]
    ex_store_ok(3) ex_store_times_ok
  by (fastforce simp: VersionBitsConditionChecker_def ex_params_def Let_def i32_ident)

end
