(* ===== verification/Proof_Of_Work.thy ===== *)
theory Proof_Of_Work
  imports Consensus_Params
begin

text \<open>
  Difficulty and proof of work: \<open>src/src/pow.cpp\<close> and the helpers \<open>CheckNonce\<close> and
  \<open>ComputeRandomXTarget\<close> of \<open>rpcpog.cpp\<close>.

  A factor of type \<open>int64_t\<close> on the right of \<open>*\<close> or \<open>*=\<close> selects the overload for
  \<open>uint32_t\<close>, so it is truncated to a word of 32 bits; on the right of \<open>/\<close> it becomes an
  \<open>arith_uint256\<close> through \<open>uint64_t\<close>. The size of the candidate header, which
  \<open>GetSerializeSize\<close> returns, is an argument, and the hash functions BibleHash and RandomX,
  the clock and the header string are fields of \<open>pow_env\<close>. \<open>KimotoGravityWell\<close>, which
  computes in floating point and is never called, is left out.
\<close>

section \<open>Dark Gravity Wave\<close>

datatype pow_error = Arith uint_error | Chain chain_error

record dgw =
  BlockReading :: "bptr option"
  CountBlocks :: int
  PastDifficultyAverage :: base_uint
  PastDifficultyAveragePrev :: base_uint
  nActualTimespan :: int
  LastBlockTime :: int
  nTotalBlockSize :: int

definition u32_of :: "int \<Rightarrow> u32" where "u32_of x = word_of_int x"
definition u64_of :: "int \<Rightarrow> u64" where "u64_of x = word_of_int x"

definition PastBlocksMin :: int where "PastBlocksMin = 4"
definition PastBlocksMax :: nat where "PastBlocksMax = 4"
definition BPL_TRIGGER_SIZE :: int where "BPL_TRIGGER_SIZE = 500000"

definition dgw_init :: "bptr \<Rightarrow> dgw" where
  "dgw_init p = \<lparr>BlockReading = Some p, CountBlocks = 0, PastDifficultyAverage = zero256,
     PastDifficultyAveragePrev = zero256, nActualTimespan = 0, LastBlockTime = 0, nTotalBlockSize = 0\<rparr>"

text \<open>The new running average of one round.\<close>

definition dgw_average :: "dgw \<Rightarrow> u32 \<Rightarrow> uint_error + base_uint" where
  "dgw_average d nb =
     (if CountBlocks d = 1 then Inr (fst (SetCompact nb))
      else div_uint (add (mul32 (PastDifficultyAveragePrev d) (u32_of (CountBlocks d))) (fst (SetCompact nb)))
             (of_u64 (u64_of (CountBlocks d + 1))))"

text \<open>
  The \<open>for\<close> loop; its first argument is \<open>PastBlocksMax - (i - 1)\<close>, the number of rounds that the
  guard \<open>i > PastBlocksMax\<close> still admits.
\<close>

fun dgw_loop :: "nat \<Rightarrow> store \<Rightarrow> int \<Rightarrow> dgw \<Rightarrow> uint_error + dgw" where
  "dgw_loop 0 S blockSize d = Inr d"
| "dgw_loop (Suc n) S blockSize d =
     (case BlockReading d of
        None \<Rightarrow> Inr d
      | Some b \<Rightarrow>
          (if nHeight (S b) > 0 then
             let d1 = d\<lparr>CountBlocks := CountBlocks d + 1\<rparr> in
             (case (if CountBlocks d1 \<le> PastBlocksMin then dgw_average d1 (nBits (S b))
                    else Inr (PastDifficultyAverage d1)) of
                Inl e \<Rightarrow> Inl e
              | Inr avg \<Rightarrow>
                  (let d2 = d1\<lparr>PastDifficultyAverage := avg,
                       PastDifficultyAveragePrev :=
                         (if CountBlocks d1 \<le> PastBlocksMin then avg else PastDifficultyAveragePrev d1),
                       nTotalBlockSize := nTotalBlockSize d1 + blockSize,
                       nActualTimespan :=
                         (if LastBlockTime d1 > 0 then nActualTimespan d1 + (LastBlockTime d1 - GetBlockTime (S b))
                          else nActualTimespan d1),
                       LastBlockTime := GetBlockTime (S b)\<rparr>
                   in if pprev (S b) = None then Inr d2
                      else dgw_loop n S blockSize (d2\<lparr>BlockReading := pprev (S b)\<rparr>)))
           else Inr d))"

definition dgw_timespan :: "Params \<Rightarrow> int \<Rightarrow> int \<Rightarrow> int \<Rightarrow> int" where
  "dgw_timespan params height nBlocks nAvgBlockSize =
     (let t = nBlocks * nPowTargetSpacing params;
          t = (if height \<ge> F11000_CUTOVER_HEIGHT params \<and> height < F12000_CUTOVER_HEIGHT params then nBlocks * 390
               else if height \<ge> F12000_CUTOVER_HEIGHT params \<and> height < F13000_CUTOVER_HEIGHT params then nBlocks * 310
               else if height \<ge> F13000_CUTOVER_HEIGHT params then nBlocks * 296
               else t);
          t = (if \<not> fProdChain params then
                 (if height < 250 then nBlocks
                  else if height \<ge> 250 \<and> height < 5000 then 30
                  else if height \<ge> 5000 then nBlocks * 300
                  else t)
               else t)
      in if height > POOM_PHASEOUT_HEIGHT params
         then (if nAvgBlockSize > BPL_TRIGGER_SIZE then nBlocks * 20 else t)
         else t)"

definition clamp_timespan :: "int \<Rightarrow> int \<Rightarrow> int \<Rightarrow> int" where
  "clamp_timespan f actual target =
     (let a = (if actual < cdiv target f then cdiv target f else actual)
      in if a > target * f then target * f else a)"

definition retarget :: "base_uint \<Rightarrow> int \<Rightarrow> int \<Rightarrow> base_uint \<Rightarrow> pow_error + u32" where
  "retarget bnNew actual target limit =
     (case div_uint (mul32 bnNew (u32_of actual)) (of_u64 (u64_of target)) of
        Inl e \<Rightarrow> Inl (Arith e)
      | Inr bnNew \<Rightarrow>
          (case GetCompact (if CompareTo bnNew limit > 0 then limit else bnNew) False of
             None \<Rightarrow> Inl (Chain AssertFailed)
           | Some c \<Rightarrow> Inr c))"

definition limit_compact :: "Params \<Rightarrow> pow_error + u32" where
  "limit_compact params =
     (case GetCompact (UintToArith256 (powLimit params)) False of
        None \<Rightarrow> Inl (Chain AssertFailed)
      | Some c \<Rightarrow> Inr c)"

definition DarkGravityWave :: "store \<Rightarrow> bptr option \<Rightarrow> int \<Rightarrow> Params \<Rightarrow> pow_error + u32" where
  "DarkGravityWave S pindexLast blockSize params =
     (case pindexLast of
        None \<Rightarrow> limit_compact params
      | Some p \<Rightarrow>
          (if nHeight (S p) = 0 \<or> nHeight (S p) < PastBlocksMin then limit_compact params
           else case dgw_loop PastBlocksMax S blockSize (dgw_init p) of
                  Inl e \<Rightarrow> Inl (Arith e)
                | Inr d \<Rightarrow>
                    (let nAvgBlockSize = (if CountBlocks d < 1 then nTotalBlockSize d
                                          else cdiv (nTotalBlockSize d) (CountBlocks d));
                         target = dgw_timespan params (nHeight (S p)) (CountBlocks d) nAvgBlockSize
                     in retarget (PastDifficultyAverage d) (clamp_timespan 2 (nActualTimespan d) target) target
                          (UintToArith256 (powLimit params)))))"

definition GetNextWorkRequired :: "store \<Rightarrow> bptr option \<Rightarrow> int \<Rightarrow> Params \<Rightarrow> pow_error + u32" where
  "GetNextWorkRequired S pindexLast blockSize params = DarkGravityWave S pindexLast blockSize params"

section \<open>The retargeting rule of Bitcoin\<close>

definition CalculateNextWorkRequired :: "store \<Rightarrow> bptr \<Rightarrow> int \<Rightarrow> Params \<Rightarrow> pow_error + u32" where
  "CalculateNextWorkRequired S p nFirstBlockTime params =
     (if fPowNoRetargeting params then Inr (nBits (S p))
      else retarget (fst (SetCompact (nBits (S p))))
             (clamp_timespan 4 (GetBlockTime (S p) - nFirstBlockTime) (nPowTargetTimespan params))
             (nPowTargetTimespan params) (UintToArith256 (powLimit params)))"

partial_function (option) last_nonspecial :: "store \<Rightarrow> int \<Rightarrow> u32 \<Rightarrow> bptr \<Rightarrow> u32 option" where
  "last_nonspecial S interval limitBits p =
     (case pprev (S p) of
        None \<Rightarrow> Some (nBits (S p))
      | Some q \<Rightarrow> (if cmod (nHeight (S p)) interval \<noteq> 0 \<and> nBits (S p) = limitBits
                   then last_nonspecial S interval limitBits q
                   else Some (nBits (S p))))"

definition GetNextWorkRequiredBTC :: "store \<Rightarrow> bptr option \<Rightarrow> int \<Rightarrow> Params \<Rightarrow> (pow_error + u32) option" where
  "GetNextWorkRequiredBTC S pindexLast pblockTime params =
     (case pindexLast of
        None \<Rightarrow> Some (Inl (Chain AssertFailed))
      | Some p \<Rightarrow>
          (case limit_compact params of
             Inl e \<Rightarrow> Some (Inl e)
           | Inr nProofOfWorkLimit \<Rightarrow>
               (if cmod (nHeight (S p) + 1) (DifficultyAdjustmentInterval params) \<noteq> 0 then
                  (if fPowAllowMinDifficultyBlocks params then
                     (if pblockTime > GetBlockTime (S p) + nPowTargetSpacing params * 2
                      then Some (Inr nProofOfWorkLimit)
                      else map_option Inr (last_nonspecial S (DifficultyAdjustmentInterval params) nProofOfWorkLimit p))
                   else Some (Inr (nBits (S p))))
                else
                  let nHeightFirst = nHeight (S p) - (DifficultyAdjustmentInterval params - 1) in
                  if \<not> nHeightFirst \<ge> 0 then Some (Inl (Chain AssertFailed))
                  else (case GetAncestor S p nHeightFirst of
                          Inl e \<Rightarrow> Some (Inl (Chain e))
                        | Inr None \<Rightarrow> Some (Inl (Chain AssertFailed))
                        | Inr (Some f) \<Rightarrow>
                            Some (CalculateNextWorkRequired S p (GetBlockTime (S f)) params)))))"

section \<open>Checking the proof of work\<close>

definition CheckNonce :: "bool \<Rightarrow> u32 \<Rightarrow> int \<Rightarrow> int \<Rightarrow> int \<Rightarrow> Params \<Rightarrow> bool" where
  "CheckNonce f9000 nNonce nPrevHeight nPrevBlockTime nBlockTime params =
     (if \<not> f9000 \<or> nPrevHeight > EVOLUTION_CUTOVER_HEIGHT params \<and> nPrevHeight \<le> ANTI_GPU_HEIGHT params then True
      else if nPrevHeight \<ge> RANDOMX_HEIGHT params then True
      else let nElapsed = nBlockTime - nPrevBlockTime in
        if nElapsed > 30 * 60 then True
        else let nMaxNonce = nElapsed * 256;
                 nMaxNonce = (if nMaxNonce < 512 then 512 else nMaxNonce)
             in \<not> uint nNonce > nMaxNonce)"

definition scale_hash :: "uint256 \<Rightarrow> u32 \<Rightarrow> pow_error + uint256" where
  "scale_hash h factor =
     (case div_uint (mul32 (UintToArith256 h) factor) (of_u64 8400) of
        Inl e \<Rightarrow> Inl (Arith e) | Inr q \<Rightarrow> Inr (ArithToUint256 q))"

definition ComputeRandomXTarget :: "bool \<Rightarrow> uint256 \<Rightarrow> int \<Rightarrow> int \<Rightarrow> pow_error + uint256" where
  "ComputeRandomXTarget fProd dac_hash nPrevBlockTime nBlockTime =
     (let nElapsed = nBlockTime - nPrevBlockTime in
      if nElapsed > 60 * 30 then scale_hash dac_hash 700
      else if nElapsed > 60 * 45 then scale_hash dac_hash 200
      else if nElapsed > 60 * 15 \<and> \<not> fProd then scale_hash dac_hash 10
      else Inr dac_hash)"

record pow_env =
  AdjustedTime :: int
  BibleHashClassic :: "uint256 \<Rightarrow> int \<Rightarrow> int \<Rightarrow> int \<Rightarrow> u32 \<Rightarrow> uint256"
  BibleHashV2 :: "uint256 \<Rightarrow> int \<Rightarrow> int \<Rightarrow> int \<Rightarrow> string \<Rightarrow> uint256 \<Rightarrow> uint256 \<Rightarrow> uint256"
  RandomXHash :: "string \<Rightarrow> uint256 \<Rightarrow> uint256 \<Rightarrow> uint256"
  RandomXHash2 :: "string \<Rightarrow> uint256 \<Rightarrow> uint256 \<Rightarrow> uint256"
  fProd :: bool

definition exceeds :: "uint256 \<Rightarrow> base_uint \<Rightarrow> bool" where
  "exceeds h bnTarget \<longleftrightarrow> CompareTo (UintToArith256 h) bnTarget > 0"

definition randomx_ok :: "pow_env \<Rightarrow> uint256 \<Rightarrow> int \<Rightarrow> int \<Rightarrow> base_uint \<Rightarrow> pow_error + bool" where
  "randomx_ok env rxhash nPrevBlockTime nBlockTime bnTarget =
     (case ComputeRandomXTarget (fProd env) rxhash nPrevBlockTime nBlockTime of
        Inl e \<Rightarrow> Inl e
      | Inr t \<Rightarrow> Inr (\<not> exceeds t bnTarget))"

definition CheckProofOfWork ::
    "pow_env \<Rightarrow> store \<Rightarrow> uint256 \<Rightarrow> u32 \<Rightarrow> Params \<Rightarrow> int \<Rightarrow> int \<Rightarrow> int \<Rightarrow> u32 \<Rightarrow> bptr option \<Rightarrow>
     string \<Rightarrow> uint256 \<Rightarrow> bool \<Rightarrow> pow_error + bool" where
  "CheckProofOfWork env S hash nb params nBlockTime nPrevBlockTime nPrevHeight nNonce pindexPrev
       sHeaderHex uRXKey bLoadingBlockIndex =
     (let (bnTarget, fNegative, fOverflow) = SetCompact nb in
      if fNegative \<or> EqualTo bnTarget 0 \<or> fOverflow \<or> CompareTo bnTarget (UintToArith256 (powLimit params)) > 0
      then Inr False
      else let nElapsed = AdjustedTime env - nPrevBlockTime in
        if (nElapsed > 60 * 60 * 8 \<and> bLoadingBlockIndex) \<or> nElapsed > 60 * 60 * 24 then Inr True
        else if nPrevHeight < EVOLUTION_CUTOVER_HEIGHT params then
          Inr (\<not> (exceeds (BibleHashClassic env hash nBlockTime nPrevBlockTime nPrevHeight nNonce) bnTarget \<and>
                  nPrevBlockTime > 0))
        else if nPrevHeight \<ge> EVOLUTION_CUTOVER_HEIGHT params \<and> nPrevHeight < RANDOMX_HEIGHT params then
          (if \<not> CheckNonce True nNonce nPrevHeight nPrevBlockTime nBlockTime params then Inr False
           else case pindexPrev of
                  None \<Rightarrow> Inl (Chain NullDereference)
                | Some q \<Rightarrow>
                    Inr (\<not> (exceeds (BibleHashV2 env hash nBlockTime nPrevBlockTime nPrevHeight sHeaderHex uRXKey
                               (phashBlock (S q))) bnTarget \<and> nPrevBlockTime > 0)))
        else if nPrevHeight \<ge> RANDOMX_HEIGHT params \<and> nPrevHeight \<le> POOM_PHASEOUT_HEIGHT params then
          (case pindexPrev of
             None \<Rightarrow> Inl (Chain NullDereference)
           | Some q \<Rightarrow> randomx_ok env (RandomXHash env sHeaderHex uRXKey (phashBlock (S q)))
                         nPrevBlockTime nBlockTime bnTarget)
        else if nPrevHeight > POOM_PHASEOUT_HEIGHT params then
          (case pindexPrev of
             None \<Rightarrow> Inl (Chain NullDereference)
           | Some q \<Rightarrow> randomx_ok env (RandomXHash2 env sHeaderHex uRXKey (phashBlock (S q)))
                         nPrevBlockTime nBlockTime bnTarget)
        else Inr True)"


section \<open>Retargeting\<close>

lemma unat_u32_of: "0 \<le> x \<Longrightarrow> x < 2 ^ 32 \<Longrightarrow> unat (u32_of x) = nat x"
  by (simp add: u32_of_def unsigned_of_int take_bit_int_eq_self)

lemma val_u64_of: "0 \<le> x \<Longrightarrow> x < 2 ^ 64 \<Longrightarrow> val (of_u64 (u64_of x)) = nat x"
  by (simp add: u64_of_def unsigned_of_int take_bit_int_eq_self)

lemma length_UintToArith256 [simp]: "length (UintToArith256 b) = 8"
  by (simp add: UintToArith256_def WIDTH_def)

definition is_compact_floor :: "nat \<Rightarrow> u32 \<Rightarrow> bool" where
  "is_compact_floor v c \<longleftrightarrow>
     (case SetCompact c of (t, fNegative, fOverflow) \<Rightarrow>
        \<not> fNegative \<and> \<not> fOverflow \<and> val t \<le> v \<and> 2 ^ 15 * (v - val t) \<le> val t)"

lemma GetCompact_floor:
  assumes "length a = 8"
  obtains c where "GetCompact a False = Some c" and "is_compact_floor (val a) c"
  using compact_floor [OF assms] unfolding is_compact_floor_def by fastforce

lemma limit_compact_floor:
  obtains c where "limit_compact params = Inr c" and "is_compact_floor (val (UintToArith256 (powLimit params))) c"
proof -
  obtain c where "GetCompact (UintToArith256 (powLimit params)) False = Some c"
      "is_compact_floor (val (UintToArith256 (powLimit params))) c"
    by (rule GetCompact_floor [OF length_UintToArith256])
  then show thesis by (intro that [of c]) (simp_all add: limit_compact_def)
qed

lemma retarget_value:
  assumes "length bn = 8" and "length limit = 8" and "0 < target" and "target < 2 ^ 64"
    and "0 \<le> actual" and "actual < 2 ^ 32"
  obtains c where "retarget bn actual target limit = Inr c"
    and "is_compact_floor (min ((val bn * nat actual) mod 2 ^ 256 div nat target) (val limit)) c"
proof -
  have T: "val (of_u64 (u64_of target)) = nat target" using assms(3,4) by (intro val_u64_of) simp_all
  then have nz: "val (of_u64 (u64_of target)) \<noteq> 0" using assms(3) by simp
  have w: "unat (u32_of actual) = nat actual" using assms(5,6) by (rule unat_u32_of)
  have len: "length (of_u64 (u64_of target)) = 8" by simp
  obtain q where q: "div_uint (mul32 bn (u32_of actual)) (of_u64 (u64_of target)) = Inr q"
      "length (if CompareTo q limit > 0 then limit else q) = 8"
      "val (if CompareTo q limit > 0 then limit else q) =
         min ((val bn * unat (u32_of actual)) mod 2 ^ 256 div val (of_u64 (u64_of target))) (val limit)"
    by (rule u256.scaled_quotient_capped [OF assms(1) len assms(2) nz])
  obtain c where c: "GetCompact (if CompareTo q limit > 0 then limit else q) False = Some c"
      "is_compact_floor (val (if CompareTo q limit > 0 then limit else q)) c"
    by (rule GetCompact_floor [OF q(2)])
  show thesis
  proof (rule that)
    show "retarget bn actual target limit = Inr c" using q(1) c(1) by (simp add: retarget_def)
    show "is_compact_floor (min ((val bn * nat actual) mod 2 ^ 256 div nat target) (val limit)) c"
      using c(2) unfolding q(3) T w .
  qed
qed

lemma clamp_bounds:
  assumes "0 < f" and "0 < target"
  shows "target div f \<le> clamp_timespan f actual target" and "clamp_timespan f actual target \<le> target * f"
    and "target div f \<le> actual \<Longrightarrow> actual \<le> target * f \<Longrightarrow> clamp_timespan f actual target = actual"
    and "0 \<le> clamp_timespan f actual target"
proof -
  have "target div f \<le> target * f"
  proof -
    have "target div f \<le> target" using assms zdiv_mono2 [of target 1 f] by simp
    also have "target * 1 \<le> target * f" using assms by (intro mult_left_mono) simp_all
    finally show ?thesis by simp
  qed
  moreover have "0 \<le> target div f" using assms by (simp add: pos_imp_zdiv_nonneg_iff)
  ultimately show "target div f \<le> clamp_timespan f actual target" "clamp_timespan f actual target \<le> target * f"
    "target div f \<le> actual \<Longrightarrow> actual \<le> target * f \<Longrightarrow> clamp_timespan f actual target = actual"
    "0 \<le> clamp_timespan f actual target"
    using assms by (auto simp: clamp_timespan_def Let_def)
qed

section \<open>The averaging loop\<close>

definition dgw_wf :: "dgw \<Rightarrow> bool" where
  "dgw_wf d \<longleftrightarrow> length (PastDifficultyAverage d) = 8 \<and> length (PastDifficultyAveragePrev d) = 8 \<and> 0 \<le> CountBlocks d"

lemma dgw_average_total:
  assumes "dgw_wf d" and "CountBlocks d \<le> 4"
  obtains a where "dgw_average d nb = Inr a" and "length a = 8"
proof (cases "CountBlocks d = 1")
  case True
  then show thesis by (intro that [of "fst (SetCompact nb)"]) (simp_all add: dgw_average_def)
next
  case False
  let ?n = "add (mul32 (PastDifficultyAveragePrev d) (u32_of (CountBlocks d))) (fst (SetCompact nb))"
  have n: "length ?n = 8"
    using u256.scale_law u256.plus_law assms(1) length_SetCompact [of nb] by (auto simp: dgw_wf_def)
  have "val (of_u64 (u64_of (CountBlocks d + 1))) = nat (CountBlocks d + 1)"
    using assms by (intro val_u64_of) (simp_all add: dgw_wf_def)
  then have "val (of_u64 (u64_of (CountBlocks d + 1))) \<noteq> 0" using assms(1) by (simp add: dgw_wf_def)
  then obtain q where "div_uint ?n (of_u64 (u64_of (CountBlocks d + 1))) = Inr q" "length q = 8"
    using u256.quot_law [OF n, of "of_u64 (u64_of (CountBlocks d + 1))"] by auto
  then show thesis using False by (intro that [of q]) (simp_all add: dgw_average_def)
qed

text \<open>The state after one round that read block \<open>b\<close> with predecessor \<open>q\<close> and averaged to \<open>a\<close>.\<close>

definition dgw_after :: "store \<Rightarrow> bptr \<Rightarrow> bptr \<Rightarrow> base_uint \<Rightarrow> int \<Rightarrow> dgw \<Rightarrow> dgw" where
  "dgw_after S b q a sz d =
     \<lparr>BlockReading = Some q, CountBlocks = CountBlocks d + 1, PastDifficultyAverage = a,
      PastDifficultyAveragePrev = a,
      nActualTimespan = (if LastBlockTime d > 0 then nActualTimespan d + (LastBlockTime d - GetBlockTime (S b))
                         else nActualTimespan d),
      LastBlockTime = GetBlockTime (S b), nTotalBlockSize = nTotalBlockSize d + sz\<rparr>"

lemma dgw_loop_round:
  assumes "block_ok S b" and "0 < nHeight (S b)" and "BlockReading d = Some b"
    and "CountBlocks d + 1 \<le> 4"
    and "dgw_average (d\<lparr>CountBlocks := CountBlocks d + 1\<rparr>) (nBits (S b)) = Inr a"
  obtains q where "pprev (S b) = Some q" and "block_ok S q" and "nHeight (S b) = nHeight (S q) + 1"
    and "\<forall>n sz. dgw_loop (Suc n) S sz d = dgw_loop n S sz (dgw_after S b q a sz d)"
proof -
  obtain q where q: "pprev (S b) = Some q" using block_ok_genesis [OF assms(1)] assms(2) by fastforce
  then have "block_ok S q" "nHeight (S b) = nHeight (S q) + 1" using block_ok_prev assms(1) by auto
  moreover have "dgw_loop (Suc n) S sz d = dgw_loop n S sz (dgw_after S b q a sz d)" for n sz
    using assms q by (cases d) (simp add: PastBlocksMin_def Let_def dgw_after_def)
  ultimately show thesis using q by (intro that [of q] allI)
qed

lemma dgw_loop_total:
  "block_ok S b \<Longrightarrow> int n \<le> nHeight (S b) \<Longrightarrow> BlockReading d = Some b \<Longrightarrow> dgw_wf d \<Longrightarrow>
   CountBlocks d + int n \<le> 4 \<Longrightarrow>
   \<exists>d'. dgw_loop n S sz d = Inr d' \<and> dgw_wf d' \<and> CountBlocks d' = CountBlocks d + int n \<and>
     nTotalBlockSize d' = nTotalBlockSize d + int n * sz"
proof (induction n arbitrary: b d)
  case 0
  then show ?case by simp
next
  case (Suc n)
  let ?d1 = "d\<lparr>CountBlocks := CountBlocks d + 1\<rparr>"
  have "dgw_wf ?d1" "CountBlocks ?d1 \<le> 4" using Suc.prems by (auto simp: dgw_wf_def)
  then obtain a where a: "dgw_average ?d1 (nBits (S b)) = Inr a" "length a = 8"
    by (rule dgw_average_total)
  have h: "0 < nHeight (S b)" "CountBlocks d + 1 \<le> 4" using Suc.prems by auto
  obtain q where q: "block_ok S q" "nHeight (S b) = nHeight (S q) + 1"
    and e: "\<forall>n sz. dgw_loop (Suc n) S sz d = dgw_loop n S sz (dgw_after S b q a sz d)"
    by (rule dgw_loop_round [OF Suc.prems(1) h(1) Suc.prems(3) h(2) a(1)]) 
  have n: "CountBlocks (dgw_after S b q a sz d) = CountBlocks d + 1" "BlockReading (dgw_after S b q a sz d) = Some q"
    "dgw_wf (dgw_after S b q a sz d)" "nTotalBlockSize (dgw_after S b q a sz d) = nTotalBlockSize d + sz"
    using Suc.prems(4) a(2) by (auto simp: dgw_after_def dgw_wf_def)
  show ?case unfolding e [rule_format]
    using Suc.IH [OF q(1) _ n(2,3)] Suc.prems q(2) by (auto simp: n(1,4) algebra_simps)
qed

text \<open>The specification of the average and of the span of time the blocks took.\<close>

fun avg_fold :: "nat \<Rightarrow> nat \<Rightarrow> nat list \<Rightarrow> nat" where
  "avg_fold k a [] = a"
| "avg_fold k a (x # xs) = avg_fold (k + 1) ((a * (k + 1) + x) div (k + 2)) xs"

fun branch :: "store \<Rightarrow> nat \<Rightarrow> bptr option \<Rightarrow> bptr list" where
  "branch S 0 b = []"
| "branch S (Suc n) None = []"
| "branch S (Suc n) (Some b) = b # branch S n (pprev (S b))"

definition target_of :: "store \<Rightarrow> bptr \<Rightarrow> nat" where
  "target_of S b = val (fst (SetCompact (nBits (S b))))"

lemma average_bounds:
  fixes a x k m M :: nat
  assumes "m \<le> a" "a \<le> M" "m \<le> x" "x \<le> M"
  shows "m \<le> (a * (k + 1) + x) div (k + 2)" and "(a * (k + 1) + x) div (k + 2) \<le> M"
proof -
  have "m * (k + 2) \<le> a * (k + 1) + x"
    using assms(1,3) mult_le_mono1 [of m a "k + 1"] by (simp add: algebra_simps)
  then show "m \<le> (a * (k + 1) + x) div (k + 2)" by (simp add: less_eq_div_iff_mult_less_eq)
  have "a * (k + 1) + x \<le> M * (k + 2)"
    using assms(2,4) mult_le_mono1 [of a M "k + 1"] by (simp add: algebra_simps)
  then have "(a * (k + 1) + x) div (k + 2) \<le> M * (k + 2) div (k + 2)" by (rule div_le_mono)
  also have "M * (k + 2) div (k + 2) = M" by (rule nonzero_mult_div_cancel_right) simp
  finally show "(a * (k + 1) + x) div (k + 2) \<le> M" .
qed

lemma avg_fold_bounds:
  "m \<le> a \<Longrightarrow> a \<le> M \<Longrightarrow> (\<And>x. x \<in> set xs \<Longrightarrow> m \<le> x \<and> x \<le> M) \<Longrightarrow> m \<le> avg_fold k a xs \<and> avg_fold k a xs \<le> M"
proof (induction xs arbitrary: k a)
  case (Cons x xs)
  then have "m \<le> x" "x \<le> M" by auto
  with Cons.prems(1,2) have "m \<le> (a * (k + 1) + x) div (k + 2)" "(a * (k + 1) + x) div (k + 2) \<le> M"
    by (intro average_bounds; simp)+
  then have "m \<le> avg_fold (k + 1) ((a * (k + 1) + x) div (k + 2)) xs \<and> avg_fold (k + 1) ((a * (k + 1) + x) div (k + 2)) xs \<le> M"
    by (rule Cons.IH) (use Cons.prems(3) in auto)
  then show ?case by (simp only: avg_fold.simps)
qed simp

lemma dgw_average_value:
  assumes "length (PastDifficultyAveragePrev d) = 8" and "CountBlocks d = int k + 1" and "1 \<le> k" and "k \<le> 3"
    and "val (PastDifficultyAveragePrev d) * (k + 1) + val (fst (SetCompact nb)) < 2 ^ 256"
  obtains a where "dgw_average d nb = Inr a" and "length a = 8"
    and "val a = (val (PastDifficultyAveragePrev d) * (k + 1) + val (fst (SetCompact nb))) div (k + 2)"
proof -
  have w: "unat (u32_of (CountBlocks d)) = k + 1" using assms(2,4) by (subst unat_u32_of) simp_all
  have v: "val (of_u64 (u64_of (CountBlocks d + 1))) = Suc (unat (u32_of (CountBlocks d)))"
    unfolding w using assms(2,4) by (subst val_u64_of) simp_all
  have small: "val (PastDifficultyAveragePrev d) * unat (u32_of (CountBlocks d)) + val (fst (SetCompact nb)) < 2 ^ 256"
    using assms(5) unfolding w .
  have len: "length (of_u64 (u64_of (CountBlocks d + 1))) = 8" by simp
  obtain q where q: "div_uint (add (mul32 (PastDifficultyAveragePrev d) (u32_of (CountBlocks d))) (fst (SetCompact nb)))
        (of_u64 (u64_of (CountBlocks d + 1))) = Inr q" "length q = 8"
      "val q = (val (PastDifficultyAveragePrev d) * unat (u32_of (CountBlocks d)) + val (fst (SetCompact nb)))
        div Suc (unat (u32_of (CountBlocks d)))"
    by (rule u256.average_between [OF assms(1) length_SetCompact len v small])
  show thesis
  proof (rule that [OF _ q(2)])
    show "dgw_average d nb = Inr q" using q(1) assms(2,3) by (simp add: dgw_average_def)
    show "val q = (val (PastDifficultyAveragePrev d) * (k + 1) + val (fst (SetCompact nb))) div (k + 2)"
      using q(3) unfolding w by simp
  qed
qed

lemma dgw_rounds:
  assumes "5 * M < 2 ^ 256"
  shows "block_ok S b \<Longrightarrow> int n \<le> nHeight (S b) \<Longrightarrow> BlockReading d = Some b \<Longrightarrow>
   length (PastDifficultyAverage d) = 8 \<Longrightarrow> PastDifficultyAveragePrev d = PastDifficultyAverage d \<Longrightarrow>
   CountBlocks d = int k \<Longrightarrow> 1 \<le> k \<Longrightarrow> k + n \<le> 4 \<Longrightarrow> val (PastDifficultyAverage d) \<le> M \<Longrightarrow> 0 < LastBlockTime d \<Longrightarrow>
   (\<forall>x \<in> set (branch S n (Some b)). target_of S x \<le> M \<and> 0 < GetBlockTime (S x)) \<Longrightarrow>
   \<exists>d'. dgw_loop n S sz d = Inr d' \<and>
     val (PastDifficultyAverage d') =
       avg_fold k (val (PastDifficultyAverage d)) (map (target_of S) (branch S n (Some b))) \<and>
     nActualTimespan d' = nActualTimespan d + LastBlockTime d - last (LastBlockTime d # map (\<lambda>x. GetBlockTime (S x)) (branch S n (Some b)))"
proof (induction n arbitrary: b d k)
  case 0
  then show ?case by simp
next
  case (Suc n)
  let ?d1 = "d\<lparr>CountBlocks := CountBlocks d + 1\<rparr>"
  have tb: "target_of S b \<le> M" "0 < GetBlockTime (S b)" using Suc.prems(11) by simp_all
  have "val (PastDifficultyAverage d) * (k + 1) \<le> M * 4" using Suc.prems(8,9) by (intro mult_le_mono) simp_all
  then have "val (PastDifficultyAverage d) * (k + 1) + target_of S b \<le> 5 * M" using tb(1) by linarith
  then have small: "val (PastDifficultyAverage d) * (k + 1) + target_of S b < 2 ^ 256"
    using assms by (rule le_less_trans)
  have k3: "k \<le> 3" using Suc.prems(8) by simp
  obtain a where a: "dgw_average ?d1 (nBits (S b)) = Inr a" "length a = 8"
      "val a = (val (PastDifficultyAverage d) * (k + 1) + target_of S b) div (k + 2)"
    using dgw_average_value [of ?d1 k "nBits (S b)"] Suc.prems(4-7) k3 small
    unfolding target_of_def by (auto simp del: add_2_eq_Suc' add_2_eq_Suc)
  have h: "0 < nHeight (S b)" "CountBlocks d + 1 \<le> 4" using Suc.prems(2,6,8) by auto
  obtain q where q: "pprev (S b) = Some q" "block_ok S q" "nHeight (S b) = nHeight (S q) + 1"
    and e: "\<forall>n sz. dgw_loop (Suc n) S sz d = dgw_loop n S sz (dgw_after S b q a sz d)"
    by (rule dgw_loop_round [OF Suc.prems(1) h(1) Suc.prems(3) h(2) a(1)])
  define d2 where "d2 = dgw_after S b q a sz d"
  have f: "BlockReading d2 = Some q" "PastDifficultyAverage d2 = a" "PastDifficultyAveragePrev d2 = PastDifficultyAverage d2"
    "CountBlocks d2 = int (k + 1)" "LastBlockTime d2 = GetBlockTime (S b)"
    "nActualTimespan d2 = nActualTimespan d + (LastBlockTime d - GetBlockTime (S b))"
    using Suc.prems(6,10) by (simp_all add: d2_def dgw_after_def)
  have va: "val a \<le> M" unfolding a(3) by (rule average_bounds(2) [of 0]) (use Suc.prems(9) tb in auto)
  have "\<exists>d'. dgw_loop n S sz d2 = Inr d' \<and>
     val (PastDifficultyAverage d') =
       avg_fold (k + 1) (val (PastDifficultyAverage d2)) (map (target_of S) (branch S n (Some q))) \<and>
     nActualTimespan d' = nActualTimespan d2 + LastBlockTime d2 - last (LastBlockTime d2 # map (\<lambda>x. GetBlockTime (S x)) (branch S n (Some q)))"
    by (rule Suc.IH [OF q(2) _ f(1) _ f(3,4)]) (use Suc.prems q f a(2) va tb in auto)
  then show ?case unfolding e [rule_format] d2_def [symmetric] f(2,5,6) a(3)
    using q(1) by (cases n) auto
qed


lemma dgw_timespan_bounds:
  assumes "0 < nPowTargetSpacing params" and "nPowTargetSpacing params \<le> 100000"
  shows "4 \<le> dgw_timespan params h 4 sz" and "dgw_timespan params h 4 sz \<le> 400000"
  using assms by (simp_all add: dgw_timespan_def Let_def)

lemma dgw_init_wf: "dgw_wf (dgw_init p)" "BlockReading (dgw_init p) = Some p" "CountBlocks (dgw_init p) = 0"
  "nTotalBlockSize (dgw_init p) = 0" "LastBlockTime (dgw_init p) = 0" "nActualTimespan (dgw_init p) = 0"
  by (simp_all add: dgw_init_def dgw_wf_def zero256_def WIDTH_def)

lemma DarkGravityWave_unfold:
  assumes "4 \<le> nHeight (S p)" and "dgw_loop 4 S sz (dgw_init p) = Inr d" and "CountBlocks d = 4"
    and "nTotalBlockSize d = 4 * sz" and "0 \<le> sz"
  shows "DarkGravityWave S (Some p) sz params =
    (let T = dgw_timespan params (nHeight (S p)) 4 sz
     in retarget (PastDifficultyAverage d) (clamp_timespan 2 (nActualTimespan d) T) T (UintToArith256 (powLimit params)))"
  using assms by (simp add: DarkGravityWave_def PastBlocksMin_def PastBlocksMax_def Let_def)

lemma dgw_result:
  assumes "block_ok S p" and "4 \<le> nHeight (S p)" and "0 \<le> sz"
    and "0 < nPowTargetSpacing params" and "nPowTargetSpacing params \<le> 100000"
  obtains d c where "dgw_loop 4 S sz (dgw_init p) = Inr d" and "DarkGravityWave S (Some p) sz params = Inr c"
    and "is_compact_floor (min ((val (PastDifficultyAverage d) *
           nat (clamp_timespan 2 (nActualTimespan d) (dgw_timespan params (nHeight (S p)) 4 sz))) mod 2 ^ 256
           div nat (dgw_timespan params (nHeight (S p)) 4 sz)) (val (UintToArith256 (powLimit params)))) c"
proof -
  have "int 4 \<le> nHeight (S p)" "CountBlocks (dgw_init p) + int 4 \<le> 4" using assms(2) by (simp_all add: dgw_init_wf)
  then obtain d where d: "dgw_loop 4 S sz (dgw_init p) = Inr d" "dgw_wf d" "CountBlocks d = 4" "nTotalBlockSize d = 4 * sz"
    using dgw_loop_total [OF assms(1) _ dgw_init_wf(2,1), of 4 sz] by (auto simp: dgw_init_wf)
  define T where "T = dgw_timespan params (nHeight (S p)) 4 sz"
  have T: "4 \<le> T" "T \<le> 400000" using dgw_timespan_bounds [OF assms(4,5)] by (simp_all add: T_def)
  define t where "t = clamp_timespan 2 (nActualTimespan d) T"
  have t: "0 \<le> t" "t \<le> T * 2" using clamp_bounds [of 2 T "nActualTimespan d"] T by (simp_all add: t_def)
  have b: "0 < T" "T < 2 ^ 64" "t < 2 ^ 32" using T t by simp_all
  have len: "length (PastDifficultyAverage d) = 8" using d(2) by (simp add: dgw_wf_def)
  obtain c where c: "retarget (PastDifficultyAverage d) t T (UintToArith256 (powLimit params)) = Inr c"
      "is_compact_floor (min ((val (PastDifficultyAverage d) * nat t) mod 2 ^ 256 div nat T) (val (UintToArith256 (powLimit params)))) c"
    by (rule retarget_value [OF len length_UintToArith256 b(1,2) t(1) b(3)])
  have "DarkGravityWave S (Some p) sz params = Inr c"
    using DarkGravityWave_unfold [OF assms(2) d(1,3,4) assms(3), of params] c(1) by (simp add: Let_def T_def t_def)
  then show thesis using d(1) c(2) unfolding T_def t_def by (intro that)
qed

lemma dgw_first_rounds:
  assumes "block_ok S p" and "4 \<le> nHeight (S p)" and "5 * M < 2 ^ 256"
    and "\<forall>b \<in> set (branch S 4 (Some p)). target_of S b \<le> M \<and> 0 < GetBlockTime (S b)"
    and "dgw_loop 4 S sz (dgw_init p) = Inr d"
  shows "val (PastDifficultyAverage d) =
      avg_fold 1 (target_of S p) (map (target_of S) (tl (branch S 4 (Some p))))"
    and "nActualTimespan d = GetBlockTime (S p) - GetBlockTime (S (last (branch S 4 (Some p))))"
proof -
  have a: "dgw_average ((dgw_init p)\<lparr>CountBlocks := CountBlocks (dgw_init p) + 1\<rparr>) (nBits (S p)) =
      Inr (fst (SetCompact (nBits (S p))))"
    by (simp add: dgw_average_def dgw_init_wf)
  have h: "0 < nHeight (S p)" "CountBlocks (dgw_init p) + 1 \<le> 4" using assms(2) by (simp_all add: dgw_init_wf)
  obtain q where q: "pprev (S p) = Some q" "block_ok S q" "nHeight (S p) = nHeight (S q) + 1"
    and e: "\<forall>n sz. dgw_loop (Suc n) S sz (dgw_init p) =
      dgw_loop n S sz (dgw_after S p q (fst (SetCompact (nBits (S p)))) sz (dgw_init p))"
    by (rule dgw_loop_round [OF assms(1) h(1) dgw_init_wf(2) h(2) a])
  define d1 where "d1 = dgw_after S p q (fst (SetCompact (nBits (S p)))) sz (dgw_init p)"
  have br: "branch S 4 (Some p) = p # branch S 3 (Some q)" using q(1) by (simp add: eval_nat_numeral)
  have ne: "branch S 3 (Some q) \<noteq> []" by (simp add: eval_nat_numeral)
  have l: "dgw_loop 4 S sz (dgw_init p) = dgw_loop 3 S sz d1"
    using e [rule_format, of 3 sz] by (simp add: d1_def eval_nat_numeral)
  have f: "BlockReading d1 = Some q" "length (PastDifficultyAverage d1) = 8"
    "PastDifficultyAveragePrev d1 = PastDifficultyAverage d1" "CountBlocks d1 = int 1"
    "val (PastDifficultyAverage d1) = target_of S p" "LastBlockTime d1 = GetBlockTime (S p)" "nActualTimespan d1 = 0"
    by (simp_all add: d1_def dgw_after_def dgw_init_wf target_of_def)
  have p: "target_of S p \<le> M" "0 < GetBlockTime (S p)" using assms(4) br by simp_all
  have "\<exists>d'. dgw_loop 3 S sz d1 = Inr d' \<and>
     val (PastDifficultyAverage d') =
       avg_fold 1 (val (PastDifficultyAverage d1)) (map (target_of S) (branch S 3 (Some q))) \<and>
     nActualTimespan d' = nActualTimespan d1 + LastBlockTime d1 - last (LastBlockTime d1 # map (\<lambda>x. GetBlockTime (S x)) (branch S 3 (Some q)))"
    by (rule dgw_rounds [OF assms(3) q(2) _ f(1-4)]) (use assms(2,4) q(3) f p br in auto)
  then show "val (PastDifficultyAverage d) = avg_fold 1 (target_of S p) (map (target_of S) (tl (branch S 4 (Some p))))"
    "nActualTimespan d = GetBlockTime (S p) - GetBlockTime (S (last (branch S 4 (Some p))))"
    using assms(5) ne unfolding l br f by (auto simp: last_map)
qed

section \<open>Hash scaling and the legacy rule\<close>

lemma scale_hash_value:
  obtains r where "scale_hash h f = Inr r"
    and "val (UintToArith256 r) = (val (UintToArith256 h) * unat f) mod 2 ^ 256 div 8400"
proof -
  let ?h = "UintToArith256 h"
  have s: "length (mul32 ?h f) = 8" "val (mul32 ?h f) = (val ?h * unat f) mod 2 ^ 256"
    using u256.scale_law [of ?h f] by simp_all
  have v: "val (of_u64 8400) = 8400" by simp
  have "length (of_u64 8400) = 8" "val (of_u64 8400) \<noteq> 0" by simp_all
  then obtain q where q: "div_uint (mul32 ?h f) (of_u64 8400) = Inr q" "length q = 8"
      "val q = val (mul32 ?h f) div val (of_u64 8400)"
    using u256.quot_law [OF s(1), of "of_u64 8400"] by blast
  show thesis
  proof (rule that)
    show "scale_hash h f = Inr (ArithToUint256 q)" using q(1) by (simp add: scale_hash_def)
    show "val (UintToArith256 (ArithToUint256 q)) = (val ?h * unat f) mod 2 ^ 256 div 8400"
      unfolding ArithToUint256_roundtrip [OF q(2)] q(3) s(2) v ..
  qed
qed

lemma last_nonspecial_total:
  "block_ok S p \<Longrightarrow> \<exists>c. last_nonspecial S i l p = Some c"
proof (induction rule: block_ok.induct)
  case (genesis p)
  then show ?case by (subst last_nonspecial.simps) simp
next
  case (child p q)
  then show ?case by (subst last_nonspecial.simps) simp
qed


section \<open>An example chain\<close>

definition lin_store :: store where
  "lin_store i = empty_block\<lparr>pprev := (if i = 0 then None else Some (i - 1)), nHeight := int i,
     nTime := 1000 + of_nat (420 * i), nBits := 0x03000100\<rparr>"

lemma lin_store_fields [simp]:
  "pprev (lin_store i) = (if i = 0 then None else Some (i - 1))" "nHeight (lin_store i) = int i"
  "nBits (lin_store i) = 0x03000100" "pskip (lin_store i) = None" "nTime (lin_store i) = 1000 + of_nat (420 * i)"
  by (simp_all add: lin_store_def empty_block_def)

lemma lin_store_ok: "block_ok lin_store i"
proof (induction i)
  case 0
  show ?case by (rule block_ok.genesis) simp_all
next
  case (Suc i)
  then show ?case by (rule block_ok.child [rotated]) simp_all
qed

lemma lin_store_branch: "branch lin_store 4 (Some 4) = [4, 3, 2, 1]"
  by (simp add: eval_nat_numeral)

lemma lin_store_target [simp]: "target_of lin_store i = 256"
proof -
  have "SetCompact 0x03000100 = (of_u64 256, False, False)" by (simp add: SetCompact_def Let_def)
  then show ?thesis by (simp add: target_of_def)
qed

lemma lin_store_time [simp]: "i \<le> 4 \<Longrightarrow> GetBlockTime (lin_store i) = 1000 + 420 * int i"
proof -
  assume "i \<le> 4"
  then have "i = 0 \<or> i = 1 \<or> i = 2 \<or> i = 3 \<or> i = 4" by arith
  then show ?thesis by (auto simp: GetBlockTime_def)
qed

section \<open>Properties\<close>

text \<open>
  C28. For every well-formed branch and candidate, the difficulty that
  \<open>GetNextWorkRequired\<close> demands is computed without an exception or assertion failure, whatever
  the timestamps and the \<open>nBits\<close> of the blocks, and decodes to a non-negative,
  non-overflowing target that does not exceed \<open>powLimit\<close>.
\<close>

theorem DarkGravityWave_in_range:
  assumes "block_ok S p" and "0 \<le> sz" and "0 < nPowTargetSpacing params" and "nPowTargetSpacing params \<le> 100000"
  shows "\<exists>c t. GetNextWorkRequired S (Some p) sz params = Inr c \<and> SetCompact c = (t, False, False) \<and>
    val t \<le> val (UintToArith256 (powLimit params))"
proof -
  let ?L = "val (UintToArith256 (powLimit params))"
  have "\<exists>c v. DarkGravityWave S (Some p) sz params = Inr c \<and> is_compact_floor v c \<and> v \<le> ?L"
  proof (cases "4 \<le> nHeight (S p)")
    case True
    show ?thesis by (rule dgw_result [OF assms(1) True assms(2,3,4)]) (use min.cobounded2 in blast)
  next
    case False
    obtain c where "limit_compact params = Inr c" "is_compact_floor ?L c" by (rule limit_compact_floor)
    then show ?thesis using False by (auto simp: DarkGravityWave_def PastBlocksMin_def)
  qed
  then obtain c v where c: "DarkGravityWave S (Some p) sz params = Inr c" "is_compact_floor v c" "v \<le> ?L" by blast
  obtain t n ov where s: "SetCompact c = (t, n, ov)" by (cases "SetCompact c")
  then have "\<not> n" "\<not> ov" "val t \<le> v" using c(2) by (auto simp: is_compact_floor_def)
  then show ?thesis using c(1,3) s by (auto simp: GetNextWorkRequired_def)
qed

theorem DarkGravityWave_in_range_witness:
  "\<exists>c t. GetNextWorkRequired lin_store (Some 4) 80 ex_params = Inr c \<and> SetCompact c = (t, False, False)"
  using DarkGravityWave_in_range [OF lin_store_ok, of 80 ex_params 4] by (auto simp: ex_params_def)

text \<open>
  C33. From height 4 on, where targets are small enough not to wrap
  around 256 bits, Dark Gravity Wave averages the targets of the last four blocks (the result lies between
  the smallest and the largest of them), scales it by the time from the fourth-last to the
  last block, clamped to half and twice the wanted time, and caps it at \<open>powLimit\<close>; the result is that
  number rounded down to compact precision. The wanted time depends on the candidate only
  through the size of its own header.
\<close>

theorem DarkGravityWave_retargets:
  assumes "block_ok S p" and "4 \<le> nHeight (S p)" and "0 \<le> sz"
    and "0 < nPowTargetSpacing params" and "nPowTargetSpacing params \<le> 100000"
    and "bs = branch S 4 (Some p)"
    and "\<forall>b \<in> set bs. m \<le> target_of S b \<and> target_of S b \<le> M \<and> 0 < GetBlockTime (S b)"
    and "T = dgw_timespan params (nHeight (S p)) 4 sz" and "M * nat (2 * T) < 2 ^ 256"
  shows "\<exists>c A. DarkGravityWave S (Some p) sz params = Inr c \<and>
    A = avg_fold 1 (target_of S p) (map (target_of S) (tl bs)) \<and> m \<le> A \<and> A \<le> M \<and>
    is_compact_floor
      (min (A * nat (clamp_timespan 2 (GetBlockTime (S p) - GetBlockTime (S (last bs))) T) div nat T)
           (val (UintToArith256 (powLimit params)))) c"
proof -
  define A where "A = avg_fold 1 (target_of S p) (map (target_of S) (tl bs))"
  define t where "t = clamp_timespan 2 (GetBlockTime (S p) - GetBlockTime (S (last bs))) T"
  have T: "4 \<le> T" using dgw_timespan_bounds(1) [OF assms(4,5)] assms(8) by simp
  have "M * 5 \<le> M * nat (2 * T)" using T by (intro mult_le_mono) simp_all
  then have M5: "5 * M < 2 ^ 256" using assms(9) by linarith
  have hyp: "\<forall>b \<in> set (branch S 4 (Some p)). target_of S b \<le> M \<and> 0 < GetBlockTime (S b)"
    using assms(6,7) by blast
  obtain d c where d: "dgw_loop 4 S sz (dgw_init p) = Inr d" and c: "DarkGravityWave S (Some p) sz params = Inr c"
    and fl: "is_compact_floor (min ((val (PastDifficultyAverage d) * nat (clamp_timespan 2 (nActualTimespan d) T))
       mod 2 ^ 256 div nat T) (val (UintToArith256 (powLimit params)))) c"
    using dgw_result [OF assms(1-5)] unfolding assms(8) by blast
  have vals: "val (PastDifficultyAverage d) = A" "clamp_timespan 2 (nActualTimespan d) T = t"
    using dgw_first_rounds [OF assms(1,2) M5 hyp d] by (simp_all add: A_def t_def assms(6))
  have mem: "x \<in> set bs" if "x \<in> set (tl bs) \<or> x = p" for x
    using that list.set_sel(2) [of bs x] assms(6) by (cases bs) (auto simp: eval_nat_numeral)
  have AM: "m \<le> A \<and> A \<le> M"
    unfolding A_def by (rule avg_fold_bounds) (use assms(7) mem in auto)
  have small: "A * nat t < 2 ^ 256"
  proof -
    have "nat t \<le> nat (2 * T)" 
      using clamp_bounds(2) [of 2 T "GetBlockTime (S p) - GetBlockTime (S (last bs))"] T by (simp add: t_def)
    then have "A * nat t \<le> M * nat (2 * T)" using AM by (intro mult_le_mono) simp_all
    then show ?thesis using assms(9) by (rule le_less_trans)
  qed
  have "is_compact_floor (min (A * nat t div nat T) (val (UintToArith256 (powLimit params)))) c"
    using fl unfolding vals mod_less [OF small] .
  with c AM show ?thesis unfolding t_def by (intro exI [of _ c] exI [of _ A] conjI A_def) (simp_all only:)
qed

theorem DarkGravityWave_retargets_witness:
  "\<exists>c. DarkGravityWave lin_store (Some 4) 80 ex_params = Inr c \<and>
     is_compact_floor (min (256 * 1260 div 1680) (val (UintToArith256 (powLimit ex_params)))) c"
proof -
  have T: "dgw_timespan ex_params 4 4 80 = 1680" by (simp add: dgw_timespan_def ex_params_def)
  have sp: "nPowTargetSpacing ex_params = 420" by (simp add: ex_params_def)
  have a: "avg_fold 1 256 [256, 256, 256] = 256" by simp
  have cl: "clamp_timespan 2 1260 1680 = 1260" by (simp add: clamp_timespan_def)
  have "\<exists>c A. DarkGravityWave lin_store (Some 4) 80 ex_params = Inr c \<and>
    A = avg_fold 1 (target_of lin_store 4) (map (target_of lin_store) (tl [4, 3, 2, 1])) \<and> 256 \<le> A \<and> A \<le> 256 \<and>
    is_compact_floor
      (min (A * nat (clamp_timespan 2 (GetBlockTime (lin_store 4) - GetBlockTime (lin_store (last [4, 3, 2, 1]))) 1680) div nat 1680)
           (val (UintToArith256 (powLimit ex_params)))) c"
    by (rule DarkGravityWave_retargets [OF lin_store_ok])
      (simp_all only: lin_store_branch lin_store_fields, simp_all add: T sp)
  then show ?thesis using a cl by simp
qed

text \<open>
  C39. Half an hour after the previous block \<open>ComputeRandomXTarget\<close> multiplies
  the hash by 700 and divides by 8400. The product is taken modulo \<open>2 ^ 256\<close>, so every hash
  at all is turned into a number below \<open>2 ^ 256 div 8400 + 1\<close>, not into a twelfth of itself, and
  the rule for 45 minutes that follows is never reached.
\<close>

theorem ComputeRandomXTarget_wraps:
  assumes "nBlockTime - nPrevBlockTime > 60 * 30"
  shows "\<exists>r. ComputeRandomXTarget isProd h nPrevBlockTime nBlockTime = Inr r \<and>
    val (UintToArith256 r) = (val (UintToArith256 h) * 700) mod 2 ^ 256 div 8400 \<and>
    val (UintToArith256 r) \<le> 2 ^ 256 div 8400"
proof -
  obtain r where r: "scale_hash h 700 = Inr r"
      "val (UintToArith256 r) = (val (UintToArith256 h) * unat (700 :: u32)) mod 2 ^ 256 div 8400"
    by (rule scale_hash_value)
  have u: "unat (700 :: u32) = 700" by simp
  have "ComputeRandomXTarget isProd h nPrevBlockTime nBlockTime = Inr r"
    using assms r(1) by (simp add: ComputeRandomXTarget_def)
  moreover have b: "(val (UintToArith256 h) * 700) mod 2 ^ 256 div 8400 \<le> 2 ^ 256 div 8400"
    by (intro div_le_mono less_imp_le mod_less_divisor zero_less_power zero_less_numeral)
  moreover have v: "val (UintToArith256 r) = (val (UintToArith256 h) * 700) mod 2 ^ 256 div 8400"
    using r(2) unfolding u .
  ultimately show ?thesis using b unfolding v [symmetric] by (intro exI [of _ r] conjI)
qed

theorem ComputeRandomXTarget_wraps_witness:
  "\<exists>r. ComputeRandomXTarget True (replicate 32 0xff) 0 2000 = Inr r \<and>
    val (UintToArith256 r) \<le> 2 ^ 256 div 8400"
  using ComputeRandomXTarget_wraps [where nPrevBlockTime = 0 and nBlockTime = 2000 and isProd = True and h = "replicate 32 0xff"]
  by auto

text \<open>
  C35. After \<open>POOM_PHASEOUT_HEIGHT\<close>, \<open>CheckProofOfWork\<close> accepts a header
  exactly when its target is positive, without overflow and at most \<open>powLimit\<close>, and either the
  parent is older than a day (eight hours while the block index is loaded), in which case
  no hash is computed, or the scaled RandomX hash does not exceed the target.
\<close>

theorem CheckProofOfWork_randomx:
  assumes "SetCompact nb = (t, fneg, fovf)"
    and "EVOLUTION_CUTOVER_HEIGHT params \<le> RANDOMX_HEIGHT params"
    and "RANDOMX_HEIGHT params \<le> POOM_PHASEOUT_HEIGHT params" and "POOM_PHASEOUT_HEIGHT params < nPrevHeight"
    and "ComputeRandomXTarget (fProd env) (RandomXHash2 env hdr key (phashBlock (S q))) nPrevBlockTime nBlockTime = Inr r"
  shows "CheckProofOfWork env S h nb params nBlockTime nPrevBlockTime nPrevHeight nNonce (Some q) hdr key loading =
    Inr (\<not> fneg \<and> \<not> fovf \<and> 0 < val t \<and> val t \<le> val (UintToArith256 (powLimit params)) \<and>
         (AdjustedTime env - nPrevBlockTime > 86400 \<or> (loading \<and> AdjustedTime env - nPrevBlockTime > 28800) \<or>
          val (UintToArith256 r) \<le> val t))"
proof -
  have len: "length t = 8" using length_SetCompact [of nb] assms(1) by simp
  have gt: "CompareTo t (UintToArith256 (powLimit params)) > 0 \<longleftrightarrow> val (UintToArith256 (powLimit params)) < val t"
    "exceeds r t \<longleftrightarrow> val t < val (UintToArith256 r)"
    using len by (simp_all add: CompareTo_gt exceeds_def)
  have z: "EqualTo t 0 \<longleftrightarrow> val t = 0" using len by (simp add: EqualTo_val)
  have h: "\<not> nPrevHeight < EVOLUTION_CUTOVER_HEIGHT params" "\<not> nPrevHeight < RANDOMX_HEIGHT params"
    "\<not> nPrevHeight \<le> POOM_PHASEOUT_HEIGHT params" using assms(2-4) by simp_all
  show ?thesis
    unfolding CheckProofOfWork_def assms(1) randomx_ok_def using h assms(4,5) by (auto simp: gt z Let_def)
qed

theorem CheckProofOfWork_randomx_witness:
  "let env = \<lparr>AdjustedTime = 1000, BibleHashClassic = \<lambda>_ _ _ _ _. [], BibleHashV2 = \<lambda>_ _ _ _ _ _ _. [],
       RandomXHash = \<lambda>_ _ _. [], RandomXHash2 = \<lambda>_ _ _. replicate 32 0, fProd = True\<rparr>
   in CheckProofOfWork env lin_store [] 0x03000100 ex_params 900 500 200000 0 (Some 1) [] [] False = Inr True"
proof -
  define env where "env = \<lparr>AdjustedTime = 1000, BibleHashClassic = \<lambda>_ _ _ _ _. [], BibleHashV2 = \<lambda>_ _ _ _ _ _ _. [],
       RandomXHash = \<lambda>_ _ _. [], RandomXHash2 = \<lambda>_ _ _. replicate 32 0, fProd = True\<rparr>"
  have s: "SetCompact 0x03000100 = (of_u64 256, False, False)" by (simp add: SetCompact_def Let_def)
  have r: "ComputeRandomXTarget (fProd env) (RandomXHash2 env [] [] (phashBlock (lin_store 1))) 500 900 = Inr (replicate 32 0)"
    by (simp add: ComputeRandomXTarget_def env_def)
  have z: "UintToArith256 (replicate 32 0) = replicate 8 0" by code_simp
  have l: "val (UintToArith256 (powLimit ex_params)) \<ge> 256"
  proof -
    have "UintToArith256 (powLimit ex_params) = replicate 8 0xffffffff"
      unfolding ex_params_def Params.simps by code_simp
    moreover have "replicate 8 (0xffffffff :: u32) = 0xffffffff # replicate 7 0xffffffff" by (simp add: numeral_eq_Suc)
    moreover have "256 \<le> unat (0xffffffff :: u32)" by simp
    ultimately show ?thesis by (simp only: val_Cons)
  qed
  have exh: "EVOLUTION_CUTOVER_HEIGHT ex_params = 123200" "RANDOMX_HEIGHT ex_params = 184675"
    "POOM_PHASEOUT_HEIGHT ex_params = 199000" by (simp_all add: ex_params_def)
  have v: "val (UintToArith256 (replicate 32 0)) = 0" unfolding z by (simp add: val_def)
  have "CheckProofOfWork env lin_store [] 0x03000100 ex_params 900 500 200000 0 (Some 1) [] [] False = Inr True"
    by (subst CheckProofOfWork_randomx [where S = lin_store and q = 1 and params = ex_params and nPrevHeight = 200000, OF s _ _ _ r])
      (use l v in \<open>simp_all add: exh env_def\<close>)
  then show ?thesis by (simp add: env_def Let_def)
qed

text \<open>
  C38. The retargeting rule of Bitcoin that the code keeps returns a value
  on every well-formed branch: its walk over minimum-difficulty blocks ends and neither its
  assertions nor the division fail.
\<close>

theorem GetNextWorkRequiredBTC_total:
  assumes "block_ok S p" and "0 < nPowTargetSpacing params"
    and "nPowTargetSpacing params \<le> nPowTargetTimespan params" and "nPowTargetTimespan params \<le> 1000000000"
  shows "\<exists>c. GetNextWorkRequiredBTC S (Some p) now params = Some (Inr c)"
proof -
  let ?I = "DifficultyAdjustmentInterval params"
  have I: "1 \<le> ?I"
    using assms(2,3) by (simp add: DifficultyAdjustmentInterval_def pos_imp_zdiv_pos_iff int_one_le_iff_zero_less)
  have h: "0 \<le> nHeight (S p)" by (rule block_ok_height [OF assms(1)])
  obtain l where l: "limit_compact params = Inr l" by (rule limit_compact_floor)
  show ?thesis
  proof (cases "(nHeight (S p) + 1) mod ?I = 0")
    case False
    then show ?thesis
      using l h I last_nonspecial_total [OF assms(1), of ?I l] by (auto simp: GetNextWorkRequiredBTC_def)
  next
    case True
    then obtain k where k: "nHeight (S p) + 1 = ?I * k" by (auto simp: dvd_eq_mod_eq_0 [symmetric])
    have "0 < k" using k h I by (smt (verit) zero_less_mult_iff)
    then have "?I * 1 \<le> ?I * k" using I by (intro mult_left_mono) simp_all
    then have f: "0 \<le> nHeight (S p) - (?I - 1)" "nHeight (S p) - (?I - 1) \<le> nHeight (S p)" using k I by linarith+
    obtain a where a: "GetAncestor S p (nHeight (S p) - (?I - 1)) = Inr (Some a)"
      using idx.look_ex [OF assms(1) f] by (auto simp: GetAncestor_lookup [OF assms(1)])
    have "\<exists>c. CalculateNextWorkRequired S p (GetBlockTime (S a)) params = Inr c"
    proof (cases "fPowNoRetargeting params")
      case True
      then show ?thesis by (simp add: CalculateNextWorkRequired_def)
    next
      case False
      define t where "t = clamp_timespan 4 (GetBlockTime (S p) - GetBlockTime (S a)) (nPowTargetTimespan params)"
      have T: "0 < nPowTargetTimespan params" "nPowTargetTimespan params < 2 ^ 64" using assms(2-4) by simp_all
      have t: "0 \<le> t" "t < 2 ^ 32"
        using clamp_bounds(4,2) [of 4 "nPowTargetTimespan params" "GetBlockTime (S p) - GetBlockTime (S a)"] T(1) assms(4)
        by (simp_all add: t_def)
      obtain c where "retarget (fst (SetCompact (nBits (S p)))) t (nPowTargetTimespan params) (UintToArith256 (powLimit params)) = Inr c"
        by (rule retarget_value [OF length_SetCompact length_UintToArith256 T t])
      then show ?thesis using False by (simp add: CalculateNextWorkRequired_def t_def)
    qed
    then show ?thesis using l h I True f a by (simp add: GetNextWorkRequiredBTC_def Let_def)
  qed
qed

theorem GetNextWorkRequiredBTC_total_witness:
  "\<exists>c. GetNextWorkRequiredBTC lin_store (Some 4) 3000 ex_params = Some (Inr c)"
  using GetNextWorkRequiredBTC_total [OF lin_store_ok, of ex_params 4 3000] by (simp add: ex_params_def)

end
