(* ===== verification/Script.thy ===== *)
theory Script
  imports Uint256_Compact "HOL-Library.Sublist"
begin

text \<open>
  Scripts: \<open>src/src/script/script.h\<close> and \<open>script.cpp\<close>.

  A script is its list of bytes and an opcode its number. An iterator \<open>pc\<close> into a script is the
  list of the bytes from \<open>pc\<close> to \<open>end()\<close>, so \<open>end() - pc\<close> is its length; \<open>GetOp2\<close> returns
  the advanced iterator also when it fails. A \<open>CScriptNum\<close> is the integer it holds; numbers
  of more than eight bytes, for which the shifts of \<open>set_vch\<close> would leave 64 bits, are never
  decoded, because every caller limits the size to four or five bytes.
\<close>

section \<open>Opcodes\<close>

definition OP_0 :: nat where [simp]: "OP_0 = 0x00"
definition OP_FALSE :: nat where [simp]: "OP_FALSE = OP_0"
definition OP_PUSHDATA1 :: nat where [simp]: "OP_PUSHDATA1 = 0x4c"
definition OP_PUSHDATA2 :: nat where [simp]: "OP_PUSHDATA2 = 0x4d"
definition OP_PUSHDATA4 :: nat where [simp]: "OP_PUSHDATA4 = 0x4e"
definition OP_1NEGATE :: nat where [simp]: "OP_1NEGATE = 0x4f"
definition OP_RESERVED :: nat where [simp]: "OP_RESERVED = 0x50"
definition OP_1 :: nat where [simp]: "OP_1 = 0x51"
definition OP_TRUE :: nat where [simp]: "OP_TRUE = OP_1"
definition OP_2 :: nat where [simp]: "OP_2 = 0x52"
definition OP_3 :: nat where [simp]: "OP_3 = 0x53"
definition OP_4 :: nat where [simp]: "OP_4 = 0x54"
definition OP_5 :: nat where [simp]: "OP_5 = 0x55"
definition OP_6 :: nat where [simp]: "OP_6 = 0x56"
definition OP_7 :: nat where [simp]: "OP_7 = 0x57"
definition OP_8 :: nat where [simp]: "OP_8 = 0x58"
definition OP_9 :: nat where [simp]: "OP_9 = 0x59"
definition OP_10 :: nat where [simp]: "OP_10 = 0x5a"
definition OP_11 :: nat where [simp]: "OP_11 = 0x5b"
definition OP_12 :: nat where [simp]: "OP_12 = 0x5c"
definition OP_13 :: nat where [simp]: "OP_13 = 0x5d"
definition OP_14 :: nat where [simp]: "OP_14 = 0x5e"
definition OP_15 :: nat where [simp]: "OP_15 = 0x5f"
definition OP_16 :: nat where [simp]: "OP_16 = 0x60"
definition OP_NOP :: nat where [simp]: "OP_NOP = 0x61"
definition OP_VER :: nat where [simp]: "OP_VER = 0x62"
definition OP_IF :: nat where [simp]: "OP_IF = 0x63"
definition OP_NOTIF :: nat where [simp]: "OP_NOTIF = 0x64"
definition OP_VERIF :: nat where [simp]: "OP_VERIF = 0x65"
definition OP_VERNOTIF :: nat where [simp]: "OP_VERNOTIF = 0x66"
definition OP_ELSE :: nat where [simp]: "OP_ELSE = 0x67"
definition OP_ENDIF :: nat where [simp]: "OP_ENDIF = 0x68"
definition OP_VERIFY :: nat where [simp]: "OP_VERIFY = 0x69"
definition OP_RETURN :: nat where [simp]: "OP_RETURN = 0x6a"
definition OP_TOALTSTACK :: nat where [simp]: "OP_TOALTSTACK = 0x6b"
definition OP_FROMALTSTACK :: nat where [simp]: "OP_FROMALTSTACK = 0x6c"
definition OP_2DROP :: nat where [simp]: "OP_2DROP = 0x6d"
definition OP_2DUP :: nat where [simp]: "OP_2DUP = 0x6e"
definition OP_3DUP :: nat where [simp]: "OP_3DUP = 0x6f"
definition OP_2OVER :: nat where [simp]: "OP_2OVER = 0x70"
definition OP_2ROT :: nat where [simp]: "OP_2ROT = 0x71"
definition OP_2SWAP :: nat where [simp]: "OP_2SWAP = 0x72"
definition OP_IFDUP :: nat where [simp]: "OP_IFDUP = 0x73"
definition OP_DEPTH :: nat where [simp]: "OP_DEPTH = 0x74"
definition OP_DROP :: nat where [simp]: "OP_DROP = 0x75"
definition OP_DUP :: nat where [simp]: "OP_DUP = 0x76"
definition OP_NIP :: nat where [simp]: "OP_NIP = 0x77"
definition OP_OVER :: nat where [simp]: "OP_OVER = 0x78"
definition OP_PICK :: nat where [simp]: "OP_PICK = 0x79"
definition OP_ROLL :: nat where [simp]: "OP_ROLL = 0x7a"
definition OP_ROT :: nat where [simp]: "OP_ROT = 0x7b"
definition OP_SWAP :: nat where [simp]: "OP_SWAP = 0x7c"
definition OP_TUCK :: nat where [simp]: "OP_TUCK = 0x7d"
definition OP_CAT :: nat where [simp]: "OP_CAT = 0x7e"
definition OP_SUBSTR :: nat where [simp]: "OP_SUBSTR = 0x7f"
definition OP_LEFT :: nat where [simp]: "OP_LEFT = 0x80"
definition OP_RIGHT :: nat where [simp]: "OP_RIGHT = 0x81"
definition OP_SIZE :: nat where [simp]: "OP_SIZE = 0x82"
definition OP_INVERT :: nat where [simp]: "OP_INVERT = 0x83"
definition OP_AND :: nat where [simp]: "OP_AND = 0x84"
definition OP_OR :: nat where [simp]: "OP_OR = 0x85"
definition OP_XOR :: nat where [simp]: "OP_XOR = 0x86"
definition OP_EQUAL :: nat where [simp]: "OP_EQUAL = 0x87"
definition OP_EQUALVERIFY :: nat where [simp]: "OP_EQUALVERIFY = 0x88"
definition OP_RESERVED1 :: nat where [simp]: "OP_RESERVED1 = 0x89"
definition OP_RESERVED2 :: nat where [simp]: "OP_RESERVED2 = 0x8a"
definition OP_1ADD :: nat where [simp]: "OP_1ADD = 0x8b"
definition OP_1SUB :: nat where [simp]: "OP_1SUB = 0x8c"
definition OP_2MUL :: nat where [simp]: "OP_2MUL = 0x8d"
definition OP_2DIV :: nat where [simp]: "OP_2DIV = 0x8e"
definition OP_NEGATE :: nat where [simp]: "OP_NEGATE = 0x8f"
definition OP_ABS :: nat where [simp]: "OP_ABS = 0x90"
definition OP_NOT :: nat where [simp]: "OP_NOT = 0x91"
definition OP_0NOTEQUAL :: nat where [simp]: "OP_0NOTEQUAL = 0x92"
definition OP_ADD :: nat where [simp]: "OP_ADD = 0x93"
definition OP_SUB :: nat where [simp]: "OP_SUB = 0x94"
definition OP_MUL :: nat where [simp]: "OP_MUL = 0x95"
definition OP_DIV :: nat where [simp]: "OP_DIV = 0x96"
definition OP_MOD :: nat where [simp]: "OP_MOD = 0x97"
definition OP_LSHIFT :: nat where [simp]: "OP_LSHIFT = 0x98"
definition OP_RSHIFT :: nat where [simp]: "OP_RSHIFT = 0x99"
definition OP_BOOLAND :: nat where [simp]: "OP_BOOLAND = 0x9a"
definition OP_BOOLOR :: nat where [simp]: "OP_BOOLOR = 0x9b"
definition OP_NUMEQUAL :: nat where [simp]: "OP_NUMEQUAL = 0x9c"
definition OP_NUMEQUALVERIFY :: nat where [simp]: "OP_NUMEQUALVERIFY = 0x9d"
definition OP_NUMNOTEQUAL :: nat where [simp]: "OP_NUMNOTEQUAL = 0x9e"
definition OP_LESSTHAN :: nat where [simp]: "OP_LESSTHAN = 0x9f"
definition OP_GREATERTHAN :: nat where [simp]: "OP_GREATERTHAN = 0xa0"
definition OP_LESSTHANOREQUAL :: nat where [simp]: "OP_LESSTHANOREQUAL = 0xa1"
definition OP_GREATERTHANOREQUAL :: nat where [simp]: "OP_GREATERTHANOREQUAL = 0xa2"
definition OP_MIN :: nat where [simp]: "OP_MIN = 0xa3"
definition OP_MAX :: nat where [simp]: "OP_MAX = 0xa4"
definition OP_WITHIN :: nat where [simp]: "OP_WITHIN = 0xa5"
definition OP_RIPEMD160 :: nat where [simp]: "OP_RIPEMD160 = 0xa6"
definition OP_SHA1 :: nat where [simp]: "OP_SHA1 = 0xa7"
definition OP_SHA256 :: nat where [simp]: "OP_SHA256 = 0xa8"
definition OP_HASH160 :: nat where [simp]: "OP_HASH160 = 0xa9"
definition OP_HASH256 :: nat where [simp]: "OP_HASH256 = 0xaa"
definition OP_CODESEPARATOR :: nat where [simp]: "OP_CODESEPARATOR = 0xab"
definition OP_CHECKSIG :: nat where [simp]: "OP_CHECKSIG = 0xac"
definition OP_CHECKSIGVERIFY :: nat where [simp]: "OP_CHECKSIGVERIFY = 0xad"
definition OP_CHECKMULTISIG :: nat where [simp]: "OP_CHECKMULTISIG = 0xae"
definition OP_CHECKMULTISIGVERIFY :: nat where [simp]: "OP_CHECKMULTISIGVERIFY = 0xaf"
definition OP_NOP1 :: nat where [simp]: "OP_NOP1 = 0xb0"
definition OP_CHECKLOCKTIMEVERIFY :: nat where [simp]: "OP_CHECKLOCKTIMEVERIFY = 0xb1"
definition OP_NOP2 :: nat where [simp]: "OP_NOP2 = OP_CHECKLOCKTIMEVERIFY"
definition OP_CHECKSEQUENCEVERIFY :: nat where [simp]: "OP_CHECKSEQUENCEVERIFY = 0xb2"
definition OP_NOP3 :: nat where [simp]: "OP_NOP3 = OP_CHECKSEQUENCEVERIFY"
definition OP_NOP4 :: nat where [simp]: "OP_NOP4 = 0xb3"
definition OP_NOP5 :: nat where [simp]: "OP_NOP5 = 0xb4"
definition OP_NOP6 :: nat where [simp]: "OP_NOP6 = 0xb5"
definition OP_NOP7 :: nat where [simp]: "OP_NOP7 = 0xb6"
definition OP_NOP8 :: nat where [simp]: "OP_NOP8 = 0xb7"
definition OP_NOP9 :: nat where [simp]: "OP_NOP9 = 0xb8"
definition OP_NOP10 :: nat where [simp]: "OP_NOP10 = 0xb9"
definition OP_SMALLINTEGER :: nat where [simp]: "OP_SMALLINTEGER = 0xfa"
definition OP_PUBKEYS :: nat where [simp]: "OP_PUBKEYS = 0xfb"
definition OP_PUBKEYHASH :: nat where [simp]: "OP_PUBKEYHASH = 0xfd"
definition OP_PUBKEY :: nat where [simp]: "OP_PUBKEY = 0xfe"
definition OP_INVALIDOPCODE :: nat where [simp]: "OP_INVALIDOPCODE = 0xff"

definition op_names :: "(nat \<times> string) list" where
  "op_names =
    [(OP_0, ''0''),
     (OP_PUSHDATA1, ''OP_PUSHDATA1''),
     (OP_PUSHDATA2, ''OP_PUSHDATA2''),
     (OP_PUSHDATA4, ''OP_PUSHDATA4''),
     (OP_1NEGATE, ''-1''),
     (OP_RESERVED, ''OP_RESERVED''),
     (OP_1, ''1''),
     (OP_2, ''2''),
     (OP_3, ''3''),
     (OP_4, ''4''),
     (OP_5, ''5''),
     (OP_6, ''6''),
     (OP_7, ''7''),
     (OP_8, ''8''),
     (OP_9, ''9''),
     (OP_10, ''10''),
     (OP_11, ''11''),
     (OP_12, ''12''),
     (OP_13, ''13''),
     (OP_14, ''14''),
     (OP_15, ''15''),
     (OP_16, ''16''),
     (OP_NOP, ''OP_NOP''),
     (OP_VER, ''OP_VER''),
     (OP_IF, ''OP_IF''),
     (OP_NOTIF, ''OP_NOTIF''),
     (OP_VERIF, ''OP_VERIF''),
     (OP_VERNOTIF, ''OP_VERNOTIF''),
     (OP_ELSE, ''OP_ELSE''),
     (OP_ENDIF, ''OP_ENDIF''),
     (OP_VERIFY, ''OP_VERIFY''),
     (OP_RETURN, ''OP_RETURN''),
     (OP_TOALTSTACK, ''OP_TOALTSTACK''),
     (OP_FROMALTSTACK, ''OP_FROMALTSTACK''),
     (OP_2DROP, ''OP_2DROP''),
     (OP_2DUP, ''OP_2DUP''),
     (OP_3DUP, ''OP_3DUP''),
     (OP_2OVER, ''OP_2OVER''),
     (OP_2ROT, ''OP_2ROT''),
     (OP_2SWAP, ''OP_2SWAP''),
     (OP_IFDUP, ''OP_IFDUP''),
     (OP_DEPTH, ''OP_DEPTH''),
     (OP_DROP, ''OP_DROP''),
     (OP_DUP, ''OP_DUP''),
     (OP_NIP, ''OP_NIP''),
     (OP_OVER, ''OP_OVER''),
     (OP_PICK, ''OP_PICK''),
     (OP_ROLL, ''OP_ROLL''),
     (OP_ROT, ''OP_ROT''),
     (OP_SWAP, ''OP_SWAP''),
     (OP_TUCK, ''OP_TUCK''),
     (OP_CAT, ''OP_CAT''),
     (OP_SUBSTR, ''OP_SUBSTR''),
     (OP_LEFT, ''OP_LEFT''),
     (OP_RIGHT, ''OP_RIGHT''),
     (OP_SIZE, ''OP_SIZE''),
     (OP_INVERT, ''OP_INVERT''),
     (OP_AND, ''OP_AND''),
     (OP_OR, ''OP_OR''),
     (OP_XOR, ''OP_XOR''),
     (OP_EQUAL, ''OP_EQUAL''),
     (OP_EQUALVERIFY, ''OP_EQUALVERIFY''),
     (OP_RESERVED1, ''OP_RESERVED1''),
     (OP_RESERVED2, ''OP_RESERVED2''),
     (OP_1ADD, ''OP_1ADD''),
     (OP_1SUB, ''OP_1SUB''),
     (OP_2MUL, ''OP_2MUL''),
     (OP_2DIV, ''OP_2DIV''),
     (OP_NEGATE, ''OP_NEGATE''),
     (OP_ABS, ''OP_ABS''),
     (OP_NOT, ''OP_NOT''),
     (OP_0NOTEQUAL, ''OP_0NOTEQUAL''),
     (OP_ADD, ''OP_ADD''),
     (OP_SUB, ''OP_SUB''),
     (OP_MUL, ''OP_MUL''),
     (OP_DIV, ''OP_DIV''),
     (OP_MOD, ''OP_MOD''),
     (OP_LSHIFT, ''OP_LSHIFT''),
     (OP_RSHIFT, ''OP_RSHIFT''),
     (OP_BOOLAND, ''OP_BOOLAND''),
     (OP_BOOLOR, ''OP_BOOLOR''),
     (OP_NUMEQUAL, ''OP_NUMEQUAL''),
     (OP_NUMEQUALVERIFY, ''OP_NUMEQUALVERIFY''),
     (OP_NUMNOTEQUAL, ''OP_NUMNOTEQUAL''),
     (OP_LESSTHAN, ''OP_LESSTHAN''),
     (OP_GREATERTHAN, ''OP_GREATERTHAN''),
     (OP_LESSTHANOREQUAL, ''OP_LESSTHANOREQUAL''),
     (OP_GREATERTHANOREQUAL, ''OP_GREATERTHANOREQUAL''),
     (OP_MIN, ''OP_MIN''),
     (OP_MAX, ''OP_MAX''),
     (OP_WITHIN, ''OP_WITHIN''),
     (OP_RIPEMD160, ''OP_RIPEMD160''),
     (OP_SHA1, ''OP_SHA1''),
     (OP_SHA256, ''OP_SHA256''),
     (OP_HASH160, ''OP_HASH160''),
     (OP_HASH256, ''OP_HASH256''),
     (OP_CODESEPARATOR, ''OP_CODESEPARATOR''),
     (OP_CHECKSIG, ''OP_CHECKSIG''),
     (OP_CHECKSIGVERIFY, ''OP_CHECKSIGVERIFY''),
     (OP_CHECKMULTISIG, ''OP_CHECKMULTISIG''),
     (OP_CHECKMULTISIGVERIFY, ''OP_CHECKMULTISIGVERIFY''),
     (OP_NOP1, ''OP_NOP1''),
     (OP_CHECKLOCKTIMEVERIFY, ''OP_CHECKLOCKTIMEVERIFY''),
     (OP_CHECKSEQUENCEVERIFY, ''OP_CHECKSEQUENCEVERIFY''),
     (OP_NOP4, ''OP_NOP4''),
     (OP_NOP5, ''OP_NOP5''),
     (OP_NOP6, ''OP_NOP6''),
     (OP_NOP7, ''OP_NOP7''),
     (OP_NOP8, ''OP_NOP8''),
     (OP_NOP9, ''OP_NOP9''),
     (OP_NOP10, ''OP_NOP10''),
     (OP_INVALIDOPCODE, ''OP_INVALIDOPCODE'')]"

definition GetOpName :: "nat \<Rightarrow> string" where
  "GetOpName opcode = (case map_of op_names opcode of Some s \<Rightarrow> s | None \<Rightarrow> ''OP_UNKNOWN'')"

definition MAX_SCRIPT_ELEMENT_SIZE :: nat where [simp]: "MAX_SCRIPT_ELEMENT_SIZE = 520"
definition MAX_OPS_PER_SCRIPT :: int where [simp]: "MAX_OPS_PER_SCRIPT = 201"
definition MAX_PUBKEYS_PER_MULTISIG :: int where [simp]: "MAX_PUBKEYS_PER_MULTISIG = 20"
definition MAX_SCRIPT_SIZE :: nat where [simp]: "MAX_SCRIPT_SIZE = 10000"
definition LOCKTIME_THRESHOLD :: int where [simp]: "LOCKTIME_THRESHOLD = 500000000"

section \<open>Script numbers\<close>

text \<open>\<open>Thrown\<close> is a C++ exception, \<open>Aborted\<close> a failed assertion.\<close>

datatype script_exn = Thrown | Aborted

definition vch_value :: "bytes \<Rightarrow> nat" where
  "vch_value vch = val_base 256 (map unat vch)"

definition set_vch :: "bytes \<Rightarrow> int" where
  "set_vch vch =
     (if vch = [] then 0
      else let result = int (vch_value vch) in
        if last vch AND 0x80 \<noteq> 0 then - (result AND NOT (push_bit (8 * (length vch - 1)) 0x80))
        else result)"

definition CScriptNum :: "bytes \<Rightarrow> bool \<Rightarrow> nat \<Rightarrow> script_exn + int" where
  "CScriptNum vch fRequireMinimal nMaxNumSize =
     (if length vch > nMaxNumSize then Inl Thrown
      else if fRequireMinimal \<and> length vch > 0 \<and> last vch AND 0x7f = 0 \<and>
              (length vch \<le> 1 \<or> (vch ! (length vch - 2)) AND 0x80 = 0) then Inl Thrown
      else Inr (set_vch vch))"

fun abs_bytes :: "nat \<Rightarrow> bytes" where
  "abs_bytes absvalue =
     (if absvalue = 0 then [] else of_nat (absvalue mod 256) # abs_bytes (absvalue div 256))"

declare abs_bytes.simps [simp del]

definition serialize :: "int \<Rightarrow> bytes" where
  "serialize value =
     (if value = 0 then []
      else let neg = value < 0; result = abs_bytes (nat \<bar>value\<bar>) in
        if last result AND 0x80 \<noteq> 0 then result @ [if neg then 0x80 else 0]
        else if neg then butlast result @ [last result OR 0x80]
        else result)"

definition getint :: "int \<Rightarrow> int" where
  "getint m_value =
     (if m_value > 2147483647 then 2147483647
      else if m_value < -2147483648 then -2147483648 else m_value)"

text \<open>\<open>operator+=\<close>, \<open>operator-=\<close> and the negation assert that the result fits.\<close>

definition num_plus :: "int \<Rightarrow> int \<Rightarrow> script_exn + int" where
  "num_plus m rhs =
     (if rhs = 0 \<or> (rhs > 0 \<and> m \<le> 9223372036854775807 - rhs) \<or> (rhs < 0 \<and> m \<ge> -9223372036854775808 - rhs)
      then Inr (m + rhs) else Inl Aborted)"

definition num_minus :: "int \<Rightarrow> int \<Rightarrow> script_exn + int" where
  "num_minus m rhs =
     (if rhs = 0 \<or> (rhs > 0 \<and> m \<ge> -9223372036854775808 + rhs) \<or> (rhs < 0 \<and> m \<le> 9223372036854775807 + rhs)
      then Inr (m - rhs) else Inl Aborted)"

definition num_neg :: "int \<Rightarrow> script_exn + int" where
  "num_neg m = (if m \<noteq> -9223372036854775808 then Inr (- m) else Inl Aborted)"

section \<open>Pushing and reading operations\<close>

definition push_data :: "bytes \<Rightarrow> bytes" where
  "push_data b =
     (if length b < OP_PUSHDATA1 then [of_nat (length b)]
      else if length b \<le> 0xff then [of_nat OP_PUSHDATA1, of_nat (length b)]
      else if length b \<le> 0xffff then of_nat OP_PUSHDATA2 # le_encode 2 (of_nat (length b) :: u16)
      else of_nat OP_PUSHDATA4 # le_encode 4 (of_nat (length b) :: u32)) @ b"

definition push_int64 :: "int \<Rightarrow> bytes" where
  "push_int64 n =
     (if n = -1 \<or> (n \<ge> 1 \<and> n \<le> 16) then [word_of_int (n + (int OP_1 - 1))]
      else if n = 0 then [of_nat OP_0]
      else push_data (serialize n))"

text \<open>The length field of a push: \<open>Inr (nSize, pc)\<close>, or \<open>Inl pc\<close> when bytes are missing.\<close>

definition push_size :: "nat \<Rightarrow> bytes \<Rightarrow> bytes + nat \<times> bytes" where
  "push_size opcode pc =
     (if opcode < OP_PUSHDATA1 then Inr (opcode, pc)
      else if opcode = OP_PUSHDATA1 then
        (if length pc < 1 then Inl pc else Inr (unat (hd pc), drop 1 pc))
      else if opcode = OP_PUSHDATA2 then
        (if length pc < 2 then Inl pc else Inr (unat (le_decode (take 2 pc) :: u16), drop 2 pc))
      else
        (if length pc < 4 then Inl pc else Inr (unat (le_decode (take 4 pc) :: u32), drop 4 pc)))"

definition GetOp2 :: "bytes \<Rightarrow> bytes + nat \<times> bytes \<times> bytes" where
  "GetOp2 pc =
     (case pc of
        [] \<Rightarrow> Inl pc
      | b # pc \<Rightarrow>
          (let opcode = unat b in
           if opcode \<le> OP_PUSHDATA4 then
             (case push_size opcode pc of
                Inl pc \<Rightarrow> Inl pc
              | Inr (nSize, pc) \<Rightarrow>
                  (if length pc < nSize then Inl pc
                   else Inr (opcode, take nSize pc, drop nSize pc)))
           else Inr (opcode, [], pc)))"

definition DecodeOP_N :: "nat \<Rightarrow> int option" where
  "DecodeOP_N opcode =
     (if opcode = OP_0 then Some 0
      else if opcode \<ge> OP_1 \<and> opcode \<le> OP_16 then Some (int opcode - int (OP_1 - 1))
      else None)"

definition EncodeOP_N :: "int \<Rightarrow> nat option" where
  "EncodeOP_N n =
     (if n \<ge> 0 \<and> n \<le> 16 then Some (if n = 0 then OP_0 else nat (int OP_1 + n - 1)) else None)"

lemma push_size_shorter: "push_size opcode pc = Inr (n, pc') \<Longrightarrow> length pc' \<le> length pc"
  by (auto simp: push_size_def split: if_splits)

lemma GetOp2_shorter: "GetOp2 pc = Inr (opcode, vch, pc') \<Longrightarrow> length pc' < length pc"
  using push_size_shorter
  by (fastforce simp: GetOp2_def Let_def split: list.splits if_splits sum.splits prod.splits)

text \<open>The inner loop of \<open>FindAndDelete\<close>: skip copies of \<open>b\<close>.\<close>

function skip_copies :: "bytes \<Rightarrow> bytes \<Rightarrow> nat \<Rightarrow> bytes \<times> nat" where
  "skip_copies b pc nFound =
     (if b \<noteq> [] \<and> length pc \<ge> length b \<and> take (length b) pc = b
      then skip_copies b (drop (length b) pc) (nFound + 1)
      else (pc, nFound))"
  by pat_completeness auto
termination
  by (relation "measure (\<lambda>(b, pc, n). length pc)") (auto, metis diff_less length_greater_0_conv less_le_trans)

declare skip_copies.simps [simp del]

lemma skip_copies_shorter: "length (fst (skip_copies b pc n)) \<le> length pc"
proof (induction b pc n rule: skip_copies.induct)
  case (1 b pc n)
  then show ?case by (subst skip_copies.simps) (auto intro: le_trans)
qed

lemma skip_copies_length: "(pc', n') = skip_copies b pc n \<Longrightarrow> length pc' \<le> length pc"
  using skip_copies_shorter [of b pc n] by (metis fst_conv)

function delete_loop :: "bytes \<Rightarrow> bytes \<Rightarrow> bytes \<Rightarrow> bytes \<Rightarrow> nat \<Rightarrow> bytes \<times> bytes \<times> nat" where
  "delete_loop b pc2 pc result nFound =
     (let result = result @ take (length pc2 - length pc) pc2;
          (pc, nFound) = skip_copies b pc nFound
      in case GetOp2 pc of
           Inl _ \<Rightarrow> (result, pc, nFound)
         | Inr (opcode, vch, pc') \<Rightarrow> delete_loop b pc pc' result nFound)"
  by pat_completeness auto
termination
  by (relation "measure (\<lambda>(b, pc2, pc, r, n). length pc)")
    (auto dest!: GetOp2_shorter dest: skip_copies_length)

declare delete_loop.simps [simp del]

definition FindAndDelete :: "bytes \<Rightarrow> bytes \<Rightarrow> bytes \<times> nat" where
  "FindAndDelete script b =
     (if b = [] then (script, 0)
      else let (result, pc2, nFound) = delete_loop b script script [] 0
           in if nFound > 0 then (result @ pc2, nFound) else (script, nFound))"

section \<open>Classifying scripts\<close>

function Find_loop :: "nat \<Rightarrow> bytes \<Rightarrow> nat \<Rightarrow> nat" where
  "Find_loop oper pc nFound =
     (case GetOp2 pc of
        Inl _ \<Rightarrow> nFound
      | Inr (opcode, vch, pc') \<Rightarrow> Find_loop oper pc' (if opcode = oper then nFound + 1 else nFound))"
  by pat_completeness auto
termination
  by (relation "measure (\<lambda>(oper, pc, n). length pc)") (auto dest: GetOp2_shorter)

definition Find :: "bytes \<Rightarrow> nat \<Rightarrow> nat" where
  "Find script oper = Find_loop oper script 0"

text \<open>The assertion of \<open>DecodeOP_N\<close> cannot fail where it is called, since the range is tested first.\<close>

function sigop_loop :: "bool \<Rightarrow> bytes \<Rightarrow> nat \<Rightarrow> int \<Rightarrow> int" where
  "sigop_loop fAccurate pc lastOpcode n =
     (case GetOp2 pc of
        Inl _ \<Rightarrow> n
      | Inr (opcode, vch, pc') \<Rightarrow>
          sigop_loop fAccurate pc' opcode
            (if opcode = OP_CHECKSIG \<or> opcode = OP_CHECKSIGVERIFY then n + 1
             else if opcode = OP_CHECKMULTISIG \<or> opcode = OP_CHECKMULTISIGVERIFY then
               (if fAccurate \<and> lastOpcode \<ge> OP_1 \<and> lastOpcode \<le> OP_16
                then n + (case DecodeOP_N lastOpcode of Some k \<Rightarrow> k | None \<Rightarrow> 0)
                else n + MAX_PUBKEYS_PER_MULTISIG)
             else n))"
  by pat_completeness auto
termination
  by (relation "measure (\<lambda>(f, pc, l, n). length pc)") (auto dest: GetOp2_shorter)

declare Find_loop.simps [simp del] sigop_loop.simps [simp del]

definition GetSigOpCount :: "bytes \<Rightarrow> bool \<Rightarrow> int" where
  "GetSigOpCount script fAccurate = sigop_loop fAccurate script OP_INVALIDOPCODE 0"

definition IsPayToScriptHash :: "bytes \<Rightarrow> bool" where
  "IsPayToScriptHash s \<longleftrightarrow>
     length s = 23 \<and> unat (s ! 0) = OP_HASH160 \<and> s ! 1 = 0x14 \<and> unat (s ! 22) = OP_EQUAL"

definition IsPayToPublicKeyHash :: "bytes \<Rightarrow> bool" where
  "IsPayToPublicKeyHash s \<longleftrightarrow>
     length s = 25 \<and> unat (s ! 0) = OP_DUP \<and> unat (s ! 1) = OP_HASH160 \<and> s ! 2 = 0x14 \<and>
     unat (s ! 23) = OP_EQUALVERIFY \<and> unat (s ! 24) = OP_CHECKSIG"

definition IsPayToPublicKey :: "bytes \<Rightarrow> bool" where
  "IsPayToPublicKey s =
     (if length s = 35 then (s ! 1 = 0x02 \<or> s ! 1 = 0x03) \<and> unat (s ! 34) = OP_CHECKSIG
      else if length s = 67 then s ! 1 = 0x04 \<and> unat (s ! 66) = OP_CHECKSIG
      else False)"

text \<open>The loop that finds the last push of a \<open>scriptSig\<close>: \<open>None\<close> where the source returns 0.\<close>

function last_push :: "bytes \<Rightarrow> bytes \<Rightarrow> bytes option" where
  "last_push pc vData =
     (if pc = [] then Some vData
      else case GetOp2 pc of
             Inl _ \<Rightarrow> None
           | Inr (opcode, vch, pc') \<Rightarrow> (if opcode > OP_16 then None else last_push pc' vch))"
  by pat_completeness auto
termination
  by (relation "measure (\<lambda>(pc, v). length pc)") (auto dest: GetOp2_shorter)

definition GetSigOpCountP2SH :: "bytes \<Rightarrow> bytes \<Rightarrow> int" where
  "GetSigOpCountP2SH script scriptSig =
     (if \<not> IsPayToScriptHash script then GetSigOpCount script True
      else case last_push scriptSig [] of
             None \<Rightarrow> 0
           | Some subscript \<Rightarrow> GetSigOpCount subscript True)"

function IsPushOnly :: "bytes \<Rightarrow> bool" where
  "IsPushOnly pc =
     (if pc = [] then True
      else case GetOp2 pc of
             Inl _ \<Rightarrow> False
           | Inr (opcode, vch, pc') \<Rightarrow> (if opcode > OP_16 then False else IsPushOnly pc'))"
  by pat_completeness auto
termination
  by (relation "measure length") (auto dest: GetOp2_shorter)

declare last_push.simps [simp del] IsPushOnly.simps [simp del]

definition IsUnspendable :: "bytes \<Rightarrow> bool" where
  "IsUnspendable s \<longleftrightarrow> (length s > 0 \<and> unat (hd s) = OP_RETURN) \<or> length s > MAX_SCRIPT_SIZE"

section \<open>Script numbers round-trip\<close>

lemma byte_top: "(b :: u8) AND 0x80 \<noteq> 0 \<longleftrightarrow> 128 \<le> unat b"
proof -
  have "b AND 0x80 \<noteq> 0 \<longleftrightarrow> bit (unat b) 7" using test_bit_mask [of b 7] by (simp add: bit_unat)
  also have "\<dots> \<longleftrightarrow> odd (unat b div 128)" by (simp add: bit_iff_odd)
  also have "\<dots> \<longleftrightarrow> 128 \<le> unat b"
  proof -
    have "unat b < 256" by (rule unat_u8_lt)
    then have "unat b div 128 = 0 \<or> unat b div 128 = 1" by linarith
    moreover have "unat b div 128 = 0 \<longleftrightarrow> unat b < 128" by (simp add: div_eq_0_iff)
    ultimately show ?thesis by auto
  qed
  finally show ?thesis .
qed

lemma byte_low7: "unat ((b :: u8) AND 0x7f) = unat b mod 128"
proof -
  have "b AND 0x7f = take_bit 7 b" by (simp add: take_bit_eq_mask mask_eq_exp_minus_1)
  then have "unat (b AND 0x7f) = take_bit 7 (unat b)" by (simp only: unsigned_take_bit_eq) 
  then show ?thesis by (simp add: take_bit_eq_mod)
qed

lemma byte_set_top: "unat (b :: u8) < 128 \<Longrightarrow> unat (b OR 0x80) = unat b + 128"
proof -
  assume b: "unat b < 128"
  have "b AND 0x80 = 0" using b byte_top [of b] by simp
  then have "b OR 0x80 = b + 0x80" by (simp add: disjunctive_add_eq_or)
  then show ?thesis using b by (simp add: unat_word_ariths)
qed

lemma vch_value_Nil [simp]: "vch_value [] = 0"
  by (simp add: vch_value_def)

lemma vch_value_Cons [simp]: "vch_value (b # bs) = unat b + 256 * vch_value bs"
  by (simp add: vch_value_def)

lemma vch_value_snoc: "vch_value (bs @ [b]) = vch_value bs + 256 ^ length bs * unat b"
  by (simp add: vch_value_def val_base_append)

lemma vch_value_bound: "vch_value bs < 256 ^ length bs"
proof (induction bs)
  case (Cons b bs)
  have "unat b + 256 * vch_value bs < 256 + 256 * vch_value bs" using unat_u8_lt [of b] by simp
  also have "\<dots> \<le> 256 * 256 ^ length bs" using Cons by simp
  finally show ?case by simp
qed simp

lemma abs_bytes_0 [simp]: "abs_bytes 0 = []"
  by (simp add: abs_bytes.simps)

lemma abs_bytes_pos: "0 < n \<Longrightarrow> abs_bytes n = of_nat (n mod 256) # abs_bytes (n div 256)"
  by (simp add: abs_bytes.simps [of n])

lemma unat_byte_of_nat: "unat (of_nat (n mod 256) :: u8) = n mod 256"
  by (simp add: unat_of_nat)

lemma vch_value_abs_bytes [simp]: "vch_value (abs_bytes n) = n"
proof (induction n rule: abs_bytes.induct)
  case (1 n)
  then show ?case by (cases "n = 0") (simp_all add: abs_bytes_pos unat_byte_of_nat)
qed

lemma abs_bytes_last: "0 < n \<Longrightarrow> abs_bytes n \<noteq> [] \<and> unat (last (abs_bytes n)) \<noteq> 0"
proof (induction n rule: abs_bytes.induct)
  case (1 n)
  show ?case
  proof (cases "n div 256 = 0")
    case True
    then have "n mod 256 = n" by (simp add: div_eq_0_iff)
    then show ?thesis using True 1(2) unat_byte_of_nat [of n] by (simp add: abs_bytes_pos)
  next
    case False
    then show ?thesis using 1 by (simp add: abs_bytes_pos)
  qed
qed

lemma abs_bytes_vch_value: "bs = [] \<or> unat (last bs) \<noteq> 0 \<Longrightarrow> abs_bytes (vch_value bs) = bs"
proof (induction bs)
  case (Cons b bs)
  have pos: "0 < vch_value (b # bs)"
  proof (cases bs rule: rev_cases)
    case (snoc cs c)
    then have "0 < vch_value bs" using Cons.prems by (simp add: vch_value_snoc)
    then show ?thesis by simp
  qed (use Cons.prems in simp)
  have m: "vch_value (b # bs) mod 256 = unat b" "vch_value (b # bs) div 256 = vch_value bs"
    using unat_u8_lt [of b] by simp_all
  have "abs_bytes (vch_value bs) = bs" using Cons by (cases bs) auto
  then show ?case using pos m by (simp add: abs_bytes_pos)
qed simp

lemma int_clear_bit:
  assumes "bit (n :: nat) k"
  shows "int n AND NOT (push_bit k 1) = int (n - 2 ^ k)"
proof -
  have "bit (int n) k" using assms by (simp add: bit_of_nat_iff_bit)
  then have "int n AND NOT (push_bit k 1) = int n - 2 ^ k"
    using unset_bit_eq [of k "int n"] unset_bit_eq_and_not [of k "int n"] by simp
  also have "\<dots> = int (n - 2 ^ k)" using bit_imp_ge [OF assms] by simp
  finally show ?thesis .
qed

lemma set_vch_snoc:
  "set_vch (bs @ [b]) =
     (if 128 \<le> unat b then - int (vch_value bs + 256 ^ length bs * (unat b - 128))
      else int (vch_value bs + 256 ^ length bs * unat b))"
proof (cases "128 \<le> unat b")
  case True
  let ?k = "8 * length bs + 7" and ?r = "vch_value (bs @ [b])"
  have pow: "(2 :: nat) ^ ?k = 256 ^ length bs * 128" by (simp add: power_add power_mult)
  have "?r div 256 ^ length bs = unat b"
    using vch_value_bound [of bs] by (simp add: vch_value_snoc div_eq_0_iff)
  then have "?r div 2 ^ ?k = unat b div 128" unfolding pow by (simp add: div_mult2_eq)
  moreover have "unat b div 128 = 1" using True unat_u8_lt [of b] by linarith
  ultimately have "bit ?r ?k" by (simp add: bit_iff_odd)
  moreover have "push_bit (8 * length bs) (0x80 :: int) = push_bit ?k 1"
    by (simp add: push_bit_eq_mult power_add)
  ultimately have "int ?r AND NOT (push_bit (8 * length bs) 0x80) = int (?r - 2 ^ ?k)"
    using int_clear_bit by metis
  moreover have "?r - 2 ^ ?k = vch_value bs + 256 ^ length bs * (unat b - 128)"
    using True unfolding pow vch_value_snoc by (simp add: diff_mult_distrib2)
  moreover have "last (bs @ [b]) AND 0x80 \<noteq> 0" using True byte_top [of b] by simp
  ultimately show ?thesis using True by (simp add: set_vch_def Let_def)
next
  case False
  then have "last (bs @ [b]) AND 0x80 = 0" using byte_top [of b] by simp
  then show ?thesis using False by (simp add: set_vch_def Let_def vch_value_snoc)
qed

lemma set_vch_serialize: "set_vch (serialize v) = v"
proof (cases "v = 0")
  case True
  then show ?thesis by (simp add: serialize_def set_vch_def)
next
  case False
  let ?n = "nat \<bar>v\<bar>"
  obtain bs b where r: "abs_bytes ?n = bs @ [b]" using abs_bytes_last [of ?n] False by (cases "abs_bytes ?n" rule: rev_cases) auto
  have n: "vch_value bs + 256 ^ length bs * unat b = ?n"
    using vch_value_abs_bytes [of ?n] by (simp add: r vch_value_snoc)
  show ?thesis
  proof (cases "128 \<le> unat b")
    case True
    then have "serialize v = (bs @ [b]) @ [if v < 0 then 0x80 else 0]"
      using False byte_top [of b] by (simp add: serialize_def r Let_def)
    then have "set_vch (serialize v) = (if v < 0 then - int ?n else int ?n)"
      using n by (simp only: set_vch_snoc vch_value_snoc) simp
    then show ?thesis by simp
  next
    case small: False
    show ?thesis
    proof (cases "v < 0")
      case True
      then have "serialize v = bs @ [b OR 0x80]"
        using False small byte_top [of b] by (simp only: serialize_def r Let_def) simp
      then show ?thesis using n True small by (simp add: set_vch_snoc byte_set_top)
    next
      case pos: False
      then have "serialize v = bs @ [b]"
        using False small byte_top [of b] by (simp only: serialize_def r Let_def) simp
      then show ?thesis using n pos small by (simp add: set_vch_snoc)
    qed
  qed
qed

lemma minimal_snoc:
  "(last (bs @ [b :: u8]) AND 0x7f = 0 \<and> (length (bs @ [b]) \<le> 1 \<or> ((bs @ [b]) ! (length (bs @ [b]) - 2)) AND 0x80 = 0)) \<longleftrightarrow>
   (unat b mod 128 = 0 \<and> (bs = [] \<or> unat (last bs) < 128))"
proof -
  have "b AND 0x7f = 0 \<longleftrightarrow> unat b mod 128 = 0" 
    using byte_low7 [of b] by (simp add: word_unat_eq_iff [of "b AND 0x7f" 0])
  moreover have "(bs @ [b]) ! (length bs - 1) = last bs" if "bs \<noteq> []"
    using that by (simp add: nth_append last_conv_nth)
  moreover have "last bs AND 0x80 = 0 \<longleftrightarrow> unat (last bs) < 128" using byte_top [of "last bs"] by linarith
  moreover have "length (bs @ [b]) - 2 = length bs - 1" "length (bs @ [b]) \<le> 1 \<longleftrightarrow> bs = []" by (cases bs; simp)+
  ultimately show ?thesis by (cases "bs = []") (simp_all only: last_snoc, simp_all)
qed

lemma serialize_minimal:
  "serialize v = bs @ [b] \<Longrightarrow> \<not> (unat b mod 128 = 0 \<and> (bs = [] \<or> unat (last bs) < 128))"
proof -
  assume s: "serialize v = bs @ [b]"
  then have nz: "v \<noteq> 0" by (auto simp: serialize_def)
  let ?n = "nat \<bar>v\<bar>"
  obtain cs c where r: "abs_bytes ?n = cs @ [c]" and c: "unat c \<noteq> 0"
    using abs_bytes_last [of ?n] nz by (cases "abs_bytes ?n" rule: rev_cases) auto
  have "c AND 0x80 \<noteq> 0 \<longleftrightarrow> 128 \<le> unat c" by (rule byte_top)
  then show ?thesis
    using s nz c unat_u8_lt [of c] byte_set_top [of c]
    by (auto simp: serialize_def r Let_def split: if_splits)
qed

lemma CScriptNum_minimal:
  assumes "CScriptNum vch True k = Inr v"
  shows "serialize v = vch"
proof (cases vch rule: rev_cases)
  case Nil
  then show ?thesis using assms by (auto simp: CScriptNum_def set_vch_def serialize_def)
next
  case (snoc bs b)
  then have v: "v = set_vch (bs @ [b])" using assms by (auto simp: CScriptNum_def split: if_splits)
  have min: "\<not> (unat b mod 128 = 0 \<and> (bs = [] \<or> unat (last bs) < 128))"
    using assms minimal_snoc [of bs b] unfolding snoc by (auto simp: CScriptNum_def split: if_splits)
  define m where "m = unat b mod 128"
  have b: "unat b = (if 128 \<le> unat b then m + 128 else m)" "m < 128"
    using unat_u8_lt [of b] by (auto simp: m_def mod_if)
  define N where "N = vch_value bs + 256 ^ length bs * m"
  have "v = (if 128 \<le> unat b then - int N else int N)"
  proof (cases "128 \<le> unat b")
    case True
    then have "unat b - 128 = m" using b by simp
    then show ?thesis using True by (simp only: v set_vch_snoc N_def if_True)
  next
    case False
    then have "unat b = m" using b by simp
    then show ?thesis using False by (simp only: v set_vch_snoc N_def if_False)
  qed
  then have mag: "nat \<bar>v\<bar> = vch_value bs + 256 ^ length bs * m" "128 \<le> unat b \<Longrightarrow> v \<le> 0" "unat b < 128 \<Longrightarrow> 0 \<le> v"
    unfolding N_def [symmetric] by auto
  show ?thesis
  proof (cases "m = 0")
    case True
    then have bs: "bs \<noteq> []" "128 \<le> unat (last bs)" using min by (auto simp: m_def)
    then have "abs_bytes (nat \<bar>v\<bar>) = bs" using mag(1) True abs_bytes_vch_value [of bs] by simp
    moreover have "v \<noteq> 0"
      using mag(1) True bs by (cases bs rule: rev_cases) (auto simp: vch_value_snoc)
    moreover have "b = (if v < 0 then 0x80 else 0)"
      using mag(2,3) b True \<open>v \<noteq> 0\<close> by (auto simp: word_unat_eq_iff split: if_splits)
    ultimately show ?thesis using bs byte_top [of "last bs"] by (simp add: serialize_def snoc Let_def)
  next
    case False
    have m8: "unat (of_nat m :: u8) = m" using b(2) by (simp add: unat_of_nat)
    have "vch_value (bs @ [of_nat m]) = nat \<bar>v\<bar>" using mag(1) m8 by (simp add: vch_value_snoc)
    then have ab: "abs_bytes (nat \<bar>v\<bar>) = bs @ [of_nat m]"
      using abs_bytes_vch_value [of "bs @ [of_nat m]"] m8 False by simp
    have nz: "v \<noteq> 0" using ab by auto
    have "\<not> (of_nat m :: u8) AND 0x80 \<noteq> 0" using byte_top [of "of_nat m"] m8 b(2) by simp
    moreover have "b = (if v < 0 then of_nat m OR 0x80 else of_nat m)"
      using mag(2,3) b nz byte_set_top [of "of_nat m"] m8 by (auto simp: word_unat_eq_iff split: if_splits)
    ultimately show ?thesis using nz ab by (simp add: serialize_def snoc Let_def)
  qed
qed

lemma length_abs_bytes: "n < 256 ^ k \<Longrightarrow> length (abs_bytes n) \<le> k"
proof (induction k arbitrary: n)
  case (Suc k)
  then have "n div 256 < 256 ^ k" by (simp add: less_mult_imp_div_less mult.commute)
  then show ?case using Suc.IH by (cases "n = 0") (simp_all add: abs_bytes_pos)
qed simp

lemma length_serialize:
  assumes "\<bar>v\<bar> < 2 ^ (8 * k + 7)"
  shows "length (serialize v) \<le> Suc k"
proof (cases "v = 0")
  case False
  define n where "n = nat \<bar>v\<bar>"
  have pow: "(2 :: nat) ^ (8 * k + 7) = 256 ^ k * 128" by (simp add: power_add power_mult)
  have "int n < 2 ^ (8 * k + 7)" using assms by (simp add: n_def)
  then have lt: "n < 256 ^ k * 128" using pow by (metis of_nat_less_iff of_nat_numeral of_nat_power)
  obtain bs b where r: "abs_bytes n = bs @ [b]" using abs_bytes_last [of n] False by (cases "abs_bytes n" rule: rev_cases) (auto simp: n_def)
  have "n < 256 ^ Suc k" using lt by simp
  then have le: "length (abs_bytes n) \<le> Suc k" by (rule length_abs_bytes)
  have "length bs < k" if "128 \<le> unat b"
  proof (rule ccontr)
    assume "\<not> length bs < k"
    then have "(256 :: nat) ^ k * 128 \<le> 256 ^ length bs * unat b" using that by (intro mult_le_mono power_increasing) simp_all
    also have "\<dots> \<le> n" using vch_value_abs_bytes [of n] by (simp add: r vch_value_snoc)
    finally show False using lt by simp
  qed
  then show ?thesis using le False byte_top [of b] by (auto simp: serialize_def Let_def r n_def [symmetric])
qed (simp add: serialize_def)

section \<open>Reading back what was pushed\<close>

lemma GetOp2_push_data:
  assumes "length b < 2 ^ 32"
  shows "\<exists>opcode. opcode \<le> OP_PUSHDATA4 \<and> GetOp2 (push_data b @ rest) = Inr (opcode, b, rest)"
proof -
  consider (direct) "length b < 76" | (one) "76 \<le> length b" "length b \<le> 255"
    | (two) "255 < length b" "length b \<le> 65535" | (four) "65535 < length b" by linarith
  then show ?thesis
  proof cases
    case direct
    then show ?thesis by (simp add: push_data_def GetOp2_def push_size_def unat_of_nat)
  next
    case one
    then show ?thesis by (simp add: push_data_def GetOp2_def push_size_def unat_of_nat)
  next
    case two
    define h where "h = le_encode 2 (of_nat (length b) :: u16)"
    have "take 2 (h @ b @ rest) = h" "drop 2 (h @ b @ rest) = b @ rest" "\<not> length (h @ b @ rest) < 2" "length h = 2" by (simp_all add: h_def)
    moreover have "unat (le_decode h :: u16) = length b"
      unfolding h_def using two by (subst le_decode_encode) (simp_all add: unat_of_nat)
    ultimately show ?thesis using two
      by (simp add: push_data_def h_def [symmetric] GetOp2_def push_size_def)
  next
    case four
    define h where "h = le_encode 4 (of_nat (length b) :: u32)"
    have "take 4 (h @ b @ rest) = h" "drop 4 (h @ b @ rest) = b @ rest" "\<not> length (h @ b @ rest) < 4" "length h = 4" by (simp_all add: h_def)
    moreover have "unat (le_decode h :: u32) = length b"
      unfolding h_def using assms by (subst le_decode_encode) (simp_all add: unat_of_nat)
    ultimately show ?thesis using four
      by (simp add: push_data_def h_def [symmetric] GetOp2_def push_size_def)
  qed
qed

lemma push_size_suffix: "push_size opcode pc = Inr (n, pc') \<Longrightarrow> suffix pc' pc"
  by (auto simp: push_size_def suffix_drop split: if_splits)

lemma GetOp2_suffix: "GetOp2 pc = Inr (opcode, vch, pc') \<Longrightarrow> suffix pc' pc"
proof -
  assume g: "GetOp2 pc = Inr (opcode, vch, pc')"
  then obtain b bs where pc: "pc = b # bs" by (cases pc) (auto simp: GetOp2_def)
  show ?thesis
  proof (cases "unat b \<le> OP_PUSHDATA4")
    case True
    with g pc obtain n q where "push_size (unat b) bs = Inr (n, q)" "pc' = drop n q"
      by (auto simp: GetOp2_def Let_def split: sum.splits prod.splits if_splits)
    then have "suffix pc' q" "suffix q bs" using push_size_suffix by (auto simp: suffix_drop)
    then show ?thesis unfolding pc by (meson suffix_ConsI suffix_order.trans)
  next
    case False
    then show ?thesis using g pc by (auto simp: GetOp2_def Let_def intro: suffix_ConsI)
  qed
qed

lemma GetOp2_opcode: "GetOp2 pc = Inr (opcode, vch, pc') \<Longrightarrow> opcode < 256 \<and> (opcode > OP_PUSHDATA4 \<longrightarrow> vch = [])"
  using unat_u8_lt
  by (fastforce simp: GetOp2_def Let_def split: list.splits sum.splits prod.splits if_splits)

section \<open>Deleting a subscript\<close>

lemma skip_copies_count:
  "skip_copies b pc n = (pc', n') \<Longrightarrow> suffix pc' pc \<and> length pc = length pc' + (n' - n) * length b \<and> n \<le> n'"
proof (induction b pc n rule: skip_copies.induct)
  case (1 b pc n)
  show ?case
  proof (cases "b \<noteq> [] \<and> length pc \<ge> length b \<and> take (length b) pc = b")
    case True
    then have "skip_copies b (drop (length b) pc) (n + 1) = (pc', n')"
      using 1(2) by (simp add: skip_copies.simps [of b pc n])
    with 1(1) [OF True] have s: "suffix pc' (drop (length b) pc)"
        "length (drop (length b) pc) = length pc' + (n' - (n + 1)) * length b" "n + 1 \<le> n'" by blast+
    have "n' - n = Suc (n' - (n + 1))" using s(3) by simp
    then have "length pc = length pc' + (n' - n) * length b" using s(2) True by simp linarith
    then show ?thesis using s suffix_order.trans [OF s(1) suffix_drop] by simp
  next
    case False
    then have "(pc', n') = (pc, n)" using 1(2) by (auto simp: skip_copies.simps [of b pc n])
    then show ?thesis by simp
  qed
qed

lemma delete_loop_count:
  "suffix pc pc2 \<Longrightarrow> delete_loop b pc2 pc r n = (r', p', n') \<Longrightarrow>
     n \<le> n' \<and> length r' + length p' + (n' - n) * length b = length r + length pc2 \<and>
     (\<exists>xs. r' = r @ xs \<and> subseq (xs @ p') pc2)"
proof (induction b pc2 pc r n arbitrary: r' p' n' rule: delete_loop.induct)
  case (1 b pc2 pc r n)
  obtain q m where q: "skip_copies b pc n = (q, m)" by (cases "skip_copies b pc n")
  note sk = skip_copies_count [OF q]
  define c where "c = take (length pc2 - length pc) pc2"
  have split: "pc2 = c @ pc" using "1.prems"(1) by (auto simp: c_def suffix_def)
  have sq: "subseq q pc" using sk by (auto simp: suffix_def)
  show ?case
  proof (cases "GetOp2 q")
    case (Inl x)
    then have e: "r' = r @ c" "p' = q" "n' = m"
      using "1.prems"(2) q by (auto simp: delete_loop.simps [of b pc2] c_def)
    have "subseq (c @ q) pc2" unfolding split by (intro list_emb_append_mono sq subseq_order.refl)
    then show ?thesis using e sk split by auto
  next
    case (Inr t)
    then obtain oc v s where g: "GetOp2 q = Inr (oc, v, s)" by (cases t) auto
    have l: "delete_loop b q s (r @ c) m = (r', p', n')"
      using "1.prems"(2) q g by (simp add: delete_loop.simps [of b pc2] c_def)
    have suf: "suffix s q" by (rule GetOp2_suffix [OF g])
    have c_eq: "r @ c = r @ take (length pc2 - length pc) pc2" by (simp add: c_def)
    have ih: "m \<le> n' \<and> length r' + length p' + (n' - m) * length b = length (r @ c) + length q \<and>
       (\<exists>xs. r' = (r @ c) @ xs \<and> subseq (xs @ p') q)"
      by (rule "1.IH" [OF c_eq refl q [symmetric] g refl refl suf l])
    then obtain xs where xs: "r' = (r @ c) @ xs" "subseq (xs @ p') q" by blast
    have "subseq (c @ (xs @ p')) (c @ pc)" using xs(2) sq by (intro list_emb_append_mono) (auto intro: subseq_order.trans)
    moreover have "(n' - n) * length b = (n' - m) * length b + (m - n) * length b"
      using ih sk by (simp add: add_mult_distrib [symmetric])
    ultimately show ?thesis using ih sk xs split by auto
  qed
qed

section \<open>Signature operations\<close>

lemma sigop_loop_bounds:
  "n \<le> sigop_loop f pc l n \<and> sigop_loop f pc l n \<le> n + 20 * int (length pc)"
proof (induction f pc l n rule: sigop_loop.induct)
  case (1 f pc l n)
  show ?case
  proof (cases "GetOp2 pc")
    case (Inl x)
    then show ?thesis by (simp add: sigop_loop.simps [of f pc])
  next
    case (Inr t)
    then obtain oc v s where g: "GetOp2 pc = Inr (oc, v, s)" by (cases t) auto
    define m where "m = (if oc = OP_CHECKSIG \<or> oc = OP_CHECKSIGVERIFY then n + 1
             else if oc = OP_CHECKMULTISIG \<or> oc = OP_CHECKMULTISIGVERIFY then
               (if f \<and> l \<ge> OP_1 \<and> l \<le> OP_16 then n + (case DecodeOP_N l of Some k \<Rightarrow> k | None \<Rightarrow> 0)
                else n + MAX_PUBKEYS_PER_MULTISIG)
             else n)"
    have "n \<le> m \<and> m \<le> n + 20" by (auto simp: m_def DecodeOP_N_def)
    moreover have "m \<le> sigop_loop f s oc m \<and> sigop_loop f s oc m \<le> m + 20 * int (length s)"
      using "1.IH" [OF g refl refl] unfolding m_def .
    moreover have "sigop_loop f pc l n = sigop_loop f s oc m"
      using g unfolding m_def by (simp add: sigop_loop.simps [of f pc])
    moreover have "length s < length pc" by (rule GetOp2_shorter [OF g])
    ultimately show ?thesis by linarith
  qed
qed

lemma push_only_no_sigops: "IsPushOnly pc \<Longrightarrow> sigop_loop f pc l n = n"
proof (induction f pc l n rule: sigop_loop.induct)
  case (1 f pc l n)
  show ?case
  proof (cases "GetOp2 pc")
    case (Inl x)
    then show ?thesis by (simp add: sigop_loop.simps [of f pc])
  next
    case (Inr t)
    then obtain oc v s where g: "GetOp2 pc = Inr (oc, v, s)" by (cases t) auto
    have "pc \<noteq> []" using g by (auto simp: GetOp2_def)
    then have oc: "oc \<le> OP_16" "IsPushOnly s" using "1.prems" g by (auto simp: IsPushOnly.simps [of pc] split: if_splits)
    then show ?thesis using "1.IH" [OF g refl refl] g by (simp add: sigop_loop.simps [of f pc])
  qed
qed

section \<open>Properties\<close>

text \<open>
  Script numbers: decoding the serialization of any number in the
  32-bit operand range with the default size limit gives it back, also when minimal encodings
  are required; and with that requirement the decoder accepts only the serialization of the
  number it returns, so every number has one encoding.
\<close>

theorem CScriptNum_codec:
  shows "(\<bar>v\<bar> < 2 ^ 31 \<longrightarrow> CScriptNum (serialize v) fRequireMinimal 4 = Inr v) \<and>
    (CScriptNum vch True n = Inr w \<longrightarrow> serialize w = vch)"
proof (intro conjI impI CScriptNum_minimal)
  assume "\<bar>v\<bar> < 2 ^ 31"
  then have len: "length (serialize v) \<le> 4" using length_serialize [of v 3] by simp
  show "CScriptNum (serialize v) fRequireMinimal 4 = Inr v"
  proof (cases "serialize v" rule: rev_cases)
    case Nil
    then show ?thesis using set_vch_serialize [of v] by (simp add: CScriptNum_def)
  next
    case (snoc bs b)
    have "\<not> (last (bs @ [b]) AND 0x7f = 0 \<and>
        (length (bs @ [b]) \<le> 1 \<or> ((bs @ [b]) ! (length (bs @ [b]) - 2)) AND 0x80 = 0))"
      unfolding minimal_snoc by (rule serialize_minimal [OF snoc])
    then show ?thesis using len set_vch_serialize [of v] unfolding CScriptNum_def snoc by auto
  qed
qed

theorem CScriptNum_codec_witness:
  "CScriptNum (serialize (-255)) True 4 = Inr (-255)"
  using CScriptNum_codec [of "-255" True] by simp

text \<open>
  Pushing any byte vector of less than \<open>2 ^ 32\<close> bytes with \<open>operator<<\<close> and
  reading the next operation gives the same vector back and leaves the iterator exactly
  behind it, whichever of the four push forms was chosen.
\<close>

theorem push_read_back:
  assumes "length b < 2 ^ 32"
  shows "\<exists>opcode. opcode \<le> OP_PUSHDATA4 \<and> GetOp2 (push_data b @ rest) = Inr (opcode, b, rest)"
  by (rule GetOp2_push_data [OF assms])

theorem push_read_back_witness:
  "\<exists>opcode. GetOp2 (push_data (replicate 300 7) @ [1]) = Inr (opcode, replicate 300 7, [1])"
  using push_read_back [of "replicate 300 7" "[1]"] by auto

text \<open>
  \<open>FindAndDelete\<close> returns a subsequence of the script that is shorter by
  exactly the number of copies it reports times the length of the deleted script.
\<close>

theorem FindAndDelete_removes:
  "case FindAndDelete script b of (result, nFound) \<Rightarrow>
     subseq result script \<and> length result + nFound * length b = length script"
proof (cases "b = []")
  case True
  then show ?thesis by (simp add: FindAndDelete_def)
next
  case False
  obtain r p n where d: "delete_loop b script script [] 0 = (r, p, n)" by (cases "delete_loop b script script [] 0")
  have "length r + length p + (n - 0) * length b = length [] + length script \<and> (\<exists>xs. r = [] @ xs \<and> subseq (xs @ p) script)"
    using delete_loop_count [OF _ d] by simp
  then show ?thesis using False d by (auto simp: FindAndDelete_def)
qed

text \<open>
  The number of signature operations of a script is between 0 and 20
  for each of its bytes, and 0 for a script of pushes only, counted either way.
\<close>

theorem GetSigOpCount_bounds:
  "0 \<le> GetSigOpCount s fAccurate \<and> GetSigOpCount s fAccurate \<le> 20 * int (length s) \<and>
   (IsPushOnly s \<longrightarrow> GetSigOpCount s fAccurate = 0)"
  using sigop_loop_bounds [of 0 fAccurate s OP_INVALIDOPCODE] push_only_no_sigops
  by (simp add: GetSigOpCount_def)

theorem GetSigOpCount_bounds_witness:
  "IsPushOnly [0x01, 0xac] \<and> GetSigOpCount [0x01, 0xac] True = 0"
proof -
  have "IsPushOnly [0x01, 0xac]" by (simp add: IsPushOnly.simps GetOp2_def push_size_def)
  then show ?thesis using GetSigOpCount_bounds [of "[0x01, 0xac]" True] by simp
qed

end
