(* ===== verification/Interpreter.thy ===== *)
theory Interpreter
  imports Script
begin

text \<open>
  The script interpreter: \<open>src/src/script/interpreter.cpp\<close>, \<open>interpreter.h\<close> and \<open>script_error.h\<close>.

  Stacks are lists with the top first, so \<open>stacktop(-k)\<close> is element \<open>k - 1\<close>. A failing operation returns
  \<open>Failed e\<close> where the source sets \<open>serror\<close> and returns false, \<open>Raised Thrown\<close> where it throws, and
  \<open>Raised Aborted\<close> where an assertion fails; \<open>EvalScript\<close> turns an exception into
  \<open>SCRIPT_ERR_UNKNOWN_ERROR\<close>. The signature checker, the hash functions and \<open>CPubKey::CheckLowS\<close>
  are the fields of a \<open>script_env\<close>.
\<close>

section \<open>Errors, flags and state\<close>

datatype ScriptError =
    SCRIPT_ERR_OK | SCRIPT_ERR_UNKNOWN_ERROR | SCRIPT_ERR_EVAL_FALSE | SCRIPT_ERR_OP_RETURN
  | SCRIPT_ERR_SCRIPT_SIZE | SCRIPT_ERR_PUSH_SIZE | SCRIPT_ERR_OP_COUNT | SCRIPT_ERR_STACK_SIZE
  | SCRIPT_ERR_SIG_COUNT | SCRIPT_ERR_PUBKEY_COUNT
  | SCRIPT_ERR_VERIFY | SCRIPT_ERR_EQUALVERIFY | SCRIPT_ERR_CHECKMULTISIGVERIFY
  | SCRIPT_ERR_CHECKSIGVERIFY | SCRIPT_ERR_NUMEQUALVERIFY
  | SCRIPT_ERR_BAD_OPCODE | SCRIPT_ERR_DISABLED_OPCODE | SCRIPT_ERR_INVALID_STACK_OPERATION
  | SCRIPT_ERR_INVALID_ALTSTACK_OPERATION | SCRIPT_ERR_UNBALANCED_CONDITIONAL
  | SCRIPT_ERR_NEGATIVE_LOCKTIME | SCRIPT_ERR_UNSATISFIED_LOCKTIME
  | SCRIPT_ERR_SIG_HASHTYPE | SCRIPT_ERR_SIG_DER | SCRIPT_ERR_MINIMALDATA | SCRIPT_ERR_SIG_PUSHONLY
  | SCRIPT_ERR_SIG_HIGH_S | SCRIPT_ERR_SIG_NULLDUMMY | SCRIPT_ERR_PUBKEYTYPE | SCRIPT_ERR_CLEANSTACK
  | SCRIPT_ERR_SIG_NULLFAIL | SCRIPT_ERR_DISCOURAGE_UPGRADABLE_NOPS | SCRIPT_ERR_ERROR_COUNT

datatype script_fail = Failed ScriptError | Raised script_exn

definition raised :: "script_exn + 'a \<Rightarrow> script_fail + 'a" where
  "raised m = (case m of Inl e \<Rightarrow> Inl (Raised e) | Inr x \<Rightarrow> Inr x)"

lemma raised_Inl: "raised m = Inl e \<longleftrightarrow> (\<exists>x. m = Inl x \<and> e = Raised x)"
  by (auto simp: raised_def split: sum.splits)

lemma raised_Inr: "raised m = Inr x \<longleftrightarrow> m = Inr x"
  by (auto simp: raised_def split: sum.splits)

definition SIGHASH_ALL :: nat where "SIGHASH_ALL = 1"
definition SIGHASH_NONE :: nat where "SIGHASH_NONE = 2"
definition SIGHASH_SINGLE :: nat where "SIGHASH_SINGLE = 3"
definition SIGHASH_ANYONECANPAY :: nat where "SIGHASH_ANYONECANPAY = 0x80"

definition SCRIPT_VERIFY_NONE :: u32 where "SCRIPT_VERIFY_NONE = 0"
definition SCRIPT_VERIFY_P2SH :: u32 where "SCRIPT_VERIFY_P2SH = push_bit 0 1"
definition SCRIPT_VERIFY_STRICTENC :: u32 where "SCRIPT_VERIFY_STRICTENC = push_bit 1 1"
definition SCRIPT_VERIFY_DERSIG :: u32 where "SCRIPT_VERIFY_DERSIG = push_bit 2 1"
definition SCRIPT_VERIFY_LOW_S :: u32 where "SCRIPT_VERIFY_LOW_S = push_bit 3 1"
definition SCRIPT_VERIFY_NULLDUMMY :: u32 where "SCRIPT_VERIFY_NULLDUMMY = push_bit 4 1"
definition SCRIPT_VERIFY_SIGPUSHONLY :: u32 where "SCRIPT_VERIFY_SIGPUSHONLY = push_bit 5 1"
definition SCRIPT_VERIFY_MINIMALDATA :: u32 where "SCRIPT_VERIFY_MINIMALDATA = push_bit 6 1"
definition SCRIPT_VERIFY_DISCOURAGE_UPGRADABLE_NOPS :: u32 where
  "SCRIPT_VERIFY_DISCOURAGE_UPGRADABLE_NOPS = push_bit 7 1"
definition SCRIPT_VERIFY_CLEANSTACK :: u32 where "SCRIPT_VERIFY_CLEANSTACK = push_bit 8 1"
definition SCRIPT_VERIFY_CHECKLOCKTIMEVERIFY :: u32 where "SCRIPT_VERIFY_CHECKLOCKTIMEVERIFY = push_bit 9 1"
definition SCRIPT_VERIFY_CHECKSEQUENCEVERIFY :: u32 where "SCRIPT_VERIFY_CHECKSEQUENCEVERIFY = push_bit 10 1"
definition SCRIPT_VERIFY_NULLFAIL :: u32 where "SCRIPT_VERIFY_NULLFAIL = push_bit 14 1"

abbreviation has :: "u32 \<Rightarrow> u32 \<Rightarrow> bool" where
  "has flags f \<equiv> flags AND f \<noteq> 0"

record script_env =
  CheckSig :: "bytes \<Rightarrow> bytes \<Rightarrow> bytes \<Rightarrow> bool"
  CheckLockTime :: "int \<Rightarrow> bool"
  CheckSequence :: "int \<Rightarrow> bool"
  CheckLowS :: "bytes \<Rightarrow> bool"
  RIPEMD160 :: "bytes \<Rightarrow> bytes"
  SHA1 :: "bytes \<Rightarrow> bytes"
  SHA256 :: "bytes \<Rightarrow> bytes"
  Hash160 :: "bytes \<Rightarrow> bytes"
  Hash256 :: "bytes \<Rightarrow> bytes"

record eval_state =
  stack :: "bytes list"
  altstack :: "bytes list"
  vfExec :: "bool list"
  nOpCount :: int
  pbegincodehash :: bytes

section \<open>Encodings\<close>

fun CastToBool :: "bytes \<Rightarrow> bool" where
  "CastToBool [] = False"
| "CastToBool (b # bs) =
     (if b \<noteq> 0 then \<not> (bs = [] \<and> b = 0x80) else CastToBool bs)"

definition IsCompressedOrUncompressedPubKey :: "bytes \<Rightarrow> bool" where
  "IsCompressedOrUncompressedPubKey vchPubKey =
     (if length vchPubKey < 33 then False
      else if vchPubKey ! 0 = 0x04 then length vchPubKey = 65
      else if vchPubKey ! 0 = 0x02 \<or> vchPubKey ! 0 = 0x03 then length vchPubKey = 33
      else False)"

definition IsValidSignatureEncoding :: "bytes \<Rightarrow> bool" where
  "IsValidSignatureEncoding sig =
     (if length sig < 9 then False
      else if length sig > 73 then False
      else if sig ! 0 \<noteq> 0x30 then False
      else if unat (sig ! 1) \<noteq> length sig - 3 then False
      else let lenR = unat (sig ! 3) in
        if 5 + lenR \<ge> length sig then False
        else let lenS = unat (sig ! (5 + lenR)) in
          if lenR + lenS + 7 \<noteq> length sig then False
          else if sig ! 2 \<noteq> 0x02 then False
          else if lenR = 0 then False
          else if sig ! 4 AND 0x80 \<noteq> 0 then False
          else if lenR > 1 \<and> sig ! 4 = 0x00 \<and> \<not> (sig ! 5 AND 0x80 \<noteq> 0) then False
          else if sig ! (lenR + 4) \<noteq> 0x02 then False
          else if lenS = 0 then False
          else if sig ! (lenR + 6) AND 0x80 \<noteq> 0 then False
          else if lenS > 1 \<and> sig ! (lenR + 6) = 0x00 \<and> \<not> (sig ! (lenR + 7) AND 0x80 \<noteq> 0) then False
          else True)"

definition IsLowDERSignature :: "script_env \<Rightarrow> bytes \<Rightarrow> script_fail + unit" where
  "IsLowDERSignature env vchSig =
     (if \<not> IsValidSignatureEncoding vchSig then Inl (Failed SCRIPT_ERR_SIG_DER)
      else if \<not> CheckLowS env (take (length vchSig - 1) vchSig) then Inl (Failed SCRIPT_ERR_SIG_HIGH_S)
      else Inr ())"

definition IsDefinedHashtypeSignature :: "bytes \<Rightarrow> bool" where
  "IsDefinedHashtypeSignature vchSig =
     (if length vchSig = 0 then False
      else let nHashType = unat (vchSig ! (length vchSig - 1) AND NOT (of_nat SIGHASH_ANYONECANPAY))
           in \<not> (nHashType < SIGHASH_ALL \<or> nHashType > SIGHASH_SINGLE))"

definition CheckSignatureEncoding :: "script_env \<Rightarrow> u32 \<Rightarrow> bytes \<Rightarrow> script_fail + unit" where
  "CheckSignatureEncoding env flags vchSig =
     (if length vchSig = 0 then Inr ()
      else if has flags (SCRIPT_VERIFY_DERSIG OR SCRIPT_VERIFY_LOW_S OR SCRIPT_VERIFY_STRICTENC) \<and>
              \<not> IsValidSignatureEncoding vchSig then Inl (Failed SCRIPT_ERR_SIG_DER)
      else case (if has flags SCRIPT_VERIFY_LOW_S then IsLowDERSignature env vchSig else Inr ()) of
             Inl e \<Rightarrow> Inl e
           | Inr _ \<Rightarrow>
               (if has flags SCRIPT_VERIFY_STRICTENC \<and> \<not> IsDefinedHashtypeSignature vchSig
                then Inl (Failed SCRIPT_ERR_SIG_HASHTYPE) else Inr ()))"

definition CheckPubKeyEncoding :: "u32 \<Rightarrow> bytes \<Rightarrow> script_fail + unit" where
  "CheckPubKeyEncoding flags vchPubKey =
     (if has flags SCRIPT_VERIFY_STRICTENC \<and> \<not> IsCompressedOrUncompressedPubKey vchPubKey
      then Inl (Failed SCRIPT_ERR_PUBKEYTYPE) else Inr ())"

definition CheckMinimalPush :: "bytes \<Rightarrow> nat \<Rightarrow> bool" where
  "CheckMinimalPush data opcode =
     (if length data = 0 then opcode = OP_0
      else if length data = 1 \<and> data ! 0 \<ge> 1 \<and> data ! 0 \<le> 16 then opcode = OP_1 + (unat (data ! 0) - 1)
      else if length data = 1 \<and> data ! 0 = 0x81 then opcode = OP_1NEGATE
      else if length data \<le> 75 then opcode = length data
      else if length data \<le> 255 then opcode = OP_PUSHDATA1
      else if length data \<le> 65535 then opcode = OP_PUSHDATA2
      else True)"

section \<open>Operations on the stack alone\<close>

type_synonym stack_op = "bool \<Rightarrow> bytes list \<Rightarrow> script_fail + bytes list"

definition vchFalse :: bytes where "vchFalse = []"
definition vchTrue :: bytes where "vchTrue = [1]"

abbreviation invalid_stack :: "script_fail + 'a" where
  "invalid_stack \<equiv> Inl (Failed SCRIPT_ERR_INVALID_STACK_OPERATION)"

text \<open>A stack element read as a number: \<open>CScriptNum(vch, fRequireMinimal)\<close> with the default size limit.\<close>

definition num :: "bool \<Rightarrow> bytes \<Rightarrow> script_fail + int" where
  "num fRequireMinimal vch = raised (CScriptNum vch fRequireMinimal 4)"

fun op_verify :: stack_op where
  "op_verify fMin (x # st) = (if CastToBool x then Inr st else Inl (Failed SCRIPT_ERR_VERIFY))"
| "op_verify fMin [] = invalid_stack"

fun op_2drop :: stack_op where
  "op_2drop fMin (x2 # x1 # st) = Inr st"
| "op_2drop fMin st = invalid_stack"

fun op_2dup :: stack_op where
  "op_2dup fMin (x2 # x1 # st) = Inr (x2 # x1 # x2 # x1 # st)"
| "op_2dup fMin st = invalid_stack"

fun op_3dup :: stack_op where
  "op_3dup fMin (x3 # x2 # x1 # st) = Inr (x3 # x2 # x1 # x3 # x2 # x1 # st)"
| "op_3dup fMin st = invalid_stack"

fun op_2over :: stack_op where
  "op_2over fMin (x4 # x3 # x2 # x1 # st) = Inr (x2 # x1 # x4 # x3 # x2 # x1 # st)"
| "op_2over fMin st = invalid_stack"

fun op_2rot :: stack_op where
  "op_2rot fMin (x6 # x5 # x4 # x3 # x2 # x1 # st) = Inr (x2 # x1 # x6 # x5 # x4 # x3 # st)"
| "op_2rot fMin st = invalid_stack"

fun op_2swap :: stack_op where
  "op_2swap fMin (x4 # x3 # x2 # x1 # st) = Inr (x2 # x1 # x4 # x3 # st)"
| "op_2swap fMin st = invalid_stack"

fun op_ifdup :: stack_op where
  "op_ifdup fMin (x # st) = Inr (if CastToBool x then x # x # st else x # st)"
| "op_ifdup fMin [] = invalid_stack"

fun op_depth :: stack_op where
  "op_depth fMin st = Inr (serialize (int (length st)) # st)"

fun op_drop :: stack_op where
  "op_drop fMin (x # st) = Inr st"
| "op_drop fMin [] = invalid_stack"

fun op_dup :: stack_op where
  "op_dup fMin (x # st) = Inr (x # x # st)"
| "op_dup fMin [] = invalid_stack"

fun op_nip :: stack_op where
  "op_nip fMin (x2 # x1 # st) = Inr (x2 # st)"
| "op_nip fMin st = invalid_stack"

fun op_over :: stack_op where
  "op_over fMin (x2 # x1 # st) = Inr (x1 # x2 # x1 # st)"
| "op_over fMin st = invalid_stack"

definition op_pick_roll :: "nat \<Rightarrow> stack_op" where
  "op_pick_roll opcode fMin st =
     (if length st < 2 then invalid_stack
      else sbind (num fMin (hd st)) (\<lambda>bn.
        let n = getint bn; st = tl st in
        if n < 0 \<or> n \<ge> int (length st) then invalid_stack
        else let vch = st ! nat n;
                 st = (if opcode = OP_ROLL then take (nat n) st @ drop (Suc (nat n)) st else st)
             in Inr (vch # st)))"

fun op_rot :: stack_op where
  "op_rot fMin (x3 # x2 # x1 # st) = Inr (x1 # x3 # x2 # st)"
| "op_rot fMin st = invalid_stack"

fun op_swap :: stack_op where
  "op_swap fMin (x2 # x1 # st) = Inr (x1 # x2 # st)"
| "op_swap fMin st = invalid_stack"

fun op_tuck :: stack_op where
  "op_tuck fMin (x2 # x1 # st) = Inr (x2 # x1 # x2 # st)"
| "op_tuck fMin st = invalid_stack"

fun op_size :: stack_op where
  "op_size fMin (x # st) = Inr (serialize (int (length x)) # x # st)"
| "op_size fMin [] = invalid_stack"

definition op_equal :: "nat \<Rightarrow> stack_op" where
  "op_equal opcode fMin st =
     (case st of
        vch2 # vch1 # st \<Rightarrow>
          (let fEqual = (vch1 = vch2) in
           if opcode = OP_EQUALVERIFY then (if fEqual then Inr st else Inl (Failed SCRIPT_ERR_EQUALVERIFY))
           else Inr ((if fEqual then vchTrue else vchFalse) # st))
      | _ \<Rightarrow> invalid_stack)"

definition unary_num :: "nat \<Rightarrow> int \<Rightarrow> script_exn + int" where
  "unary_num opcode bn =
     (if opcode = OP_1ADD then num_plus bn 1
      else if opcode = OP_1SUB then num_minus bn 1
      else if opcode = OP_NEGATE then num_neg bn
      else if opcode = OP_ABS then (if bn < 0 then num_neg bn else Inr bn)
      else if opcode = OP_NOT then Inr (of_bool (bn = 0))
      else if opcode = OP_0NOTEQUAL then Inr (of_bool (bn \<noteq> 0))
      else Inl Aborted)"

definition op_unary :: "nat \<Rightarrow> stack_op" where
  "op_unary opcode fMin st =
     (case st of
        x # st \<Rightarrow>
          sbind (num fMin x) (\<lambda>bn. sbind (raised (unary_num opcode bn)) (\<lambda>bn. Inr (serialize bn # st)))
      | [] \<Rightarrow> invalid_stack)"

text \<open>The sum and the difference of two \<open>CScriptNum\<close>s are computed in \<open>int64_t\<close> without an assertion.\<close>

definition binary_num :: "nat \<Rightarrow> int \<Rightarrow> int \<Rightarrow> script_exn + int" where
  "binary_num opcode bn1 bn2 =
     (if opcode = OP_ADD then Inr (i64 (bn1 + bn2))
      else if opcode = OP_SUB then Inr (i64 (bn1 - bn2))
      else if opcode = OP_BOOLAND then Inr (of_bool (bn1 \<noteq> 0 \<and> bn2 \<noteq> 0))
      else if opcode = OP_BOOLOR then Inr (of_bool (bn1 \<noteq> 0 \<or> bn2 \<noteq> 0))
      else if opcode = OP_NUMEQUAL then Inr (of_bool (bn1 = bn2))
      else if opcode = OP_NUMEQUALVERIFY then Inr (of_bool (bn1 = bn2))
      else if opcode = OP_NUMNOTEQUAL then Inr (of_bool (bn1 \<noteq> bn2))
      else if opcode = OP_LESSTHAN then Inr (of_bool (bn1 < bn2))
      else if opcode = OP_GREATERTHAN then Inr (of_bool (bn1 > bn2))
      else if opcode = OP_LESSTHANOREQUAL then Inr (of_bool (bn1 \<le> bn2))
      else if opcode = OP_GREATERTHANOREQUAL then Inr (of_bool (bn1 \<ge> bn2))
      else if opcode = OP_MIN then Inr (if bn1 < bn2 then bn1 else bn2)
      else if opcode = OP_MAX then Inr (if bn1 > bn2 then bn1 else bn2)
      else Inl Aborted)"

definition op_binary :: "nat \<Rightarrow> stack_op" where
  "op_binary opcode fMin st =
     (case st of
        x2 # x1 # st \<Rightarrow>
          sbind (num fMin x1) (\<lambda>bn1. sbind (num fMin x2) (\<lambda>bn2.
          sbind (raised (binary_num opcode bn1 bn2)) (\<lambda>bn.
            if opcode = OP_NUMEQUALVERIFY then
              (if CastToBool (serialize bn) then Inr st else Inl (Failed SCRIPT_ERR_NUMEQUALVERIFY))
            else Inr (serialize bn # st))))
      | _ \<Rightarrow> invalid_stack)"

definition op_within :: stack_op where
  "op_within fMin st =
     (case st of
        x3 # x2 # x1 # st \<Rightarrow>
          sbind (num fMin x1) (\<lambda>bn1. sbind (num fMin x2) (\<lambda>bn2. sbind (num fMin x3) (\<lambda>bn3.
            Inr ((if bn2 \<le> bn1 \<and> bn1 < bn3 then vchTrue else vchFalse) # st))))
      | _ \<Rightarrow> invalid_stack)"

text \<open>The cases of the switch that read and write the main stack only.\<close>

definition stack_ops :: "(nat \<times> stack_op) list" where
  "stack_ops =
    [(OP_VERIFY, op_verify), (OP_2DROP, op_2drop), (OP_2DUP, op_2dup), (OP_3DUP, op_3dup),
     (OP_2OVER, op_2over), (OP_2ROT, op_2rot), (OP_2SWAP, op_2swap), (OP_IFDUP, op_ifdup),
     (OP_DEPTH, op_depth), (OP_DROP, op_drop), (OP_DUP, op_dup), (OP_NIP, op_nip), (OP_OVER, op_over),
     (OP_PICK, op_pick_roll OP_PICK), (OP_ROLL, op_pick_roll OP_ROLL), (OP_ROT, op_rot),
     (OP_SWAP, op_swap), (OP_TUCK, op_tuck), (OP_SIZE, op_size),
     (OP_EQUAL, op_equal OP_EQUAL), (OP_EQUALVERIFY, op_equal OP_EQUALVERIFY)] @
    map (\<lambda>opc. (opc, op_unary opc)) [OP_1ADD, OP_1SUB, OP_NEGATE, OP_ABS, OP_NOT, OP_0NOTEQUAL] @
    map (\<lambda>opc. (opc, op_binary opc))
      [OP_ADD, OP_SUB, OP_BOOLAND, OP_BOOLOR, OP_NUMEQUAL, OP_NUMEQUALVERIFY, OP_NUMNOTEQUAL,
       OP_LESSTHAN, OP_GREATERTHAN, OP_LESSTHANOREQUAL, OP_GREATERTHANOREQUAL, OP_MIN, OP_MAX] @
    [(OP_WITHIN, op_within)]"

section \<open>Operations on the whole state\<close>

type_synonym state_op = "eval_state \<Rightarrow> script_fail + eval_state"

definition push :: "bytes \<Rightarrow> eval_state \<Rightarrow> eval_state" where
  "push x s = s\<lparr>stack := x # stack s\<rparr>"

definition require_minimal :: "u32 \<Rightarrow> bool" where
  "require_minimal flags \<longleftrightarrow> has flags SCRIPT_VERIFY_MINIMALDATA"

definition op_push_number :: "nat \<Rightarrow> state_op" where
  "op_push_number opcode s = Inr (push (serialize (int opcode - (int OP_1 - 1))) s)"

definition op_checklocktimeverify :: "script_env \<Rightarrow> u32 \<Rightarrow> state_op" where
  "op_checklocktimeverify env flags s =
     (if \<not> has flags SCRIPT_VERIFY_CHECKLOCKTIMEVERIFY then
        (if has flags SCRIPT_VERIFY_DISCOURAGE_UPGRADABLE_NOPS
         then Inl (Failed SCRIPT_ERR_DISCOURAGE_UPGRADABLE_NOPS) else Inr s)
      else if length (stack s) < 1 then invalid_stack
      else sbind (raised (CScriptNum (stack s ! 0) (require_minimal flags) 5)) (\<lambda>nLockTime.
        if nLockTime < 0 then Inl (Failed SCRIPT_ERR_NEGATIVE_LOCKTIME)
        else if \<not> CheckLockTime env nLockTime then Inl (Failed SCRIPT_ERR_UNSATISFIED_LOCKTIME)
        else Inr s))"

definition op_checksequenceverify :: "script_env \<Rightarrow> u32 \<Rightarrow> state_op" where
  "op_checksequenceverify env flags s =
     (if \<not> has flags SCRIPT_VERIFY_CHECKSEQUENCEVERIFY then
        (if has flags SCRIPT_VERIFY_DISCOURAGE_UPGRADABLE_NOPS
         then Inl (Failed SCRIPT_ERR_DISCOURAGE_UPGRADABLE_NOPS) else Inr s)
      else if length (stack s) < 1 then invalid_stack
      else sbind (raised (CScriptNum (stack s ! 0) (require_minimal flags) 5)) (\<lambda>nSequence.
        if nSequence < 0 then Inl (Failed SCRIPT_ERR_NEGATIVE_LOCKTIME)
        else if nSequence AND 0x80000000 \<noteq> 0 then Inr s
        else if \<not> CheckSequence env nSequence then Inl (Failed SCRIPT_ERR_UNSATISFIED_LOCKTIME)
        else Inr s))"

definition op_upgradable_nop :: "u32 \<Rightarrow> state_op" where
  "op_upgradable_nop flags s =
     (if has flags SCRIPT_VERIFY_DISCOURAGE_UPGRADABLE_NOPS
      then Inl (Failed SCRIPT_ERR_DISCOURAGE_UPGRADABLE_NOPS) else Inr s)"

definition op_if :: "bool \<Rightarrow> nat \<Rightarrow> state_op" where
  "op_if fExec opcode s =
     (if fExec then
        (case stack s of
           [] \<Rightarrow> Inl (Failed SCRIPT_ERR_UNBALANCED_CONDITIONAL)
         | vch # st \<Rightarrow>
             (let fValue = CastToBool vch; fValue = (if opcode = OP_NOTIF then \<not> fValue else fValue)
              in Inr (s\<lparr>stack := st, vfExec := fValue # vfExec s\<rparr>)))
      else Inr (s\<lparr>vfExec := False # vfExec s\<rparr>))"

definition op_else :: state_op where
  "op_else s =
     (case vfExec s of
        [] \<Rightarrow> Inl (Failed SCRIPT_ERR_UNBALANCED_CONDITIONAL)
      | b # bs \<Rightarrow> Inr (s\<lparr>vfExec := (\<not> b) # bs\<rparr>))"

definition op_endif :: state_op where
  "op_endif s =
     (case vfExec s of
        [] \<Rightarrow> Inl (Failed SCRIPT_ERR_UNBALANCED_CONDITIONAL)
      | b # bs \<Rightarrow> Inr (s\<lparr>vfExec := bs\<rparr>))"

definition op_toaltstack :: state_op where
  "op_toaltstack s =
     (case stack s of
        [] \<Rightarrow> invalid_stack
      | x # st \<Rightarrow> Inr (s\<lparr>stack := st, altstack := x # altstack s\<rparr>))"

definition op_fromaltstack :: state_op where
  "op_fromaltstack s =
     (case altstack s of
        [] \<Rightarrow> Inl (Failed SCRIPT_ERR_INVALID_ALTSTACK_OPERATION)
      | x # st \<Rightarrow> Inr (s\<lparr>stack := x # stack s, altstack := st\<rparr>))"

definition hash_of :: "script_env \<Rightarrow> nat \<Rightarrow> bytes \<Rightarrow> bytes" where
  "hash_of env opcode =
     (if opcode = OP_RIPEMD160 then RIPEMD160 env
      else if opcode = OP_SHA1 then SHA1 env
      else if opcode = OP_SHA256 then SHA256 env
      else if opcode = OP_HASH160 then Hash160 env
      else Hash256 env)"

definition op_hash :: "script_env \<Rightarrow> nat \<Rightarrow> state_op" where
  "op_hash env opcode s =
     (case stack s of
        [] \<Rightarrow> invalid_stack
      | vch # st \<Rightarrow> Inr (s\<lparr>stack := hash_of env opcode vch # st\<rparr>))"

definition op_codeseparator :: "bytes \<Rightarrow> state_op" where
  "op_codeseparator pc s = Inr (s\<lparr>pbegincodehash := pc\<rparr>)"

definition drop_signature :: "bytes \<Rightarrow> bytes \<Rightarrow> bytes" where
  "drop_signature vchSig scriptCode = fst (FindAndDelete scriptCode (push_data vchSig))"

definition op_checksig :: "script_env \<Rightarrow> u32 \<Rightarrow> nat \<Rightarrow> state_op" where
  "op_checksig env flags opcode s =
     (case stack s of
        vchPubKey # vchSig # st \<Rightarrow>
          (let scriptCode = drop_signature vchSig (pbegincodehash s) in
           sbind (CheckSignatureEncoding env flags vchSig) (\<lambda>_.
           sbind (CheckPubKeyEncoding flags vchPubKey) (\<lambda>_.
             let fSuccess = CheckSig env vchSig vchPubKey scriptCode in
             if \<not> fSuccess \<and> has flags SCRIPT_VERIFY_NULLFAIL \<and> length vchSig \<noteq> 0
             then Inl (Failed SCRIPT_ERR_SIG_NULLFAIL)
             else if opcode = OP_CHECKSIGVERIFY then
               (if fSuccess then Inr (s\<lparr>stack := st\<rparr>) else Inl (Failed SCRIPT_ERR_CHECKSIGVERIFY))
             else Inr (s\<lparr>stack := (if fSuccess then vchTrue else vchFalse) # st\<rparr>))))
      | _ \<Rightarrow> invalid_stack)"

text \<open>
  The matching loop of \<open>OP_CHECKMULTISIG\<close> over the signatures and the keys that are left, topmost first.
  There are never more signatures than keys when an iteration starts, so the last equation is not reached.
\<close>

fun multisig_loop :: "script_env \<Rightarrow> u32 \<Rightarrow> bytes \<Rightarrow> bytes list \<Rightarrow> bytes list \<Rightarrow> script_fail + bool" where
  "multisig_loop env flags scriptCode [] keys = Inr True"
| "multisig_loop env flags scriptCode (vchSig # sigs) (vchPubKey # keys) =
     sbind (CheckSignatureEncoding env flags vchSig) (\<lambda>_.
     sbind (CheckPubKeyEncoding flags vchPubKey) (\<lambda>_.
       let sigs' = (if CheckSig env vchSig vchPubKey scriptCode then sigs else vchSig # sigs) in
       if length sigs' > length keys then Inr False
       else multisig_loop env flags scriptCode sigs' keys))"
| "multisig_loop env flags scriptCode (vchSig # sigs) [] = Inr False"

fun multisig_cleanup :: "u32 \<Rightarrow> bool \<Rightarrow> nat \<Rightarrow> nat \<Rightarrow> bytes list \<Rightarrow> script_fail + bytes list" where
  "multisig_cleanup flags fSuccess 0 ikey2 st = Inr st"
| "multisig_cleanup flags fSuccess (Suc i) ikey2 (x # st) =
     (if \<not> fSuccess \<and> has flags SCRIPT_VERIFY_NULLFAIL \<and> ikey2 = 0 \<and> length x \<noteq> 0
      then Inl (Failed SCRIPT_ERR_SIG_NULLFAIL)
      else multisig_cleanup flags fSuccess i (ikey2 - 1) st)"
| "multisig_cleanup flags fSuccess (Suc i) ikey2 [] = Inl (Raised Thrown)"

definition multisig_finish :: "u32 \<Rightarrow> nat \<Rightarrow> bool \<Rightarrow> bytes list \<Rightarrow> script_fail + bytes list" where
  "multisig_finish flags opcode fSuccess st =
     (case st of
        [] \<Rightarrow> invalid_stack
      | dummy # st \<Rightarrow>
          (if has flags SCRIPT_VERIFY_NULLDUMMY \<and> length dummy \<noteq> 0 then Inl (Failed SCRIPT_ERR_SIG_NULLDUMMY)
           else if opcode = OP_CHECKMULTISIGVERIFY then
             (if fSuccess then Inr st else Inl (Failed SCRIPT_ERR_CHECKMULTISIGVERIFY))
           else Inr ((if fSuccess then vchTrue else vchFalse) # st)))"

definition op_checkmultisig :: "script_env \<Rightarrow> u32 \<Rightarrow> nat \<Rightarrow> state_op" where
  "op_checkmultisig env flags opcode s =
     (let st = stack s; fMin = require_minimal flags in
      if length st < 1 then invalid_stack
      else sbind (num fMin (st ! 0)) (\<lambda>bn.
        let nKeysCount = getint bn in
        if nKeysCount < 0 \<or> nKeysCount > MAX_PUBKEYS_PER_MULTISIG then Inl (Failed SCRIPT_ERR_PUBKEY_COUNT)
        else let s = s\<lparr>nOpCount := nOpCount s + nKeysCount\<rparr> in
        if nOpCount s > MAX_OPS_PER_SCRIPT then Inl (Failed SCRIPT_ERR_OP_COUNT)
        else let nKeys = nat nKeysCount in
        if length st < nKeys + 2 then invalid_stack
        else sbind (num fMin (st ! (nKeys + 1))) (\<lambda>bn.
          let nSigsCount = getint bn in
          if nSigsCount < 0 \<or> nSigsCount > nKeysCount then Inl (Failed SCRIPT_ERR_SIG_COUNT)
          else let nSigs = nat nSigsCount; i = nKeys + 3 + nSigs in
          if length st < i then invalid_stack
          else let keys = take nKeys (drop 1 st); sigs = take nSigs (drop (nKeys + 2) st);
                   scriptCode = fold drop_signature sigs (pbegincodehash s) in
            sbind (multisig_loop env flags scriptCode sigs keys) (\<lambda>fSuccess.
            sbind (multisig_cleanup flags fSuccess (i - 1) (nKeys + 2) st) (\<lambda>st.
            sbind (multisig_finish flags opcode fSuccess st) (\<lambda>st. Inr (s\<lparr>stack := st\<rparr>)))))))"

definition disabled_opcodes :: "nat list" where
  "disabled_opcodes =
     [OP_CAT, OP_SUBSTR, OP_LEFT, OP_RIGHT, OP_INVERT, OP_AND, OP_OR, OP_XOR, OP_2MUL, OP_2DIV,
      OP_MUL, OP_DIV, OP_MOD, OP_LSHIFT, OP_RSHIFT]"

definition exec_op :: "script_env \<Rightarrow> u32 \<Rightarrow> bool \<Rightarrow> nat \<Rightarrow> bytes \<Rightarrow> state_op" where
  "exec_op env flags fExec opcode pc s =
     (case map_of stack_ops opcode of
        Some f \<Rightarrow> sbind (f (require_minimal flags) (stack s)) (\<lambda>st. Inr (s\<lparr>stack := st\<rparr>))
      | None \<Rightarrow>
         (if opcode = OP_1NEGATE \<or> (OP_1 \<le> opcode \<and> opcode \<le> OP_16) then op_push_number opcode s
          else if opcode = OP_NOP then Inr s
          else if opcode = OP_CHECKLOCKTIMEVERIFY then op_checklocktimeverify env flags s
          else if opcode = OP_CHECKSEQUENCEVERIFY then op_checksequenceverify env flags s
          else if opcode \<in> set [OP_NOP1, OP_NOP4, OP_NOP5, OP_NOP6, OP_NOP7, OP_NOP8, OP_NOP9, OP_NOP10]
          then op_upgradable_nop flags s
          else if opcode = OP_IF \<or> opcode = OP_NOTIF then op_if fExec opcode s
          else if opcode = OP_ELSE then op_else s
          else if opcode = OP_ENDIF then op_endif s
          else if opcode = OP_RETURN then Inl (Failed SCRIPT_ERR_OP_RETURN)
          else if opcode = OP_TOALTSTACK then op_toaltstack s
          else if opcode = OP_FROMALTSTACK then op_fromaltstack s
          else if opcode \<in> set [OP_RIPEMD160, OP_SHA1, OP_SHA256, OP_HASH160, OP_HASH256] then op_hash env opcode s
          else if opcode = OP_CODESEPARATOR then op_codeseparator pc s
          else if opcode = OP_CHECKSIG \<or> opcode = OP_CHECKSIGVERIFY then op_checksig env flags opcode s
          else if opcode = OP_CHECKMULTISIG \<or> opcode = OP_CHECKMULTISIGVERIFY then op_checkmultisig env flags opcode s
          else Inl (Failed SCRIPT_ERR_BAD_OPCODE)))"

text \<open>One iteration of the loop of \<open>EvalScript\<close>, after the instruction has been read.\<close>

definition eval_op :: "script_env \<Rightarrow> u32 \<Rightarrow> nat \<Rightarrow> bytes \<Rightarrow> bytes \<Rightarrow> state_op" where
  "eval_op env flags opcode vchPushValue pc s =
     (let fExec = list_all (\<lambda>b. b) (vfExec s) in
      if length vchPushValue > MAX_SCRIPT_ELEMENT_SIZE then Inl (Failed SCRIPT_ERR_PUSH_SIZE)
      else let s = (if opcode > OP_16 then s\<lparr>nOpCount := nOpCount s + 1\<rparr> else s) in
      if opcode > OP_16 \<and> nOpCount s > MAX_OPS_PER_SCRIPT then Inl (Failed SCRIPT_ERR_OP_COUNT)
      else if opcode \<in> set disabled_opcodes then Inl (Failed SCRIPT_ERR_DISABLED_OPCODE)
      else sbind
        (if fExec \<and> opcode \<le> OP_PUSHDATA4 then
           (if require_minimal flags \<and> \<not> CheckMinimalPush vchPushValue opcode
            then Inl (Failed SCRIPT_ERR_MINIMALDATA) else Inr (push vchPushValue s))
         else if fExec \<or> (OP_IF \<le> opcode \<and> opcode \<le> OP_ENDIF) then exec_op env flags fExec opcode pc s
         else Inr s)
        (\<lambda>s. if length (stack s) + length (altstack s) > 1000 then Inl (Failed SCRIPT_ERR_STACK_SIZE) else Inr s))"

function eval_loop :: "script_env \<Rightarrow> u32 \<Rightarrow> bytes \<Rightarrow> state_op" where
  "eval_loop env flags pc s =
     (if pc = [] then Inr s
      else case GetOp2 pc of
             Inl _ \<Rightarrow> Inl (Failed SCRIPT_ERR_BAD_OPCODE)
           | Inr (opcode, vchPushValue, pc') \<Rightarrow>
               sbind (eval_op env flags opcode vchPushValue pc' s) (\<lambda>s. eval_loop env flags pc' s))"
  by pat_completeness auto
termination
  by (relation "measure (\<lambda>(env, flags, pc, s). length pc)") (auto dest: GetOp2_shorter)

declare eval_loop.simps [simp del]

definition EvalScript :: "script_env \<Rightarrow> u32 \<Rightarrow> bytes \<Rightarrow> bytes list \<Rightarrow> script_fail + bytes list" where
  "EvalScript env flags script st =
     (if length script > MAX_SCRIPT_SIZE then Inl (Failed SCRIPT_ERR_SCRIPT_SIZE)
      else case eval_loop env flags script
                  \<lparr>stack = st, altstack = [], vfExec = [], nOpCount = 0, pbegincodehash = script\<rparr> of
             Inl (Raised Thrown) \<Rightarrow> Inl (Failed SCRIPT_ERR_UNKNOWN_ERROR)
           | Inl e \<Rightarrow> Inl e
           | Inr s \<Rightarrow> (if vfExec s \<noteq> [] then Inl (Failed SCRIPT_ERR_UNBALANCED_CONDITIONAL) else Inr (stack s)))"

definition top_true :: "bytes list \<Rightarrow> bool" where
  "top_true st \<longleftrightarrow> st \<noteq> [] \<and> CastToBool (hd st)"

definition VerifyScript :: "script_env \<Rightarrow> u32 \<Rightarrow> bytes \<Rightarrow> bytes \<Rightarrow> script_fail + unit" where
  "VerifyScript env flags scriptSig scriptPubKey =
     (if has flags SCRIPT_VERIFY_SIGPUSHONLY \<and> \<not> IsPushOnly scriptSig then Inl (Failed SCRIPT_ERR_SIG_PUSHONLY)
      else sbind (EvalScript env flags scriptSig []) (\<lambda>stackCopy.
           sbind (EvalScript env flags scriptPubKey stackCopy) (\<lambda>st.
           if \<not> top_true st then Inl (Failed SCRIPT_ERR_EVAL_FALSE)
           else sbind
             (if has flags SCRIPT_VERIFY_P2SH \<and> IsPayToScriptHash scriptPubKey then
                (if \<not> IsPushOnly scriptSig then Inl (Failed SCRIPT_ERR_SIG_PUSHONLY)
                 else if stackCopy = [] then Inl (Raised Aborted)
                 else sbind (EvalScript env flags (hd stackCopy) (tl stackCopy)) (\<lambda>st.
                   if \<not> top_true st then Inl (Failed SCRIPT_ERR_EVAL_FALSE) else Inr st))
              else Inr st)
             (\<lambda>st.
              if has flags SCRIPT_VERIFY_CLEANSTACK then
                (if \<not> has flags SCRIPT_VERIFY_P2SH then Inl (Raised Aborted)
                 else if length st \<noteq> 1 then Inl (Failed SCRIPT_ERR_CLEANSTACK) else Inr ())
              else Inr ()))))"

end
