(* ===== verification/Script_Safety.thy ===== *)
theory Script_Safety
  imports Interpreter "HOL-Library.Sublist"
begin

text \<open>
  Resource limits and safety of the interpreter: element sizes, stack depth and operation count
  stay bounded, no assertion fails, unspendable scripts cannot be satisfied.
\<close>

section \<open>Numbers on the stack\<close>

lemma set_vch_bound:
  assumes "length vch \<le> Suc k"
  shows "\<bar>set_vch vch\<bar> < 2 ^ (8 * k + 7)"
proof (cases vch rule: rev_cases)
  case Nil
  then show ?thesis by (simp add: set_vch_def)
next
  case (snoc bs b)
  define m where "m = (if 128 \<le> unat b then unat b - 128 else unat b)"
  have m: "m \<le> 127" using unat_u8_lt [of b] by (auto simp: m_def)
  have "\<bar>set_vch vch\<bar> = int (vch_value bs + 256 ^ length bs * m)"
    unfolding snoc set_vch_snoc m_def by (cases "128 \<le> unat b") (simp_all only: if_True if_False abs_minus_cancel abs_of_nat)
  also have "vch_value bs + 256 ^ length bs * m < 256 ^ length bs + 256 ^ length bs * 127"
    using vch_value_bound [of bs] m by (intro add_less_le_mono) auto
  also have "(256 :: nat) ^ length bs + 256 ^ length bs * 127 = 128 * 256 ^ length bs" by simp
  also have "\<dots> \<le> 128 * 256 ^ k" using assms snoc by (simp add: power_increasing)
  also have "int (128 * 256 ^ k) = 2 ^ (8 * k + 7)" by (simp add: power_add power_mult)
  finally show ?thesis by simp
qed

lemma num_Inr: "num fMin vch = Inr v \<Longrightarrow> \<bar>v\<bar> \<le> 2147483647"
  using set_vch_bound [of vch 3]
  by (auto simp: num_def raised_def CScriptNum_def split: sum.splits if_splits)

lemma CScriptNum_not_aborted: "CScriptNum vch fMin k \<noteq> Inl Aborted"
  by (simp add: CScriptNum_def)

lemma num_not_aborted: "num fMin vch \<noteq> Inl (Raised Aborted)"
  by (simp add: num_def raised_Inl CScriptNum_not_aborted)

lemma serialize_small: "\<bar>v\<bar> \<le> 4294967295 \<Longrightarrow> length (serialize v) \<le> 520"
  using length_serialize [of v 4] by simp

lemma unary_num_range:
  "\<bar>v\<bar> \<le> 2147483647 \<Longrightarrow> unary_num opcode v = Inr w \<Longrightarrow> \<bar>w\<bar> \<le> 4294967295"
  by (auto simp: unary_num_def num_plus_def num_minus_def num_neg_def split: if_splits)

lemma binary_num_range:
  assumes "\<bar>v\<bar> \<le> 2147483647" "\<bar>v'\<bar> \<le> 2147483647" "binary_num opcode v v' = Inr w"
  shows "\<bar>w\<bar> \<le> 4294967295"
proof -
  have "i64 (v + v') = v + v'" "i64 (v - v') = v - v'" using assms(1,2) by (auto intro!: i64_ident)
  then show ?thesis using assms by (auto simp: binary_num_def split: if_splits)
qed

section \<open>Operations keep the elements small\<close>

definition sized :: "bytes list \<Rightarrow> bool" where
  "sized st \<longleftrightarrow> (\<forall>x \<in> set st. length x \<le> MAX_SCRIPT_ELEMENT_SIZE)"

lemma sized_simps [simp]:
  "sized []" "sized (x # st) \<longleftrightarrow> length x \<le> 520 \<and> sized st" "sized (st @ st') \<longleftrightarrow> sized st \<and> sized st'"
  by (auto simp: sized_def)

lemma sized_take_drop: "sized st \<Longrightarrow> sized (take n st)" "sized st \<Longrightarrow> sized (drop n st)"
  by (auto simp: sized_def dest: in_set_takeD in_set_dropD)

lemma sized_nth: "sized st \<Longrightarrow> i < length st \<Longrightarrow> length (st ! i) \<le> 520"
  by (simp add: sized_def)

lemma sized_tl: "sized st \<Longrightarrow> sized (tl st)"
  by (cases st) auto

text \<open>The contract of an operation on the stack: no failed assertion, and small elements stay small.\<close>

definition sound :: "script_fail + bytes list \<Rightarrow> bool" where
  "sound r \<longleftrightarrow> r \<noteq> Inl (Raised Aborted) \<and> (\<forall>st. r = Inr st \<longrightarrow> sized st)"

lemma soundI: "sized st \<Longrightarrow> sound (Inr st)" "sound (Inl (Failed e))" "sound (Inl (Raised Thrown))"
  by (auto simp: sound_def)

definition sound_op :: "stack_op \<Rightarrow> bool" where
  "sound_op f \<longleftrightarrow> (\<forall>fMin st. sized st \<and> length st \<le> 1000 \<longrightarrow> sound (f fMin st))"

lemma sound_op_bool [simp]: "length vchTrue \<le> 520" "length vchFalse \<le> 520"
  by (simp_all add: vchTrue_def vchFalse_def)

lemma sound_numbers:
  assumes "\<And>v. num fMin x = Inr v \<Longrightarrow> \<bar>v\<bar> \<le> 2147483647 \<Longrightarrow> sound (f v)"
  shows "sound (sbind (num fMin x) f)"
  using assms num_Inr [of fMin x] num_not_aborted [of fMin x]
  by (cases "num fMin x") (auto simp: sound_def)

lemma sound_opI:
  "(\<And>fMin st. sized st \<Longrightarrow> length st \<le> 1000 \<Longrightarrow> sound (f fMin st)) \<Longrightarrow> sound_op f"
  by (simp add: sound_op_def)

declare soundI [intro]

lemma rearranging_ops_sound:
  "sized st \<Longrightarrow> sound (op_verify fMin st)"
  "sized st \<Longrightarrow> sound (op_2drop fMin st)"
  "sized st \<Longrightarrow> sound (op_2dup fMin st)"
  "sized st \<Longrightarrow> sound (op_3dup fMin st)"
  "sized st \<Longrightarrow> sound (op_2over fMin st)"
  "sized st \<Longrightarrow> sound (op_2rot fMin st)"
  "sized st \<Longrightarrow> sound (op_2swap fMin st)"
  "sized st \<Longrightarrow> sound (op_ifdup fMin st)"
  "sized st \<Longrightarrow> sound (op_drop fMin st)"
  "sized st \<Longrightarrow> sound (op_dup fMin st)"
  "sized st \<Longrightarrow> sound (op_nip fMin st)"
  "sized st \<Longrightarrow> sound (op_over fMin st)"
  "sized st \<Longrightarrow> sound (op_rot fMin st)"
  "sized st \<Longrightarrow> sound (op_swap fMin st)"
  "sized st \<Longrightarrow> sound (op_tuck fMin st)"
  subgoal by (cases "(fMin, st)" rule: op_verify.cases) auto
  subgoal by (cases "(fMin, st)" rule: op_2drop.cases) auto
  subgoal by (cases "(fMin, st)" rule: op_2dup.cases) auto
  subgoal by (cases "(fMin, st)" rule: op_3dup.cases) auto
  subgoal by (cases "(fMin, st)" rule: op_2over.cases) auto
  subgoal by (cases "(fMin, st)" rule: op_2rot.cases) auto
  subgoal by (cases "(fMin, st)" rule: op_2swap.cases) auto
  subgoal by (cases "(fMin, st)" rule: op_ifdup.cases) auto
  subgoal by (cases "(fMin, st)" rule: op_drop.cases) auto
  subgoal by (cases "(fMin, st)" rule: op_dup.cases) auto
  subgoal by (cases "(fMin, st)" rule: op_nip.cases) auto
  subgoal by (cases "(fMin, st)" rule: op_over.cases) auto
  subgoal by (cases "(fMin, st)" rule: op_rot.cases) auto
  subgoal by (cases "(fMin, st)" rule: op_swap.cases) auto
  subgoal by (cases "(fMin, st)" rule: op_tuck.cases) auto
  done

lemma op_depth_sound: "sized st \<Longrightarrow> length st \<le> 1000 \<Longrightarrow> sound (op_depth fMin st)"
  using serialize_small [of "int (length st)"] by auto

lemma op_size_sound: "sized st \<Longrightarrow> sound (op_size fMin st)"
  using serialize_small [of "int (length (hd st))"] by (cases st) auto

lemma op_pick_roll_sound: "sized st \<Longrightarrow> sound (op_pick_roll opcode fMin st)"
  unfolding op_pick_roll_def
  by (cases st) (auto simp: Let_def sized_take_drop nat_less_iff intro!: sound_numbers sized_nth soundI)

lemma op_equal_sound: "sized st \<Longrightarrow> sound (op_equal opcode fMin st)"
  by (auto simp: op_equal_def Let_def split: list.splits)

lemma op_unary_sound:
  assumes "opcode \<in> {OP_1ADD, OP_1SUB, OP_NEGATE, OP_ABS, OP_NOT, OP_0NOTEQUAL}" "sized st"
  shows "sound (op_unary opcode fMin st)"
proof (cases st)
  case (Cons x st')
  have "sound (sbind (raised (unary_num opcode v)) (\<lambda>bn. Inr (serialize bn # st')))" if "\<bar>v\<bar> \<le> 2147483647" for v
  proof (cases "unary_num opcode v")
    case (Inl e)
    have False using that assms(1) Inl
      by (auto simp: unary_num_def num_plus_def num_minus_def num_neg_def split: if_splits)
    then show ?thesis ..
  next
    case (Inr w)
    then show ?thesis using serialize_small [OF unary_num_range [OF that Inr]] assms(2) Cons by (auto simp: raised_def)
  qed
  then show ?thesis using Cons by (simp add: op_unary_def sound_numbers)
qed (auto simp: op_unary_def)

abbreviation binary_opcodes :: "nat set" where
  "binary_opcodes \<equiv> {OP_ADD, OP_SUB, OP_BOOLAND, OP_BOOLOR, OP_NUMEQUAL, OP_NUMEQUALVERIFY, OP_NUMNOTEQUAL,
       OP_LESSTHAN, OP_GREATERTHAN, OP_LESSTHANOREQUAL, OP_GREATERTHANOREQUAL, OP_MIN, OP_MAX}"

lemma binary_num_defined: "opcode \<in> binary_opcodes \<Longrightarrow> \<exists>w. binary_num opcode v v' = Inr w"
  by (auto simp: binary_num_def)

lemma op_binary_sound:
  assumes "opcode \<in> binary_opcodes" "sized st"
  shows "sound (op_binary opcode fMin st)"
proof (cases "\<exists>x2 x1 st'. st = x2 # x1 # st'")
  case True
  then obtain x2 x1 st' where st: "st = x2 # x1 # st'" by blast
  have "sound (sbind (raised (binary_num opcode v v')) (\<lambda>bn.
      if opcode = OP_NUMEQUALVERIFY then
        (if CastToBool (serialize bn) then Inr st' else Inl (Failed SCRIPT_ERR_NUMEQUALVERIFY))
      else Inr (serialize bn # st')))"
    if r: "\<bar>v\<bar> \<le> 2147483647" "\<bar>v'\<bar> \<le> 2147483647" for v v'
  proof -
    obtain w where w: "binary_num opcode v v' = Inr w" using binary_num_defined [OF assms(1)] by blast
    show ?thesis using serialize_small [OF binary_num_range [OF r w]] w assms(2) st by (auto simp: raised_def)
  qed
  then show ?thesis unfolding st op_binary_def list.case by (intro sound_numbers)
next
  case False
  then show ?thesis by (auto simp: op_binary_def split: list.splits)
qed

lemma op_within_sound: "sized st \<Longrightarrow> sound (op_within fMin st)"
  unfolding op_within_def by (auto intro!: sound_numbers split: list.splits)

lemma stack_ops_sound_list: "list_all (\<lambda>(opcode, f). sound_op f) stack_ops"
  by (simp add: stack_ops_def sound_op_def rearranging_ops_sound op_size_sound op_pick_roll_sound op_equal_sound
      op_unary_sound op_binary_sound op_within_sound op_depth_sound del: op_depth.simps)

lemma stack_ops_sound: "map_of stack_ops opcode = Some f \<Longrightarrow> sound_op f"
  using stack_ops_sound_list by (auto simp: list_all_iff dest: map_of_SomeD)

section \<open>The limits of a running script\<close>

definition hash_sizes :: "script_env \<Rightarrow> bool" where
  "hash_sizes env \<longleftrightarrow> (\<forall>x. length (RIPEMD160 env x) = 20 \<and> length (SHA1 env x) = 20 \<and>
     length (SHA256 env x) = 32 \<and> length (Hash160 env x) = 20 \<and> length (Hash256 env x) = 32)"

text \<open>Between two operations; \<open>small_state\<close> leaves out the bound on the depth, which is tested afterwards.\<close>

definition small_state :: "eval_state \<Rightarrow> bool" where
  "small_state s \<longleftrightarrow> sized (stack s) \<and> sized (altstack s) \<and> 0 \<le> nOpCount s \<and> nOpCount s \<le> MAX_OPS_PER_SCRIPT"

definition limits :: "eval_state \<Rightarrow> bool" where
  "limits s \<longleftrightarrow> small_state s \<and> length (stack s) + length (altstack s) \<le> 1000"

definition keeps :: "script_fail + eval_state \<Rightarrow> bool" where
  "keeps r \<longleftrightarrow> r \<noteq> Inl (Raised Aborted) \<and> (\<forall>s. r = Inr s \<longrightarrow> small_state s)"

lemma keepsI: "small_state s \<Longrightarrow> keeps (Inr s)" "keeps (Inl (Failed e))" "keeps (Inl (Raised Thrown))"
  by (auto simp: keeps_def)

lemma keeps_sbind: "sound r \<Longrightarrow> (\<And>st. sized st \<Longrightarrow> keeps (f st)) \<Longrightarrow> keeps (sbind r f)"
  by (cases r) (auto simp: sound_def keeps_def)

lemma keeps_check: "r \<noteq> Inl (Raised Aborted) \<Longrightarrow> (\<And>x. r = Inr x \<Longrightarrow> keeps (f x)) \<Longrightarrow> keeps (sbind r f)"
  by (cases r) (auto simp: keeps_def)

lemma CheckSignatureEncoding_fails: "CheckSignatureEncoding env flags sig \<noteq> Inl (Raised e)"
  by (auto simp: CheckSignatureEncoding_def IsLowDERSignature_def split: sum.splits if_splits)

lemma CheckPubKeyEncoding_fails: "CheckPubKeyEncoding flags key \<noteq> Inl (Raised e)"
  by (simp add: CheckPubKeyEncoding_def)

lemma locktime_ops_keep:
  assumes "small_state s"
  shows "keeps (op_checklocktimeverify env flags s)" "keeps (op_checksequenceverify env flags s)"
  using assms CScriptNum_not_aborted
  by (auto simp: op_checklocktimeverify_def op_checksequenceverify_def raised_Inl intro!: keepsI keeps_check)

lemma control_ops_keep:
  assumes "small_state s"
  shows "keeps (op_if fExec opcode s)" "keeps (op_else s)" "keeps (op_endif s)" "keeps (op_toaltstack s)"
    "keeps (op_fromaltstack s)" "keeps (op_upgradable_nop flags s)" "keeps (op_codeseparator pc s)"
    "1 \<le> opcode \<Longrightarrow> opcode \<le> 96 \<Longrightarrow> keeps (op_push_number opcode s)" "hash_sizes env \<Longrightarrow> keeps (op_hash env opcode s)"
  using assms serialize_small [of "int opcode - 80"]
  by (auto simp: op_if_def op_else_def op_endif_def op_toaltstack_def op_fromaltstack_def op_upgradable_nop_def
      op_codeseparator_def op_push_number_def op_hash_def hash_of_def hash_sizes_def push_def small_state_def Let_def
      intro!: keepsI split: list.splits)

lemma op_checksig_keeps: "small_state s \<Longrightarrow> keeps (op_checksig env flags opcode s)"
  using CheckSignatureEncoding_fails CheckPubKeyEncoding_fails
  by (auto simp: op_checksig_def Let_def small_state_def intro!: keepsI keeps_check split: list.splits)

lemma multisig_loop_fails: "multisig_loop env flags code sigs keys \<noteq> Inl (Raised e)"
  using CheckSignatureEncoding_fails CheckPubKeyEncoding_fails
  by (induction env flags code sigs keys rule: multisig_loop.induct) (auto simp: sbind_Inl_iff Let_def)

lemma multisig_cleanup_sound: "sized st \<Longrightarrow> sound (multisig_cleanup flags ok i k st)"
  by (induction flags ok i k st rule: multisig_cleanup.induct) auto

lemma multisig_finish_sound: "sized st \<Longrightarrow> sound (multisig_finish flags opcode ok st)"
  by (auto simp: multisig_finish_def split: list.splits)

lemma op_checkmultisig_keeps:
  assumes "small_state s"
  shows "keeps (op_checkmultisig env flags opcode s)"
  unfolding op_checkmultisig_def Let_def
  using assms num_not_aborted multisig_loop_fails
  by (auto simp: small_state_def intro!: keepsI keeps_check [of "num _ _"] keeps_check [of "multisig_loop _ _ _ _ _"]
      keeps_sbind [of "multisig_cleanup _ _ _ _ _"] keeps_sbind [of "multisig_finish _ _ _ _"]
      multisig_cleanup_sound multisig_finish_sound)

lemma exec_op_keeps:
  assumes "limits s" and "hash_sizes env"
  shows "keeps (exec_op env flags fExec opcode pc s)"
proof -
  have s: "small_state s" using assms(1) by (simp add: limits_def)
  show ?thesis
  proof (cases "map_of stack_ops opcode")
    case (Some f)
    have "sound (f (require_minimal flags) (stack s))"
      using stack_ops_sound [OF Some] assms(1) by (auto simp: sound_op_def limits_def small_state_def)
    then show ?thesis using Some s by (auto simp: exec_op_def small_state_def intro!: keeps_sbind keepsI)
  next
    case None
    then show ?thesis
      using s assms(2) unfolding exec_op_def
      by (auto simp: locktime_ops_keep control_ops_keep op_checksig_keeps op_checkmultisig_keeps intro!: keepsI)
  qed
qed

lemma eval_op_limits:
  assumes "limits s" and "hash_sizes env"
  shows "eval_op env flags opcode vch pc s \<noteq> Inl (Raised Aborted)"
    and "eval_op env flags opcode vch pc s = Inr s' \<Longrightarrow> limits s'"
proof -
  define t where "t = (if opcode > OP_16 then s\<lparr>nOpCount := nOpCount s + 1\<rparr> else s)"
  define r where "r = (if list_all (\<lambda>b. b) (vfExec s) \<and> opcode \<le> OP_PUSHDATA4 then
           (if require_minimal flags \<and> \<not> CheckMinimalPush vch opcode
            then Inl (Failed SCRIPT_ERR_MINIMALDATA) else Inr (push vch t))
         else if list_all (\<lambda>b. b) (vfExec s) \<or> (OP_IF \<le> opcode \<and> opcode \<le> OP_ENDIF)
         then exec_op env flags (list_all (\<lambda>b. b) (vfExec s)) opcode pc t
         else Inr t)"
  have e: "eval_op env flags opcode vch pc s =
    (if length vch > MAX_SCRIPT_ELEMENT_SIZE then Inl (Failed SCRIPT_ERR_PUSH_SIZE)
     else if opcode > OP_16 \<and> nOpCount t > MAX_OPS_PER_SCRIPT then Inl (Failed SCRIPT_ERR_OP_COUNT)
     else if opcode \<in> set disabled_opcodes then Inl (Failed SCRIPT_ERR_DISABLED_OPCODE)
     else sbind r (\<lambda>s. if length (stack s) + length (altstack s) > 1000
                        then Inl (Failed SCRIPT_ERR_STACK_SIZE) else Inr s))"
    by (simp only: eval_op_def Let_def t_def [symmetric] r_def [symmetric])
  have k: "keeps r" if "\<not> (opcode > OP_16 \<and> nOpCount t > MAX_OPS_PER_SCRIPT)" "length vch \<le> MAX_SCRIPT_ELEMENT_SIZE"
  proof -
    have t: "limits t" using assms(1) that(1) by (auto simp: t_def limits_def small_state_def)
    then have "small_state (push vch t)" using that(2) by (auto simp: limits_def small_state_def push_def)
    then show ?thesis using exec_op_keeps [OF t assms(2)] t by (auto simp: r_def limits_def intro!: keepsI)
  qed
  then show "eval_op env flags opcode vch pc s \<noteq> Inl (Raised Aborted)"
    unfolding e by (cases r) (auto simp: keeps_def)
  show "eval_op env flags opcode vch pc s = Inr s' \<Longrightarrow> limits s'"
    unfolding e using k by (cases r) (auto simp: keeps_def limits_def split: if_splits)
qed

lemma eval_loop_limits:
  assumes "limits s" and "hash_sizes env"
  shows "eval_loop env flags pc s \<noteq> Inl (Raised Aborted) \<and> (\<forall>s'. eval_loop env flags pc s = Inr s' \<longrightarrow> limits s')"
  using assms
proof (induction env flags pc s rule: eval_loop.induct)
  case (1 env flags pc s)
  show ?case
  proof (cases "pc = [] \<or> (\<exists>q. GetOp2 pc = Inl q)")
    case True
    then show ?thesis using 1(2) by (auto simp: eval_loop.simps)
  next
    case False
    then obtain opcode vch pc' where g: "GetOp2 pc = Inr (opcode, vch, pc')" "pc \<noteq> []"
      by (cases "GetOp2 pc") auto
    show ?thesis
    proof (cases "eval_op env flags opcode vch pc' s")
      case (Inl e)
      then show ?thesis using g eval_op_limits(1) [OF 1(2,3), of flags opcode vch pc'] by (auto simp: eval_loop.simps)
    next
      case (Inr s')
      have "limits s'" using eval_op_limits(2) [OF 1(2,3)] Inr by blast
      moreover have "eval_loop env flags pc s = eval_loop env flags pc' s'"
        using g Inr by (subst eval_loop.simps) simp
      ultimately show ?thesis using 1(1) [OF g(2,1) refl refl Inr] 1(3) by simp
    qed
  qed
qed

lemma EvalScript_safe:
  assumes "hash_sizes env" "sized st" "length st \<le> 1000"
  shows "EvalScript env flags script st \<noteq> Inl (Raised e)"
    and "EvalScript env flags script st = Inr st' \<Longrightarrow> sized st' \<and> length st' \<le> 1000"
proof -
  let ?s = "\<lparr>stack = st, altstack = [], vfExec = [], nOpCount = 0, pbegincodehash = script\<rparr>"
  have "limits ?s" using assms by (simp add: limits_def small_state_def)
  note l = eval_loop_limits [OF this assms(1), of flags script]
  show "EvalScript env flags script st \<noteq> Inl (Raised e)"
    using l by (cases e) (auto simp: EvalScript_def split: sum.splits script_fail.splits script_exn.splits)
  show "EvalScript env flags script st = Inr st' \<Longrightarrow> sized st' \<and> length st' \<le> 1000"
    using l by (auto simp: EvalScript_def limits_def small_state_def
        split: sum.splits script_fail.splits script_exn.splits if_splits)
qed

section \<open>Scripts that cannot be satisfied\<close>

text \<open>The first operation of a script whose first byte is not a push.\<close>

lemma GetOp2_plain: "78 < unat b \<Longrightarrow> GetOp2 (b # rest) = Inr (unat b, [], rest)"
  by (simp add: GetOp2_def)

lemma eval_loop_plain:
  "78 < unat b \<Longrightarrow> eval_loop env flags (b # rest) s =
     sbind (eval_op env flags (unat b) [] rest s) (\<lambda>s. eval_loop env flags rest s)"
  by (subst eval_loop.simps) (simp add: GetOp2_plain)

lemma EvalScript_return:
  assumes "length script > 0" "unat (hd script) = OP_RETURN"
  shows "\<exists>e. EvalScript env flags script st = Inl (Failed e)"
proof -
  obtain b rest where script: "script = b # rest" "unat b = 106" using assms by (cases script) auto
  have "eval_loop env flags script \<lparr>stack = st, altstack = [], vfExec = [], nOpCount = 0, pbegincodehash = script\<rparr> =
      Inl (Failed SCRIPT_ERR_OP_RETURN)"
    using script by (simp add: eval_loop_plain eval_op_def disabled_opcodes_def exec_op_def stack_ops_def)
  then show ?thesis by (auto simp: EvalScript_def)
qed

lemma EvalScript_p2sh_empty:
  assumes "IsPayToScriptHash script"
  shows "EvalScript env flags script [] = Inl (Failed SCRIPT_ERR_INVALID_STACK_OPERATION)"
proof -
  obtain b rest where script: "script = b # rest" "unat b = 169" "length rest = 22"
    using assms by (cases script) (auto simp: IsPayToScriptHash_def)
  have "eval_loop env flags script \<lparr>stack = [], altstack = [], vfExec = [], nOpCount = 0, pbegincodehash = script\<rparr> =
      Inl (Failed SCRIPT_ERR_INVALID_STACK_OPERATION)"
    using script by (simp add: eval_loop_plain eval_op_def disabled_opcodes_def exec_op_def stack_ops_def op_hash_def)
  then show ?thesis using script by (simp add: EvalScript_def)
qed

section \<open>The matching of signatures and keys\<close>

definition matching :: "script_env \<Rightarrow> bytes \<Rightarrow> bytes list \<Rightarrow> bytes list \<Rightarrow> bool" where
  "matching env code sigs keys \<longleftrightarrow> (\<exists>ks. subseq ks keys \<and> list_all2 (\<lambda>sig key. CheckSig env sig key code) sigs ks)"

lemma matching_Nil [simp]: "matching env code [] keys"
  by (auto simp: matching_def)

lemma matching_length: "matching env code sigs keys \<Longrightarrow> length sigs \<le> length keys"
  by (metis list_all2_lengthD list_emb_length matching_def)

lemma matching_Cons:
  "matching env code (sig # sigs) (key # keys) \<longleftrightarrow>
     (if CheckSig env sig key code then matching env code sigs keys else matching env code (sig # sigs) keys)"
proof (cases "CheckSig env sig key code")
  case True
  have "matching env code sigs keys" if "matching env code (sig # sigs) (key # keys)"
  proof -
    obtain k ks where "subseq (k # ks) (key # keys)" "list_all2 (\<lambda>sig key. CheckSig env sig key code) sigs ks"
      using \<open>matching env code (sig # sigs) (key # keys)\<close> by (auto simp: matching_def list_all2_Cons1)
    moreover from this(1) have "subseq ks keys" by (metis subseq_Cons' subseq_Cons2_iff)
    ultimately show ?thesis by (auto simp: matching_def)
  qed
  moreover have "matching env code (sig # sigs) (key # keys)" if "matching env code sigs keys"
    using that True unfolding matching_def by (metis list_all2_Cons subseq_Cons2)
  ultimately show ?thesis using True by auto
next
  case False
  then show ?thesis by (auto simp: matching_def list_all2_Cons1 split: if_splits)
qed

lemma multisig_loop_matching:
  assumes "\<forall>sig \<in> set sigs. CheckSignatureEncoding env flags sig = Inr ()"
    and "\<forall>key \<in> set keys. CheckPubKeyEncoding flags key = Inr ()" and "length sigs \<le> length keys"
  shows "multisig_loop env flags code sigs keys = Inr (matching env code sigs keys)"
  using assms
proof (induction env flags code sigs keys rule: multisig_loop.induct)
  case (2 env flags code sig sigs key keys)
  define sigs' where "sigs' = (if CheckSig env sig key code then sigs else sig # sigs)"
  have "multisig_loop env flags code (sig # sigs) (key # keys) =
      (if length sigs' > length keys then Inr False else multisig_loop env flags code sigs' keys)"
    using 2(2,3) by (simp add: sigs'_def Let_def)
  moreover have "matching env code (sig # sigs) (key # keys) = matching env code sigs' keys"
    by (simp add: matching_Cons sigs'_def)
  moreover have "multisig_loop env flags code sigs' keys = Inr (matching env code sigs' keys)" if "length sigs' \<le> length keys"
    using 2(1) [OF _ _ sigs'_def] 2(2,3) that by (auto simp: sigs'_def split: if_splits)
  ultimately show ?case using matching_length [of env code sigs' keys] by auto
qed auto

section \<open>Properties\<close>

definition example_env :: script_env where
  "example_env = \<lparr>CheckSig = (\<lambda>sig key code. hd sig = hd key), CheckLockTime = (\<lambda>_. True), CheckSequence = (\<lambda>_. True),
     CheckLowS = (\<lambda>_. True), RIPEMD160 = (\<lambda>x. replicate 20 0), SHA1 = (\<lambda>x. replicate 20 0),
     SHA256 = (\<lambda>x. replicate 32 0), Hash160 = (\<lambda>x. replicate 20 (of_nat (length x))), Hash256 = (\<lambda>x. replicate 32 0)\<rparr>"

lemma example_env_sizes: "hash_sizes example_env"
  by (simp add: hash_sizes_def example_env_def)

text \<open>
  C4. Whatever the script, the flags and the answers of the signature checker, evaluation terminates
  without a failed assertion and without an exception that leaves \<open>EvalScript\<close>; and starting from a
  stack of at most 1000 elements of at most 520 bytes, every stack it returns is again of that size. The hypothesis
  on the environment is that the hash functions return digests of their documented length.
\<close>

theorem EvalScript_limits:
  assumes "hash_sizes env" and "\<forall>x \<in> set st. length x \<le> 520" and "length st \<le> 1000"
  shows "(\<exists>err. EvalScript env flags script st = Inl (Failed err)) \<or>
    (\<exists>st'. EvalScript env flags script st = Inr st' \<and> (\<forall>x \<in> set st'. length x \<le> 520) \<and> length st' \<le> 1000)"
proof -
  have "sized st" using assms(2) by (simp add: sized_def)
  note safe = EvalScript_safe [OF assms(1) this assms(3), of flags script]
  show ?thesis
  proof (cases "EvalScript env flags script st")
    case (Inl e)
    then show ?thesis using safe(1) by (cases e) auto
  next
    case (Inr st')
    then show ?thesis using safe(2) [OF Inr] by (simp add: sized_def)
  qed
qed

theorem EvalScript_limits_witness:
  "(\<exists>err. EvalScript example_env 0 [0x51, 0x93] [] = Inl (Failed err)) \<or>
    (\<exists>st'. EvalScript example_env 0 [0x51, 0x93] [] = Inr st' \<and> (\<forall>x \<in> set st'. length x \<le> 520) \<and> length st' \<le> 1000)"
  using EvalScript_limits [of example_env "[]" 0 "[0x51, 0x93]"] example_env_sizes by simp

text \<open>
  The assertions of \<open>VerifyScript\<close> hold: when the clean-stack flag is only used
  together with P2SH, verification ends with success or a script error, never with an abort. In
  particular the stack that is restored for a P2SH script is not empty.
\<close>

theorem VerifyScript_assertions:
  assumes "hash_sizes env" and "has flags SCRIPT_VERIFY_CLEANSTACK \<longrightarrow> has flags SCRIPT_VERIFY_P2SH"
  shows "VerifyScript env flags scriptSig scriptPubKey \<noteq> Inl (Raised e)"
proof -
  have sz: "sized []" "length [] \<le> 1000" by simp_all
  note first = EvalScript_safe [OF assms(1) sz, of flags scriptSig]
  have snd: "EvalScript env flags sc st \<noteq> Inl (Raised e)" if "EvalScript env flags scriptSig [] = Inr st" for sc st
    using EvalScript_safe(1) [OF assms(1)] first(2) [OF that] by blast
  have third: "EvalScript env flags sc (tl st) \<noteq> Inl (Raised e)" if "EvalScript env flags scriptSig [] = Inr st" for sc st
  proof (rule EvalScript_safe(1) [OF assms(1)])
    show "sized (tl st)" "length (tl st) \<le> 1000" using first(2) [OF that] by (auto simp: sized_tl)
  qed
  show ?thesis
    using first(1) snd third assms(2) EvalScript_p2sh_empty [of scriptPubKey env flags]
    by (auto simp: VerifyScript_def sbind_Inl_iff split: if_splits)
qed

theorem VerifyScript_assertions_witness:
  "VerifyScript example_env (SCRIPT_VERIFY_CLEANSTACK OR SCRIPT_VERIFY_P2SH) [] ([0xa9, 0x14] @ replicate 20 0 @ [0x87]) \<noteq> Inl (Raised Aborted)"
  using VerifyScript_assertions [of example_env "SCRIPT_VERIFY_CLEANSTACK OR SCRIPT_VERIFY_P2SH" "[]" "[0xa9, 0x14] @ replicate 20 0 @ [0x87]" Aborted]
    example_env_sizes
  by (simp add: SCRIPT_VERIFY_CLEANSTACK_def SCRIPT_VERIFY_P2SH_def)

text \<open>
  An output that \<open>IsUnspendable\<close> reports is unspendable indeed: no input script,
  no flags and no signature checker make \<open>VerifyScript\<close> succeed, so dropping it from the set of coins loses nothing.
\<close>

theorem unspendable_never_verifies:
  assumes "IsUnspendable scriptPubKey"
  shows "VerifyScript env flags scriptSig scriptPubKey \<noteq> Inr ()"
proof -
  have "\<exists>e. EvalScript env flags scriptPubKey st = Inl e" for st
    using assms EvalScript_return [of scriptPubKey env flags st] by (auto simp: IsUnspendable_def EvalScript_def)
  then show ?thesis by (auto simp: VerifyScript_def sbind_Inr_iff split: if_splits) (metis Inl_Inr_False)+
qed

theorem unspendable_never_verifies_witness:
  "VerifyScript example_env SCRIPT_VERIFY_P2SH [0x51] [0x6a, 0x01, 0x00] \<noteq> Inr ()"
  using unspendable_never_verifies [of "[0x6a, 0x01, 0x00]" example_env SCRIPT_VERIFY_P2SH "[0x51]"]
  by (simp add: IsUnspendable_def)

text \<open>
  C5. The single pass of \<open>OP_CHECKMULTISIG\<close> over the keys loses nothing: with well-encoded
  signatures and keys it succeeds exactly when the signatures can be matched with distinct keys
  in the same order, each signature valid for its key.
\<close>

theorem multisig_loop_complete:
  assumes "\<forall>sig \<in> set sigs. CheckSignatureEncoding env flags sig = Inr ()"
    and "\<forall>key \<in> set keys. CheckPubKeyEncoding flags key = Inr ()" and "length sigs \<le> length keys"
  shows "multisig_loop env flags code sigs keys =
    Inr (\<exists>ks. subseq ks keys \<and> list_all2 (\<lambda>sig key. CheckSig env sig key code) sigs ks)"
  using multisig_loop_matching [OF assms] by (simp add: matching_def)

theorem multisig_loop_complete_witness:
  "multisig_loop example_env 0 [] [[2, 1]] [[1], [2], [3]] = Inr True \<and>
   (\<exists>ks. subseq ks [[1], [2], [3]] \<and> list_all2 (\<lambda>sig key. CheckSig example_env sig key []) [[2, 1]] ks)"
proof -
  have "multisig_loop example_env 0 [] [[2, 1]] [[1], [2], [3]] = Inr True"
    by (simp add: CheckSignatureEncoding_def CheckPubKeyEncoding_def example_env_def)
  then show ?thesis
    using multisig_loop_complete [of "[[2, 1]]" example_env 0 "[[1], [2], [3]]" "[]"]
    by (simp add: CheckSignatureEncoding_def CheckPubKeyEncoding_def)
qed

end
