(* ===== verification/Pay_To_Pubkey_Hash.thy ===== *)
theory Pay_To_Pubkey_Hash
  imports Script_Safety
begin

text \<open>
  The standard payment: what \<open>VerifyScript\<close> computes on a pay-to-pubkey-hash output and an input
  script that pushes a signature and a key.
\<close>

definition p2pkh_script :: "bytes \<Rightarrow> bytes" where
  "p2pkh_script h = [0x76, 0xa9, 0x14] @ h @ [0x88, 0xac]"

definition p2pkh_input :: "bytes \<Rightarrow> bytes \<Rightarrow> bytes" where
  "p2pkh_input sig key = push_data sig @ push_data key"

lemma p2pkh_script_shape: "length h = 20 \<Longrightarrow> IsPayToPublicKeyHash (p2pkh_script h)"
  by (simp add: IsPayToPublicKeyHash_def p2pkh_script_def nth_append)

text \<open>The opcode with which \<open>push_data\<close> pushes a vector that fits a stack element.\<close>

definition push_opcode :: "bytes \<Rightarrow> nat" where
  "push_opcode b = (if length b < 76 then length b else if length b \<le> 255 then OP_PUSHDATA1 else OP_PUSHDATA2)"

lemma GetOp2_push_small:
  assumes "length b \<le> 520"
  shows "GetOp2 (push_data b @ rest) = Inr (push_opcode b, b, rest)"
proof -
  obtain opcode where g: "GetOp2 (push_data b @ rest) = Inr (opcode, b, rest)"
    using GetOp2_push_data [of b rest] assms by auto
  have "opcode = unat (hd (push_data b))"
    using g by (cases "push_data b") (auto simp: push_data_def GetOp2_def Let_def split: if_splits sum.splits prod.splits)
  also have "\<dots> = push_opcode b" using assms by (simp add: push_data_def push_opcode_def unat_of_nat)
  finally show ?thesis using g by simp
qed

lemma push_opcode_minimal: "2 \<le> length b \<Longrightarrow> length b \<le> 520 \<Longrightarrow> CheckMinimalPush b (push_opcode b)"
  by (auto simp: CheckMinimalPush_def push_opcode_def)

lemma push_data_not_Nil: "push_data b \<noteq> []"
  by (simp add: push_data_def)

text \<open>Executing a push.\<close>

lemma eval_loop_push:
  assumes "2 \<le> length b" "length b \<le> 520" "list_all (\<lambda>b. b) (vfExec s)"
    and "length (stack s) + length (altstack s) < 1000"
  shows "eval_loop env flags (push_data b @ rest) s = eval_loop env flags rest (push b s)"
proof -
  have "push_opcode b \<le> 77" by (simp add: push_opcode_def)
  moreover have "push_opcode b \<notin> set disabled_opcodes" using calculation by (simp add: disabled_opcodes_def)
  ultimately have "eval_op env flags (push_opcode b) b rest s = Inr (push b s)"
    using assms push_opcode_minimal [OF assms(1,2)] by (simp add: eval_op_def push_def)
  then show ?thesis
    using GetOp2_push_small [OF assms(2), of rest] push_data_not_Nil [of b] by (subst eval_loop.simps) simp
qed

lemma eval_loop_Nil [simp]: "eval_loop env flags [] s = Inr s"
  by (simp add: eval_loop.simps)

text \<open>Evaluating the four operations and the push of the output script.\<close>

lemmas run_op = eval_op_def disabled_opcodes_def exec_op_def stack_ops_def

lemma eval_p2pkh:
  assumes "length h = 20"
  shows "EvalScript env flags (p2pkh_script h) [key, sig] =
    (if Hash160 env key \<noteq> h then Inl (Failed SCRIPT_ERR_EQUALVERIFY)
     else sbind (op_checksig env flags OP_CHECKSIG
       \<lparr>stack = [key, sig], altstack = [], vfExec = [], nOpCount = 4, pbegincodehash = p2pkh_script h\<rparr>)
       (\<lambda>s. Inr (stack s)))"
proof -
  let ?st = "\<lambda>l k. \<lparr>stack = l, altstack = [], vfExec = [], nOpCount = k, pbegincodehash = p2pkh_script h\<rparr>"
  have script: "p2pkh_script h = 0x76 # 0xa9 # push_data h @ [0x88, 0xac]"
    using assms by (simp add: p2pkh_script_def push_data_def)
  have u: "unat (0x76 :: u8) = 118" "unat (0xa9 :: u8) = 169" "unat (0x88 :: u8) = 136" "unat (0xac :: u8) = 172" by simp_all
  have "eval_loop env flags (0x76 # 0xa9 # push_data h @ [0x88, 0xac]) (?st [key, sig] 0) =
      eval_loop env flags (0xa9 # push_data h @ [0x88, 0xac]) (?st [key, key, sig] 1)"
    by (subst eval_loop_plain) (simp_all add: u run_op)
  also have "\<dots> = eval_loop env flags (push_data h @ [0x88, 0xac]) (?st [Hash160 env key, key, sig] 2)"
    by (subst eval_loop_plain) (simp_all add: u run_op op_hash_def hash_of_def)
  also have "\<dots> = eval_loop env flags [0x88, 0xac] (?st [h, Hash160 env key, key, sig] 2)"
    using assms by (subst eval_loop_push) (simp_all add: push_def)
  also have "\<dots> = (if Hash160 env key \<noteq> h then Inl (Failed SCRIPT_ERR_EQUALVERIFY)
      else eval_loop env flags [0xac] (?st [key, sig] 3))"
    by (subst eval_loop_plain) (simp_all add: u run_op op_equal_def)
  finally have e: "eval_loop env flags (p2pkh_script h) (?st [key, sig] 0) =
      (if Hash160 env key \<noteq> h then Inl (Failed SCRIPT_ERR_EQUALVERIFY)
       else eval_loop env flags [0xac] (?st [key, sig] 3))"
    using script by simp
  have r: "op_checksig env flags OP_CHECKSIG (?st [key, sig] 4) = Inl f \<Longrightarrow> \<exists>err. f = Failed err" for f
    using CheckSignatureEncoding_fails [of env flags sig] CheckPubKeyEncoding_fails [of flags key]
    by (cases f) (auto simp: op_checksig_def Let_def sbind_Inl_iff split: if_splits)
  have q: "op_checksig env flags OP_CHECKSIG (?st [key, sig] 4) = Inr s \<Longrightarrow> vfExec s = [] \<and> length (stack s) = 1 \<and> altstack s = []" for s
    by (auto simp: op_checksig_def Let_def sbind_Inr_iff split: if_splits)
  have "eval_loop env flags [0xac] (?st [key, sig] 3) = op_checksig env flags OP_CHECKSIG (?st [key, sig] 4)"
    using q by (subst eval_loop_plain)
      (simp_all add: u run_op, cases "op_checksig env flags 172 (?st [key, sig] 4)", simp_all)
  then show ?thesis
    using assms e r q
    by (cases "op_checksig env flags OP_CHECKSIG (?st [key, sig] 4)") (auto simp: EvalScript_def p2pkh_script_def)
qed

lemma length_push_data: "length b \<le> 520 \<Longrightarrow> length (push_data b) \<le> 523"
  by (simp add: push_data_def)

lemma eval_p2pkh_input:
  assumes "2 \<le> length sig" "length sig \<le> 520" "2 \<le> length key" "length key \<le> 520"
  shows "EvalScript env flags (p2pkh_input sig key) [] = Inr [key, sig]"
proof -
  have "eval_loop env flags (p2pkh_input sig key)
      \<lparr>stack = [], altstack = [], vfExec = [], nOpCount = 0, pbegincodehash = p2pkh_input sig key\<rparr> =
    Inr \<lparr>stack = [key, sig], altstack = [], vfExec = [], nOpCount = 0, pbegincodehash = p2pkh_input sig key\<rparr>"
    using assms eval_loop_push [of key _ env flags "[]"]
    by (simp add: p2pkh_input_def eval_loop_push push_def)
  moreover have "length (p2pkh_input sig key) \<le> 1046"
    using length_push_data [of sig] length_push_data [of key] assms by (simp add: p2pkh_input_def)
  ultimately show ?thesis by (simp add: EvalScript_def)
qed

lemma p2pkh_input_push_only:
  assumes "length sig \<le> 520" "length key \<le> 520"
  shows "IsPushOnly (p2pkh_input sig key)"
proof -
  have "IsPushOnly (push_data key)"
    using GetOp2_push_small [OF assms(2), of "[]"] by (subst IsPushOnly.simps) (simp add: push_opcode_def IsPushOnly.simps)
  then show ?thesis
    using GetOp2_push_small [OF assms(1), of "push_data key"] push_data_not_Nil [of sig] unfolding p2pkh_input_def
    by (subst IsPushOnly.simps) (simp add: push_opcode_def)
qed

text \<open>
  C13. A pay-to-pubkey-hash output is spent by a signature and a key exactly when the key
  hashes to the address, both pass the encoding rules of the flags, and the signature is valid for
  the key over the output script with the signature itself removed.
\<close>

theorem p2pkh_spent_by_signature:
  assumes "length h = 20" and "2 \<le> length sig" "length sig \<le> 520" and "2 \<le> length key" "length key \<le> 520"
    and "has flags SCRIPT_VERIFY_CLEANSTACK \<longrightarrow> has flags SCRIPT_VERIFY_P2SH"
  shows "VerifyScript env flags (p2pkh_input sig key) (p2pkh_script h) = Inr () \<longleftrightarrow>
    Hash160 env key = h \<and> CheckSignatureEncoding env flags sig = Inr () \<and> CheckPubKeyEncoding flags key = Inr () \<and>
    CheckSig env sig key (fst (FindAndDelete (p2pkh_script h) (push_data sig)))"
proof -
  have "\<not> IsPayToScriptHash (p2pkh_script h)" using assms(1) by (simp add: IsPayToScriptHash_def p2pkh_script_def)
  then have "VerifyScript env flags (p2pkh_input sig key) (p2pkh_script h) = Inr () \<longleftrightarrow>
      (\<exists>st. EvalScript env flags (p2pkh_script h) [key, sig] = Inr st \<and> top_true st \<and>
        (has flags SCRIPT_VERIFY_CLEANSTACK \<longrightarrow> length st = 1))"
    using assms(6) eval_p2pkh_input [OF assms(2-5)] p2pkh_input_push_only [OF assms(3,5)]
    by (auto simp: VerifyScript_def sbind_Inr_iff)
  also have "\<dots> \<longleftrightarrow> Hash160 env key = h \<and> CheckSignatureEncoding env flags sig = Inr () \<and>
      CheckPubKeyEncoding flags key = Inr () \<and> CheckSig env sig key (drop_signature sig (p2pkh_script h))"
    unfolding eval_p2pkh [OF assms(1)]
    by (auto simp: op_checksig_def Let_def sbind_Inr_iff top_true_def vchTrue_def vchFalse_def split: if_splits)
  finally show ?thesis by (simp add: drop_signature_def)
qed

theorem p2pkh_spent_by_signature_witness:
  "VerifyScript example_env SCRIPT_VERIFY_P2SH (p2pkh_input [7, 1] (7 # replicate 32 0)) (p2pkh_script (replicate 20 33)) = Inr ()"
  using p2pkh_spent_by_signature [of "replicate 20 33" "[7, 1]" "7 # replicate 32 0" SCRIPT_VERIFY_P2SH example_env]
  by (simp add: example_env_def CheckSignatureEncoding_def CheckPubKeyEncoding_def SCRIPT_VERIFY_P2SH_def
      SCRIPT_VERIFY_CLEANSTACK_def SCRIPT_VERIFY_DERSIG_def SCRIPT_VERIFY_LOW_S_def SCRIPT_VERIFY_STRICTENC_def)

end
