(* ===== verification/Serialization.thy ===== *)
theory Serialization
  imports Uint256_Compact
begin

text \<open>
  The wire format of \<open>src/src/serialize.h\<close>.

  Writing to a stream is the list of bytes written. Reading takes the unread bytes and returns
  the value with the bytes left, or the exception that the code throws. Sizes are natural
  numbers below \<open>2 ^ 64\<close>. \<open>ReadVarInt\<close> is generic in the unsigned type it fills, as in the
  source, and wraps around in it.

  The locale \<open>codec\<close> states that reading inverts writing and leaves the rest of the stream
  alone; \<open>canonical_codec\<close> adds that only the written form is read. Vectors of elements
  inherit both, whatever the elements are.
\<close>

section \<open>Streams and fixed-width integers\<close>

datatype ser_error = EndOfData | NonCanonical | TooLarge | LimitExceeded | BadBits | OutOfBounds | BadFlag
  | NegativeSize | AssertionFailed | TooManyUndoRecords | MalleableBLS

type_synonym 'a reader = "bytes \<Rightarrow> ser_error + 'a \<times> bytes"

definition MAX_SIZE :: nat where
  "MAX_SIZE = 0x02000000"

definition read_bytes :: "nat \<Rightarrow> bytes reader" where
  "read_bytes n s = (if length s < n then Inl EndOfData else Inr (take n s, drop n s))"

definition ser_writedata8 :: "u8 \<Rightarrow> bytes" where "ser_writedata8 obj = [obj]"
definition ser_writedata16 :: "u16 \<Rightarrow> bytes" where "ser_writedata16 obj = le_encode 2 obj"
definition ser_writedata32 :: "u32 \<Rightarrow> bytes" where "ser_writedata32 obj = le_encode 4 obj"
definition ser_writedata64 :: "u64 \<Rightarrow> bytes" where "ser_writedata64 obj = le_encode 8 obj"

definition ser_readdata8 :: "u8 reader" where
  "ser_readdata8 s = sbind (read_bytes 1 s) (\<lambda>(b, s). Inr (hd b, s))"
definition ser_readdata16 :: "u16 reader" where
  "ser_readdata16 s = sbind (read_bytes 2 s) (\<lambda>(b, s). Inr (le_decode b, s))"
definition ser_readdata32 :: "u32 reader" where
  "ser_readdata32 s = sbind (read_bytes 4 s) (\<lambda>(b, s). Inr (le_decode b, s))"
definition ser_readdata64 :: "u64 reader" where
  "ser_readdata64 s = sbind (read_bytes 8 s) (\<lambda>(b, s). Inr (le_decode b, s))"

section \<open>Compact sizes\<close>

definition GetSizeOfCompactSize :: "nat \<Rightarrow> nat" where
  "GetSizeOfCompactSize nSize =
     (if nSize < 253 then 1 else if nSize \<le> 0xffff then 3 else if nSize \<le> 0xffffffff then 5 else 9)"

definition WriteCompactSize :: "nat \<Rightarrow> bytes" where
  "WriteCompactSize nSize =
     (if nSize < 253 then ser_writedata8 (of_nat nSize)
      else if nSize \<le> 0xffff then ser_writedata8 253 @ ser_writedata16 (of_nat nSize)
      else if nSize \<le> 0xffffffff then ser_writedata8 254 @ ser_writedata32 (of_nat nSize)
      else ser_writedata8 255 @ ser_writedata64 (of_nat nSize))"

definition ReadCompactSize :: "nat reader" where
  "ReadCompactSize s =
     sbind (ser_readdata8 s) (\<lambda>(chSize, s).
     sbind (if chSize < 253 then Inr (unat chSize, s)
            else if chSize = 253 then
              sbind (ser_readdata16 s) (\<lambda>(n, s). if unat n < 253 then Inl NonCanonical else Inr (unat n, s))
            else if chSize = 254 then
              sbind (ser_readdata32 s) (\<lambda>(n, s). if unat n < 0x10000 then Inl NonCanonical else Inr (unat n, s))
            else
              sbind (ser_readdata64 s) (\<lambda>(n, s). if unat n < 0x100000000 then Inl NonCanonical else Inr (unat n, s)))
       (\<lambda>(nSizeRet, s). if nSizeRet > MAX_SIZE then Inl TooLarge else Inr (nSizeRet, s)))"

section \<open>Variable-length integers\<close>

function var_digits :: "nat \<Rightarrow> bool \<Rightarrow> bytes" where
  "var_digits n more =
     (if n \<le> 0x7f then [] else var_digits (n div 128 - 1) True) @
     [of_nat (n mod 128) OR (if more then 0x80 else 0x00)]"
  by pat_completeness auto
termination
  by (relation "measure fst") auto

declare var_digits.simps [simp del]

definition WriteVarInt :: "nat \<Rightarrow> bytes" where
  "WriteVarInt n = var_digits n False"

function GetSizeOfVarInt :: "nat \<Rightarrow> nat" where
  "GetSizeOfVarInt n = (if n \<le> 0x7f then 1 else 1 + GetSizeOfVarInt (n div 128 - 1))"
  by pat_completeness auto
termination
  by (relation "measure id") auto

declare GetSizeOfVarInt.simps [simp del]

fun read_var :: "'a::len word \<Rightarrow> 'a word reader" where
  "read_var n [] = Inl EndOfData"
| "read_var n (chData # s) =
     (let n = push_bit 7 n OR ucast (chData AND 0x7f)
      in if chData AND 0x80 \<noteq> 0 then read_var (n + 1) s else Inr (n, s))"

definition ReadVarInt :: "'a::len word reader" where
  "ReadVarInt s = read_var 0 s"

section \<open>Strings and vectors\<close>

definition write_blob :: "bytes \<Rightarrow> bytes" where
  "write_blob v = WriteCompactSize (length v) @ v"

text \<open>
  \<open>Unserialize_impl\<close> for bytes reads blocks of at most five million bytes until \<open>nSize\<close> bytes
  have been read.
\<close>

definition READ_BLOCK :: nat where
  "READ_BLOCK = 1 + 4999999"

lemma read_block_size_pos: "0 < READ_BLOCK"
  by (simp add: READ_BLOCK_def)

function read_blocks :: "nat \<Rightarrow> bytes \<Rightarrow> bytes reader" where
  "read_blocks todo v s =
     (if todo = 0 then Inr (v, s)
      else let blk = min todo READ_BLOCK in
        sbind (read_bytes blk s) (\<lambda>(b, s). read_blocks (todo - blk) (v @ b) s))"
  by pat_completeness auto
termination
  by (relation "measure fst") (auto simp: read_block_size_pos)

declare read_blocks.simps [simp del]

definition read_blob :: "bytes reader" where
  "read_blob s = sbind (ReadCompactSize s) (\<lambda>(nSize, s). read_blocks nSize [] s)"

definition read_limited :: "nat \<Rightarrow> bytes reader" where
  "read_limited Limit s =
     sbind (ReadCompactSize s) (\<lambda>(size, s). if size > Limit then Inl LimitExceeded else read_bytes size s)"

definition write_vector :: "('a \<Rightarrow> bytes) \<Rightarrow> 'a list \<Rightarrow> bytes" where
  "write_vector enc v = WriteCompactSize (length v) @ concat (map enc v)"

fun read_items :: "'a reader \<Rightarrow> nat \<Rightarrow> 'a list reader" where
  "read_items dec 0 s = Inr ([], s)"
| "read_items dec (Suc n) s =
     sbind (dec s) (\<lambda>(x, s). sbind (read_items dec n s) (\<lambda>(xs, s). Inr (x # xs, s)))"

definition read_vector :: "'a reader \<Rightarrow> 'a list reader" where
  "read_vector dec s = sbind (ReadCompactSize s) (\<lambda>(nSize, s). read_items dec nSize s)"

section \<open>Codecs\<close>

locale codec =
  fixes ok :: "'a \<Rightarrow> bool"
    and enc :: "'a \<Rightarrow> bytes"
    and dec :: "bytes \<Rightarrow> ser_error + 'a \<times> bytes"
  assumes dec_enc: "ok x \<Longrightarrow> dec (enc x @ s) = Inr (x, s)"
begin

lemma enc_prefix_free:
  "ok x \<Longrightarrow> ok y \<Longrightarrow> enc x @ s = enc y @ t \<Longrightarrow> x = y \<and> s = t"
  by (metis dec_enc prod.inject sum.inject(2))

lemma read_items_enc:
  "(\<And>x. x \<in> set xs \<Longrightarrow> ok x) \<Longrightarrow> read_items dec (length xs) (concat (map enc xs) @ s) = Inr (xs, s)"
proof (induction xs)
  case (Cons x xs)
  then show ?case using dec_enc [of x "concat (map enc xs) @ s"] by simp
qed simp

end

locale canonical_codec = codec +
  assumes dec_only: "dec s = Inr (x, t) \<Longrightarrow> ok x \<and> s = enc x @ t"
begin

lemma read_items_only:
  "read_items dec n s = Inr (xs, t) \<Longrightarrow> length xs = n \<and> (\<forall>x \<in> set xs. ok x) \<and> s = concat (map enc xs) @ t"
proof (induction n arbitrary: s xs)
  case (Suc n)
  then obtain y u ys where 1: "dec s = Inr (y, u)" "read_items dec n u = Inr (ys, t)" "xs = y # ys"
    by (auto simp: sbind_Inr_iff)
  then show ?case using dec_only [OF 1(1)] Suc.IH [OF 1(2)] by simp
qed simp

end

lemma read_bytes_append: "n = length b \<Longrightarrow> read_bytes n (b @ s) = Inr (b, s)"
  by (simp add: read_bytes_def)

lemma read_bytes_only: "read_bytes n s = Inr (b, t) \<Longrightarrow> length b = n \<and> s = b @ t"
  by (auto simp: read_bytes_def split: if_splits)

lemmas int_codec_defs = ser_readdata8_def ser_readdata16_def ser_readdata32_def ser_readdata64_def
  ser_writedata8_def ser_writedata16_def ser_writedata32_def ser_writedata64_def

lemma le_only:
  "length b = k \<Longrightarrow> LENGTH('a) = 8 * k \<Longrightarrow> le_encode k (le_decode b :: 'a::len word) = b"
  using le_encode_decode [of b, where 'a = 'a] by simp

interpretation u8: canonical_codec "\<lambda>_. True" ser_writedata8 ser_readdata8
  by unfold_locales
    (auto simp: int_codec_defs read_bytes_def length_Suc_conv neq_Nil_conv split: if_splits)

interpretation u16: canonical_codec "\<lambda>_. True" ser_writedata16 ser_readdata16
  by unfold_locales
    (auto simp: int_codec_defs read_bytes_append le_decode_encode sbind_Inr_iff le_only dest!: read_bytes_only)

interpretation u32: canonical_codec "\<lambda>_. True" ser_writedata32 ser_readdata32
  by unfold_locales
    (auto simp: int_codec_defs read_bytes_append le_decode_encode sbind_Inr_iff le_only dest!: read_bytes_only)

interpretation u64: canonical_codec "\<lambda>_. True" ser_writedata64 ser_readdata64
  by unfold_locales
    (auto simp: int_codec_defs read_bytes_append le_decode_encode sbind_Inr_iff le_only dest!: read_bytes_only)

section \<open>Compact sizes are canonical\<close>

lemma ReadCompactSize_Write:
  assumes "n \<le> MAX_SIZE"
  shows "ReadCompactSize (WriteCompactSize n @ s) = Inr (n, s)"
proof -
  consider "n < 253" | "253 \<le> n" "n \<le> 0xffff" | "0xffff < n" by linarith
  then show ?thesis
  proof cases
    case 1
    then have "(of_nat n :: u8) < 253" by (simp add: word_less_nat_alt unat_of_nat)
    then show ?thesis using 1 assms
      by (simp add: WriteCompactSize_def ReadCompactSize_def u8.dec_enc unat_of_nat)
  next
    case 2
    then show ?thesis using assms
      by (simp add: WriteCompactSize_def ReadCompactSize_def u8.dec_enc u16.dec_enc unat_of_nat)
  next
    case 3
    then show ?thesis using assms
      by (simp add: WriteCompactSize_def ReadCompactSize_def u8.dec_enc u32.dec_enc unat_of_nat MAX_SIZE_def)
  qed
qed

lemma ReadCompactSize_only:
  assumes "ReadCompactSize s = Inr (n, t)"
  shows "n \<le> MAX_SIZE" and "s = WriteCompactSize n @ t"
proof -
  from assms obtain c u where c: "ser_readdata8 s = Inr (c, u)" by (auto simp: ReadCompactSize_def sbind_Inr_iff)
  have s: "s = ser_writedata8 c @ u" using u8.dec_only [OF c] by simp
  from assms c show n: "n \<le> MAX_SIZE" by (auto simp: ReadCompactSize_def sbind_Inr_iff split: if_splits)
  consider "c < 253" | "c = 253" | "c = 254" | "253 < c" "c \<noteq> 254" by (meson linorder_cases)
  then show "s = WriteCompactSize n @ t"
  proof cases
    case 1
    then show ?thesis using assms c s by (auto simp: ReadCompactSize_def WriteCompactSize_def word_less_nat_alt split: if_splits)
  next
    case 2
    with assms c obtain w where w: "ser_readdata16 u = Inr (w, t)" "n = unat w" "\<not> unat w < 253"
      by (auto simp: ReadCompactSize_def sbind_Inr_iff split: if_splits)
    then show ?thesis using s 2 u16.dec_only [OF w(1)] unat_u16_lt [of w] by (auto simp: WriteCompactSize_def)
  next
    case 3
    with assms c obtain w where w: "ser_readdata32 u = Inr (w, t)" "n = unat w" "\<not> unat w < 0x10000"
      by (auto simp: ReadCompactSize_def sbind_Inr_iff split: if_splits)
    then show ?thesis using s 3 u32.dec_only [OF w(1)] unat_u32_lt [of w] by (auto simp: WriteCompactSize_def)
  next
    case 4
    then have "\<not> c < 253" "c \<noteq> 253" by auto
    with assms c 4 obtain w where w: "ser_readdata64 u = Inr (w, t)" "n = unat w" "\<not> unat w < 0x100000000"
      by (auto simp: ReadCompactSize_def sbind_Inr_iff split: if_splits)
    then show ?thesis using n by (simp add: MAX_SIZE_def)
  qed
qed

interpretation cs: canonical_codec "\<lambda>n. n \<le> MAX_SIZE" WriteCompactSize ReadCompactSize
  by unfold_locales (use ReadCompactSize_Write ReadCompactSize_only in auto)

lemma read_blocks_eq:
  "read_blocks n v s = (if length s < n then Inl EndOfData else Inr (v @ take n s, drop n s))"
proof (induction n v s rule: read_blocks.induct)
  case (1 n v s)
  define blk where "blk = min n READ_BLOCK"
  show ?case
  proof (cases "n = 0 \<or> length s < blk")
    case True
    then show ?thesis by (auto simp: read_blocks.simps [of n] Let_def blk_def read_bytes_def)
  next
    case False
    have e: "read_blocks n v s = read_blocks (n - blk) (v @ take blk s) (drop blk s)"
      using False by (simp add: read_blocks.simps [of n] Let_def blk_def [symmetric] read_bytes_def)
    have b: "blk \<le> n" by (simp add: blk_def)
    have "read_bytes blk s = Inr (take blk s, drop blk s)" using False by (simp add: read_bytes_def)
    from "1.IH" [OF _ blk_def this refl] False
    have ih: "read_blocks (n - blk) (v @ take blk s) (drop blk s) =
        (if length (drop blk s) < n - blk then Inl EndOfData
         else Inr ((v @ take blk s) @ take (n - blk) (drop blk s), drop (n - blk) (drop blk s)))" by simp
    have "take blk s @ take (n - blk) (drop blk s) = take n s" using b by (metis le_add_diff_inverse take_add)
    moreover have "length (drop blk s) < n - blk \<longleftrightarrow> length s < n" using False b by auto
    ultimately show ?thesis unfolding e ih using b by simp
  qed
qed

lemma read_blocks_bytes: "read_blocks n [] s = read_bytes n s"
  by (simp add: read_blocks_eq read_bytes_def)

interpretation blob: canonical_codec "\<lambda>v. length v \<le> MAX_SIZE" write_blob read_blob
proof unfold_locales
  fix v s t :: bytes
  show "length v \<le> MAX_SIZE \<Longrightarrow> read_blob (write_blob v @ s) = Inr (v, s)"
    by (simp add: read_blob_def write_blob_def cs.dec_enc read_blocks_bytes read_bytes_append)
  show "read_blob s = Inr (v, t) \<Longrightarrow> length v \<le> MAX_SIZE \<and> s = write_blob v @ t"
    by (auto simp: read_blob_def write_blob_def sbind_Inr_iff read_blocks_bytes dest!: cs.dec_only read_bytes_only)
qed

interpretation limited: canonical_codec "\<lambda>v. length v \<le> MAX_SIZE \<and> length v \<le> Limit" write_blob "read_limited Limit"
  for Limit
proof unfold_locales
  fix v s t :: bytes
  show "length v \<le> MAX_SIZE \<and> length v \<le> Limit \<Longrightarrow> read_limited Limit (write_blob v @ s) = Inr (v, s)"
    by (simp add: read_limited_def write_blob_def cs.dec_enc read_bytes_append)
  show "read_limited Limit s = Inr (v, t) \<Longrightarrow> (length v \<le> MAX_SIZE \<and> length v \<le> Limit) \<and> s = write_blob v @ t"
    by (auto simp: read_limited_def write_blob_def sbind_Inr_iff split: if_splits dest!: cs.dec_only read_bytes_only)
qed

text \<open>Vectors of elements.\<close>

definition vector_ok :: "('a \<Rightarrow> bool) \<Rightarrow> 'a list \<Rightarrow> bool" where
  "vector_ok ok v \<longleftrightarrow> length v \<le> MAX_SIZE \<and> (\<forall>x \<in> set v. ok x)"

context codec
begin

lemma vector_codec: "codec (vector_ok ok) (write_vector enc) (read_vector dec)"
  by unfold_locales
    (simp add: vector_ok_def read_vector_def write_vector_def cs.dec_enc read_items_enc)

end

context canonical_codec
begin

lemma vector_canonical: "canonical_codec (vector_ok ok) (write_vector enc) (read_vector dec)"
proof (intro canonical_codec.intro vector_codec canonical_codec_axioms.intro)
  fix s x t
  assume "read_vector dec s = Inr (x, t)"
  then obtain n u where "ReadCompactSize s = Inr (n, u)" "read_items dec n u = Inr (x, t)"
    by (auto simp: read_vector_def sbind_Inr_iff)
  then show "vector_ok ok x \<and> s = write_vector enc x @ t"
    using cs.dec_only [of s n u] read_items_only [of n u x t] by (simp add: vector_ok_def write_vector_def)
qed

end

section \<open>Variable-length integers round-trip\<close>

lemma var_byte:
  fixes n :: nat and more :: bool
  defines "c \<equiv> of_nat (n mod 128) OR (if more then 0x80 else 0x00) :: u8"
  shows "c AND 0x80 \<noteq> 0 \<longleftrightarrow> more" and "unat (c AND 0x7f) = n mod 128"
proof -
  have low: "bit (of_nat (n mod 128) :: u8) k \<longleftrightarrow> k < 7 \<and> bit n k" for k
  proof -
    have "bit (n mod 128) k \<longleftrightarrow> k < 7 \<and> bit n k" using bit_take_bit_iff [of 7 n k] by (simp add: take_bit_eq_mod)
    then show ?thesis by (auto simp: bit_of_nat_iff)
  qed
  have top: "bit (0x80 :: u8) k \<longleftrightarrow> k = 7" for k
  proof -
    have "(0x80 :: u8) = push_bit 7 1" by simp
    then show ?thesis by (simp only: bit_push_bit_iff bit_1_iff) auto
  qed
  have "c AND 0x80 \<noteq> 0 \<longleftrightarrow> bit c 7" using test_bit_mask [of c 7] by simp
  then show "c AND 0x80 \<noteq> 0 \<longleftrightarrow> more" by (simp add: c_def bit_or_iff low top)
  have "c AND 0x7f = of_nat (n mod 128)"
  proof (rule bit_eqI)
    fix k
    have "bit (0x7f :: u8) k \<longleftrightarrow> k < 7"
    proof -
      have "(0x7f :: u8) = mask 7" by (simp add: mask_eq_exp_minus_1)
      then show ?thesis by (simp only: bit_mask_iff) auto
    qed
    then show "bit (c AND 0x7f) k \<longleftrightarrow> bit (of_nat (n mod 128) :: u8) k"
      using top [of k] low [of k] unfolding c_def bit_and_iff bit_or_iff by (cases more) (simp_all only: if_True if_False bit_0_eq, auto)
  qed
  then show "unat (c AND 0x7f) = n mod 128" by (simp add: unat_of_nat)
qed

lemma read_var_step:
  assumes "8 \<le> LENGTH('a)"
  shows "read_var (of_nat (n div 128) :: 'a::len word) ((of_nat (n mod 128) OR (if more then 0x80 else 0x00)) # s) =
    (if more then read_var (of_nat n + 1) s else Inr (of_nat n, s))"
proof -
  let ?c = "of_nat (n mod 128) OR (if more then 0x80 else 0x00) :: u8"
  have c: "(ucast (?c AND 0x7f) :: 'a word) = of_nat (n mod 128)"
    using var_byte(2) [of n more] by (metis of_nat_unat)
  have "push_bit 7 (of_nat (n div 128) :: 'a word) OR of_nat (n mod 128) = of_nat n"
  proof -
    have "of_nat (n mod 128) = (take_bit 7 (of_nat n) :: 'a word)"
      using assms by (simp add: take_bit_of_nat take_bit_eq_mod [of 7 n] )
    moreover have "push_bit 7 (of_nat (n div 128) :: 'a word) = of_nat (n div 128 * 128)"
      by (simp add: push_bit_eq_mult)
    moreover have "(of_nat (n div 128 * 128) :: 'a word) AND take_bit 7 (of_nat n) = 0"
      unfolding calculation(2) [symmetric] by (rule bit_eqI) (auto simp: bit_and_iff bit_push_bit_iff bit_take_bit_iff)
    ultimately show ?thesis
      by (simp only: disjunctive_add_eq_or [symmetric])
        (metis (no_types, lifting) div_mult_mod_eq of_nat_add)
  qed
  then show ?thesis using var_byte(1) [of n more] c by (simp add: Let_def)
qed

lemma read_var_digits:
  assumes "8 \<le> LENGTH('a)"
  shows "read_var (0 :: 'a::len word) (var_digits n True @ s) = read_var (of_nat n + 1) s"
proof (induction n arbitrary: s rule: less_induct)
  case (less n)
  let ?c = "of_nat (n mod 128) OR 0x80 :: u8"
  show ?case
  proof (cases "n \<le> 0x7f")
    case True
    then have "n div 128 = 0" by simp
    then show ?thesis using True read_var_step [OF assms, of n True s] by (simp add: var_digits.simps [of n])
  next
    case False
    then have m: "n div 128 - 1 < n" "0 < n div 128" by auto
    have "(of_nat (n div 128 - 1) + 1 :: 'a word) = of_nat (n div 128)" using m(2) by simp
    then show ?thesis
      using False less.IH [OF m(1), of "?c # s"] read_var_step [OF assms, of n True s]
      by (simp add: var_digits.simps [of n])
  qed
qed

lemma ReadVarInt_Write:
  assumes "8 \<le> LENGTH('a)"
  shows "ReadVarInt (WriteVarInt n @ s) = Inr (of_nat n :: 'a::len word, s)"
proof (cases "n \<le> 0x7f")
  case True
  then have "n div 128 = 0" by simp
  then show ?thesis using True read_var_step [OF assms, of n False s]
    by (simp add: ReadVarInt_def WriteVarInt_def var_digits.simps [of n])
next
  case False
  then have "(of_nat (n div 128 - 1) + 1 :: 'a word) = of_nat (n div 128)" by simp
  then show ?thesis
    using False read_var_digits [OF assms, of "n div 128 - 1" "of_nat (n mod 128) # s"] read_var_step [OF assms, of n False s]
    by (simp add: ReadVarInt_def WriteVarInt_def var_digits.simps [of n])
qed

lemma length_var_digits: "length (var_digits n more) = GetSizeOfVarInt n"
  by (induction n arbitrary: more rule: less_induct)
    (simp add: var_digits.simps GetSizeOfVarInt.simps)

lemma read_var_shorter: "read_var n s = Inr (x, t) \<Longrightarrow> length t < length s"
  by (induction n s rule: read_var.induct) (auto simp: Let_def split: if_splits)

lemma ReadVarInt_shorter: "ReadVarInt s = Inr (x, t) \<Longrightarrow> length t < length s"
  by (auto simp: ReadVarInt_def intro: read_var_shorter)

section \<open>Bit sets\<close>

definition fixed_step :: "bool list \<Rightarrow> nat \<Rightarrow> bytes \<Rightarrow> bytes" where
  "fixed_step vec p vBytes =
     vBytes[p div 8 := vBytes ! (p div 8) OR push_bit (p mod 8) (if vec ! p then 1 else 0)]"

definition write_fixed_bits :: "nat \<Rightarrow> bool list \<Rightarrow> bytes" where
  "write_fixed_bits nBits vec =
     fold (fixed_step vec) [0..<min nBits (length vec)] (replicate ((nBits + 7) div 8) 0)"

definition read_fixed_bits :: "nat \<Rightarrow> bool list reader" where
  "read_fixed_bits nBits s =
     sbind (read_bytes ((nBits + 7) div 8) s) (\<lambda>(vBytes, s).
       if length vBytes * 8 \<noteq> nBits \<and>
          last vBytes AND NOT (drop_bit (length vBytes * 8 - nBits) 0xff) \<noteq> 0 then Inl BadBits
       else Inr (map (\<lambda>p. vBytes ! (p div 8) AND push_bit (p mod 8) 1 \<noteq> 0) [0..<nBits], s))"

definition write_dynamic_bits :: "bool list \<Rightarrow> bytes" where
  "write_dynamic_bits vec = WriteCompactSize (length vec) @ write_fixed_bits (length vec) vec"

definition read_dynamic_bits :: "bool list reader" where
  "read_dynamic_bits s = sbind (ReadCompactSize s) (\<lambda>(n, s). read_fixed_bits n s)"

text \<open>
  The loop of \<open>CFixedVarIntsBitSet::Serialize\<close> at index \<open>i\<close>: \<open>last\<close> is the index of the last set bit.
\<close>

fun write_offsets :: "int \<Rightarrow> int \<Rightarrow> bool list \<Rightarrow> bytes" where
  "write_offsets i last_i [] = WriteVarInt 0"
| "write_offsets i last_i (b # bs) =
     (if b then WriteVarInt (nat (i - last_i)) @ write_offsets (i + 1) i bs
      else write_offsets (i + 1) last_i bs)"

definition write_varint_bits :: "bool list \<Rightarrow> bytes" where
  "write_varint_bits vec = write_offsets 0 (-1) vec"

function read_offsets :: "nat \<Rightarrow> bool list \<Rightarrow> int \<Rightarrow> bool list reader" where
  "read_offsets nBits vec last_i s =
     (case (ReadVarInt s :: ser_error + u32 \<times> bytes) of
        Inl e \<Rightarrow> Inl e
      | Inr (offset, s') \<Rightarrow>
          (if offset = 0 then Inr (vec, s')
           else let idx = sint (word_of_int last_i + offset) in
             if idx < 0 \<or> int nBits \<le> idx then Inl OutOfBounds
             else if last_i \<noteq> -1 \<and> idx \<le> last_i then Inl OutOfBounds
             else read_offsets nBits (vec[nat idx := True]) idx s'))"
  by pat_completeness auto
termination
  by (relation "measure (\<lambda>(nBits, vec, l, s). length s)") (auto dest: ReadVarInt_shorter)

declare read_offsets.simps [simp del]

definition read_varint_bits :: "nat \<Rightarrow> bool list reader" where
  "read_varint_bits nBits s = read_offsets nBits (replicate nBits False) (-1) s"

text \<open>The assertion \<open>vec.size() == size\<close> of \<open>CAutoBitSet::Serialize\<close> is the \<open>None\<close> case.\<close>

definition write_auto_bits :: "nat \<Rightarrow> bool list \<Rightarrow> bytes option" where
  "write_auto_bits nBits vec =
     (if length vec \<noteq> nBits then None
      else if length (write_fixed_bits nBits vec) < length (write_varint_bits vec)
      then Some (ser_writedata8 0 @ write_fixed_bits (length vec) vec)
      else Some (ser_writedata8 1 @ write_varint_bits vec))"

definition read_auto_bits :: "nat \<Rightarrow> bool list reader" where
  "read_auto_bits nBits s =
     sbind (ser_readdata8 s) (\<lambda>(isVarInts, s).
       if isVarInts \<noteq> 0 \<and> isVarInts \<noteq> 1 then Inl BadFlag
       else if isVarInts = 0 then read_fixed_bits nBits s
       else read_varint_bits nBits s)"

lemma bit_set_one: "bit (push_bit k (if b then 1 else 0) :: u8) i \<longleftrightarrow> b \<and> k = i \<and> i < 8"
  by (auto simp: bit_push_bit_iff bit_1_iff)

lemma fixed_loop:
  assumes "m \<le> length vec" and "m \<le> 8 * length v" and "\<forall>x \<in> set v. x = 0"
  shows "length (fold (fixed_step vec) [0..<m] v) = length v \<and>
    (\<forall>j < length v. \<forall>i < 8. bit (fold (fixed_step vec) [0..<m] v ! j) i \<longleftrightarrow> 8 * j + i < m \<and> vec ! (8 * j + i))"
  using assms
proof (induction m)
  case 0
  have "v ! j = 0" if "j < length v" for j using 0(3) nth_mem [OF that] by blast
  then show ?case by simp
next
  case (Suc m)
  define w where "w = fold (fixed_step vec) [0..<m] v"
  have w: "length w = length v"
    "\<And>j i. j < length v \<Longrightarrow> i < 8 \<Longrightarrow> bit (w ! j) i \<longleftrightarrow> 8 * j + i < m \<and> vec ! (8 * j + i)"
    using Suc unfolding w_def by auto
  have e: "fold (fixed_step vec) [0..<Suc m] v = fixed_step vec m w" by (simp add: w_def)
  have m: "m div 8 < length v" using Suc.prems by linarith
  have pos: "8 * j + i = m \<longleftrightarrow> j = m div 8 \<and> i = m mod 8" if "i < 8" for j i
    using that by auto
  have "bit (fixed_step vec m w ! j) i \<longleftrightarrow> 8 * j + i < Suc m \<and> vec ! (8 * j + i)" if "j < length v" "i < 8" for j i
  proof (cases "j = m div 8")
    case True
    have "bit (fixed_step vec m w ! j) i \<longleftrightarrow> bit (w ! j) i \<or> (vec ! m \<and> m mod 8 = i \<and> i < 8)"
      using True m w(1) by (simp add: fixed_step_def bit_or_iff bit_set_one)
    also have "\<dots> \<longleftrightarrow> (8 * j + i < m \<and> vec ! (8 * j + i)) \<or> (vec ! m \<and> 8 * j + i = m)"
      using w(2) [OF that] pos [OF that(2), of j] True that(2) by auto
    finally show ?thesis by (auto simp: less_Suc_eq)
  next
    case False
    then have "8 * j + i \<noteq> m" using pos [OF that(2), of j] by simp
    then show ?thesis using False w(2) [OF that] by (auto simp: fixed_step_def less_Suc_eq)
  qed
  then show ?case unfolding e using w(1) by (simp add: fixed_step_def)
qed

lemma write_fixed_bits_bit:
  assumes "length vec = nBits"
  shows "length (write_fixed_bits nBits vec) = (nBits + 7) div 8"
    and "j < (nBits + 7) div 8 \<Longrightarrow> i < 8 \<Longrightarrow>
      bit (write_fixed_bits nBits vec ! j) i \<longleftrightarrow> 8 * j + i < nBits \<and> vec ! (8 * j + i)"
proof -
  have "nBits \<le> 8 * ((nBits + 7) div 8)" by linarith
  then have *: "length (write_fixed_bits nBits vec) = length (replicate ((nBits + 7) div 8) (0 :: u8)) \<and>
    (\<forall>j < length (replicate ((nBits + 7) div 8) (0 :: u8)). \<forall>i < 8.
       bit (write_fixed_bits nBits vec ! j) i \<longleftrightarrow> 8 * j + i < min nBits (length vec) \<and> vec ! (8 * j + i))"
    unfolding write_fixed_bits_def using assms by (intro fixed_loop) auto
  then show "length (write_fixed_bits nBits vec) = (nBits + 7) div 8" by simp
  show "j < (nBits + 7) div 8 \<Longrightarrow> i < 8 \<Longrightarrow>
      bit (write_fixed_bits nBits vec ! j) i \<longleftrightarrow> 8 * j + i < nBits \<and> vec ! (8 * j + i)"
    using * assms by simp
qed

lemma bit_low_bits: "i < 8 \<Longrightarrow> bit (drop_bit r (0xff :: u8)) i \<longleftrightarrow> r + i < 8"
proof -
  assume "i < 8"
  have "(0xff :: u8) = mask 8" by (simp add: mask_eq_exp_minus_1)
  then show ?thesis by (simp only: bit_drop_bit_eq bit_mask_iff comp_apply) auto
qed

lemma read_fixed_write:
  assumes "length vec = nBits"
  shows "read_fixed_bits nBits (write_fixed_bits nBits vec @ s) = Inr (vec, s)"
proof -
  define v where "v = write_fixed_bits nBits vec"
  note w = write_fixed_bits_bit [OF assms, folded v_def]
  have "last v AND NOT (drop_bit (length v * 8 - nBits) 0xff) = 0" if "length v * 8 \<noteq> nBits"
  proof (rule bit_eqI)
    fix i
    assume "possible_bit TYPE(8 word) i"
    then have i: "i < 8" by simp
    have ne: "v \<noteq> []" using that w(1) by auto
    then have l: "last v = v ! (length v - 1)" "length v - 1 < (nBits + 7) div 8" using w(1) length_greater_0_conv [of v] by (auto simp: last_conv_nth simp del: length_greater_0_conv)
    define r where "r = length v * 8 - nBits"
    have sz: "8 * (length v - 1) < nBits" "nBits \<le> 8 * length v" using w(1) ne that by (auto simp: length_greater_0_conv [symmetric] simp del: length_greater_0_conv) 
    have "bit (drop_bit r (0xff :: u8)) i \<longleftrightarrow> r + i < 8" by (rule bit_low_bits [OF i])
    moreover have "r + i < 8" if "bit (last v) i"
    proof -
      have "8 * (length v - 1) + i < nBits" using that w(2) [OF l(2) i] by (simp add: l(1))
      moreover have "0 < length v" using ne by simp
      ultimately show ?thesis using sz by (simp add: r_def algebra_simps)
    qed
    ultimately show "bit (last v AND NOT (drop_bit (length v * 8 - nBits) 0xff)) i \<longleftrightarrow> bit (0 :: u8) i"
      by (auto simp: bit_and_iff bit_not_iff r_def [symmetric])
  qed
  moreover have "map (\<lambda>p. v ! (p div 8) AND push_bit (p mod 8) 1 \<noteq> 0) [0..<nBits] = vec"
  proof (rule nth_equalityI)
    fix p
    assume "p < length (map (\<lambda>p. v ! (p div 8) AND push_bit (p mod 8) 1 \<noteq> 0) [0..<nBits])"
    then have p: "p < nBits" by simp
    then have "p div 8 < (nBits + 7) div 8" by linarith
    then show "map (\<lambda>p. v ! (p div 8) AND push_bit (p mod 8) 1 \<noteq> 0) [0..<nBits] ! p = vec ! p"
      using w(2) [of "p div 8" "p mod 8"] p test_bit_mask [of "v ! (p div 8)" "p mod 8"] by simp
  qed (simp add: assms)
  ultimately show ?thesis by (auto simp: read_fixed_bits_def v_def [symmetric] read_bytes_append w(1))
qed

lemma read_fixed_only:
  assumes "read_fixed_bits nBits s = Inr (vec, t)"
  shows "length vec = nBits \<and> s = write_fixed_bits nBits vec @ t"
proof -
  from assms obtain v where r: "read_bytes ((nBits + 7) div 8) s = Inr (v, t)"
    and top: "length v * 8 = nBits \<or> last v AND NOT (drop_bit (length v * 8 - nBits) 0xff) = 0"
    and vec: "vec = map (\<lambda>p. v ! (p div 8) AND push_bit (p mod 8) 1 \<noteq> 0) [0..<nBits]"
    by (auto simp: read_fixed_bits_def sbind_Inr_iff split: if_splits)
  have s: "length v = (nBits + 7) div 8" "s = v @ t" using read_bytes_only [OF r] by simp_all
  have len: "length vec = nBits" using vec by simp
  note w = write_fixed_bits_bit [OF len]
  have "v = write_fixed_bits nBits vec"
  proof (rule nth_equalityI)
    fix j
    assume "j < length v"
    then have j: "j < (nBits + 7) div 8" using s(1) by simp
    show "v ! j = write_fixed_bits nBits vec ! j"
    proof (rule bit_eqI)
      fix i
      assume "possible_bit TYPE(8 word) i"
      then have i: "i < 8" by simp
      have "bit (v ! j) i \<longleftrightarrow> 8 * j + i < nBits \<and> vec ! (8 * j + i)"
      proof (cases "8 * j + i < nBits")
        case True
        have "(8 * j + i) div 8 = j" "(8 * j + i) mod 8 = i" using i by simp_all
        then have "vec ! (8 * j + i) \<longleftrightarrow> bit (v ! j) i" using True vec test_bit_mask [of "v ! j" i] by simp
        then show ?thesis using True by simp
      next
        case False
        then have l: "j = length v - 1" "length v * 8 \<noteq> nBits" "v \<noteq> []" using j s(1) i by auto
        then have "\<not> bit (last v AND NOT (drop_bit (length v * 8 - nBits) 0xff)) i" using top by simp
        then have "\<not> bit (last v) i \<or> bit (drop_bit (length v * 8 - nBits) (0xff :: u8)) i" using i by (simp add: bit_and_iff bit_not_iff)
        moreover have "\<not> bit (drop_bit (length v * 8 - nBits) (0xff :: u8)) i"
          unfolding bit_low_bits [OF i] using False l(1) j s(1) by linarith
        ultimately show ?thesis using False l by (simp add: last_conv_nth)
      qed
      then show "bit (v ! j) i \<longleftrightarrow> bit (write_fixed_bits nBits vec ! j) i" using w(2) [OF j i] by simp
    qed
  qed (use s w in simp)
  then show ?thesis using s(2) len by simp
qed

interpretation dynbits: canonical_codec "\<lambda>vec. length vec \<le> MAX_SIZE" write_dynamic_bits read_dynamic_bits
proof unfold_locales
  fix vec s t
  show "length vec \<le> MAX_SIZE \<Longrightarrow> read_dynamic_bits (write_dynamic_bits vec @ s) = Inr (vec, s)"
    by (simp add: read_dynamic_bits_def write_dynamic_bits_def cs.dec_enc read_fixed_write)
  show "read_dynamic_bits s = Inr (vec, t) \<Longrightarrow> length vec \<le> MAX_SIZE \<and> s = write_dynamic_bits vec @ t"
    by (auto simp: read_dynamic_bits_def write_dynamic_bits_def sbind_Inr_iff dest!: cs.dec_only read_fixed_only)
qed

lemma sint_u32_of_int: "-2147483648 \<le> x \<Longrightarrow> x < 2147483648 \<Longrightarrow> sint (word_of_int x :: u32) = x"
  by (simp add: signed_of_int signed_take_bit_int_eq_self)

lemma read_offsets_write:
  "-1 \<le> l \<Longrightarrow> l < i \<Longrightarrow> int (length pre) = i \<Longrightarrow> nBits = length pre + length bs \<Longrightarrow> nBits < 2 ^ 31 \<Longrightarrow>
   read_offsets nBits (pre @ replicate (length bs) False) l (write_offsets i l bs @ s) = Inr (pre @ bs, s)"
proof (induction bs arbitrary: pre i l)
  case Nil
  then show ?case by (simp add: read_offsets.simps ReadVarInt_Write)
next
  case (Cons b bs)
  show ?case
  proof (cases b)
    case True
    define off where "off = nat (i - l)"
    have i31: "i < 2 ^ 31" using Cons.prems by simp
    have off: "unat (of_nat off :: u32) = off" "0 < off" "int off = i - l"
    proof -
      show "0 < off" "int off = i - l" using Cons.prems by (simp_all add: off_def)
      have "off \<le> 2 ^ 31" using Cons.prems i31 by (simp add: off_def)
      then show "unat (of_nat off :: u32) = off" by (simp only: unat_of_nat) simp
    qed
    then have nz: "(of_nat off :: u32) \<noteq> 0" by (metis less_not_refl2 unat_0)
    have "word_of_int l + (of_nat off :: u32) = word_of_int i"
    proof -
      have "(of_nat off :: u32) = word_of_int (int off)" by simp
      then show ?thesis unfolding off(3) by (simp only: wi_hom_syms) simp
    qed
    then have idx: "sint (word_of_int l + (of_nat off :: u32)) = i"
      using sint_u32_of_int [of i] Cons.prems i31 by simp
    have upd: "(pre @ False # replicate (length bs) False)[nat i := True] = (pre @ [True]) @ replicate (length bs) False"
      using Cons.prems(3) by (simp add: list_update_append flip: of_nat_eq_iff)
    have "read_offsets nBits (pre @ replicate (length (b # bs)) False) l (write_offsets i l (b # bs) @ s) =
        read_offsets nBits ((pre @ [True]) @ replicate (length bs) False) i (write_offsets (i + 1) i bs @ s)"
      using True nz idx upd Cons.prems
      by (subst read_offsets.simps) (simp add: ReadVarInt_Write off_def [symmetric] Let_def)
    also have "\<dots> = Inr ((pre @ [True]) @ bs, s)"
      using Cons.prems by (intro Cons.IH) auto
    finally show ?thesis using True by simp
  next
    case False
    have "read_offsets nBits ((pre @ [False]) @ replicate (length bs) False) l (write_offsets (i + 1) l bs @ s) = Inr ((pre @ [False]) @ bs, s)"
      using Cons.prems by (intro Cons.IH) auto
    then show ?thesis using False by simp
  qed
qed

section \<open>Properties\<close>

text \<open>
  Compact sizes up to \<open>MAX_SIZE\<close> are read back as written, with the
  announced length; and the reader accepts nothing else: whatever it accepts is the one
  encoding that the writer produces, so longer forms of a small number are refused.
\<close>

theorem CompactSize_canonical:
  "(n \<le> MAX_SIZE \<longrightarrow> ReadCompactSize (WriteCompactSize n @ s) = Inr (n, s) \<and>
      length (WriteCompactSize n) = GetSizeOfCompactSize n) \<and>
   (ReadCompactSize t = Inr (k, u) \<longrightarrow> k \<le> MAX_SIZE \<and> t = WriteCompactSize k @ u)"
  using ReadCompactSize_Write [of n s] ReadCompactSize_only [of t k u]
  by (simp add: WriteCompactSize_def GetSizeOfCompactSize_def int_codec_defs)

theorem CompactSize_canonical_witness:
  "ReadCompactSize (WriteCompactSize 70000 @ [1]) = Inr (70000, [1])"
  using CompactSize_canonical [of 70000 "[1]"] by (simp add: MAX_SIZE_def)

text \<open>
  C34. A variable-length integer that fits the type is read back as written and takes the
  number of bytes that \<open>GetSizeOfVarInt\<close> gives; a number that does not fit is read
  modulo the size of the type without an error.
\<close>

theorem VarInt_roundtrip:
  assumes "8 \<le> LENGTH('a::len)"
  shows "ReadVarInt (WriteVarInt n @ s) = Inr (of_nat n :: 'a word, s) \<and>
    length (WriteVarInt n) = GetSizeOfVarInt n \<and> (n < 2 ^ LENGTH('a) \<longrightarrow> unat (of_nat n :: 'a word) = n)"
  using ReadVarInt_Write [OF assms] by (simp add: WriteVarInt_def length_var_digits unat_of_nat)

theorem VarInt_roundtrip_witness:
  "ReadVarInt (WriteVarInt 4294967296 @ []) = Inr (0 :: u32, []) \<and>
   ReadVarInt (WriteVarInt 4294967296 @ []) = Inr (4294967296 :: u64, [])"
  using VarInt_roundtrip [where 'a = 32, of 4294967296 "[]"] VarInt_roundtrip [where 'a = 64, of 4294967296 "[]"]
  by simp

text \<open>
  A bit set of fewer than \<open>2 ^ 31\<close> bits written by \<open>CAutoBitSet\<close> is read back
  unchanged, whether the dense or the sparse form was the smaller one.
\<close>

theorem AutoBitSet_roundtrip:
  assumes "length vec < 2 ^ 31"
  shows "\<exists>b. write_auto_bits (length vec) vec = Some b \<and> read_auto_bits (length vec) (b @ s) = Inr (vec, s)"
proof -
  have "read_varint_bits (length vec) (write_varint_bits vec @ s) = Inr (vec, s)"
    using read_offsets_write [of "-1" 0 "[]" "length vec" vec s] assms
    by (simp add: read_varint_bits_def write_varint_bits_def)
  then show ?thesis
    by (auto simp: write_auto_bits_def read_auto_bits_def u8.dec_enc read_fixed_write)
qed

theorem AutoBitSet_roundtrip_witness:
  "\<exists>b. write_auto_bits 3 [True, False, True] = Some b \<and> read_auto_bits 3 (b @ []) = Inr ([True, False, True], [])"
  using AutoBitSet_roundtrip [of "[True, False, True]" "[]"] by (simp add: numeral_3_eq_3)

end
