(* ===== verification/Transaction.thy ===== *)
theory Transaction
  imports Serialization Script "HOL-Library.Multiset"
begin

text \<open>
  Amounts and transactions: \<open>src/src/amount.h\<close>, \<open>amount.cpp\<close> and
  \<open>primitives/transaction.h\<close>, \<open>transaction.cpp\<close>.

  An amount is an integer in the range of \<open>int64_t\<close>. \<open>nVersion\<close> and \<open>nType\<close> are words of 16
  bits, read as signed numbers with \<open>sint\<close>. \<open>nRounds\<close> of an output is never serialized and is
  left out. The cached hash of a \<open>CTransaction\<close> is not a field; a transaction is written by
  \<open>CTransaction::Serialize\<close> and read by \<open>CMutableTransaction::SerializationOp\<close>.
\<close>

section \<open>Amounts\<close>

definition COIN :: int where "COIN = 100000000"
definition MAX_MONEY :: int where "MAX_MONEY = 15010010010 * COIN"

definition MoneyRange :: "int \<Rightarrow> bool" where
  "MoneyRange nValue \<longleftrightarrow> nValue \<ge> 0 \<and> nValue \<le> MAX_MONEY"

text \<open>A fee rate is its \<open>nSatoshisPerK\<close>; \<open>None\<close> is the failed assertion on the size.\<close>

definition CFeeRate :: "int \<Rightarrow> nat \<Rightarrow> int option" where
  "CFeeRate nFeePaid nBytes =
     (if int nBytes \<le> 9223372036854775807 then
        (if int nBytes > 0 then Some (cdiv (i64 (nFeePaid * 1000)) (int nBytes)) else Some 0)
      else None)"

definition GetFee :: "int \<Rightarrow> nat \<Rightarrow> int option" where
  "GetFee nSatoshisPerK nBytes =
     (if int nBytes \<le> 9223372036854775807 then
        let nSize = int nBytes; nFee = cdiv (i64 (nSatoshisPerK * nSize)) 1000
        in Some (if nFee = 0 \<and> nSize \<noteq> 0
                 then (if nSatoshisPerK < 0 then -1 else if nSatoshisPerK > 0 then 1 else nFee)
                 else nFee)
      else None)"

section \<open>Data\<close>

record COutPoint =
  hash :: bytes
  n :: u32

definition SetNull_outpoint :: COutPoint where
  "SetNull_outpoint = \<lparr>hash = replicate 32 0, n = 0xffffffff\<rparr>"

definition IsNull_outpoint :: "COutPoint \<Rightarrow> bool" where
  "IsNull_outpoint p \<longleftrightarrow> (\<forall>b \<in> set (hash p). b = 0) \<and> n p = 0xffffffff"

definition SEQUENCE_FINAL :: u32 where "SEQUENCE_FINAL = 0xffffffff"
definition SEQUENCE_LOCKTIME_DISABLE_FLAG :: u32 where "SEQUENCE_LOCKTIME_DISABLE_FLAG = 0x80000000"
definition SEQUENCE_LOCKTIME_TYPE_FLAG :: u32 where "SEQUENCE_LOCKTIME_TYPE_FLAG = 0x00400000"
definition SEQUENCE_LOCKTIME_MASK :: u32 where "SEQUENCE_LOCKTIME_MASK = 0x0000ffff"
definition SEQUENCE_LOCKTIME_GRANULARITY :: nat where "SEQUENCE_LOCKTIME_GRANULARITY = 9"

record CTxIn =
  prevout :: COutPoint
  scriptSig :: bytes
  nSequence :: u32

record CTxOut =
  nValue :: int
  scriptPubKey :: bytes
  sTxOutMessage :: bytes

record CTransaction =
  tx_nVersion :: u16
  nType :: u16
  vin :: "CTxIn list"
  vout :: "CTxOut list"
  nLockTime :: u32
  vExtraPayload :: bytes

definition SetNull_txout :: CTxOut where
  "SetNull_txout = \<lparr>nValue = -1, scriptPubKey = [], sTxOutMessage = []\<rparr>"

definition IsNull_tx :: "CTransaction \<Rightarrow> bool" where
  "IsNull_tx tx \<longleftrightarrow> vin tx = [] \<and> vout tx = []"

definition IsCoinBase :: "CTransaction \<Rightarrow> bool" where
  "IsCoinBase tx \<longleftrightarrow> length (vin tx) = 1 \<and> IsNull_outpoint (prevout (vin tx ! 0))"

text \<open>\<open>GetValueOut\<close> throws when an output or the running sum leaves the money range.\<close>

fun value_loop :: "CTxOut list \<Rightarrow> int \<Rightarrow> script_exn + int" where
  "value_loop [] nValueOut = Inr nValueOut"
| "value_loop (out # outs) nValueOut =
     (let nValueOut = i64 (nValueOut + nValue out) in
      if \<not> MoneyRange (nValue out) \<or> \<not> MoneyRange nValueOut then Inl Thrown
      else value_loop outs nValueOut)"

definition GetValueOut :: "CTransaction \<Rightarrow> script_exn + int" where
  "GetValueOut tx = value_loop (vout tx) 0"

definition SUPERBLOCK_PAYMENT_THRESHHOLD :: int where "SUPERBLOCK_PAYMENT_THRESHHOLD = 2000000"
definition SUPERBLOCK_VOUT_MIN :: nat where "SUPERBLOCK_VOUT_MIN = 3"

definition IsGSCPayment :: "CTransaction \<Rightarrow> script_exn + bool" where
  "IsGSCPayment tx =
     (if length (vin tx) = 1 \<and> IsNull_outpoint (prevout (vin tx ! 0)) \<and> length (vout tx) > SUPERBLOCK_VOUT_MIN
      then sbind (GetValueOut tx) (\<lambda>nValueOut. Inr (nValueOut < SUPERBLOCK_PAYMENT_THRESHHOLD * COIN))
      else Inr False)"

definition IsSuperblockPayment :: "CTransaction \<Rightarrow> script_exn + bool" where
  "IsSuperblockPayment tx =
     (if length (vin tx) = 1 \<and> IsNull_outpoint (prevout (vin tx ! 0)) \<and> length (vout tx) > SUPERBLOCK_VOUT_MIN
      then sbind (GetValueOut tx) (\<lambda>nValueOut. Inr (nValueOut > SUPERBLOCK_PAYMENT_THRESHHOLD * COIN))
      else Inr False)"

definition GetTxMessage :: "CTransaction \<Rightarrow> bytes" where
  "GetTxMessage tx = concat (map sTxOutMessage (vout tx))"

definition ascii :: "string \<Rightarrow> bytes" where
  "ascii s = map (\<lambda>c. of_nat (of_char c)) s"

definition contains :: "bytes \<Rightarrow> bytes \<Rightarrow> bool" where
  "contains s pat \<longleftrightarrow> list_ex (\<lambda>i. take (length pat) (drop i s) = pat) [0..<Suc (length s)]"

definition IsGSCTransmission :: "CTransaction \<Rightarrow> bool" where
  "IsGSCTransmission tx \<longleftrightarrow> contains (GetTxMessage tx) (ascii ''<MT>GSCTransmission'')"
definition IsCPKAssociation :: "CTransaction \<Rightarrow> bool" where
  "IsCPKAssociation tx \<longleftrightarrow> contains (GetTxMessage tx) (ascii ''<MT>CPK'')"
definition IsWhaleStake :: "CTransaction \<Rightarrow> bool" where
  "IsWhaleStake tx \<longleftrightarrow> contains (GetTxMessage tx) (ascii ''<MT>DWS'')"
definition IsDashStake :: "CTransaction \<Rightarrow> bool" where
  "IsDashStake tx \<longleftrightarrow> contains (GetTxMessage tx) (ascii ''<MT>DASHSTAKE'')"
definition IsABN :: "CTransaction \<Rightarrow> bool" where
  "IsABN tx \<longleftrightarrow> contains (GetTxMessage tx) (ascii ''<MT>ABN</MT>'')"

section \<open>Serialization\<close>

definition ser_outpoint :: "COutPoint \<Rightarrow> bytes" where
  "ser_outpoint p = hash p @ ser_writedata32 (n p)"

definition deser_outpoint :: "COutPoint reader" where
  "deser_outpoint s =
     sbind (read_bytes 32 s) (\<lambda>(h, s). sbind (ser_readdata32 s) (\<lambda>(k, s). Inr (\<lparr>hash = h, n = k\<rparr>, s)))"

definition ser_txin :: "CTxIn \<Rightarrow> bytes" where
  "ser_txin i = ser_outpoint (prevout i) @ write_blob (scriptSig i) @ ser_writedata32 (nSequence i)"

definition deser_txin :: "CTxIn reader" where
  "deser_txin s =
     sbind (deser_outpoint s) (\<lambda>(p, s). sbind (read_blob s) (\<lambda>(sig, s). sbind (ser_readdata32 s) (\<lambda>(q, s).
       Inr (\<lparr>prevout = p, scriptSig = sig, nSequence = q\<rparr>, s))))"

definition ser_txout :: "CTxOut \<Rightarrow> bytes" where
  "ser_txout out =
     ser_writedata64 (word_of_int (nValue out)) @ write_blob (scriptPubKey out) @ write_blob (sTxOutMessage out)"

definition deser_txout :: "CTxOut reader" where
  "deser_txout s =
     sbind (ser_readdata64 s) (\<lambda>(v, s). sbind (read_blob s) (\<lambda>(spk, s). sbind (read_limited 3000 s) (\<lambda>(msg, s).
       Inr (\<lparr>nValue = sint v, scriptPubKey = spk, sTxOutMessage = msg\<rparr>, s))))"

text \<open>\<open>nVersion | (nType << 16)\<close>: both are promoted to \<open>int\<close> with their sign.\<close>

definition pack_version :: "u16 \<Rightarrow> u16 \<Rightarrow> u32" where
  "pack_version v t = scast v OR push_bit 16 (scast t)"

definition has_payload :: "u16 \<Rightarrow> u16 \<Rightarrow> bool" where
  "has_payload v t \<longleftrightarrow> v = 3 \<and> t \<noteq> 0"

definition ser_tx :: "CTransaction \<Rightarrow> bytes" where
  "ser_tx tx =
     ser_writedata32 (pack_version (tx_nVersion tx) (nType tx)) @ write_vector ser_txin (vin tx) @
     write_vector ser_txout (vout tx) @ ser_writedata32 (nLockTime tx) @
     (if has_payload (tx_nVersion tx) (nType tx) then write_blob (vExtraPayload tx) else [])"

definition deser_tx :: "CTransaction reader" where
  "deser_tx s =
     sbind (ser_readdata32 s) (\<lambda>(n32bitVersion, s).
     let v = ucast (n32bitVersion AND 0xffff); t = ucast (drop_bit 16 n32bitVersion AND 0xffff) in
     sbind (read_vector deser_txin s) (\<lambda>(i, s).
     sbind (read_vector deser_txout s) (\<lambda>(out, s).
     sbind (ser_readdata32 s) (\<lambda>(l, s).
     sbind (if has_payload v t then read_blob s else Inr ([], s)) (\<lambda>(p, s).
       Inr (\<lparr>tx_nVersion = v, nType = t, vin = i, vout = out, nLockTime = l, vExtraPayload = p\<rparr>, s))))))"

definition outpoint_ok :: "COutPoint \<Rightarrow> bool" where
  "outpoint_ok p \<longleftrightarrow> length (hash p) = 32"

definition txin_ok :: "CTxIn \<Rightarrow> bool" where
  "txin_ok i \<longleftrightarrow> outpoint_ok (prevout i) \<and> length (scriptSig i) \<le> MAX_SIZE"

definition txout_ok :: "CTxOut \<Rightarrow> bool" where
  "txout_ok out \<longleftrightarrow> -9223372036854775808 \<le> nValue out \<and> nValue out \<le> 9223372036854775807 \<and>
     length (scriptPubKey out) \<le> MAX_SIZE \<and> length (sTxOutMessage out) \<le> 3000"

definition tx_ok :: "CTransaction \<Rightarrow> bool" where
  "tx_ok tx \<longleftrightarrow> vector_ok txin_ok (vin tx) \<and> vector_ok txout_ok (vout tx) \<and>
     length (vExtraPayload tx) \<le> MAX_SIZE \<and>
     (\<not> has_payload (tx_nVersion tx) (nType tx) \<longrightarrow> vExtraPayload tx = []) \<and> 0 \<le> sint (tx_nVersion tx)"

interpretation outpoint: canonical_codec outpoint_ok ser_outpoint deser_outpoint
proof unfold_locales
  fix p s x t
  show "outpoint_ok p \<Longrightarrow> deser_outpoint (ser_outpoint p @ s) = Inr (p, s)"
    by (simp add: deser_outpoint_def ser_outpoint_def outpoint_ok_def read_bytes_append u32.dec_enc)
  show "deser_outpoint s = Inr (x, t) \<Longrightarrow> outpoint_ok x \<and> s = ser_outpoint x @ t"
    by (auto simp: deser_outpoint_def ser_outpoint_def outpoint_ok_def sbind_Inr_iff
        dest!: read_bytes_only u32.dec_only)
qed

interpretation txin: canonical_codec txin_ok ser_txin deser_txin
proof unfold_locales
  fix p s x t
  show "txin_ok p \<Longrightarrow> deser_txin (ser_txin p @ s) = Inr (p, s)"
    by (simp add: deser_txin_def ser_txin_def txin_ok_def outpoint.dec_enc blob.dec_enc u32.dec_enc)
  show "deser_txin s = Inr (x, t) \<Longrightarrow> txin_ok x \<and> s = ser_txin x @ t"
    by (auto simp: deser_txin_def ser_txin_def txin_ok_def sbind_Inr_iff
        dest!: outpoint.dec_only blob.dec_only u32.dec_only)
qed

lemma sint_u64_of_int:
  "-9223372036854775808 \<le> x \<Longrightarrow> x \<le> 9223372036854775807 \<Longrightarrow> sint (word_of_int x :: u64) = x"
  by (simp add: signed_of_int signed_take_bit_int_eq_self)

lemma sint_u64_range: "-9223372036854775808 \<le> sint (w :: u64)" "sint (w :: u64) \<le> 9223372036854775807"
  using sint_greater_eq [of w] sint_less [of w] by simp_all

interpretation txout: canonical_codec txout_ok ser_txout deser_txout
proof unfold_locales
  fix p s x t
  show "txout_ok p \<Longrightarrow> deser_txout (ser_txout p @ s) = Inr (p, s)"
    by (simp add: deser_txout_def ser_txout_def txout_ok_def u64.dec_enc blob.dec_enc limited.dec_enc
        sint_u64_of_int MAX_SIZE_def)
  show "deser_txout s = Inr (x, t) \<Longrightarrow> txout_ok x \<and> s = ser_txout x @ t"
    by (auto simp: deser_txout_def ser_txout_def txout_ok_def sbind_Inr_iff sint_u64_range
        dest!: u64.dec_only blob.dec_only limited.dec_only)
qed

interpretation vins: canonical_codec "vector_ok txin_ok" "write_vector ser_txin" "read_vector deser_txin"
  by (rule txin.vector_canonical)

interpretation vouts: canonical_codec "vector_ok txout_ok" "write_vector ser_txout" "read_vector deser_txout"
  by (rule txout.vector_canonical)

text \<open>The two halves of the version word, for a non-negative version.\<close>

lemma nonneg_top_bit: "0 \<le> sint (v :: u16) \<longleftrightarrow> \<not> bit v 15"
  using bit_last_iff [of v] by (simp add: not_less)

lemma unpack_version:
  assumes "0 \<le> sint v"
  shows "ucast (pack_version v t AND 0xffff) = v" and "ucast (drop_bit 16 (pack_version v t) AND 0xffff) = t"
proof -
  have neg: "\<not> bit v 15" using assms by (simp add: nonneg_top_bit)
  have m: "x AND 0xffff = take_bit 16 x" for x :: u32
    by (simp add: take_bit_eq_mask mask_eq_exp_minus_1)
  have v: "bit (scast v :: u32) i \<longleftrightarrow> i < 16 \<and> bit v i" for i
    using neg bit_imp_le_length [of v i] by (cases "i = 15") (auto simp: bit_signed_iff min_def)
  have t: "bit (scast t :: u32) i \<longleftrightarrow> bit t i" if "i < 16" for i
    using that by (cases "i = 15") (auto simp: bit_signed_iff min_def)
  show "ucast (pack_version v t AND 0xffff) = v"
    unfolding m using neg by (intro bit_eqI) (auto simp: pack_version_def bit_simps v)
  show "ucast (drop_bit 16 (pack_version v t) AND 0xffff) = t"
    unfolding m using neg by (intro bit_eqI) (auto simp: pack_version_def bit_simps v t)
qed

lemma deser_ser_tx:
  assumes "tx_ok tx"
  shows "deser_tx (ser_tx tx @ s) = Inr (tx, s)"
  using assms
  by (cases tx) (auto simp: deser_tx_def ser_tx_def tx_ok_def unpack_version u32.dec_enc vins.dec_enc vouts.dec_enc blob.dec_enc)

lemma value_loop_Inl: "value_loop outs acc = Inl e \<Longrightarrow> e = Thrown"
  by (induction outs arbitrary: acc) (auto simp: Let_def split: if_splits)

lemma value_loop_ok:
  assumes "MoneyRange acc"
  shows "value_loop outs acc = Inr r \<longleftrightarrow>
    (\<forall>out \<in> set outs. MoneyRange (nValue out)) \<and> r = acc + sum_list (map nValue outs) \<and> MoneyRange r"
  using assms
proof (induction outs arbitrary: acc)
  case Nil
  then show ?case by auto
next
  case (Cons out outs)
  have pos: "(\<forall>out \<in> set outs. MoneyRange (nValue out)) \<Longrightarrow> 0 \<le> sum_list (map nValue outs)"
    by (rule sum_list_nonneg) (auto simp: MoneyRange_def)
  show ?case
  proof (cases "MoneyRange (nValue out)")
    case True
    have "i64 (acc + nValue out) = acc + nValue out"
      using True Cons.prems by (intro i64_ident) (auto simp: MoneyRange_def MAX_MONEY_def COIN_def)
    then show ?thesis
      using Cons.IH [of "acc + nValue out"] True Cons.prems pos
      by (cases "MoneyRange (acc + nValue out)") (auto simp: Let_def MoneyRange_def)
  next
    case False
    then show ?thesis by (simp add: Let_def)
  qed
qed

section \<open>Ordering of inputs and outputs (BIP 69)\<close>

text \<open>\<open>memcmp\<close> and \<open>std::lexicographical_compare\<close> on byte strings.\<close>

fun lex_less :: "bytes \<Rightarrow> bytes \<Rightarrow> bool" where
  "lex_less [] ys = (ys \<noteq> [])"
| "lex_less (x # xs) [] = False"
| "lex_less (x # xs) (y # ys) = (x < y \<or> x = y \<and> lex_less xs ys)"

definition outpoint_less :: "COutPoint \<Rightarrow> COutPoint \<Rightarrow> bool" where
  "outpoint_less a b \<longleftrightarrow> lex_less (hash a) (hash b) \<or> (hash a = hash b \<and> n a < n b)"

definition prevector_less :: "bytes \<Rightarrow> bytes \<Rightarrow> bool" where
  "prevector_less a b \<longleftrightarrow> length a < length b \<or> (length a = length b \<and> lex_less a b)"

definition CompareInputBIP69 :: "CTxIn \<Rightarrow> CTxIn \<Rightarrow> bool" where
  "CompareInputBIP69 a b =
     (if hash (prevout a) = hash (prevout b) then n (prevout a) < n (prevout b)
      else lex_less (rev (hash (prevout a))) (rev (hash (prevout b))))"

definition CompareOutputBIP69 :: "CTxOut \<Rightarrow> CTxOut \<Rightarrow> bool" where
  "CompareOutputBIP69 a b \<longleftrightarrow>
     nValue a < nValue b \<or> (nValue a = nValue b \<and> prevector_less (scriptPubKey a) (scriptPubKey b))"

text \<open>
  What \<open>std::sort\<close> and \<open>std::map\<close> require of a comparison: a strict order whose
  incomparable elements are those with equal keys.
\<close>

locale strict_weak_order =
  fixes less :: "'a \<Rightarrow> 'a \<Rightarrow> bool" and key :: "'a \<Rightarrow> 'k"
  assumes irrefl: "\<not> less x x"
    and trans: "less x y \<Longrightarrow> less y z \<Longrightarrow> less x z"
    and total: "less x y \<or> less y x \<or> key x = key y"
    and key_cong: "key x = key x' \<Longrightarrow> less x y = less x' y"
begin

lemma asym: "less x y \<Longrightarrow> \<not> less y x"
  using irrefl trans by blast

lemma incomparable_iff: "(\<not> less x y \<and> \<not> less y x) \<longleftrightarrow> key x = key y"
  using total irrefl key_cong by metis

lemma not_less_trans: "\<not> less x y \<Longrightarrow> \<not> less y z \<Longrightarrow> \<not> less x z"
  using total trans key_cong by metis

text \<open>Two lists sorted by the comparison with the same multiset of keys have the same sequence of keys.\<close>

lemma sorted_unique:
  "sorted_wrt (\<lambda>x y. \<not> less y x) xs \<Longrightarrow> sorted_wrt (\<lambda>x y. \<not> less y x) ys \<Longrightarrow>
   mset (map key xs) = mset (map key ys) \<Longrightarrow> map key xs = map key ys"
proof (induction xs arbitrary: ys)
  case Nil
  then show ?case by simp
next
  case (Cons x xs)
  from Cons.prems(3) obtain y ys' where ys: "ys = y # ys'" by (cases ys) auto
  have "key x \<in># mset (map key ys)" using Cons.prems(3) [symmetric] by simp
  then obtain b where b: "b \<in> set ys" "key b = key x" by auto
  have "key y \<in># mset (map key (x # xs))" using Cons.prems(3) ys by simp
  then obtain a where a: "a \<in> set (x # xs)" "key a = key y" by (metis image_iff set_map set_mset_mset)
  have "\<not> less a x" using a(1) Cons.prems(1) irrefl by auto
  moreover have "\<not> less b y" using b(1) Cons.prems(2) ys irrefl by auto
  ultimately have "\<not> less y x" "\<not> less x y" using key_cong a(2) b(2) by metis+
  then have k: "key x = key y" using total by blast
  then have "mset (map key xs) = mset (map key ys')" using Cons.prems(3) ys by simp
  then show ?case using Cons.IH [of ys'] Cons.prems(1,2) ys k by simp
qed

end

lemma lex_less_irrefl: "\<not> lex_less x x"
  by (induction x) auto

lemma lex_less_trans: "lex_less x y \<Longrightarrow> lex_less y z \<Longrightarrow> lex_less x z"
proof (induction x z arbitrary: y rule: lex_less.induct)
  case (1 ys)
  then show ?case by (cases y; cases ys) auto
next
  case (2 x xs)
  then show ?case by (cases y) auto
next
  case (3 x xs z zs)
  then show ?case by (cases y) auto
qed

lemma lex_less_total: "lex_less x y \<or> lex_less y x \<or> x = y"
proof (induction x y rule: lex_less.induct)
  case (1 ys)
  then show ?case by (cases ys) auto
qed auto

lemmas lex_less_order = lex_less_irrefl lex_less_trans lex_less_total

interpretation outpoint_order: strict_weak_order outpoint_less "\<lambda>p. (hash p, n p)"
proof unfold_locales
  fix x y z :: COutPoint
  show "outpoint_less x y \<Longrightarrow> outpoint_less y z \<Longrightarrow> outpoint_less x z"
    using lex_less_trans [of "hash x" "hash y" "hash z"] by (auto simp: outpoint_less_def)
  show "outpoint_less x y \<or> outpoint_less y x \<or> (hash x, n x) = (hash y, n y)"
    using lex_less_total [of "hash x" "hash y"] by (auto simp: outpoint_less_def)
qed (simp_all add: outpoint_less_def lex_less_irrefl)

interpretation input_order: strict_weak_order CompareInputBIP69 "\<lambda>i. (hash (prevout i), n (prevout i))"
proof unfold_locales
  fix x y z :: CTxIn
  show "CompareInputBIP69 x y \<Longrightarrow> CompareInputBIP69 y z \<Longrightarrow> CompareInputBIP69 x z"
    using lex_less_trans [of "rev (hash (prevout x))" "rev (hash (prevout y))" "rev (hash (prevout z))"]
      lex_less_irrefl [of "rev (hash (prevout x))"]
      lex_less_trans [of "rev (hash (prevout x))" "rev (hash (prevout y))" "rev (hash (prevout x))"]
    by (auto simp: CompareInputBIP69_def split: if_splits)
  show "CompareInputBIP69 x y \<or> CompareInputBIP69 y x \<or> (hash (prevout x), n (prevout x)) = (hash (prevout y), n (prevout y))"
    using lex_less_total [of "rev (hash (prevout x))" "rev (hash (prevout y))"] by (auto simp: CompareInputBIP69_def)
qed (auto simp: CompareInputBIP69_def)

lemma prevector_less_total: "prevector_less x y \<or> prevector_less y x \<or> x = y"
  using lex_less_total [of x y] by (auto simp: prevector_less_def)

lemma prevector_less_trans: "prevector_less x y \<Longrightarrow> prevector_less y z \<Longrightarrow> prevector_less x z"
  using lex_less_trans [of x y z] by (auto simp: prevector_less_def)

interpretation output_order: strict_weak_order CompareOutputBIP69 "\<lambda>out. (nValue out, scriptPubKey out)"
proof unfold_locales
  fix x y z :: CTxOut
  show "CompareOutputBIP69 x y \<Longrightarrow> CompareOutputBIP69 y z \<Longrightarrow> CompareOutputBIP69 x z"
    using prevector_less_trans [of "scriptPubKey x" "scriptPubKey y" "scriptPubKey z"]
    by (auto simp: CompareOutputBIP69_def)
  show "CompareOutputBIP69 x y \<or> CompareOutputBIP69 y x \<or> (nValue x, scriptPubKey x) = (nValue y, scriptPubKey y)"
    using prevector_less_total [of "scriptPubKey x" "scriptPubKey y"] by (auto simp: CompareOutputBIP69_def)
qed (simp_all add: CompareOutputBIP69_def prevector_less_def lex_less_irrefl)

section \<open>Dust\<close>

definition GetDustThreshold :: "CTxOut \<Rightarrow> int \<Rightarrow> int option" where
  "GetDustThreshold out minRelayTxFee =
     (if IsUnspendable (scriptPubKey out) then Some 0
      else let nSize = length (ser_txout out) + 148
           in map_option (\<lambda>f. 3 * f) (GetFee minRelayTxFee nSize))"

definition IsDust :: "CTxOut \<Rightarrow> int \<Rightarrow> bool option" where
  "IsDust out minRelayTxFee = map_option (\<lambda>d. nValue out < d) (GetDustThreshold out minRelayTxFee)"

section \<open>Properties\<close>

text \<open>
  C30. A transaction with a non-negative version whose vectors are within \<open>MAX_SIZE\<close>, written by
  \<open>CTransaction::Serialize\<close>, is read back unchanged by \<open>CMutableTransaction\<close>, and what follows it in
  the stream is left alone; hence two such transactions with the same bytes are equal.
\<close>

theorem tx_roundtrip:
  assumes "tx_ok tx"
  shows "deser_tx (ser_tx tx @ s) = Inr (tx, s) \<and> (tx_ok tx' \<and> ser_tx tx' = ser_tx tx \<longrightarrow> tx' = tx)"
  using deser_ser_tx [OF assms] deser_ser_tx [of tx'] by (metis Inr_inject Pair_inject)

definition example_tx :: CTransaction where
  "example_tx = \<lparr>tx_nVersion = 3, nType = 5,
     vin = [\<lparr>prevout = SetNull_outpoint, scriptSig = [0x51], nSequence = SEQUENCE_FINAL\<rparr>],
     vout = [\<lparr>nValue = 250 * COIN, scriptPubKey = [0x6a], sTxOutMessage = [65, 66]\<rparr>],
     nLockTime = 7, vExtraPayload = [1, 2, 3]\<rparr>"

theorem tx_roundtrip_witness:
  "deser_tx (ser_tx example_tx @ [9]) = Inr (example_tx, [9])"
  using tx_roundtrip [of example_tx "[9]" example_tx]
  by (simp add: tx_ok_def example_tx_def vector_ok_def txin_ok_def txout_ok_def outpoint_ok_def
      SetNull_outpoint_def MAX_SIZE_def COIN_def has_payload_def)

text \<open>
  \<open>GetValueOut\<close> returns, exactly when every output and the total are in the money
  range, the true sum of the outputs; in every other case it throws, so no 64-bit overflow goes unnoticed.
\<close>

theorem GetValueOut_sum:
  "GetValueOut tx =
     (if (\<forall>out \<in> set (vout tx). MoneyRange (nValue out)) \<and> MoneyRange (sum_list (map nValue (vout tx)))
      then Inr (sum_list (map nValue (vout tx))) else Inl Thrown)"
proof -
  have "MoneyRange 0" by (simp add: MoneyRange_def MAX_MONEY_def COIN_def)
  note loop = value_loop_ok [OF this, of "vout tx", folded GetValueOut_def]
  have "GetValueOut tx = Inl e \<Longrightarrow> e = Thrown" for e
    unfolding GetValueOut_def by (rule value_loop_Inl)
  then show ?thesis using loop by (cases "GetValueOut tx") auto
qed

theorem GetValueOut_sum_witness:
  "GetValueOut example_tx = Inr (250 * COIN)"
  using GetValueOut_sum [of example_tx] by (simp add: example_tx_def MoneyRange_def MAX_MONEY_def COIN_def)

text \<open>
  The BIP 69 order of a transaction is determined by its contents: any two arrangements
  of the same inputs that are sorted by \<open>CompareInputBIP69\<close> spend the same outpoints in the same
  order, and any two arrangements of the same outputs sorted by \<open>CompareOutputBIP69\<close> list the same
  values and scripts in the same order.
\<close>

theorem BIP69_deterministic:
  "(mset ins = mset ins' \<and> sorted_wrt (\<lambda>x y. \<not> CompareInputBIP69 y x) ins \<and>
      sorted_wrt (\<lambda>x y. \<not> CompareInputBIP69 y x) ins' \<longrightarrow> map prevout ins = map prevout ins') \<and>
   (mset outs = mset outs' \<and> sorted_wrt (\<lambda>x y. \<not> CompareOutputBIP69 y x) outs \<and>
      sorted_wrt (\<lambda>x y. \<not> CompareOutputBIP69 y x) outs' \<longrightarrow>
      map (\<lambda>x. (nValue x, scriptPubKey x)) outs = map (\<lambda>x. (nValue x, scriptPubKey x)) outs')"
proof -
  have "map prevout ins = map prevout ins'"
    if "map (\<lambda>i. (hash (prevout i), n (prevout i))) ins = map (\<lambda>i. (hash (prevout i), n (prevout i))) ins'"
  proof (rule nth_equalityI)
    show l: "length (map prevout ins) = length (map prevout ins')" using arg_cong [OF that, of length] by simp
    fix j assume "j < length (map prevout ins)"
    then show "map prevout ins ! j = map prevout ins' ! j"
      using l arg_cong [OF that, of "\<lambda>l. l ! j"] by (simp add: COutPoint.equality)
  qed
  moreover have "mset ins = mset ins' \<Longrightarrow> sorted_wrt (\<lambda>x y. \<not> CompareInputBIP69 y x) ins \<Longrightarrow>
      sorted_wrt (\<lambda>x y. \<not> CompareInputBIP69 y x) ins' \<Longrightarrow>
      map (\<lambda>i. (hash (prevout i), n (prevout i))) ins = map (\<lambda>i. (hash (prevout i), n (prevout i))) ins'"
    by (rule input_order.sorted_unique) (simp_all only: mset_map)
  moreover have "mset outs = mset outs' \<Longrightarrow> sorted_wrt (\<lambda>x y. \<not> CompareOutputBIP69 y x) outs \<Longrightarrow>
      sorted_wrt (\<lambda>x y. \<not> CompareOutputBIP69 y x) outs' \<Longrightarrow>
      map (\<lambda>x. (nValue x, scriptPubKey x)) outs = map (\<lambda>x. (nValue x, scriptPubKey x)) outs'"
    by (rule output_order.sorted_unique) (simp_all only: mset_map)
  ultimately show ?thesis by blast
qed

definition bip69_example :: "u8 \<Rightarrow> u8 \<Rightarrow> CTxIn" where
  "bip69_example h s = \<lparr>prevout = \<lparr>hash = replicate 32 h, n = 0\<rparr>, scriptSig = [s], nSequence = SEQUENCE_FINAL\<rparr>"

theorem BIP69_deterministic_witness:
  "sorted_wrt (\<lambda>x y. \<not> CompareInputBIP69 y x) [bip69_example 1 5, bip69_example 1 6, bip69_example 2 7] \<and>
   map prevout [bip69_example 1 5, bip69_example 1 6, bip69_example 2 7] =
   map prevout [bip69_example 1 6, bip69_example 1 5, bip69_example 2 7]"
proof -
  let ?xs = "[bip69_example 1 5, bip69_example 1 6, bip69_example 2 7]"
    and ?ys = "[bip69_example 1 6, bip69_example 1 5, bip69_example 2 7]"
  have "sorted_wrt (\<lambda>x y. \<not> CompareInputBIP69 y x) ?xs" "sorted_wrt (\<lambda>x y. \<not> CompareInputBIP69 y x) ?ys"
    by code_simp+
  moreover have "mset ?xs = mset ?ys" by simp
  ultimately show ?thesis using BIP69_deterministic [of ?xs ?ys "[]" "[]"] by blast
qed

end
