(* ===== verification/Signature_Hash.thy ===== *)
theory Signature_Hash
  imports Transaction Interpreter
begin

text \<open>
  What a signature signs: \<open>CTransactionSignatureSerializer\<close>, \<open>SignatureHash\<close> and
  \<open>TransactionSignatureChecker\<close> of \<open>src/src/script/interpreter.cpp\<close>, with the syntactic check of
  public keys of \<open>src/src/pubkey.h\<close>.

  The hash function and the ECDSA verification are parameters. A hash type is the 32-bit pattern of the \<open>int\<close>.
\<close>

section \<open>The serialized script code\<close>

function count_separators :: "bytes \<Rightarrow> nat \<Rightarrow> nat" where
  "count_separators it nCodeSeparators =
     (case GetOp2 it of
        Inl _ \<Rightarrow> nCodeSeparators
      | Inr (opcode, vch, it') \<Rightarrow>
          count_separators it' (if opcode = OP_CODESEPARATOR then nCodeSeparators + 1 else nCodeSeparators))"
  by pat_completeness auto
termination
  by (relation "measure (\<lambda>(it, n). length it)") (auto dest: GetOp2_shorter)

text \<open>
  The second loop and the final write; iterators are the bytes that follow them. After an operation that
  cannot be read the iterator stays where the reader stopped, and the final write ends there.
\<close>

function code_segments :: "bytes \<Rightarrow> bytes \<Rightarrow> bytes" where
  "code_segments itBegin it =
     (case GetOp2 it of
        Inl it' \<Rightarrow> (if itBegin \<noteq> [] then take (length itBegin - length it') itBegin else [])
      | Inr (opcode, vch, it') \<Rightarrow>
          (if opcode = OP_CODESEPARATOR
           then take (length itBegin - length it' - 1) itBegin @ code_segments it' it'
           else code_segments itBegin it'))"
  by pat_completeness auto
termination
  by (relation "measure (\<lambda>(b, it). length it)") (auto dest: GetOp2_shorter)

declare count_separators.simps [simp del] code_segments.simps [simp del]

definition SerializeScriptCode :: "bytes \<Rightarrow> bytes" where
  "SerializeScriptCode scriptCode =
     WriteCompactSize (length scriptCode - count_separators scriptCode 0) @ code_segments scriptCode scriptCode"

section \<open>The serialized transaction\<close>

definition fAnyoneCanPay :: "u32 \<Rightarrow> bool" where
  "fAnyoneCanPay nHashType \<longleftrightarrow> nHashType AND of_nat SIGHASH_ANYONECANPAY \<noteq> 0"

definition fHashSingle :: "u32 \<Rightarrow> bool" where
  "fHashSingle nHashType \<longleftrightarrow> nHashType AND 0x1f = of_nat SIGHASH_SINGLE"

definition fHashNone :: "u32 \<Rightarrow> bool" where
  "fHashNone nHashType \<longleftrightarrow> nHashType AND 0x1f = of_nat SIGHASH_NONE"

definition SerializeInput :: "bytes \<Rightarrow> CTransaction \<Rightarrow> nat \<Rightarrow> u32 \<Rightarrow> nat \<Rightarrow> bytes" where
  "SerializeInput scriptCode txTo nIn nHashType nInput =
     (let nInput = (if fAnyoneCanPay nHashType then nIn else nInput) in
      ser_outpoint (prevout (vin txTo ! nInput)) @
      (if nInput \<noteq> nIn then write_blob [] else SerializeScriptCode scriptCode) @
      (if nInput \<noteq> nIn \<and> (fHashSingle nHashType \<or> fHashNone nHashType) then ser_writedata32 0
       else ser_writedata32 (nSequence (vin txTo ! nInput))))"

definition SerializeOutput :: "CTransaction \<Rightarrow> nat \<Rightarrow> u32 \<Rightarrow> nat \<Rightarrow> bytes" where
  "SerializeOutput txTo nIn nHashType nOutput =
     (if fHashSingle nHashType \<and> nOutput \<noteq> nIn then ser_txout SetNull_txout
      else ser_txout (vout txTo ! nOutput))"

definition SerializeSigned :: "bytes \<Rightarrow> CTransaction \<Rightarrow> nat \<Rightarrow> u32 \<Rightarrow> bytes" where
  "SerializeSigned scriptCode txTo nIn nHashType =
     (let nInputs = (if fAnyoneCanPay nHashType then 1 else length (vin txTo));
          nOutputs = (if fHashNone nHashType then 0
                      else if fHashSingle nHashType then nIn + 1 else length (vout txTo)) in
      ser_writedata32 (pack_version (tx_nVersion txTo) (nType txTo)) @
      WriteCompactSize nInputs @ concat (map (SerializeInput scriptCode txTo nIn nHashType) [0..<nInputs]) @
      WriteCompactSize nOutputs @ concat (map (SerializeOutput txTo nIn nHashType) [0..<nOutputs]) @
      ser_writedata32 (nLockTime txTo) @
      (if has_payload (tx_nVersion txTo) (nType txTo) then write_blob (vExtraPayload txTo) else []))"

definition sighash_preimage :: "bytes \<Rightarrow> CTransaction \<Rightarrow> nat \<Rightarrow> u32 \<Rightarrow> bytes" where
  "sighash_preimage scriptCode txTo nIn nHashType =
     SerializeSigned scriptCode txTo nIn nHashType @ ser_writedata32 nHashType"

definition uint256_one :: bytes where
  "uint256_one = 1 # replicate 31 0"

definition SignatureHash :: "(bytes \<Rightarrow> bytes) \<Rightarrow> bytes \<Rightarrow> CTransaction \<Rightarrow> nat \<Rightarrow> u32 \<Rightarrow> bytes" where
  "SignatureHash Hash scriptCode txTo nIn nHashType =
     (if nIn \<ge> length (vin txTo) then uint256_one
      else if fHashSingle nHashType \<and> nIn \<ge> length (vout txTo) then uint256_one
      else Hash (sighash_preimage scriptCode txTo nIn nHashType))"

section \<open>The checker of a transaction\<close>

definition GetLen :: "u8 \<Rightarrow> nat" where
  "GetLen chHeader =
     (if chHeader = 2 \<or> chHeader = 3 then 33
      else if chHeader = 4 \<or> chHeader = 6 \<or> chHeader = 7 then 65 else 0)"

text \<open>\<open>CPubKey(vch).IsValid()\<close>: \<open>Set\<close> keeps the bytes only when the header announces their number.\<close>

definition IsValid_pubkey :: "bytes \<Rightarrow> bool" where
  "IsValid_pubkey vch \<longleftrightarrow> (let len = (if vch = [] then 0 else GetLen (hd vch)) in len \<noteq> 0 \<and> len = length vch)"

definition CheckSig_tx :: "(bytes \<Rightarrow> bytes \<Rightarrow> bytes \<Rightarrow> bool) \<Rightarrow> (bytes \<Rightarrow> bytes) \<Rightarrow> CTransaction \<Rightarrow> nat \<Rightarrow>
    bytes \<Rightarrow> bytes \<Rightarrow> bytes \<Rightarrow> bool" where
  "CheckSig_tx Verify Hash txTo nIn vchSigIn vchPubKey scriptCode =
     (if \<not> IsValid_pubkey vchPubKey then False
      else if vchSigIn = [] then False
      else let nHashType = ucast (last vchSigIn); vchSig = butlast vchSigIn;
               sighash = SignatureHash Hash scriptCode txTo nIn nHashType
           in Verify vchPubKey sighash vchSig)"

definition CheckLockTime_tx :: "CTransaction \<Rightarrow> nat \<Rightarrow> int \<Rightarrow> bool" where
  "CheckLockTime_tx txTo nIn nLock =
     (let txLock = int (unat (nLockTime txTo)) in
      if \<not> ((txLock < LOCKTIME_THRESHOLD \<and> nLock < LOCKTIME_THRESHOLD) \<or>
            (txLock \<ge> LOCKTIME_THRESHOLD \<and> nLock \<ge> LOCKTIME_THRESHOLD)) then False
      else if nLock > txLock then False
      else if SEQUENCE_FINAL = nSequence (vin txTo ! nIn) then False
      else True)"

definition CheckSequence_tx :: "CTransaction \<Rightarrow> nat \<Rightarrow> int \<Rightarrow> bool" where
  "CheckSequence_tx txTo nIn nSeq =
     (let txToSequence = int (unat (nSequence (vin txTo ! nIn))) in
      if unat (scast (tx_nVersion txTo) :: u32) < 2 then False
      else if txToSequence AND int (unat SEQUENCE_LOCKTIME_DISABLE_FLAG) \<noteq> 0 then False
      else let nLockTimeMask = int (unat (SEQUENCE_LOCKTIME_TYPE_FLAG OR SEQUENCE_LOCKTIME_MASK));
               txToSequenceMasked = txToSequence AND nLockTimeMask;
               nSequenceMasked = nSeq AND nLockTimeMask;
               flag = int (unat SEQUENCE_LOCKTIME_TYPE_FLAG) in
        if \<not> ((txToSequenceMasked < flag \<and> nSequenceMasked < flag) \<or>
              (txToSequenceMasked \<ge> flag \<and> nSequenceMasked \<ge> flag)) then False
        else if nSequenceMasked > txToSequenceMasked then False
        else True)"

section \<open>What the signature leaves open\<close>

lemma SerializeOutput_vin: "SerializeOutput (tx\<lparr>vin := ins\<rparr>) nIn t = SerializeOutput tx nIn t"
  by (simp add: SerializeOutput_def fun_eq_iff)

lemma SerializeInput_vout: "SerializeInput code (tx\<lparr>vout := outs\<rparr>) nIn t = SerializeInput code tx nIn t"
  by (simp add: SerializeInput_def fun_eq_iff)

lemma sighash_anyonecanpay:
  assumes "fAnyoneCanPay t" "nIn < length ins" "nIn' < length ins'" "ins ! nIn = ins' ! nIn'"
    and "fHashSingle t \<longrightarrow> nIn = nIn'"
  shows "SerializeSigned code (tx\<lparr>vin := ins\<rparr>) nIn t = SerializeSigned code (tx\<lparr>vin := ins'\<rparr>) nIn' t"
proof -
  have "SerializeInput code (tx\<lparr>vin := ins\<rparr>) nIn t k = SerializeInput code (tx\<lparr>vin := ins'\<rparr>) nIn' t k" for k
    using assms by (simp add: SerializeInput_def Let_def)
  moreover have "SerializeOutput tx nIn t = SerializeOutput tx nIn' t"
    using assms(5) by (auto simp: SerializeOutput_def fun_eq_iff)
  ultimately show ?thesis using assms(1,5) by (simp add: SerializeSigned_def Let_def SerializeOutput_vin)
qed

lemma sighash_none:
  assumes "fHashNone t"
  shows "SerializeSigned code (tx\<lparr>vout := outs\<rparr>) nIn t = SerializeSigned code tx nIn t"
  using assms by (simp add: SerializeSigned_def Let_def SerializeInput_vout)

lemma hash_types_exclusive: "\<not> (fHashNone t \<and> fHashSingle t)"
  by (auto simp: fHashNone_def fHashSingle_def SIGHASH_NONE_def SIGHASH_SINGLE_def)

lemma sighash_single:
  assumes "fHashSingle t" "nIn < length outs" "nIn < length (vout tx)" "outs ! nIn = vout tx ! nIn"
  shows "SerializeSigned code (tx\<lparr>vout := outs\<rparr>) nIn t = SerializeSigned code tx nIn t"
proof -
  have "SerializeOutput (tx\<lparr>vout := outs\<rparr>) nIn t k = SerializeOutput tx nIn t k" for k
    using assms by (auto simp: SerializeOutput_def)
  then have "SerializeOutput (tx\<lparr>vout := outs\<rparr>) nIn t = SerializeOutput tx nIn t" by blast
  then show ?thesis using assms by (simp add: SerializeSigned_def Let_def SerializeInput_vout)
qed

section \<open>What the signature fixes\<close>

function parses :: "bytes \<Rightarrow> bool" where
  "parses pc \<longleftrightarrow> pc = [] \<or> (case GetOp2 pc of Inl _ \<Rightarrow> False | Inr (opcode, vch, pc') \<Rightarrow> parses pc')"
  by pat_completeness auto
termination
  by (relation "measure length") (auto dest: GetOp2_shorter)

declare parses.simps [simp del]

lemma GetOp2_Nil [simp]: "GetOp2 [] = Inl []"
  by (simp add: GetOp2_def)

lemma count_separators_add: "count_separators it m = m + count_separators it 0"
proof (induction "length it" arbitrary: it m rule: less_induct)
  case less
  show ?case
  proof (cases "GetOp2 it")
    case (Inl q)
    then show ?thesis by (simp add: count_separators.simps)
  next
    case (Inr r)
    then obtain opcode vch it' where g: "GetOp2 it = Inr (opcode, vch, it')" by (cases r) auto
    have "count_separators it' k = k + count_separators it' 0" for k
      using less GetOp2_shorter [OF g] by blast
    from this [of 1] this [of "m + 1"] this [of m] show ?thesis
      using g by (simp add: count_separators.simps [of it])
  qed
qed

text \<open>The bytes written are those of the script without its code separators.\<close>

lemma code_segments_length:
  "parses it \<Longrightarrow> suffix it itBegin \<Longrightarrow> length (code_segments itBegin it) + count_separators it 0 = length itBegin"
proof (induction itBegin it rule: code_segments.induct)
  case (1 itBegin it)
  show ?case
  proof (cases "it = []")
    case True
    then show ?thesis by (simp add: code_segments.simps count_separators.simps)
  next
    case False
    then obtain opcode vch it' where g: "GetOp2 it = Inr (opcode, vch, it')" "parses it'"
      using 1(3) parses.simps [of it] by (auto split: sum.splits)
    have suf: "suffix it' it" "suffix it' itBegin" using GetOp2_suffix [OF g(1)] 1(4) by (auto intro: suffix_order.trans)
    have len: "length it' < length it" "length it \<le> length itBegin"
      using GetOp2_shorter [OF g(1)] 1(4) by (auto dest: suffix_length_le)
    show ?thesis
    proof (cases "opcode = OP_CODESEPARATOR")
      case True
      then have "length (code_segments it' it') + count_separators it' 0 = length it'"
        using 1(1) [OF g(1) refl refl True g(2)] by simp
      then show ?thesis using g(1) True len count_separators_add [of it' 1]
        by (simp add: code_segments.simps [of itBegin it] count_separators.simps [of it])
    next
      case False
      then have "length (code_segments itBegin it') + count_separators it' 0 = length itBegin"
        using 1(2) [OF g(1) refl refl False g(2) suf(2)] by simp
      then show ?thesis using g(1) False
        by (simp add: code_segments.simps [of itBegin it] count_separators.simps [of it])
    qed
  qed
qed

definition strip_code :: "bytes \<Rightarrow> bytes" where
  "strip_code code = code_segments code code"

lemma SerializeScriptCode_blob:
  assumes "parses code"
  shows "SerializeScriptCode code = write_blob (strip_code code)" and "length (strip_code code) \<le> length code"
proof -
  have l: "length (strip_code code) + count_separators code 0 = length code"
    using code_segments_length [OF assms, of code] by (simp add: strip_code_def)
  then show "length (strip_code code) \<le> length code" by simp
  have "length code - count_separators code 0 = length (strip_code code)" using l by simp
  then show "SerializeScriptCode code = write_blob (strip_code code)"
    by (simp add: SerializeScriptCode_def write_blob_def strip_code_def)
qed

text \<open>The transaction that is serialized: the input scripts are blank except for the script code.\<close>

definition signed_view :: "bytes \<Rightarrow> CTransaction \<Rightarrow> nat \<Rightarrow> CTransaction" where
  "signed_view code tx nIn = tx\<lparr>vin := map (\<lambda>k. (vin tx ! k)\<lparr>scriptSig := (if k = nIn then strip_code code else [])\<rparr>)
     [0..<length (vin tx)]\<rparr>"

definition signs_all :: "u32 \<Rightarrow> bool" where
  "signs_all t \<longleftrightarrow> \<not> fAnyoneCanPay t \<and> \<not> fHashSingle t \<and> \<not> fHashNone t"

lemma SerializeSigned_all:
  assumes "signs_all t" "parses code"
  shows "SerializeSigned code tx nIn t = ser_tx (signed_view code tx nIn)"
proof -
  have "SerializeInput code tx nIn t k = ser_txin ((vin tx ! k)\<lparr>scriptSig := (if k = nIn then strip_code code else [])\<rparr>)" for k
    using assms by (simp add: SerializeInput_def signs_all_def ser_txin_def SerializeScriptCode_blob Let_def)
  then have i: "map (SerializeInput code tx nIn t) [0..<length (vin tx)] =
      map ser_txin (vin (signed_view code tx nIn))" by (simp add: signed_view_def)
  have "SerializeOutput tx nIn t k = ser_txout (vout tx ! k)" for k
    using assms by (simp add: SerializeOutput_def signs_all_def)
  then have "map (SerializeOutput tx nIn t) [0..<length (vout tx)] = map ser_txout (vout tx)"
    by (intro nth_equalityI) simp_all
  moreover have "length (vin (signed_view code tx nIn)) = length (vin tx)" "vout (signed_view code tx nIn) = vout tx"
    "tx_nVersion (signed_view code tx nIn) = tx_nVersion tx" "nType (signed_view code tx nIn) = nType tx"
    "nLockTime (signed_view code tx nIn) = nLockTime tx" "vExtraPayload (signed_view code tx nIn) = vExtraPayload tx"
    by (simp_all add: signed_view_def)
  ultimately show ?thesis using assms i
    by (simp only: SerializeSigned_def signs_all_def ser_tx_def write_vector_def Let_def if_False simp_thms append_assoc)
qed

lemma signed_view_ok:
  assumes "tx_ok tx" "parses code" "length code \<le> MAX_SIZE"
  shows "tx_ok (signed_view code tx nIn)"
proof -
  have "txin_ok ((vin tx ! k)\<lparr>scriptSig := (if k = nIn then strip_code code else [])\<rparr>)" if "k < length (vin tx)" for k
    using assms that SerializeScriptCode_blob(2) [OF assms(2)] nth_mem [OF that]
    by (auto simp: tx_ok_def vector_ok_def txin_ok_def)
  then show ?thesis using assms(1) by (auto simp: tx_ok_def signed_view_def vector_ok_def)
qed

lemma append_same_tail: "xs @ ser_writedata32 a = ys @ ser_writedata32 b \<Longrightarrow> xs = ys \<and> a = b"
proof -
  assume e: "xs @ ser_writedata32 a = ys @ ser_writedata32 b"
  then have "xs = ys" "ser_writedata32 a = ser_writedata32 b" by (simp_all add: ser_writedata32_def)
  moreover have "a = b" using u32.dec_enc [of a "[]"] u32.dec_enc [of b "[]"] calculation(2) by simp
  ultimately show ?thesis by simp
qed

lemma signed_view_fields:
  assumes "signed_view code tx nIn = signed_view code' tx' nIn'"
  shows "map prevout (vin tx) = map prevout (vin tx')" "map nSequence (vin tx) = map nSequence (vin tx')"
    "tx_nVersion tx = tx_nVersion tx'" "nType tx = nType tx'" "vout tx = vout tx'"
    "nLockTime tx = nLockTime tx'" "vExtraPayload tx = vExtraPayload tx'"
proof -
  have v: "map f (vin (signed_view code tx nIn)) = map f (vin tx)" if "\<And>i s. f (i\<lparr>scriptSig := s\<rparr>) = f i" for f :: "CTxIn \<Rightarrow> 'a" and code tx nIn
    by (rule nth_equalityI) (simp_all add: signed_view_def that)
  show "map prevout (vin tx) = map prevout (vin tx')"
    using v [of prevout code tx nIn] v [of prevout code' tx' nIn'] assms by simp
  show "map nSequence (vin tx) = map nSequence (vin tx')"
    using v [of nSequence code tx nIn] v [of nSequence code' tx' nIn'] assms by simp
  show "tx_nVersion tx = tx_nVersion tx'" using arg_cong [OF assms, of tx_nVersion] by (simp add: signed_view_def)
  show "nType tx = nType tx'" using arg_cong [OF assms, of nType] by (simp add: signed_view_def)
  show "vout tx = vout tx'" using arg_cong [OF assms, of vout] by (simp add: signed_view_def)
  show "nLockTime tx = nLockTime tx'" using arg_cong [OF assms, of nLockTime] by (simp add: signed_view_def)
  show "vExtraPayload tx = vExtraPayload tx'" using arg_cong [OF assms, of vExtraPayload] by (simp add: signed_view_def)
qed

section \<open>Properties\<close>

text \<open>
  C3. A signature of type \<open>SIGHASH_ALL\<close> fixes the whole transaction: if the data hashed for two
  transactions is the same, they spend the same outpoints with the same sequence numbers, pay the same outputs
  and agree in version, type, lock time and payload; only the input scripts are left open.
\<close>

theorem sighash_all_commits:
  assumes "tx_ok tx" "tx_ok tx'" "parses code" "parses code'" "length code \<le> MAX_SIZE" "length code' \<le> MAX_SIZE"
    and "signs_all t" "signs_all t'"
    and "sighash_preimage code tx nIn t = sighash_preimage code' tx' nIn' t'"
  shows "t = t' \<and> map prevout (vin tx) = map prevout (vin tx') \<and> map nSequence (vin tx) = map nSequence (vin tx') \<and>
    vout tx = vout tx' \<and> tx_nVersion tx = tx_nVersion tx' \<and> nType tx = nType tx' \<and>
    nLockTime tx = nLockTime tx' \<and> vExtraPayload tx = vExtraPayload tx'"
proof -
  have e: "ser_tx (signed_view code tx nIn) = ser_tx (signed_view code' tx' nIn') \<and> t = t'"
    using assms(9) append_same_tail
    unfolding sighash_preimage_def SerializeSigned_all [OF assms(7,3)] SerializeSigned_all [OF assms(8,4)] by blast
  have v: "signed_view code tx nIn = signed_view code' tx' nIn'"
    using deser_ser_tx [OF signed_view_ok [OF assms(1,3,5)], of nIn "[]"]
      deser_ser_tx [OF signed_view_ok [OF assms(2,4,6)], of nIn' "[]"] e by simp
  show ?thesis using signed_view_fields [OF v] e by simp
qed

theorem sighash_all_commits_witness:
  "map prevout (vin example_tx) = map prevout (vin (example_tx\<lparr>vin := [\<lparr>prevout = SetNull_outpoint, scriptSig = [], nSequence = SEQUENCE_FINAL\<rparr>]\<rparr>)) \<and>
   vout example_tx = vout (example_tx\<lparr>vin := [\<lparr>prevout = SetNull_outpoint, scriptSig = [], nSequence = SEQUENCE_FINAL\<rparr>]\<rparr>)"
proof -
  let ?tx = "example_tx\<lparr>vin := [\<lparr>prevout = SetNull_outpoint, scriptSig = [], nSequence = SEQUENCE_FINAL\<rparr>]\<rparr>"
  have ok: "tx_ok example_tx" "tx_ok ?tx"
    by (simp_all add: tx_ok_def example_tx_def vector_ok_def txin_ok_def txout_ok_def outpoint_ok_def
        SetNull_outpoint_def MAX_SIZE_def COIN_def has_payload_def)
  have p: "parses []" by (simp add: parses.simps)
  have a: "signs_all 1"
    by (simp add: signs_all_def fAnyoneCanPay_def fHashSingle_def fHashNone_def SIGHASH_NONE_def SIGHASH_SINGLE_def SIGHASH_ANYONECANPAY_def)
  have "sighash_preimage [] example_tx 0 1 = sighash_preimage [] ?tx 0 1"
    unfolding sighash_preimage_def SerializeSigned_all [OF a p] by (simp add: signed_view_def example_tx_def)
  then show ?thesis using sighash_all_commits [OF ok p p _ _ a a] by simp
qed

text \<open>
  The other hash types leave open what they are meant to leave open. With \<open>ANYONECANPAY\<close> the hash does
  not depend on the other inputs, nor, unless the type is \<open>SINGLE\<close>, on the position of the signed one;
  with \<open>NONE\<close> it does not depend on the outputs; with \<open>SINGLE\<close> it does not depend on the outputs at other positions.
\<close>

theorem sighash_scope:
  "(fAnyoneCanPay t \<and> nIn < length ins \<and> nIn' < length ins' \<and> ins ! nIn = ins' ! nIn' \<and> (fHashSingle t \<longrightarrow> nIn = nIn') \<longrightarrow>
     SignatureHash Hash code (tx\<lparr>vin := ins\<rparr>) nIn t = SignatureHash Hash code (tx\<lparr>vin := ins'\<rparr>) nIn' t) \<and>
   (fHashNone t \<longrightarrow> SignatureHash Hash code (tx\<lparr>vout := outs\<rparr>) nIn t = SignatureHash Hash code tx nIn t) \<and>
   (fHashSingle t \<and> nIn < length outs \<and> nIn < length (vout tx) \<and> outs ! nIn = vout tx ! nIn \<longrightarrow>
     SignatureHash Hash code (tx\<lparr>vout := outs\<rparr>) nIn t = SignatureHash Hash code tx nIn t)"
  using sighash_anyonecanpay [of t nIn ins nIn' ins' code tx] sighash_none [where t = t and code = code and tx = tx and outs = outs and nIn = nIn]
    sighash_single [where t = t and nIn = nIn and outs = outs and tx = tx and code = code] hash_types_exclusive [of t]
  by (auto simp: SignatureHash_def sighash_preimage_def)

theorem sighash_scope_witness:
  "SignatureHash (\<lambda>x. x) [] (example_tx\<lparr>vout := []\<rparr>) 0 2 = SignatureHash (\<lambda>x. x) [] example_tx 0 2"
  using sighash_scope [where t = 2 and nIn = 0 and Hash = "\<lambda>x. x" and code = "[]" and tx = example_tx and outs = "[]"]
  by (simp add: fHashNone_def SIGHASH_NONE_def)

end
