(* ===== verification/Coins_View.thy ===== *)
theory Coins_View
  imports Transaction "HOL-Library.AList"
begin

text \<open>
  The set of unspent outputs and its caches: \<open>src/src/coins.h\<close>, \<open>coins.cpp\<close> and the
  database view of \<open>txdb.cpp\<close>.

  A view is seen through two operations, \<open>GetCoin\<close> and \<open>BatchWrite\<close>, which the cache calls on its base; the
  locale \<open>coins_backend\<close> states what it relies on. A \<open>CCoinsMap\<close> is an association list in the
  order in which the hash map would be traversed; reading through a cache fills it, so \<open>GetCoin\<close> returns the new state.
  The memory that a script occupies is a function \<open>usage\<close>.
\<close>

section \<open>Coins and cache entries\<close>

record Coin =
  coin_out :: CTxOut
  fCoinBase :: bool
  coin_nHeight :: nat

definition IsSpent :: "Coin \<Rightarrow> bool" where
  "IsSpent c \<longleftrightarrow> nValue (coin_out c) = -1"

text \<open>\<open>CTxOut::SetNull\<close> leaves \<open>sTxOutMessage\<close> alone.\<close>

definition Clear :: "Coin \<Rightarrow> Coin" where
  "Clear c = c\<lparr>coin_out := (coin_out c)\<lparr>nValue := -1, scriptPubKey := []\<rparr>, fCoinBase := False, coin_nHeight := 0\<rparr>"

definition coinEmpty :: Coin where
  "coinEmpty = \<lparr>coin_out = SetNull_txout, fCoinBase = False, coin_nHeight = 0\<rparr>"

record CCoinsCacheEntry =
  coin :: Coin
  DIRTY :: bool
  FRESH :: bool

type_synonym CCoinsMap = "(COutPoint \<times> CCoinsCacheEntry) list"

record 's CCoinsViewCache =
  base :: 's
  hashBlock :: bytes
  cacheCoins :: CCoinsMap
  cachedCoinsUsage :: int

type_synonym 's getter = "'s \<Rightarrow> COutPoint \<Rightarrow> Coin option \<times> 's"
type_synonym 's writer = "'s \<Rightarrow> CCoinsMap \<Rightarrow> bytes \<Rightarrow> script_exn + 's"

definition memory :: "(bytes \<Rightarrow> nat) \<Rightarrow> Coin \<Rightarrow> int" where
  "memory usage c = int (usage (scriptPubKey (coin_out c)))"

section \<open>Operations of the cache\<close>

definition FetchCoin :: "(bytes \<Rightarrow> nat) \<Rightarrow> 's getter \<Rightarrow> 's CCoinsViewCache \<Rightarrow> COutPoint \<Rightarrow>
    CCoinsCacheEntry option \<times> 's CCoinsViewCache" where
  "FetchCoin usage get c outpoint =
     (case map_of (cacheCoins c) outpoint of
        Some e \<Rightarrow> (Some e, c)
      | None \<Rightarrow>
          (case get (base c) outpoint of
             (None, s) \<Rightarrow> (None, c\<lparr>base := s\<rparr>)
           | (Some tmp, s) \<Rightarrow>
               (let e = \<lparr>coin = tmp, DIRTY = False, FRESH = IsSpent tmp\<rparr>
                in (Some e, c\<lparr>base := s, cacheCoins := AList.update outpoint e (cacheCoins c),
                              cachedCoinsUsage := cachedCoinsUsage c + memory usage tmp\<rparr>))))"

definition GetCoin :: "(bytes \<Rightarrow> nat) \<Rightarrow> 's getter \<Rightarrow> 's CCoinsViewCache getter" where
  "GetCoin usage get c outpoint =
     (case FetchCoin usage get c outpoint of
        (None, c) \<Rightarrow> (None, c)
      | (Some e, c) \<Rightarrow> (if IsSpent (coin e) then (None, c) else (Some (coin e), c)))"

definition AccessCoin :: "(bytes \<Rightarrow> nat) \<Rightarrow> 's getter \<Rightarrow> 's CCoinsViewCache \<Rightarrow> COutPoint \<Rightarrow> Coin \<times> 's CCoinsViewCache" where
  "AccessCoin usage get c outpoint =
     (case FetchCoin usage get c outpoint of
        (None, c) \<Rightarrow> (coinEmpty, c)
      | (Some e, c) \<Rightarrow> (coin e, c))"

definition HaveCoin :: "(bytes \<Rightarrow> nat) \<Rightarrow> 's getter \<Rightarrow> 's CCoinsViewCache \<Rightarrow> COutPoint \<Rightarrow> bool \<times> 's CCoinsViewCache" where
  "HaveCoin usage get c outpoint =
     (case FetchCoin usage get c outpoint of
        (None, c) \<Rightarrow> (False, c)
      | (Some e, c) \<Rightarrow> (\<not> IsSpent (coin e), c))"

definition HaveCoinInCache :: "'s CCoinsViewCache \<Rightarrow> COutPoint \<Rightarrow> bool" where
  "HaveCoinInCache c outpoint =
     (case map_of (cacheCoins c) outpoint of None \<Rightarrow> False | Some e \<Rightarrow> \<not> IsSpent (coin e))"

text \<open>The assertion that the coin is unspent is \<open>Aborted\<close>, the \<open>logic_error\<close> is \<open>Thrown\<close>.\<close>

definition AddCoin :: "(bytes \<Rightarrow> nat) \<Rightarrow> 's CCoinsViewCache \<Rightarrow> COutPoint \<Rightarrow> Coin \<Rightarrow> bool \<Rightarrow> script_exn + 's CCoinsViewCache" where
  "AddCoin usage c outpoint newcoin possible_overwrite =
     (if IsSpent newcoin then Inl Aborted
      else if IsUnspendable (scriptPubKey (coin_out newcoin)) then Inr c
      else let found = map_of (cacheCoins c) outpoint;
               e = (case found of None \<Rightarrow> \<lparr>coin = coinEmpty, DIRTY = False, FRESH = False\<rparr> | Some e \<Rightarrow> e);
               used = (case found of None \<Rightarrow> cachedCoinsUsage c | Some e \<Rightarrow> cachedCoinsUsage c - memory usage (coin e))
           in if \<not> possible_overwrite \<and> \<not> IsSpent (coin e) then Inl Thrown
              else let fresh = (\<not> possible_overwrite \<and> \<not> DIRTY e);
                       e = e\<lparr>coin := newcoin, DIRTY := True, FRESH := FRESH e \<or> fresh\<rparr>
                   in Inr (c\<lparr>cacheCoins := AList.update outpoint e (cacheCoins c),
                             cachedCoinsUsage := used + memory usage newcoin\<rparr>))"

text \<open>
  The result is whether an entry was found, and the coin moved out of it. What a move leaves in the message of the spent entry is
  not specified by C++; here it keeps it, and no operation reads the message of a spent entry.
\<close>

definition SpendCoin :: "(bytes \<Rightarrow> nat) \<Rightarrow> 's getter \<Rightarrow> 's CCoinsViewCache \<Rightarrow> COutPoint \<Rightarrow> Coin option \<times> 's CCoinsViewCache" where
  "SpendCoin usage get c outpoint =
     (case FetchCoin usage get c outpoint of
        (None, c) \<Rightarrow> (None, c)
      | (Some e, c) \<Rightarrow>
          (let c = c\<lparr>cachedCoinsUsage := cachedCoinsUsage c - memory usage (coin e)\<rparr> in
           (Some (coin e),
            if FRESH e then c\<lparr>cacheCoins := AList.delete outpoint (cacheCoins c)\<rparr>
            else c\<lparr>cacheCoins := AList.update outpoint (e\<lparr>DIRTY := True, coin := Clear (coin e)\<rparr>) (cacheCoins c)\<rparr>)))"

text \<open>A null block hash is looked up in the base, whose own lookup may change it, and kept.\<close>

definition is_null :: "bytes \<Rightarrow> bool" where
  "is_null h \<longleftrightarrow> list_all (\<lambda>b. b = 0) h"

definition GetBestBlock :: "('s \<Rightarrow> bytes \<times> 's) \<Rightarrow> 's CCoinsViewCache \<Rightarrow> bytes \<times> 's CCoinsViewCache" where
  "GetBestBlock best c =
     (if is_null (hashBlock c)
      then case best (base c) of (h, s) \<Rightarrow> (h, c\<lparr>base := s, hashBlock := h\<rparr>)
      else (hashBlock c, c))"

definition SetBestBlock :: "bytes \<Rightarrow> 's CCoinsViewCache \<Rightarrow> 's CCoinsViewCache" where
  "SetBestBlock hashBlockIn c = c\<lparr>hashBlock := hashBlockIn\<rparr>"

fun batch_loop :: "(bytes \<Rightarrow> nat) \<Rightarrow> CCoinsMap \<Rightarrow> CCoinsMap \<Rightarrow> int \<Rightarrow> script_exn + CCoinsMap \<times> int" where
  "batch_loop usage [] ours used = Inr (ours, used)"
| "batch_loop usage ((k, e) # mapCoins) ours used =
     (if \<not> DIRTY e then batch_loop usage mapCoins ours used
      else case map_of ours k of
        None \<Rightarrow>
          (if \<not> (FRESH e \<and> IsSpent (coin e))
           then batch_loop usage mapCoins
                  (AList.update k \<lparr>coin = coin e, DIRTY = True, FRESH = FRESH e\<rparr> ours) (used + memory usage (coin e))
           else batch_loop usage mapCoins ours used)
      | Some us \<Rightarrow>
          (if FRESH e \<and> \<not> IsSpent (coin us) then Inl Thrown
           else if FRESH us \<and> IsSpent (coin e)
           then batch_loop usage mapCoins (AList.delete k ours) (used - memory usage (coin us))
           else batch_loop usage mapCoins (AList.update k (us\<lparr>coin := coin e, DIRTY := True\<rparr>) ours)
                  (used - memory usage (coin us) + memory usage (coin e))))"

definition BatchWrite :: "(bytes \<Rightarrow> nat) \<Rightarrow> 's CCoinsViewCache writer" where
  "BatchWrite usage c mapCoins hashBlockIn =
     sbind (batch_loop usage mapCoins (cacheCoins c) (cachedCoinsUsage c)) (\<lambda>(ours, used).
       Inr (c\<lparr>cacheCoins := ours, cachedCoinsUsage := used, hashBlock := hashBlockIn\<rparr>))"

definition Flush :: "'s writer \<Rightarrow> 's CCoinsViewCache \<Rightarrow> script_exn + 's CCoinsViewCache" where
  "Flush write c =
     sbind (write (base c) (cacheCoins c) (hashBlock c)) (\<lambda>s.
       Inr (c\<lparr>base := s, cacheCoins := [], cachedCoinsUsage := 0\<rparr>))"

definition Uncache :: "(bytes \<Rightarrow> nat) \<Rightarrow> 's CCoinsViewCache \<Rightarrow> COutPoint \<Rightarrow> 's CCoinsViewCache" where
  "Uncache usage c outpoint =
     (case map_of (cacheCoins c) outpoint of
        None \<Rightarrow> c
      | Some e \<Rightarrow>
          (if \<not> DIRTY e \<and> \<not> FRESH e
           then c\<lparr>cacheCoins := AList.delete outpoint (cacheCoins c),
                  cachedCoinsUsage := cachedCoinsUsage c - memory usage (coin e)\<rparr>
           else c))"

definition GetCacheSize :: "'s CCoinsViewCache \<Rightarrow> nat" where
  "GetCacheSize c = length (cacheCoins c)"

fun value_in_loop :: "(bytes \<Rightarrow> nat) \<Rightarrow> 's getter \<Rightarrow> CTxIn list \<Rightarrow> 's CCoinsViewCache \<Rightarrow> int \<Rightarrow> int \<times> 's CCoinsViewCache" where
  "value_in_loop usage get [] c nResult = (nResult, c)"
| "value_in_loop usage get (i # ins) c nResult =
     (case AccessCoin usage get c (prevout i) of
        (cn, c) \<Rightarrow> value_in_loop usage get ins c (i64 (nResult + nValue (coin_out cn))))"

definition GetValueIn :: "(bytes \<Rightarrow> nat) \<Rightarrow> 's getter \<Rightarrow> CTransaction \<Rightarrow> 's CCoinsViewCache \<Rightarrow> int \<times> 's CCoinsViewCache" where
  "GetValueIn usage get tx c = (if IsCoinBase tx then (0, c) else value_in_loop usage get (vin tx) c 0)"

fun have_loop :: "(bytes \<Rightarrow> nat) \<Rightarrow> 's getter \<Rightarrow> CTxIn list \<Rightarrow> 's CCoinsViewCache \<Rightarrow> bool \<times> 's CCoinsViewCache" where
  "have_loop usage get [] c = (True, c)"
| "have_loop usage get (i # ins) c =
     (case HaveCoin usage get c (prevout i) of
        (False, c) \<Rightarrow> (False, c)
      | (True, c) \<Rightarrow> have_loop usage get ins c)"

definition HaveInputs :: "(bytes \<Rightarrow> nat) \<Rightarrow> 's getter \<Rightarrow> CTransaction \<Rightarrow> 's CCoinsViewCache \<Rightarrow> bool \<times> 's CCoinsViewCache" where
  "HaveInputs usage get tx c = (if IsCoinBase tx then (True, c) else have_loop usage get (vin tx) c)"

section \<open>The database\<close>

text \<open>
  \<open>CTxOutCompressor\<close> stores the amount and the script of an output; its message is not kept. The
  database is seen as the list of the coins that reading it would return.
\<close>

definition forget :: "Coin \<Rightarrow> Coin" where
  "forget c = c\<lparr>coin_out := (coin_out c)\<lparr>sTxOutMessage := []\<rparr>\<rparr>"

record CCoinsViewDB =
  db_coins :: "(COutPoint \<times> Coin) list"
  db_best :: bytes

definition db_GetCoin :: "CCoinsViewDB getter" where
  "db_GetCoin db outpoint = (map_of (db_coins db) outpoint, db)"

fun db_batch :: "CCoinsMap \<Rightarrow> (COutPoint \<times> Coin) list \<Rightarrow> (COutPoint \<times> Coin) list" where
  "db_batch [] db = db"
| "db_batch ((k, e) # mapCoins) db =
     db_batch mapCoins
       (if DIRTY e then (if IsSpent (coin e) then AList.delete k db else AList.update k (forget (coin e)) db) else db)"

definition db_BatchWrite :: "CCoinsViewDB writer" where
  "db_BatchWrite db mapCoins hashBlockIn =
     Inr \<lparr>db_coins = db_batch mapCoins (db_coins db),
          db_best = (if is_null hashBlockIn then db_best db else hashBlockIn)\<rparr>"

definition db_GetBestBlock :: "CCoinsViewDB \<Rightarrow> bytes \<times> CCoinsViewDB" where
  "db_GetBestBlock db = (db_best db, db)"

section \<open>What a view shows\<close>

text \<open>An unspent coin, up to the message that the database drops.\<close>

definition visible :: "Coin \<Rightarrow> Coin option" where
  "visible c = (if IsSpent c then None else Some (forget c))"

definition overlay :: "(COutPoint \<Rightarrow> Coin option) \<Rightarrow> CCoinsMap \<Rightarrow> COutPoint \<Rightarrow> Coin option" where
  "overlay bview m k = (case map_of m k of None \<Rightarrow> bview k | Some e \<Rightarrow> visible (coin e))"

text \<open>
  The meaning of the flags: an entry is \<open>FRESH\<close> only if the base does not show the coin, and an entry
  that is not \<open>DIRTY\<close> shows what the base shows.
\<close>

definition entry_ok :: "Coin option \<Rightarrow> CCoinsCacheEntry \<Rightarrow> bool" where
  "entry_ok bview e \<longleftrightarrow> (FRESH e \<longrightarrow> bview = None) \<and> (\<not> DIRTY e \<longrightarrow> visible (coin e) = bview)"

definition entries_ok :: "(COutPoint \<Rightarrow> Coin option) \<Rightarrow> CCoinsMap \<Rightarrow> bool" where
  "entries_ok bview m \<longleftrightarrow> distinct (map fst m) \<and> (\<forall>k e. map_of m k = Some e \<longrightarrow> entry_ok (bview k) e)"

definition used_memory :: "(bytes \<Rightarrow> nat) \<Rightarrow> CCoinsMap \<Rightarrow> int" where
  "used_memory usage m = sum_list (map (\<lambda>(k, e). memory usage (coin e)) m)"

definition cache_inv :: "(bytes \<Rightarrow> nat) \<Rightarrow> ('s \<Rightarrow> bool) \<Rightarrow> ('s \<Rightarrow> COutPoint \<Rightarrow> Coin option) \<Rightarrow> 's CCoinsViewCache \<Rightarrow> bool" where
  "cache_inv usage binv vw c \<longleftrightarrow>
     binv (base c) \<and> entries_ok (vw (base c)) (cacheCoins c) \<and> cachedCoinsUsage c = used_memory usage (cacheCoins c)"

definition cache_view :: "('s \<Rightarrow> COutPoint \<Rightarrow> Coin option) \<Rightarrow> 's CCoinsViewCache \<Rightarrow> COutPoint \<Rightarrow> Coin option" where
  "cache_view vw c = overlay (vw (base c)) (cacheCoins c)"

lemma used_memory_update:
  assumes "distinct (map fst m)"
  shows "used_memory usage (AList.update k e m) =
    used_memory usage m - (case map_of m k of None \<Rightarrow> 0 | Some e' \<Rightarrow> memory usage (coin e')) + memory usage (coin e)"
  using assms by (induction m) (auto simp: used_memory_def split: option.splits)

lemma used_memory_delete:
  assumes "distinct (map fst m)"
  shows "used_memory usage (AList.delete k m) = used_memory usage m - (case map_of m k of None \<Rightarrow> 0 | Some e' \<Rightarrow> memory usage (coin e'))"
  using assms
proof (induction m)
  case (Cons p m)
  have "k \<notin> fst ` set m \<Longrightarrow> AList.delete k m = m" by (simp add: AList.delete_id)
  then show ?case using Cons by (cases p) (auto simp: used_memory_def split: option.splits)
qed (simp add: used_memory_def)

lemma overlay_update: "overlay bview (AList.update k e m) = (overlay bview m)(k := visible (coin e))"
  by (auto simp: overlay_def update_conv' fun_eq_iff)

lemma overlay_delete: "overlay bview (AList.delete k m) = (overlay bview m)(k := bview k)"
  by (auto simp: overlay_def delete_conv' fun_eq_iff)

lemma entries_ok_update: "entries_ok bview m \<Longrightarrow> entry_ok (bview k) e \<Longrightarrow> entries_ok bview (AList.update k e m)"
  by (auto simp: entries_ok_def update_conv' distinct_update split: if_splits)

lemma entries_ok_delete: "entries_ok bview m \<Longrightarrow> entries_ok bview (AList.delete k m)"
  by (auto simp: entries_ok_def delete_conv' distinct_delete split: if_splits)

lemma overlay_Nil [simp]: "overlay bview [] = bview"
  by (simp add: overlay_def fun_eq_iff)

lemma entries_ok_cong: "(\<And>k. k \<in> fst ` set m \<Longrightarrow> f k = g k) \<Longrightarrow> entries_ok f m \<Longrightarrow> entries_ok g m"
  by (fastforce simp: entries_ok_def dest: map_of_SomeD)

lemma overlay_Cons: "k \<notin> fst ` set m \<Longrightarrow> overlay bview ((k, e) # m) = overlay (bview(k := visible (coin e))) m"
proof -
  assume "k \<notin> fst ` set m"
  then have "map_of m k = None" by (simp add: map_of_eq_None_iff)
  then show ?thesis by (intro ext) (auto simp: overlay_def split: option.splits)
qed

lemma entries_ok_Cons:
  assumes "entries_ok f ((k, e) # m)"
  shows "k \<notin> fst ` set m" "entry_ok (f k) e" "entries_ok f m" "entries_ok (f(k := v)) m"
proof -
  show k: "k \<notin> fst ` set m" "entry_ok (f k) e" using assms by (auto simp: entries_ok_def)
  then have "map_of m k = None" by (simp add: map_of_eq_None_iff)
  then show m: "entries_ok f m" using assms by (auto simp: entries_ok_def split: if_splits)
  show "entries_ok (f(k := v)) m" by (rule entries_ok_cong [OF _ m]) (use k(1) in auto)
qed

text \<open>One entry of a batch; the child's entry is consistent with what the parent shows.\<close>

definition batched :: "(bytes \<Rightarrow> nat) \<Rightarrow> (COutPoint \<Rightarrow> Coin option) \<Rightarrow> CCoinsMap \<Rightarrow> int \<Rightarrow> bool" where
  "batched usage bview ours used \<longleftrightarrow> entries_ok bview ours \<and> used = used_memory usage ours"

lemma batch_step:
  assumes ours: "batched usage bview ours used" and e: "entry_ok (overlay bview ours k) e"
  shows "\<exists>ours' used'. batched usage bview ours' used' \<and> overlay bview ours' = (overlay bview ours)(k := visible (coin e)) \<and>
    (\<forall>m. batch_loop usage ((k, e) # m) ours used = batch_loop usage m ours' used')"
proof -
  have d: "distinct (map fst ours)" using ours by (simp add: batched_def entries_ok_def)
  consider (clean) "\<not> DIRTY e" | (add) "DIRTY e" "map_of ours k = None" "\<not> (FRESH e \<and> IsSpent (coin e))"
    | (skip) "DIRTY e" "map_of ours k = None" "FRESH e" "IsSpent (coin e)" | (change) us where "DIRTY e" "map_of ours k = Some us"
    by blast
  then show ?thesis
  proof cases
    case clean
    then have "overlay bview ours = (overlay bview ours)(k := visible (coin e))" using e by (simp add: entry_ok_def)
    then show ?thesis using clean ours by fastforce
  next
    case add
    let ?e = "\<lparr>coin = coin e, DIRTY = True, FRESH = FRESH e\<rparr>"
    have "entry_ok (bview k) ?e" using e add by (simp add: entry_ok_def overlay_def)
    then have "batched usage bview (AList.update k ?e ours) (used + memory usage (coin e))"
      using ours add d by (simp add: batched_def entries_ok_update used_memory_update)
    moreover have "overlay bview (AList.update k ?e ours) = (overlay bview ours)(k := visible (coin e))"
      by (simp add: overlay_update)
    moreover have "\<forall>m. batch_loop usage ((k, e) # m) ours used =
        batch_loop usage m (AList.update k ?e ours) (used + memory usage (coin e))" using add by simp
    ultimately show ?thesis by blast
  next
    case skip
    then have "overlay bview ours = (overlay bview ours)(k := visible (coin e))"
      using e by (auto simp: entry_ok_def visible_def)
    then show ?thesis using skip ours by fastforce
  next
    case change
    have us: "entry_ok (bview k) us" using ours change by (simp add: batched_def entries_ok_def)
    have sp: "IsSpent (coin us)" if "FRESH e"
      using e change that by (auto simp: entry_ok_def overlay_def visible_def split: if_splits)
    show ?thesis
    proof (cases "FRESH us \<and> IsSpent (coin e)")
      case True
      have "batched usage bview (AList.delete k ours) (used - memory usage (coin us))"
        using ours change d by (simp add: batched_def entries_ok_delete used_memory_delete)
      moreover have "overlay bview (AList.delete k ours) = (overlay bview ours)(k := visible (coin e))"
        using True us by (simp add: overlay_delete entry_ok_def visible_def)
      moreover have "\<forall>m. batch_loop usage ((k, e) # m) ours used =
          batch_loop usage m (AList.delete k ours) (used - memory usage (coin us))"
        using change True sp by auto
      ultimately show ?thesis by blast
    next
      case False
      let ?e = "us\<lparr>coin := coin e, DIRTY := True\<rparr>"
      have "entry_ok (bview k) ?e" using us by (simp add: entry_ok_def)
      then have "batched usage bview (AList.update k ?e ours) (used - memory usage (coin us) + memory usage (coin e))"
        using ours change d by (simp add: batched_def entries_ok_update used_memory_update)
      moreover have "overlay bview (AList.update k ?e ours) = (overlay bview ours)(k := visible (coin e))"
        by (simp add: overlay_update)
      moreover have "\<forall>m. batch_loop usage ((k, e) # m) ours used =
          batch_loop usage m (AList.update k ?e ours) (used - memory usage (coin us) + memory usage (coin e))"
        using change False sp by auto
      ultimately show ?thesis by blast
    qed
  qed
qed

lemma batch_loop_ok:
  "batched usage bview ours used \<Longrightarrow> entries_ok (overlay bview ours) m \<Longrightarrow>
   \<exists>ours' used'. batch_loop usage m ours used = Inr (ours', used') \<and> batched usage bview ours' used' \<and>
     overlay bview ours' = overlay (overlay bview ours) m"
proof (induction m arbitrary: ours used)
  case Nil
  then show ?case by simp
next
  case (Cons p m)
  obtain k e where p: "p = (k, e)" by (cases p) auto
  note k = entries_ok_Cons [OF Cons.prems(2) [unfolded p]]
  obtain ours' used' where o: "batched usage bview ours' used'"
    "overlay bview ours' = (overlay bview ours)(k := visible (coin e))"
    "batch_loop usage ((k, e) # m) ours used = batch_loop usage m ours' used'"
    using batch_step [OF Cons.prems(1) k(2)] by blast
  have "entries_ok (overlay bview ours') m" unfolding o(2) by (rule k(4))
  from Cons.IH [OF o(1) this] show ?case unfolding p o(2,3) overlay_Cons [OF k(1)] .
qed

section \<open>The contract of a base view\<close>

locale coins_backend =
  fixes binv :: "'s \<Rightarrow> bool" and vw :: "'s \<Rightarrow> COutPoint \<Rightarrow> Coin option"
    and get :: "'s getter" and put :: "'s writer"
  assumes get_law: "binv s \<Longrightarrow> get s k = (r, s') \<Longrightarrow> binv s' \<and> vw s' = vw s \<and> Option.bind r visible = vw s k"
    and put_law: "binv s \<Longrightarrow> entries_ok (vw s) m \<Longrightarrow>
      \<exists>s'. put s m h = Inr s' \<and> binv s' \<and> vw s' = overlay (vw s) m"
    and forgotten: "binv s \<Longrightarrow> vw s k = Some c \<Longrightarrow> forget c = c \<and> \<not> IsSpent c"
begin

abbreviation good :: "(bytes \<Rightarrow> nat) \<Rightarrow> 's CCoinsViewCache \<Rightarrow> bool" where
  "good usage \<equiv> cache_inv usage binv vw"

abbreviation shown :: "'s CCoinsViewCache \<Rightarrow> COutPoint \<Rightarrow> Coin option" where
  "shown \<equiv> cache_view vw"

text \<open>Reading fills the cache and leaves what it shows unchanged.\<close>

lemma FetchCoin_ok:
  assumes "good usage c" "FetchCoin usage get c k = (r, c')"
  shows "good usage c' \<and> shown c' = shown c \<and> map_of (cacheCoins c') k = r \<and> vw (base c') = vw (base c) \<and>
    hashBlock c' = hashBlock c \<and> shown c k = Option.bind r (\<lambda>e. visible (coin e))"
proof (cases "map_of (cacheCoins c) k")
  case (Some e)
  then have "r = Some e" "c' = c" using assms(2) by (simp_all add: FetchCoin_def)
  then show ?thesis using assms(1) Some by (simp add: cache_view_def overlay_def)
next
  case None
  obtain g s where g: "get (base c) k = (g, s)" by (cases "get (base c) k") auto
  have binv: "binv (base c)" using assms(1) by (simp add: cache_inv_def)
  note l = get_law [OF binv g]
  show ?thesis
  proof (cases g)
    case g0: None
    then have "r = None" "c' = c\<lparr>base := s\<rparr>" using assms(2) None g by (auto simp: FetchCoin_def)
    then show ?thesis using l assms(1) None g0
      by (simp add: cache_inv_def cache_view_def) (simp add: overlay_def)
  next
    case gs: (Some tmp)
    define e where "e = \<lparr>coin = tmp, DIRTY = False, FRESH = IsSpent tmp\<rparr>"
    have c': "r = Some e" "c' = c\<lparr>base := s, cacheCoins := AList.update k e (cacheCoins c),
        cachedCoinsUsage := cachedCoinsUsage c + memory usage tmp\<rparr>"
      using assms(2) None g gs by (auto simp: FetchCoin_def e_def Let_def)
    have vis: "visible tmp = vw (base c) k" using l gs by simp
    have ok: "entry_ok (vw s k) e" using vis l by (auto simp: entry_ok_def e_def visible_def)
    have "shown c' = (shown c)(k := visible tmp)" using c' l by (simp add: cache_view_def overlay_update e_def)
    also have "\<dots> = shown c" using None vis by (auto simp: cache_view_def overlay_def)
    finally have "shown c' = shown c" .
    moreover have "good usage c'" using c' l assms(1) ok None
      by (auto simp: cache_inv_def used_memory_update entries_ok_update e_def entries_ok_def [of _ "cacheCoins c"])
    moreover have "shown c k = visible tmp" using None vis by (simp add: cache_view_def overlay_def)
    ultimately show ?thesis using c' l by (simp add: update_conv' e_def)
  qed
qed

lemma GetCoin_ok:
  assumes "good usage c" "GetCoin usage get c k = (r, c')"
  shows "good usage c' \<and> shown c' = shown c \<and> Option.bind r visible = shown c k"
proof -
  obtain f d where f: "FetchCoin usage get c k = (f, d)" by (cases "FetchCoin usage get c k") auto
  then have "c' = d" "r = Option.bind f (\<lambda>e. if IsSpent (coin e) then None else Some (coin e))"
    using assms(2) by (auto simp: GetCoin_def split: option.splits if_splits)
  then show ?thesis using FetchCoin_ok [OF assms(1) f] by (cases f) (auto simp: visible_def)
qed

lemma HaveCoin_ok:
  assumes "good usage c" "HaveCoin usage get c k = (r, c')"
  shows "good usage c' \<and> shown c' = shown c \<and> (r \<longleftrightarrow> shown c k \<noteq> None)"
proof -
  obtain f d where f: "FetchCoin usage get c k = (f, d)" by (cases "FetchCoin usage get c k") auto
  then have "c' = d" "r \<longleftrightarrow> (\<exists>e. f = Some e \<and> \<not> IsSpent (coin e))"
    using assms(2) by (auto simp: HaveCoin_def split: option.splits)
  then show ?thesis using FetchCoin_ok [OF assms(1) f] by (cases f) (auto simp: visible_def split: if_splits)
qed

lemma AccessCoin_ok:
  assumes "good usage c" "AccessCoin usage get c k = (cn, c')"
  shows "good usage c' \<and> shown c' = shown c \<and> visible cn = shown c k"
proof -
  obtain f d where f: "FetchCoin usage get c k = (f, d)" by (cases "FetchCoin usage get c k") auto
  then have "c' = d" "cn = (case f of None \<Rightarrow> coinEmpty | Some e \<Rightarrow> coin e)"
    using assms(2) by (auto simp: AccessCoin_def split: option.splits)
  moreover have "visible coinEmpty = None" by (simp add: visible_def coinEmpty_def IsSpent_def SetNull_txout_def)
  ultimately show ?thesis using FetchCoin_ok [OF assms(1) f] by (cases f) auto
qed

text \<open>
  Adding a coin; without the permission to overwrite, the caller promises that the coin is not shown yet, and a
  coin already in the cache is detected.
\<close>

lemma AddCoin_ok:
  assumes "good usage c" "\<not> IsSpent cn" "\<not> ow \<longrightarrow> shown c k = None"
  shows "\<exists>c'. AddCoin usage c k cn ow = Inr c' \<and> good usage c' \<and>
    shown c' = (if IsUnspendable (scriptPubKey (coin_out cn)) then shown c else (shown c)(k \<mapsto> forget cn))"
proof (cases "IsUnspendable (scriptPubKey (coin_out cn))")
  case True
  then show ?thesis using assms by (simp add: AddCoin_def)
next
  case False
  define found where "found = map_of (cacheCoins c) k"
  define e where "e = (case found of None \<Rightarrow> \<lparr>coin = coinEmpty, DIRTY = False, FRESH = False\<rparr> | Some e \<Rightarrow> e)"
  define e' where "e' = e\<lparr>coin := cn, DIRTY := True, FRESH := FRESH e \<or> (\<not> ow \<and> \<not> DIRTY e)\<rparr>"
  define c' where "c' = c\<lparr>cacheCoins := AList.update k e' (cacheCoins c), cachedCoinsUsage :=
      (case found of None \<Rightarrow> cachedCoinsUsage c | Some e \<Rightarrow> cachedCoinsUsage c - memory usage (coin e)) + memory usage cn\<rparr>"
  have g: "entries_ok (vw (base c)) (cacheCoins c)" "cachedCoinsUsage c = used_memory usage (cacheCoins c)"
    using assms(1) by (auto simp: cache_inv_def)
  have sp: "IsSpent (coin e)" if "\<not> ow"
    using assms(3) that by (cases found) (auto simp: e_def cache_view_def overlay_def visible_def found_def
        coinEmpty_def IsSpent_def SetNull_txout_def split: if_splits)
  have "AddCoin usage c k cn ow = Inr c'"
    using False assms(2) sp by (auto simp: AddCoin_def Let_def c'_def e'_def e_def found_def)
  moreover have "entry_ok (vw (base c) k) e'"
  proof -
    have "vw (base c) k = None" if "FRESH e \<or> (\<not> ow \<and> \<not> DIRTY e)"
    proof (cases found)
      case None
      then show ?thesis using that assms(3) by (auto simp: e_def cache_view_def overlay_def found_def)
    next
      case (Some x)
      then have "entry_ok (vw (base c) k) e" using g(1) by (simp add: entries_ok_def e_def found_def)
      then show ?thesis using that sp by (auto simp: entry_ok_def visible_def split: if_splits)
    qed
    then show ?thesis by (auto simp: entry_ok_def e'_def)
  qed
  moreover from this have "good usage c'"
    using assms(1) g by (auto simp: cache_inv_def c'_def entries_ok_update used_memory_update found_def e'_def
        entries_ok_def [of _ "cacheCoins c"] split: option.splits)
  moreover have "shown c' = (shown c)(k \<mapsto> forget cn)"
    using assms(2) by (simp add: cache_view_def c'_def overlay_update e'_def visible_def)
  ultimately show ?thesis using False by simp
qed

text \<open>Spending removes the coin from what is shown, and returns it.\<close>

lemma SpendCoin_ok:
  assumes "good usage c" "SpendCoin usage get c k = (r, c')" "usage [] = 0"
  shows "good usage c' \<and> shown c' = (shown c)(k := None) \<and> Option.bind r visible = shown c k"
proof -
  obtain f d where f: "FetchCoin usage get c k = (f, d)" by (cases "FetchCoin usage get c k") auto
  note l = FetchCoin_ok [OF assms(1) f]
  show ?thesis
  proof (cases f)
    case None
    then have "c' = d" "r = None" using assms(2) f by (simp_all add: SpendCoin_def)
    moreover have "shown c k = None" using l None by simp
    ultimately show ?thesis using l by (auto simp: fun_upd_idem)
  next
    case (Some e)
    have ok: "entries_ok (vw (base d)) (cacheCoins d)" "cachedCoinsUsage d = used_memory usage (cacheCoins d)" "binv (base d)"
      and dk: "map_of (cacheCoins d) k = Some e" and vis: "visible (coin e) = shown c k"
      using l Some by (auto simp: cache_inv_def)
    have eo: "entry_ok (vw (base d) k) e" using ok dk by (simp add: entries_ok_def)
    have dd: "distinct (map fst (cacheCoins d))" using ok by (simp add: entries_ok_def)
    show ?thesis
    proof (cases "FRESH e")
      case True
      then have c': "c' = d\<lparr>cachedCoinsUsage := cachedCoinsUsage d - memory usage (coin e),
          cacheCoins := AList.delete k (cacheCoins d)\<rparr>" "r = Some (coin e)"
        using assms(2) f Some by (auto simp: SpendCoin_def Let_def)
      have "vw (base d) k = None" using True eo by (simp add: entry_ok_def)
      then have "shown c' = (shown d)(k := None)" using c' by (simp add: cache_view_def overlay_delete)
      moreover have "good usage c'" using c' ok dk dd by (simp add: cache_inv_def entries_ok_delete used_memory_delete)
      ultimately show ?thesis using l c' vis by simp
    next
      case False
      define e' where "e' = e\<lparr>DIRTY := True, coin := Clear (coin e)\<rparr>"
      have c': "c' = d\<lparr>cachedCoinsUsage := cachedCoinsUsage d - memory usage (coin e),
          cacheCoins := AList.update k e' (cacheCoins d)\<rparr>" "r = Some (coin e)"
        using assms(2) f Some False by (auto simp: SpendCoin_def Let_def e'_def)
      have v: "visible (coin e') = None" by (simp add: visible_def e'_def Clear_def IsSpent_def)
      have m: "memory usage (coin e') = 0" using assms(3) by (simp add: memory_def e'_def Clear_def)
      have "entry_ok (vw (base d) k) e'" using False by (simp add: entry_ok_def e'_def)
      then have "good usage c'" using c' ok dk dd m by (simp add: cache_inv_def entries_ok_update used_memory_update)
      moreover have "shown c' = (shown d)(k := None)" using c' v by (simp add: cache_view_def overlay_update)
      ultimately show ?thesis using l c' vis by simp
    qed
  qed
qed

lemma Uncache_ok:
  assumes "good usage c"
  shows "good usage (Uncache usage c k) \<and> shown (Uncache usage c k) = shown c"
proof (cases "map_of (cacheCoins c) k")
  case None
  then show ?thesis using assms by (simp add: Uncache_def)
next
  case (Some e)
  have "overlay (vw (base c)) (AList.delete k (cacheCoins c)) = overlay (vw (base c)) (cacheCoins c)" if "\<not> DIRTY e"
  proof -
    have "visible (coin e) = vw (base c) k" using assms Some that by (auto simp: cache_inv_def entries_ok_def entry_ok_def)
    then show ?thesis using Some by (auto simp: overlay_delete overlay_def fun_eq_iff)
  qed
  then show ?thesis
    using assms Some by (auto simp: Uncache_def cache_inv_def cache_view_def entries_ok_delete used_memory_delete
        entries_ok_def [of _ "cacheCoins c"])
qed

text \<open>Flushing moves everything to the base, which then shows what the cache showed.\<close>

lemma Flush_ok:
  assumes "good usage c"
  shows "\<exists>c'. Flush put c = Inr c' \<and> good usage c' \<and> shown c' = shown c \<and> vw (base c') = shown c"
proof -
  obtain s where s: "put (base c) (cacheCoins c) (hashBlock c) = Inr s" "binv s" "vw s = overlay (vw (base c)) (cacheCoins c)"
    using put_law [of "base c" "cacheCoins c" "hashBlock c"] assms by (auto simp: cache_inv_def)
  then show ?thesis by (simp add: Flush_def cache_inv_def cache_view_def entries_ok_def used_memory_def)
qed

lemma cache_backend: "coins_backend (cache_inv usage binv vw) (cache_view vw) (GetCoin usage get) (BatchWrite usage)"
proof
  fix c :: "'s CCoinsViewCache" and k r c' m h cn
  assume c: "good usage c"
  show "GetCoin usage get c k = (r, c') \<Longrightarrow> good usage c' \<and> shown c' = shown c \<and> Option.bind r visible = shown c k"
    by (rule GetCoin_ok [OF c])
  show "entries_ok (shown c) m \<Longrightarrow> \<exists>c'. BatchWrite usage c m h = Inr c' \<and> good usage c' \<and> shown c' = overlay (shown c) m"
    using batch_loop_ok [of usage "vw (base c)" "cacheCoins c" "cachedCoinsUsage c" m] c
    by (fastforce simp: BatchWrite_def cache_inv_def cache_view_def batched_def)
  show "shown c k = Some cn \<Longrightarrow> forget cn = cn \<and> \<not> IsSpent cn"
    using forgotten [of "base c" k cn] c
    by (auto simp: cache_inv_def cache_view_def overlay_def visible_def forget_def IsSpent_def split: option.splits if_splits)
qed

end

text \<open>The database keeps unspent coins without messages, and shows them.\<close>

definition db_inv :: "CCoinsViewDB \<Rightarrow> bool" where
  "db_inv db \<longleftrightarrow> (\<forall>k c. map_of (db_coins db) k = Some c \<longrightarrow> forget c = c \<and> \<not> IsSpent c)"

definition db_view :: "CCoinsViewDB \<Rightarrow> COutPoint \<Rightarrow> Coin option" where
  "db_view db = map_of (db_coins db)"

lemma db_batch_ok:
  "db_inv \<lparr>db_coins = db, db_best = h\<rparr> \<Longrightarrow> entries_ok (map_of db) m \<Longrightarrow>
   db_inv \<lparr>db_coins = db_batch m db, db_best = h'\<rparr> \<and> map_of (db_batch m db) = overlay (map_of db) m"
proof (induction m arbitrary: db)
  case Nil
  then show ?case by (simp add: db_inv_def)
next
  case (Cons p m)
  obtain k e where p: "p = (k, e)" by (cases p) auto
  note k = entries_ok_Cons [OF Cons.prems(2) [unfolded p]]
  define db' where "db' = (if DIRTY e then (if IsSpent (coin e) then AList.delete k db else AList.update k (forget (coin e)) db) else db)"
  have v: "map_of db' = (map_of db)(k := visible (coin e))"
    using k(2) by (auto simp: db'_def visible_def delete_conv' update_conv' entry_ok_def fun_upd_idem split: if_splits)
  then have "db_inv \<lparr>db_coins = db', db_best = h\<rparr>"
    using Cons.prems(1) by (auto simp: db_inv_def visible_def forget_def IsSpent_def split: if_splits)
  moreover have "entries_ok (map_of db') m" unfolding v by (rule k(4))
  ultimately show ?case using Cons.IH [of db'] overlay_Cons [OF k(1), of "map_of db" e] v p by (simp add: db'_def)
qed

interpretation db: coins_backend db_inv db_view db_GetCoin db_BatchWrite
proof
  fix db k r db' m h c
  assume db: "db_inv db"
  show "db_GetCoin db k = (r, db') \<Longrightarrow> db_inv db' \<and> db_view db' = db_view db \<and> Option.bind r visible = db_view db k"
    using db by (cases r) (auto simp: db_GetCoin_def db_view_def db_inv_def visible_def)
  show "entries_ok (db_view db) m \<Longrightarrow> \<exists>db'. db_BatchWrite db m h = Inr db' \<and> db_inv db' \<and> db_view db' = overlay (db_view db) m"
    using db_batch_ok [of "db_coins db" "db_best db" m] db by (cases db) (simp add: db_BatchWrite_def db_view_def)
  show "db_view db k = Some c \<Longrightarrow> forget c = c \<and> \<not> IsSpent c"
    using db by (auto simp: db_view_def db_inv_def)
qed

text \<open>The tip of the chain is a cache over the database, and a block is connected in a cache over the tip.\<close>

interpretation tip: coins_backend "cache_inv usage db_inv db_view" "cache_view db_view" "GetCoin usage db_GetCoin" "BatchWrite usage"
  for usage
  by (rule db.cache_backend)

interpretation scratch: coins_backend "cache_inv usage (cache_inv usage db_inv db_view) (cache_view db_view)"
  "cache_view (cache_view db_view)" "GetCoin usage (GetCoin usage db_GetCoin)" "BatchWrite usage"
  for usage
  by (rule tip.cache_backend)

section \<open>Properties\<close>

text \<open>
  C2. The cache of the chain tip over the database behaves as a plain map from outpoints to unspent coins (up to
  the message of an output). Reads leave the map unchanged; \<open>SpendCoin\<close> removes the coin and returns it;
  \<open>AddCoin\<close> inserts a spendable coin and never throws when the caller keeps its promise about overwriting;
  \<open>Uncache\<close> changes nothing; \<open>Flush\<close> never throws and makes the database show what the cache showed. The invariant,
  that the \<open>FRESH\<close> and \<open>DIRTY\<close> flags mean what they say and that the memory accounting is exact, is kept.
\<close>

theorem coins_cache_refines:
  fixes c :: "CCoinsViewDB CCoinsViewCache"
  assumes "cache_inv usage db_inv db_view c" and "usage [] = 0"
  shows "(\<exists>b c'. HaveCoin usage db_GetCoin c k = (b, c') \<and> cache_inv usage db_inv db_view c' \<and>
      cache_view db_view c' = cache_view db_view c \<and> b = (cache_view db_view c k \<noteq> None)) \<and>
    (\<exists>r c'. SpendCoin usage db_GetCoin c k = (r, c') \<and> cache_inv usage db_inv db_view c' \<and>
      cache_view db_view c' = (cache_view db_view c)(k := None) \<and> Option.bind r visible = cache_view db_view c k) \<and>
    (\<not> IsSpent cn \<and> (\<not> ow \<longrightarrow> cache_view db_view c k = None) \<longrightarrow>
      (\<exists>c'. AddCoin usage c k cn ow = Inr c' \<and> cache_inv usage db_inv db_view c' \<and> cache_view db_view c' =
        (if IsUnspendable (scriptPubKey (coin_out cn)) then cache_view db_view c else (cache_view db_view c)(k \<mapsto> forget cn)))) \<and>
    (cache_inv usage db_inv db_view (Uncache usage c k) \<and> cache_view db_view (Uncache usage c k) = cache_view db_view c) \<and>
    (\<exists>c'. Flush db_BatchWrite c = Inr c' \<and> cache_inv usage db_inv db_view c' \<and>
      cache_view db_view c' = cache_view db_view c \<and> db_view (base c') = cache_view db_view c)"
proof -
  obtain b c1 where h: "HaveCoin usage db_GetCoin c k = (b, c1)" by (rule prod.exhaust)
  obtain r c2 where s: "SpendCoin usage db_GetCoin c k = (r, c2)" by (rule prod.exhaust)
  show ?thesis
    using db.HaveCoin_ok [OF assms(1) h] h db.SpendCoin_ok [OF assms(1) s assms(2)] s db.AddCoin_ok [OF assms(1), of cn ow k]
      db.Uncache_ok [OF assms(1)] db.Flush_ok [OF assms(1)]
    by (intro conjI) auto
qed

definition example_cache :: "CCoinsViewDB CCoinsViewCache" where
  "example_cache = \<lparr>base = \<lparr>db_coins = [], db_best = []\<rparr>, hashBlock = [], cacheCoins = [], cachedCoinsUsage = 0\<rparr>"

theorem coins_cache_refines_witness:
  "cache_inv length db_inv db_view example_cache \<and>
   (\<exists>c'. Flush db_BatchWrite example_cache = Inr c' \<and> db_view (base c') = cache_view db_view example_cache)"
proof -
  have "cache_inv length db_inv db_view example_cache"
    by (simp add: cache_inv_def example_cache_def db_inv_def entries_ok_def used_memory_def)
  then show ?thesis using coins_cache_refines [of length example_cache SetNull_outpoint coinEmpty True] by auto
qed

end
