(* ===== verification/Locks.thy ===== *)
theory Locks
  imports Signature_Hash Active_Chain Consensus_Params Coins_View
begin

text \<open>
  Absolute and relative lock times, \<open>src/src/validation.cpp\<close>: \<open>IsFinalTx\<close>, \<open>CalculateSequenceLocks\<close>,
  \<open>EvaluateSequenceLocks\<close>, \<open>SequenceLocks\<close>, \<open>TestLockPointValidity\<close> and \<open>CheckSequenceLocks\<close>, and how they
  work together with the script operations \<open>OP_CHECKLOCKTIMEVERIFY\<close> and \<open>OP_CHECKSEQUENCEVERIFY\<close>.
\<close>

section \<open>Absolute lock times\<close>

definition IsFinalTx :: "CTransaction \<Rightarrow> int \<Rightarrow> int \<Rightarrow> bool" where
  "IsFinalTx tx nBlockHeight nBlockTime =
     (let lock = int (unat (nLockTime tx)) in
      if lock = 0 then True
      else if lock < (if lock < LOCKTIME_THRESHOLD then nBlockHeight else nBlockTime) then True
      else list_all (\<lambda>txin. nSequence txin = SEQUENCE_FINAL) (vin tx))"

definition LOCKTIME_VERIFY_SEQUENCE :: u32 where "LOCKTIME_VERIFY_SEQUENCE = push_bit 0 1"
definition LOCKTIME_MEDIAN_TIME_PAST :: u32 where "LOCKTIME_MEDIAN_TIME_PAST = push_bit 1 1"

text \<open>\<open>flags\<close> is an \<open>int\<close>; a negative value stands for no flags. The adjusted network time is an argument.\<close>

definition CheckFinalTx :: "store \<Rightarrow> CChain \<Rightarrow> int \<Rightarrow> CTransaction \<Rightarrow> int \<Rightarrow> chain_error + bool" where
  "CheckFinalTx S chainActive adjustedTime tx flags =
     (let flags = max flags 0;
          nBlockHeight = Height chainActive + 1 in
      sbind (if (word_of_int flags :: u32) AND LOCKTIME_MEDIAN_TIME_PAST \<noteq> 0 then
               (case Tip chainActive of None \<Rightarrow> Inl NullDereference | Some p \<Rightarrow> Inr (GetMedianTimePast S p))
             else Inr adjustedTime)
        (\<lambda>nBlockTime. Inr (IsFinalTx tx nBlockHeight nBlockTime)))"

section \<open>Relative lock times\<close>

text \<open>
  The loop of \<open>CalculateSequenceLocks\<close> over the inputs with their \<open>prevHeights\<close>, which it may reset. The sum of a height and the masked
  sequence number is taken without the overflow of \<open>int\<close>, which would need a height within 65535 of 2147483647.
\<close>

fun lock_loop :: "store \<Rightarrow> bptr \<Rightarrow> (CTxIn \<times> int) list \<Rightarrow> int \<Rightarrow> int \<Rightarrow> chain_error + int list \<times> int \<times> int" where
  "lock_loop S block [] nMinHeight nMinTime = Inr ([], nMinHeight, nMinTime)"
| "lock_loop S block ((txin, nCoinHeight) # rest) nMinHeight nMinTime =
     (if nSequence txin AND SEQUENCE_LOCKTIME_DISABLE_FLAG \<noteq> 0 then
        sbind (lock_loop S block rest nMinHeight nMinTime) (\<lambda>(hs, r). Inr (0 # hs, r))
      else if nSequence txin AND SEQUENCE_LOCKTIME_TYPE_FLAG \<noteq> 0 then
        sbind (GetAncestor S block (max (nCoinHeight - 1) 0)) (\<lambda>a.
          case a of
            None \<Rightarrow> Inl NullDereference
          | Some p \<Rightarrow>
              (let nCoinTime = GetMedianTimePast S p;
                   t = nCoinTime + int (unat (push_bit SEQUENCE_LOCKTIME_GRANULARITY (nSequence txin AND SEQUENCE_LOCKTIME_MASK))) - 1
               in sbind (lock_loop S block rest nMinHeight (max nMinTime t)) (\<lambda>(hs, r). Inr (nCoinHeight # hs, r))))
      else
        (let h = nCoinHeight + int (unat (nSequence txin AND SEQUENCE_LOCKTIME_MASK)) - 1
         in sbind (lock_loop S block rest (max nMinHeight h) nMinTime) (\<lambda>(hs, r). Inr (nCoinHeight # hs, r))))"

definition CalculateSequenceLocks :: "store \<Rightarrow> CTransaction \<Rightarrow> u32 \<Rightarrow> int list \<Rightarrow> bptr \<Rightarrow> chain_error + int list \<times> int \<times> int" where
  "CalculateSequenceLocks S tx flags prevHeights block =
     (if length prevHeights \<noteq> length (vin tx) then Inl AssertFailed
      else if \<not> (unat (scast (tx_nVersion tx) :: u32) \<ge> 2 \<and> flags AND LOCKTIME_VERIFY_SEQUENCE \<noteq> 0)
      then Inr (prevHeights, -1, -1)
      else lock_loop S block (zip (vin tx) prevHeights) (-1) (-1))"

definition EvaluateSequenceLocks :: "store \<Rightarrow> bptr \<Rightarrow> int \<times> int \<Rightarrow> chain_error + bool" where
  "EvaluateSequenceLocks S block lockPair =
     (case pprev (S block) of
        None \<Rightarrow> Inl AssertFailed
      | Some q \<Rightarrow>
          (let nBlockTime = GetMedianTimePast S q
           in Inr (\<not> (fst lockPair \<ge> nHeight (S block) \<or> snd lockPair \<ge> nBlockTime))))"

definition SequenceLocks :: "store \<Rightarrow> CTransaction \<Rightarrow> u32 \<Rightarrow> int list \<Rightarrow> bptr \<Rightarrow> chain_error + bool" where
  "SequenceLocks S tx flags prevHeights block =
     sbind (CalculateSequenceLocks S tx flags prevHeights block) (\<lambda>(hs, lockPair). EvaluateSequenceLocks S block lockPair)"

record LockPoints =
  lp_height :: int
  lp_time :: int
  maxInputBlock :: "bptr option"

definition TestLockPointValidity :: "store \<Rightarrow> CChain \<Rightarrow> LockPoints \<Rightarrow> bool" where
  "TestLockPointValidity S chainActive lp =
     (case maxInputBlock lp of
        None \<Rightarrow> True
      | Some b \<Rightarrow> (if \<not> Contains S chainActive b then False else True))"

definition MEMPOOL_HEIGHT :: nat where "MEMPOOL_HEIGHT = 0x7FFFFFFF"

text \<open>The heights of the inputs; \<open>None\<close> is a missing input.\<close>

fun prev_heights :: "(COutPoint \<Rightarrow> Coin option) \<Rightarrow> int \<Rightarrow> CTxIn list \<Rightarrow> int list option" where
  "prev_heights getCoin tipHeight [] = Some []"
| "prev_heights getCoin tipHeight (txin # ins) =
     (case getCoin (prevout txin) of
        None \<Rightarrow> None
      | Some cn \<Rightarrow>
          (case prev_heights getCoin tipHeight ins of
             None \<Rightarrow> None
           | Some hs \<Rightarrow> Some ((if coin_nHeight cn = MEMPOOL_HEIGHT then tipHeight + 1 else int (coin_nHeight cn)) # hs)))"

definition max_input_height :: "int \<Rightarrow> int list \<Rightarrow> int" where
  "max_input_height tipHeight heights =
     fold (\<lambda>height m. if height \<noteq> tipHeight + 1 then max m height else m) heights 0"

text \<open>
  The block \<open>index\<close> that would follow the tip is stored at the unused address \<open>fresh\<close>. The view of the memory pool is
  a function; the lock points are returned, unchanged when the existing ones are used.
\<close>

definition CheckSequenceLocks :: "store \<Rightarrow> bptr \<Rightarrow> bptr \<Rightarrow> (COutPoint \<Rightarrow> Coin option) \<Rightarrow> CTransaction \<Rightarrow> u32 \<Rightarrow> LockPoints option \<Rightarrow> bool \<Rightarrow>
    chain_error + bool \<times> LockPoints option" where
  "CheckSequenceLocks S fresh tip getCoin tx flags lp useExistingLockPoints =
     (let tipHeight = nHeight (S tip);
          S = S(fresh := empty_block\<lparr>pprev := Some tip, nHeight := tipHeight + 1\<rparr>) in
      if useExistingLockPoints then
        (case lp of
           None \<Rightarrow> Inl AssertFailed
         | Some p \<Rightarrow> sbind (EvaluateSequenceLocks S fresh (lp_height p, lp_time p)) (\<lambda>ok. Inr (ok, lp)))
      else
        (case prev_heights getCoin tipHeight (vin tx) of
           None \<Rightarrow> Inr (False, lp)
         | Some prevheights \<Rightarrow>
             sbind (CalculateSequenceLocks S tx flags prevheights fresh) (\<lambda>(prevheights, lockPair).
             sbind (case lp of
                      None \<Rightarrow> Inr None
                    | Some p \<Rightarrow>
                        sbind (GetAncestor S tip (max_input_height tipHeight prevheights)) (\<lambda>b.
                          Inr (Some (p\<lparr>lp_height := fst lockPair, lp_time := snd lockPair, maxInputBlock := b\<rparr>))))
               (\<lambda>lp. sbind (EvaluateSequenceLocks S fresh lockPair) (\<lambda>ok. Inr (ok, lp))))))"

section \<open>Masks\<close>

lemma and_exp_eq: "(x :: int) AND 2 ^ k = (if bit x k then 2 ^ k else 0)"
  by (rule bit_eqI) (auto simp: bit_simps)

lemma and_bit_22: "(x :: int) AND 4194304 = (if bit x 22 then 4194304 else 0)"
  using and_exp_eq [of x 22] by simp

lemma and_low_16: "(x :: int) AND 65535 = x mod 65536"
proof -
  have "x AND mask 16 = take_bit 16 x" by (simp add: take_bit_eq_mask)
  then show ?thesis by (simp add: mask_eq_exp_minus_1 take_bit_eq_mod)
qed

lemma and_sequence_mask: "(x :: int) AND 4259839 = x mod 65536 + (if bit x 22 then 4194304 else 0)"
proof -
  have "(4259839 :: int) = 65535 OR 4194304" by simp
  then have "x AND 4259839 = (x AND 65535) OR (x AND 4194304)" by (simp only: bit.conj_disj_distrib)
  also have "\<dots> = (x AND 65535) + (x AND 4194304)"
  proof (rule disjunctive_add_eq_or [symmetric])
    have "(65535 :: int) AND 4194304 = 0" by simp
    then show "(x AND 65535) AND (x AND 4194304) = 0" by (metis and.assoc and.left_commute bit.conj_zero_right)
  qed
  finally show ?thesis by (simp only: and_low_16 and_bit_22)
qed

lemma and_bit_31: "(x :: int) AND 2147483648 \<noteq> 0 \<longleftrightarrow> bit x 31"
  using and_exp_eq_0_iff_not_bit [of x 31] by simp

lemmas sequence_flags = SEQUENCE_LOCKTIME_DISABLE_FLAG_def SEQUENCE_LOCKTIME_TYPE_FLAG_def SEQUENCE_LOCKTIME_MASK_def

lemma sequence_bits:
  fixes w :: u32
  shows "w AND SEQUENCE_LOCKTIME_DISABLE_FLAG \<noteq> 0 \<longleftrightarrow> bit (int (unat w)) 31"
    and "w AND SEQUENCE_LOCKTIME_TYPE_FLAG \<noteq> 0 \<longleftrightarrow> bit (int (unat w)) 22"
    and "int (unat (w AND SEQUENCE_LOCKTIME_MASK)) = int (unat w) mod 65536"
proof -
  have b: "bit (int (unat w)) k \<longleftrightarrow> bit w k" for k by (simp only: bit_of_nat_iff_bit bit_unat)
  show "w AND SEQUENCE_LOCKTIME_DISABLE_FLAG \<noteq> 0 \<longleftrightarrow> bit (int (unat w)) 31"
    using test_bit_mask [of w 31] b by (simp add: sequence_flags)
  show "w AND SEQUENCE_LOCKTIME_TYPE_FLAG \<noteq> 0 \<longleftrightarrow> bit (int (unat w)) 22"
    using test_bit_mask [of w 22] b by (simp add: sequence_flags)
  have "int (unat (w AND 65535)) = int (unat w) AND int (unat (65535 :: u32))"
    by (simp only: unsigned_and_eq of_nat_and_eq)
  also have "\<dots> = int (unat w) mod 65536" by (simp only: and_low_16 [symmetric]) simp
  finally show "int (unat (w AND SEQUENCE_LOCKTIME_MASK)) = int (unat w) mod 65536" by (simp add: sequence_flags)
qed

text \<open>\<open>CheckSequence\<close> compares the type bit and the low sixteen bits.\<close>

lemma CheckSequence_tx_iff:
  "CheckSequence_tx tx nIn nSeq \<longleftrightarrow>
     (let q = int (unat (nSequence (vin tx ! nIn))) in
      2 \<le> unat (scast (tx_nVersion tx) :: u32) \<and> \<not> bit q 31 \<and> (bit q 22 \<longleftrightarrow> bit nSeq 22) \<and> nSeq mod 65536 \<le> q mod 65536)"
proof -
  have m: "int (unat (SEQUENCE_LOCKTIME_TYPE_FLAG OR SEQUENCE_LOCKTIME_MASK)) = 4259839" "int (unat SEQUENCE_LOCKTIME_TYPE_FLAG) = 4194304"
    "int (unat SEQUENCE_LOCKTIME_DISABLE_FLAG) = 2147483648" by (simp_all add: sequence_flags)
  have r: "0 \<le> x mod 65536" "x mod 65536 < 65536" for x :: int by simp_all
  show ?thesis
    unfolding CheckSequence_tx_def Let_def m and_sequence_mask and_bit_31
    using r [of nSeq] r [of "int (unat (nSequence (vin tx ! nIn)))"] by (auto simp: not_less)
qed

section \<open>Relative locks bound the height and the time\<close>

definition input_bound :: "store \<Rightarrow> bptr \<Rightarrow> int \<Rightarrow> int \<Rightarrow> CTxIn \<times> int \<Rightarrow> bool" where
  "input_bound S block h t ic \<longleftrightarrow>
     (let q = int (unat (nSequence (fst ic))) in
      \<not> bit q 31 \<longrightarrow>
        (if bit q 22 then \<exists>p. GetAncestor S block (max (snd ic - 1) 0) = Inr (Some p) \<and>
                                GetMedianTimePast S p + 512 * (q mod 65536) - 1 \<le> t
         else snd ic + q mod 65536 - 1 \<le> h))"

lemma shifted_mask: "int (unat (push_bit SEQUENCE_LOCKTIME_GRANULARITY (w AND SEQUENCE_LOCKTIME_MASK))) = 512 * (int (unat w) mod 65536)"
proof -
  have u: "unat (w AND SEQUENCE_LOCKTIME_MASK) = unat w mod 65536"
    using sequence_bits(3) [of w] by (metis of_nat_eq_iff of_nat_mod of_nat_numeral)
  have "unat (push_bit 9 (w AND SEQUENCE_LOCKTIME_MASK)) = (unat w mod 65536 * 512) mod 4294967296"
    by (simp add: unat_push_bit u del: push_bit_and)
  also have "\<dots> = unat w mod 65536 * 512"
  proof (rule mod_less)
    have "unat w mod 65536 < 65536" by simp
    then show "unat w mod 65536 * 512 < 4294967296" by linarith
  qed
  finally show ?thesis by (simp add: SEQUENCE_LOCKTIME_GRANULARITY_def of_nat_mod)
qed

lemma lock_loop_bounds:
  "lock_loop S block ps h0 t0 = Inr (hs, h, t) \<Longrightarrow> h0 \<le> h \<and> t0 \<le> t \<and> (\<forall>ic \<in> set ps. input_bound S block h t ic)"
proof (induction ps arbitrary: h0 t0 hs)
  case (Cons ic ps)
  obtain txin ch where ic: "ic = (txin, ch)" by (cases ic) auto
  let ?q = "int (unat (nSequence txin))"
  consider (off) "bit ?q 31" | (time) "\<not> bit ?q 31" "bit ?q 22" | (height) "\<not> bit ?q 31" "\<not> bit ?q 22" by blast
  then show ?case
  proof cases
    case off
    then obtain hs' where "lock_loop S block ps h0 t0 = Inr (hs', h, t)"
      using Cons.prems ic by (auto simp: sequence_bits sbind_Inr_iff)
    then show ?thesis using Cons.IH off ic by (auto simp: input_bound_def)
  next
    case time
    then obtain p hs' where l: "GetAncestor S block (max (ch - 1) 0) = Inr (Some p)"
      "lock_loop S block ps h0 (max t0 (GetMedianTimePast S p + 512 * (?q mod 65536) - 1)) = Inr (hs', h, t)"
      using Cons.prems unfolding ic lock_loop.simps shifted_mask
      by (auto simp: sequence_bits sbind_Inr_iff Let_def split: option.splits)
    then show ?thesis using Cons.IH [OF l(2)] time ic by (auto simp: input_bound_def Let_def)
  next
    case height
    then obtain hs' where l: "lock_loop S block ps (max h0 (ch + ?q mod 65536 - 1)) t0 = Inr (hs', h, t)"
      using Cons.prems unfolding ic lock_loop.simps sequence_bits(3) by (auto simp: sequence_bits sbind_Inr_iff Let_def)
    then show ?thesis using Cons.IH [OF l] height ic by (auto simp: input_bound_def Let_def)
  qed
qed simp

lemma SequenceLocks_bounds:
  assumes "SequenceLocks S tx flags prevHeights block = Inr True" "flags AND LOCKTIME_VERIFY_SEQUENCE \<noteq> 0"
    and "2 \<le> unat (scast (tx_nVersion tx) :: u32)" "nIn < length (vin tx)"
  obtains q h t where "pprev (S block) = Some q" "h < nHeight (S block)" "t < GetMedianTimePast S q"
    "input_bound S block h t (vin tx ! nIn, prevHeights ! nIn)"
proof -
  obtain hs h t where c: "lock_loop S block (zip (vin tx) prevHeights) (-1) (-1) = Inr (hs, h, t)"
    "length prevHeights = length (vin tx)" "EvaluateSequenceLocks S block (h, t) = Inr True"
    using assms by (auto simp: SequenceLocks_def CalculateSequenceLocks_def sbind_Inr_iff split: if_splits)
  have "(vin tx ! nIn, prevHeights ! nIn) \<in> set (zip (vin tx) prevHeights)" using assms(4) c(2) by (auto simp: set_zip)
  then have "input_bound S block h t (vin tx ! nIn, prevHeights ! nIn)" using lock_loop_bounds [OF c(1)] by blast
  moreover obtain q where "pprev (S block) = Some q" "h < nHeight (S block)" "t < GetMedianTimePast S q"
    using c(3) by (auto simp: EvaluateSequenceLocks_def Let_def split: option.splits)
  ultimately show thesis using that by blast
qed

section \<open>Properties\<close>

text \<open>
  C14. \<open>OP_CHECKLOCKTIMEVERIFY\<close> does what it promises: if an input script executes it successfully with the
  operand \<open>nLock\<close>, then a block can contain the transaction, that is \<open>IsFinalTx\<close> accepts it, only when its height
  (or, for an operand from \<open>LOCKTIME_THRESHOLD\<close> on, its time) is beyond \<open>nLock\<close>.
\<close>

theorem cltv_enforced:
  assumes "op_checklocktimeverify env flags s = Inr s'" "has flags SCRIPT_VERIFY_CHECKLOCKTIMEVERIFY"
    and "CheckLockTime env = CheckLockTime_tx tx nIn" "nIn < length (vin tx)"
    and "IsFinalTx tx nBlockHeight nBlockTime"
  shows "\<exists>nLock. CScriptNum (stack s ! 0) (require_minimal flags) 5 = Inr nLock \<and> 0 \<le> nLock \<and>
    (nLock = 0 \<or> nLock < (if nLock < LOCKTIME_THRESHOLD then nBlockHeight else nBlockTime))"
proof -
  obtain nLock where n: "CScriptNum (stack s ! 0) (require_minimal flags) 5 = Inr nLock" "0 \<le> nLock" "CheckLockTime_tx tx nIn nLock"
    using assms(1-3) by (auto simp: op_checklocktimeverify_def raised_Inr sbind_Inr_iff split: if_splits)
  have "\<not> list_all (\<lambda>txin. nSequence txin = SEQUENCE_FINAL) (vin tx)"
    using n(3) assms(4) by (auto simp: CheckLockTime_tx_def list_all_length Let_def split: if_splits)
  then show ?thesis using n assms(5) by (auto simp: CheckLockTime_tx_def IsFinalTx_def Let_def split: if_splits)
qed

definition locked_tx :: CTransaction where
  "locked_tx = \<lparr>tx_nVersion = 2, nType = 0, vin = [\<lparr>prevout = SetNull_outpoint, scriptSig = [], nSequence = 1\<rparr>],
     vout = [], nLockTime = 100, vExtraPayload = []\<rparr>"

definition locked_env :: script_env where
  "locked_env = \<lparr>CheckSig = (\<lambda>_ _ _. True), CheckLockTime = CheckLockTime_tx locked_tx 0, CheckSequence = CheckSequence_tx locked_tx 0,
     CheckLowS = (\<lambda>_. True), RIPEMD160 = (\<lambda>x. replicate 20 0), SHA1 = (\<lambda>x. replicate 20 0),
     SHA256 = (\<lambda>x. replicate 32 0), Hash160 = (\<lambda>x. replicate 20 0), Hash256 = (\<lambda>x. replicate 32 0)\<rparr>"

definition locked_state :: "u8 \<Rightarrow> eval_state" where
  "locked_state x = \<lparr>stack = [[x]], altstack = [], vfExec = [], nOpCount = 0, pbegincodehash = []\<rparr>"

theorem cltv_enforced_witness:
  "op_checklocktimeverify locked_env SCRIPT_VERIFY_CHECKLOCKTIMEVERIFY (locked_state 99) = Inr (locked_state 99) \<and>
   IsFinalTx locked_tx 101 0 \<and> (\<exists>nLock. CScriptNum [99] False 5 = Inr nLock \<and> 0 \<le> nLock \<and>
    (nLock = 0 \<or> nLock < (if nLock < LOCKTIME_THRESHOLD then 101 else 0)))"
proof -
  have "op_checklocktimeverify locked_env SCRIPT_VERIFY_CHECKLOCKTIMEVERIFY (locked_state 99) = Inr (locked_state 99)" by code_simp
  moreover have "IsFinalTx locked_tx 101 0" by code_simp
  moreover have "\<not> require_minimal SCRIPT_VERIFY_CHECKLOCKTIMEVERIFY" "has SCRIPT_VERIFY_CHECKLOCKTIMEVERIFY SCRIPT_VERIFY_CHECKLOCKTIMEVERIFY"
    by (code_simp, code_simp)
  ultimately show ?thesis
    using cltv_enforced [of locked_env SCRIPT_VERIFY_CHECKLOCKTIMEVERIFY "locked_state 99" "locked_state 99" locked_tx 0 101 0]
    by (simp add: locked_env_def locked_state_def locked_tx_def)
qed

text \<open>
  C15. \<open>OP_CHECKSEQUENCEVERIFY\<close> does what it promises: if an input script executes it successfully with the operand \<open>nSeq\<close>,
  whose disable bit is clear, then a block in which \<open>SequenceLocks\<close> accepts the transaction is at least \<open>nSeq mod 2 ^ 16\<close> blocks above the coin that
  is spent, or, when the type bit is set, the median time before the block is at least that many units of 512 seconds after the
  median time before the block of the coin.
\<close>

theorem csv_enforced:
  assumes "op_checksequenceverify env flags s = Inr s'" "has flags SCRIPT_VERIFY_CHECKSEQUENCEVERIFY"
    and "CheckSequence env = CheckSequence_tx tx nIn" "nIn < length (vin tx)"
    and "SequenceLocks S tx LOCKTIME_VERIFY_SEQUENCE prevHeights block = Inr True"
  shows "\<exists>nSeq. CScriptNum (stack s ! 0) (require_minimal flags) 5 = Inr nSeq \<and> 0 \<le> nSeq \<and>
    (bit nSeq 31 \<or>
     (if bit nSeq 22 then \<exists>p q. GetAncestor S block (max (prevHeights ! nIn - 1) 0) = Inr (Some p) \<and> pprev (S block) = Some q \<and>
        GetMedianTimePast S p + 512 * (nSeq mod 65536) \<le> GetMedianTimePast S q
      else prevHeights ! nIn + nSeq mod 65536 \<le> nHeight (S block)))"
proof -
  obtain nSeq where n: "CScriptNum (stack s ! 0) (require_minimal flags) 5 = Inr nSeq" "0 \<le> nSeq"
    "nSeq AND 2147483648 \<noteq> 0 \<or> CheckSequence_tx tx nIn nSeq"
    using assms(1-3) by (auto simp: op_checksequenceverify_def raised_Inr sbind_Inr_iff split: if_splits)
  show ?thesis
  proof (cases "bit nSeq 31")
    case True
    then show ?thesis using n by blast
  next
    case False
    let ?q = "int (unat (nSequence (vin tx ! nIn)))"
    have "CheckSequence_tx tx nIn nSeq" using n(3) False by (simp only: and_bit_31 simp_thms)
    then have c: "2 \<le> unat (scast (tx_nVersion tx) :: u32)" "\<not> bit ?q 31" "bit ?q 22 \<longleftrightarrow> bit nSeq 22" "nSeq mod 65536 \<le> ?q mod 65536"
      unfolding CheckSequence_tx_iff Let_def by blast+
    have f: "LOCKTIME_VERIFY_SEQUENCE AND LOCKTIME_VERIFY_SEQUENCE \<noteq> 0" by (simp add: LOCKTIME_VERIFY_SEQUENCE_def)
    obtain q h t where b: "pprev (S block) = Some q" "h < nHeight (S block)" "t < GetMedianTimePast S q"
      "input_bound S block h t (vin tx ! nIn, prevHeights ! nIn)"
      by (rule SequenceLocks_bounds [OF assms(5) f c(1) assms(4)])
    show ?thesis
    proof (cases "bit nSeq 22")
      case True
      then obtain p where p: "GetAncestor S block (max (prevHeights ! nIn - 1) 0) = Inr (Some p)"
        "GetMedianTimePast S p + 512 * (?q mod 65536) - 1 \<le> t" using b(4) c(2,3) by (auto simp: input_bound_def Let_def)
      then have "GetMedianTimePast S p + 512 * (nSeq mod 65536) \<le> GetMedianTimePast S q" using b(3) c(4) by linarith
      then show ?thesis using True n p(1) b(1) by auto
    next
      case False
      then have "prevHeights ! nIn + ?q mod 65536 - 1 \<le> h" using b(4) c(2,3) by (auto simp: input_bound_def Let_def)
      then show ?thesis using False n(1,2) b(2) c(4) by auto
    qed
  qed
qed

theorem csv_enforced_witness:
  "op_checksequenceverify locked_env SCRIPT_VERIFY_CHECKSEQUENCEVERIFY (locked_state 1) = Inr (locked_state 1) \<and>
   SequenceLocks ex_store locked_tx LOCKTIME_VERIFY_SEQUENCE [1] 2 = Inr True \<and>
   (\<exists>nSeq. CScriptNum [1] False 5 = Inr nSeq \<and> (bit nSeq 31 \<or> bit nSeq 22 \<or> 1 + nSeq mod 65536 \<le> nHeight (ex_store 2)))"
proof -
  have a: "op_checksequenceverify locked_env SCRIPT_VERIFY_CHECKSEQUENCEVERIFY (locked_state 1) = Inr (locked_state 1)"
  proof -
    have "CheckSequence_tx locked_tx 0 1" by (simp add: CheckSequence_tx_iff locked_tx_def Let_def)
    then show ?thesis
      by (simp add: op_checksequenceverify_def locked_env_def locked_state_def SCRIPT_VERIFY_CHECKSEQUENCEVERIFY_def
          raised_def CScriptNum_def set_vch_def vch_value_def)
  qed
  have b: "SequenceLocks ex_store locked_tx LOCKTIME_VERIFY_SEQUENCE [1] 2 = Inr True" by code_simp
  have c: "\<not> require_minimal SCRIPT_VERIFY_CHECKSEQUENCEVERIFY" "has SCRIPT_VERIFY_CHECKSEQUENCEVERIFY SCRIPT_VERIFY_CHECKSEQUENCEVERIFY"
    by (code_simp, code_simp)
  show ?thesis
  proof (intro conjI a b)
    have "CheckSequence locked_env = CheckSequence_tx locked_tx 0" "0 < length (vin locked_tx)"
      by (simp_all add: locked_env_def locked_tx_def)
    then show "\<exists>nSeq. CScriptNum [1] False 5 = Inr nSeq \<and> (bit nSeq 31 \<or> bit nSeq 22 \<or> 1 + nSeq mod 65536 \<le> nHeight (ex_store 2))"
      using csv_enforced [OF a c(2) _ _ b, of 0] c(1) by (auto simp: locked_state_def split: if_splits)
  qed
qed

end
