(* ===== verification/Coins_Update.thy ===== *)
theory Coins_Update
  imports Coins_View
begin

text \<open>
  Applying a transaction to the set of coins and undoing it: \<open>AddCoins\<close> of \<open>src/src/coins.cpp\<close>, and
  \<open>UpdateCoins\<close>, \<open>ApplyTxInUndo\<close> and the loop of \<open>DisconnectBlock\<close> over one transaction, of \<open>src/src/validation.cpp\<close>.
  The transaction hash is an argument; the optional address and spent indexes are not modelled.
\<close>

definition outpoint_at :: "bytes \<Rightarrow> nat \<Rightarrow> COutPoint" where
  "outpoint_at txid i = \<lparr>hash = txid, n = of_nat i\<rparr>"

fun add_outputs :: "(bytes \<Rightarrow> nat) \<Rightarrow> bytes \<Rightarrow> nat \<Rightarrow> bool \<Rightarrow> CTxOut list \<Rightarrow> nat \<Rightarrow> 's CCoinsViewCache \<Rightarrow>
    script_exn + 's CCoinsViewCache" where
  "add_outputs usage txid nHeight fCoinbase [] i c = Inr c"
| "add_outputs usage txid nHeight fCoinbase (out # outs) i c =
     sbind (AddCoin usage c (outpoint_at txid i)
        \<lparr>coin_out = out, fCoinBase = fCoinbase, coin_nHeight = nHeight\<rparr> fCoinbase)
       (\<lambda>c. add_outputs usage txid nHeight fCoinbase outs (Suc i) c)"

definition AddCoins :: "(bytes \<Rightarrow> nat) \<Rightarrow> CTransaction \<Rightarrow> bytes \<Rightarrow> nat \<Rightarrow> 's CCoinsViewCache \<Rightarrow>
    script_exn + 's CCoinsViewCache" where
  "AddCoins usage tx txid nHeight c = add_outputs usage txid nHeight (IsCoinBase tx) (vout tx) 0 c"

fun spend_inputs :: "(bytes \<Rightarrow> nat) \<Rightarrow> 's getter \<Rightarrow> CTxIn list \<Rightarrow> 's CCoinsViewCache \<Rightarrow>
    script_exn + Coin list \<times> 's CCoinsViewCache" where
  "spend_inputs usage get [] c = Inr ([], c)"
| "spend_inputs usage get (i # ins) c =
     (case SpendCoin usage get c (prevout i) of
        (None, c) \<Rightarrow> Inl Aborted
      | (Some cn, c) \<Rightarrow> sbind (spend_inputs usage get ins c) (\<lambda>(undo, c). Inr (cn # undo, c)))"

definition UpdateCoins :: "(bytes \<Rightarrow> nat) \<Rightarrow> 's getter \<Rightarrow> CTransaction \<Rightarrow> bytes \<Rightarrow> nat \<Rightarrow> 's CCoinsViewCache \<Rightarrow>
    script_exn + Coin list \<times> 's CCoinsViewCache" where
  "UpdateCoins usage get tx txid nHeight c =
     sbind (if IsCoinBase tx then Inr ([], c) else spend_inputs usage get (vin tx) c) (\<lambda>(undo, c).
     sbind (AddCoins usage tx txid nHeight c) (\<lambda>c. Inr (undo, c)))"

datatype DisconnectResult = DISCONNECT_OK | DISCONNECT_UNCLEAN | DISCONNECT_FAILED

definition MAX_OUTPUTS_PER_BLOCK :: nat where
  "MAX_OUTPUTS_PER_BLOCK = 2000000 div length (ser_txout SetNull_txout)"

function access_from :: "(bytes \<Rightarrow> nat) \<Rightarrow> 's getter \<Rightarrow> bytes \<Rightarrow> nat \<Rightarrow> 's CCoinsViewCache \<Rightarrow> Coin \<times> 's CCoinsViewCache" where
  "access_from usage get txid i c =
     (if i < MAX_OUTPUTS_PER_BLOCK then
        (case AccessCoin usage get c (outpoint_at txid i) of
           (alternate, c) \<Rightarrow> (if \<not> IsSpent alternate then (alternate, c) else access_from usage get txid (Suc i) c))
      else (coinEmpty, c))"
  by pat_completeness auto
termination
  by (relation "measure (\<lambda>(u, g, t, i, c). MAX_OUTPUTS_PER_BLOCK - i)") auto

definition AccessByTxid :: "(bytes \<Rightarrow> nat) \<Rightarrow> 's getter \<Rightarrow> bytes \<Rightarrow> 's CCoinsViewCache \<Rightarrow> Coin \<times> 's CCoinsViewCache" where
  "AccessByTxid usage get txid c = access_from usage get txid 0 c"

declare access_from.simps [simp del]

definition ApplyTxInUndo :: "(bytes \<Rightarrow> nat) \<Rightarrow> 's getter \<Rightarrow> Coin \<Rightarrow> COutPoint \<Rightarrow> 's CCoinsViewCache \<Rightarrow>
    script_exn + DisconnectResult \<times> 's CCoinsViewCache" where
  "ApplyTxInUndo usage get undo out c =
     (case HaveCoin usage get c out of
        (have_it, c) \<Rightarrow>
          (let fClean = \<not> have_it;
               (undo, c) =
                 (if coin_nHeight undo = 0 then
                    (case AccessByTxid usage get (hash out) c of
                       (alternate, c) \<Rightarrow>
                         (if \<not> IsSpent alternate
                          then (Some (undo\<lparr>coin_nHeight := coin_nHeight alternate, fCoinBase := fCoinBase alternate\<rparr>), c)
                          else (None, c)))
                  else (Some undo, c))
           in case undo of
                None \<Rightarrow> Inr (DISCONNECT_FAILED, c)
              | Some undo \<Rightarrow>
                  sbind (AddCoin usage c out undo (fCoinBase undo)) (\<lambda>c.
                    Inr (if fClean then DISCONNECT_OK else DISCONNECT_UNCLEAN, c))))"

text \<open>
  \<open>tx.vout[o] != coin.out\<close> compares the value, the rounds and the script; the rounds, which are never serialized, have their
  initial value in every output of a block and of a coin and are left out.
\<close>

definition txout_differs :: "CTxOut \<Rightarrow> CTxOut \<Rightarrow> bool" where
  "txout_differs a b \<longleftrightarrow> nValue a \<noteq> nValue b \<or> scriptPubKey a \<noteq> scriptPubKey b"

fun remove_outputs :: "(bytes \<Rightarrow> nat) \<Rightarrow> 's getter \<Rightarrow> bytes \<Rightarrow> nat \<Rightarrow> bool \<Rightarrow> CTxOut list \<Rightarrow> nat \<Rightarrow> bool \<Rightarrow> 's CCoinsViewCache \<Rightarrow>
    bool \<times> 's CCoinsViewCache" where
  "remove_outputs usage get txid nHeight is_coinbase [] i fClean c = (fClean, c)"
| "remove_outputs usage get txid nHeight is_coinbase (out # outs) i fClean c =
     (if IsUnspendable (scriptPubKey out) then remove_outputs usage get txid nHeight is_coinbase outs (Suc i) fClean c
      else case SpendCoin usage get c (outpoint_at txid i) of
        (r, c) \<Rightarrow>
          remove_outputs usage get txid nHeight is_coinbase outs (Suc i)
            (fClean \<and> (case r of
                None \<Rightarrow> False
              | Some cn \<Rightarrow> \<not> (txout_differs out (coin_out cn) \<or> nHeight \<noteq> coin_nHeight cn \<or> is_coinbase \<noteq> fCoinBase cn))) c)"

text \<open>The inputs are restored from the last to the first; the argument is the reversed list of inputs with their undo data.\<close>

fun restore_inputs :: "(bytes \<Rightarrow> nat) \<Rightarrow> 's getter \<Rightarrow> (CTxIn \<times> Coin) list \<Rightarrow> bool \<Rightarrow> 's CCoinsViewCache \<Rightarrow>
    script_exn + DisconnectResult \<times> 's CCoinsViewCache" where
  "restore_inputs usage get [] fClean c = Inr (if fClean then DISCONNECT_OK else DISCONNECT_UNCLEAN, c)"
| "restore_inputs usage get ((i, undo) # rest) fClean c =
     sbind (ApplyTxInUndo usage get undo (prevout i) c) (\<lambda>(res, c).
       if res = DISCONNECT_FAILED then Inr (DISCONNECT_FAILED, c)
       else restore_inputs usage get rest (fClean \<and> res \<noteq> DISCONNECT_UNCLEAN) c)"

definition disconnect_tx :: "(bytes \<Rightarrow> nat) \<Rightarrow> 's getter \<Rightarrow> CTransaction \<Rightarrow> bytes \<Rightarrow> nat \<Rightarrow> bool \<Rightarrow> Coin list \<Rightarrow> 's CCoinsViewCache \<Rightarrow>
    script_exn + DisconnectResult \<times> 's CCoinsViewCache" where
  "disconnect_tx usage get tx txid nHeight first undo c =
     (case remove_outputs usage get txid nHeight (IsCoinBase tx) (vout tx) 0 True c of
        (fClean, c) \<Rightarrow>
          (if first then Inr (if fClean then DISCONNECT_OK else DISCONNECT_UNCLEAN, c)
           else if length undo \<noteq> length (vin tx) then Inr (DISCONNECT_FAILED, c)
           else restore_inputs usage get (rev (zip (vin tx) undo)) fClean c))"

section \<open>The effect on the map of coins\<close>

fun put_outputs :: "bytes \<Rightarrow> nat \<Rightarrow> bool \<Rightarrow> CTxOut list \<Rightarrow> nat \<Rightarrow> (COutPoint \<Rightarrow> Coin option) \<Rightarrow> COutPoint \<Rightarrow> Coin option" where
  "put_outputs txid h cb [] i v = v"
| "put_outputs txid h cb (out # outs) i v =
     put_outputs txid h cb outs (Suc i)
       (if IsUnspendable (scriptPubKey out) then v
        else v(outpoint_at txid i \<mapsto> forget \<lparr>coin_out = out, fCoinBase = cb, coin_nHeight = h\<rparr>))"

fun drop_outputs :: "bytes \<Rightarrow> CTxOut list \<Rightarrow> nat \<Rightarrow> (COutPoint \<Rightarrow> Coin option) \<Rightarrow> COutPoint \<Rightarrow> Coin option" where
  "drop_outputs txid [] i v = v"
| "drop_outputs txid (out # outs) i v =
     drop_outputs txid outs (Suc i) (if IsUnspendable (scriptPubKey out) then v else v(outpoint_at txid i := None))"

lemma outpoint_at_inj: "i < 2 ^ 32 \<Longrightarrow> j < 2 ^ 32 \<Longrightarrow> outpoint_at txid i = outpoint_at txid j \<longleftrightarrow> i = j"
proof -
  assume "i < 2 ^ 32" "j < 2 ^ 32"
  then have "unat (of_nat i :: u32) = i" "unat (of_nat j :: u32) = j" by (simp_all add: unat_of_nat)
  then have "(of_nat i :: u32) = of_nat j \<longleftrightarrow> i = j" by metis
  then show ?thesis by (simp only: outpoint_at_def COutPoint.iffs simp_thms)
qed

text \<open>The outpoints of the outputs from index \<open>i\<close> on.\<close>

definition own :: "bytes \<Rightarrow> nat \<Rightarrow> nat \<Rightarrow> COutPoint set" where
  "own txid i len = outpoint_at txid ` {i..<i + len}"

lemma own_Suc: "own txid i (Suc len) = insert (outpoint_at txid i) (own txid (Suc i) len)"
  by (auto simp: own_def Suc_le_eq image_iff) (metis Suc_leI atLeastLessThan_iff le_neq_implies_less)

lemma own_head: "i + Suc len \<le> 2 ^ 32 \<Longrightarrow> outpoint_at txid i \<notin> own txid (Suc i) len"
  by (auto simp: own_def outpoint_at_inj)

lemma put_outputs_upd:
  "k \<notin> own txid i (length outs) \<Longrightarrow> put_outputs txid h cb outs i (v(k := x)) = (put_outputs txid h cb outs i v)(k := x)"
proof (induction outs arbitrary: i v)
  case (Cons out outs)
  then have k: "k \<noteq> outpoint_at txid i" "k \<notin> own txid (Suc i) (length outs)" by (auto simp: own_Suc)
  have "(v(k := x))(outpoint_at txid i := y) = (v(outpoint_at txid i := y))(k := x)" for y using k(1) by (rule fun_upd_twist)
  then show ?case using Cons.IH [OF k(2)] by (cases "IsUnspendable (scriptPubKey out)") (simp_all only: put_outputs.simps if_True if_False)
qed simp

lemma drop_put_outputs:
  "i + length outs \<le> 2 ^ 32 \<Longrightarrow> \<forall>k \<in> own txid i (length outs). v k = None \<Longrightarrow>
   drop_outputs txid outs i (put_outputs txid h cb outs i v) = v"
proof (induction outs arbitrary: i v)
  case (Cons out outs)
  have notin: "outpoint_at txid i \<notin> own txid (Suc i) (length outs)" using Cons.prems(1) own_head by simp
  have v: "v(outpoint_at txid i := None) = v" using Cons.prems(2) by (simp add: own_Suc fun_upd_idem)
  have "drop_outputs txid outs (Suc i) (put_outputs txid h cb outs (Suc i) v) = v"
    using Cons.prems by (intro Cons.IH) (auto simp: own_Suc)
  moreover have "(put_outputs txid h cb outs (Suc i) (v(outpoint_at txid i := x)))(outpoint_at txid i := None) =
      put_outputs txid h cb outs (Suc i) v" for x
    using put_outputs_upd [OF notin, of h cb "v(outpoint_at txid i := x)" None] v by simp
  ultimately show ?case by auto
qed simp

text \<open>The coins of the spendable outputs, as \<open>put_outputs\<close> leaves them.\<close>

definition has_outputs :: "bytes \<Rightarrow> nat \<Rightarrow> bool \<Rightarrow> CTxOut list \<Rightarrow> nat \<Rightarrow> (COutPoint \<Rightarrow> Coin option) \<Rightarrow> bool" where
  "has_outputs txid h cb outs i v \<longleftrightarrow> (\<forall>j < length outs. \<not> IsUnspendable (scriptPubKey (outs ! j)) \<longrightarrow>
     v (outpoint_at txid (i + j)) = Some (forget \<lparr>coin_out = outs ! j, fCoinBase = cb, coin_nHeight = h\<rparr>))"

lemma put_outputs_has: "i + length outs \<le> 2 ^ 32 \<Longrightarrow> has_outputs txid h cb outs i (put_outputs txid h cb outs i v)"
proof (induction outs arbitrary: i v)
  case (Cons out outs)
  have notin: "outpoint_at txid i \<notin> own txid (Suc i) (length outs)" using Cons.prems own_head by simp
  have "has_outputs txid h cb outs (Suc i) (put_outputs txid h cb outs (Suc i) w)" for w using Cons by simp
  moreover have "put_outputs txid h cb outs (Suc i) (v(outpoint_at txid i := x)) (outpoint_at txid i) = x" for x
    using put_outputs_upd [OF notin, of h cb v x] by simp
  ultimately show ?case by (auto simp: has_outputs_def nth_Cons' less_Suc_eq_0_disj)
qed (simp add: has_outputs_def)

lemma has_outputs_Cons:
  assumes "has_outputs txid h cb (out # outs) i v" "i + length (out # outs) \<le> 2 ^ 32"
  shows "has_outputs txid h cb outs (Suc i) v" "has_outputs txid h cb outs (Suc i) (v(outpoint_at txid i := None))"
    "\<not> IsUnspendable (scriptPubKey out) \<Longrightarrow> v (outpoint_at txid i) = Some (forget \<lparr>coin_out = out, fCoinBase = cb, coin_nHeight = h\<rparr>)"
proof -
  show 1: "has_outputs txid h cb outs (Suc i) v"
    using assms(1) by (fastforce simp: has_outputs_def)
  have "outpoint_at txid (Suc i + j) \<noteq> outpoint_at txid i" if "j < length outs" for j
    using assms(2) that outpoint_at_inj [of "Suc i + j" i txid] by simp
  then show "has_outputs txid h cb outs (Suc i) (v(outpoint_at txid i := None))" using 1 by (auto simp: has_outputs_def)
  show "\<not> IsUnspendable (scriptPubKey out) \<Longrightarrow> v (outpoint_at txid i) = Some (forget \<lparr>coin_out = out, fCoinBase = cb, coin_nHeight = h\<rparr>)"
    using assms(1) by (auto simp: has_outputs_def dest: spec [of _ 0])
qed

lemma forget_eqD:
  assumes "forget a = forget b"
  shows "nValue (coin_out a) = nValue (coin_out b)" "scriptPubKey (coin_out a) = scriptPubKey (coin_out b)"
    "fCoinBase a = fCoinBase b" "coin_nHeight a = coin_nHeight b"
  using arg_cong [OF assms, of "\<lambda>c. nValue (coin_out c)"] arg_cong [OF assms, of "\<lambda>c. scriptPubKey (coin_out c)"]
    arg_cong [OF assms, of fCoinBase] arg_cong [OF assms, of coin_nHeight]
  by (simp_all add: forget_def)

text \<open>The coins of a list of inputs, taken out of the map and put back.\<close>

definition minus_inputs :: "CTxIn list \<Rightarrow> (COutPoint \<Rightarrow> Coin option) \<Rightarrow> COutPoint \<Rightarrow> Coin option" where
  "minus_inputs ins v k = (if k \<in> prevout ` set ins then None else v k)"

fun put_inputs :: "(CTxIn \<times> Coin) list \<Rightarrow> (COutPoint \<Rightarrow> Coin option) \<Rightarrow> COutPoint \<Rightarrow> Coin option" where
  "put_inputs [] v = v"
| "put_inputs ((i, undo) # rest) v = put_inputs rest (v(prevout i \<mapsto> forget undo))"

definition restorable :: "Coin \<Rightarrow> bool" where
  "restorable cn \<longleftrightarrow> \<not> IsSpent cn \<and> coin_nHeight cn \<noteq> 0 \<and> \<not> IsUnspendable (scriptPubKey (coin_out cn))"

lemma put_inputs_lookup:
  "distinct (map (prevout \<circ> fst) ps) \<Longrightarrow> put_inputs ps v k = (case map_of (map (\<lambda>(i, u). (prevout i, forget u)) ps) k of
     None \<Rightarrow> v k | Some c \<Rightarrow> Some c)"
proof (induction ps arbitrary: v)
  case (Cons p ps)
  obtain i u where p: "p = (i, u)" by (cases p) auto
  have "map_of (map (\<lambda>(i, u). (prevout i, forget u)) ps) (prevout i) = None"
    using Cons.prems p by (force simp: map_of_eq_None_iff)
  then show ?case using Cons p by (auto split: option.splits)
qed simp

context coins_backend
begin

lemma add_outputs_ok:
  assumes "good usage c" "\<forall>out \<in> set outs. nValue out \<noteq> -1" "i + length outs \<le> 2 ^ 32"
    and "\<not> cb \<longrightarrow> (\<forall>k \<in> own txid i (length outs). shown c k = None)"
  shows "\<exists>c'. add_outputs usage txid h cb outs i c = Inr c' \<and> good usage c' \<and> shown c' = put_outputs txid h cb outs i (shown c)"
  using assms
proof (induction outs arbitrary: i c)
  case (Cons out outs)
  let ?cn = "\<lparr>coin_out = out, fCoinBase = cb, coin_nHeight = h\<rparr>" and ?k = "outpoint_at txid i"
  have "\<not> IsSpent ?cn" using Cons.prems(2) by (simp add: IsSpent_def)
  moreover have "\<not> cb \<longrightarrow> shown c ?k = None" using Cons.prems(4) by (simp add: own_Suc)
  ultimately obtain d where d: "AddCoin usage c ?k ?cn cb = Inr d" "good usage d"
    "shown d = (if IsUnspendable (scriptPubKey out) then shown c else (shown c)(?k \<mapsto> forget ?cn))"
    using AddCoin_ok [OF Cons.prems(1), of ?cn cb ?k] by auto
  have "\<not> cb \<longrightarrow> (\<forall>k \<in> own txid (Suc i) (length outs). shown d k = None)"
    using Cons.prems(3,4) own_head [of i "length outs" txid] d(3) by (auto simp: own_Suc)
  then obtain c' where "add_outputs usage txid h cb outs (Suc i) d = Inr c'" "good usage c'"
    "shown c' = put_outputs txid h cb outs (Suc i) (shown d)"
    using Cons.IH [OF d(2), of "Suc i"] Cons.prems(2,3) by auto
  then show ?case using d by simp
qed simp

lemma remove_outputs_ok:
  assumes "good usage c" "usage [] = 0" "i + length outs \<le> 2 ^ 32" "has_outputs txid h cb outs i (shown c)"
  shows "\<exists>c'. remove_outputs usage get txid h cb outs i fClean c = (fClean, c') \<and> good usage c' \<and> shown c' = drop_outputs txid outs i (shown c)"
  using assms
proof (induction outs arbitrary: i c)
  case (Cons out outs)
  note ho = has_outputs_Cons [OF Cons.prems(4) Cons.prems(3)]
  show ?case
  proof (cases "IsUnspendable (scriptPubKey out)")
    case True
    then show ?thesis using Cons.IH [OF Cons.prems(1,2), of "Suc i"] Cons.prems(3) ho(1) by simp
  next
    case False
    let ?cn = "\<lparr>coin_out = out, fCoinBase = cb, coin_nHeight = h\<rparr>" and ?k = "outpoint_at txid i"
    obtain r d where s: "SpendCoin usage get c ?k = (r, d)" by (rule prod.exhaust)
    have l: "good usage d" "shown d = (shown c)(?k := None)" "Option.bind r visible = shown c ?k"
      using SpendCoin_ok [OF Cons.prems(1) s Cons.prems(2)] by blast+
    obtain cn where r: "r = Some cn" "forget cn = forget ?cn"
      using l(3) ho(3) [OF False] by (cases r) (auto simp: visible_def split: if_splits)
    have "\<not> (txout_differs out (coin_out cn) \<or> h \<noteq> coin_nHeight cn \<or> cb \<noteq> fCoinBase cn)"
      using forget_eqD [OF r(2)] by (simp add: txout_differs_def)
    then have step: "remove_outputs usage get txid h cb (out # outs) i fClean c =
        remove_outputs usage get txid h cb outs (Suc i) fClean d" using False s r(1) by simp
    have "Suc i + length outs \<le> 2 ^ 32" using Cons.prems(3) by simp
    moreover have "has_outputs txid h cb outs (Suc i) (shown d)" unfolding l(2) by (rule ho(2))
    moreover have "drop_outputs txid (out # outs) i (shown c) = drop_outputs txid outs (Suc i) (shown d)"
      unfolding l(2) using False by simp
    ultimately show ?thesis using Cons.IH [OF l(1) Cons.prems(2)] step by metis
  qed
qed simp

lemma spend_inputs_ok:
  assumes "good usage c" "usage [] = 0" "distinct (map prevout ins)" "\<forall>i \<in> set ins. shown c (prevout i) \<noteq> None"
  shows "\<exists>undo c'. spend_inputs usage get ins c = Inr (undo, c') \<and> good usage c' \<and> shown c' = minus_inputs ins (shown c) \<and>
    list_all2 (\<lambda>i cn. visible cn = shown c (prevout i)) ins undo"
  using assms
proof (induction ins arbitrary: c)
  case Nil
  then show ?case by (simp add: minus_inputs_def fun_eq_iff)
next
  case (Cons i ins)
  obtain r d where s: "SpendCoin usage get c (prevout i) = (r, d)" by (rule prod.exhaust)
  note l = SpendCoin_ok [OF Cons.prems(1) s Cons.prems(2)]
  obtain cn where r: "r = Some cn" "visible cn = shown c (prevout i)" using l Cons.prems(4) by (cases r) auto
  have other: "shown d (prevout j) = shown c (prevout j)" if "j \<in> set ins" for j
  proof -
    have "prevout j \<noteq> prevout i" using Cons.prems(3) that by (metis distinct.simps(2) imageI list.simps(9) set_map)
    then show ?thesis using l by simp
  qed
  have rest: "distinct (map prevout ins)" "\<forall>j \<in> set ins. shown d (prevout j) \<noteq> None"
    using Cons.prems(3,4) by (simp_all add: other)
  obtain undo c' where u: "spend_inputs usage get ins d = Inr (undo, c')" "good usage c'" "shown c' = minus_inputs ins (shown d)"
    "list_all2 (\<lambda>i cn. visible cn = shown d (prevout i)) ins undo"
    using Cons.IH [OF _ Cons.prems(2) rest] l by blast
  have "list_all2 (\<lambda>i cn. visible cn = shown c (prevout i)) ins undo"
    using u(4) other by (auto simp: list_all2_conv_all_nth)
  moreover have "shown c' = minus_inputs (i # ins) (shown c)" using u(3) l by (auto simp: minus_inputs_def fun_eq_iff)
  ultimately show ?case using s r u by simp
qed

lemma ApplyTxInUndo_ok:
  assumes "good usage c" "restorable undo" "shown c k = None"
  shows "\<exists>c'. ApplyTxInUndo usage get undo k c = Inr (DISCONNECT_OK, c') \<and> good usage c' \<and> shown c' = (shown c)(k \<mapsto> forget undo)"
proof -
  obtain b d where h: "HaveCoin usage get c k = (b, d)" by (rule prod.exhaust)
  note l = HaveCoin_ok [OF assms(1) h]
  then obtain c' where "AddCoin usage d k undo (fCoinBase undo) = Inr c'" "good usage c'" "shown c' = (shown d)(k \<mapsto> forget undo)"
    using AddCoin_ok [of usage d undo "fCoinBase undo" k] assms by (auto simp: restorable_def)
  then show ?thesis using h l assms by (simp add: ApplyTxInUndo_def restorable_def)
qed

lemma restore_inputs_ok:
  assumes "good usage c" "\<forall>(i, u) \<in> set ps. restorable u \<and> shown c (prevout i) = None" "distinct (map (prevout \<circ> fst) ps)"
  shows "\<exists>c'. restore_inputs usage get ps True c = Inr (DISCONNECT_OK, c') \<and> good usage c' \<and> shown c' = put_inputs ps (shown c)"
  using assms
proof (induction ps arbitrary: c)
  case (Cons p ps)
  obtain i u where p: "p = (i, u)" by (cases p) auto
  obtain d where d: "ApplyTxInUndo usage get u (prevout i) c = Inr (DISCONNECT_OK, d)" "good usage d"
    "shown d = (shown c)(prevout i \<mapsto> forget u)"
    using ApplyTxInUndo_ok [OF Cons.prems(1), of u "prevout i"] Cons.prems(2) p by auto
  have "\<forall>(j, u) \<in> set ps. restorable u \<and> shown d (prevout j) = None"
  proof (clarify)
    fix j v
    assume j: "(j, v) \<in> set ps"
    then have "prevout j \<noteq> prevout i" using Cons.prems(3) p by force
    moreover have "restorable v \<and> shown c (prevout j) = None" using Cons.prems(2) j by fastforce
    ultimately show "restorable v \<and> shown d (prevout j) = None" using d(3) by simp
  qed
  moreover have "distinct (map (prevout \<circ> fst) ps)" using Cons.prems(3) by (simp add: comp_def)
  moreover have "restore_inputs usage get (p # ps) True c = restore_inputs usage get ps True d" using d(1) p by simp
  moreover have "put_inputs (p # ps) (shown c) = put_inputs ps (shown d)" unfolding d(3) p by simp
  ultimately show ?case using Cons.IH [OF d(2)] by metis
qed simp

text \<open>Connecting a transaction and disconnecting it again.\<close>

lemma connect_disconnect:
  assumes c: "good usage c" "usage [] = 0" and tx: "\<not> IsCoinBase tx" "distinct (map prevout (vin tx))"
      "\<forall>out \<in> set (vout tx). nValue out \<noteq> -1" "length (vout tx) \<le> 2 ^ 32"
    and ins: "\<forall>i \<in> set (vin tx). \<exists>cn. shown c (prevout i) = Some cn \<and> restorable cn"
    and outs: "\<forall>k \<in> own txid 0 (length (vout tx)). shown c k = None"
  shows "\<exists>undo c1 c2. UpdateCoins usage get tx txid h c = Inr (undo, c1) \<and> good usage c1 \<and>
    disconnect_tx usage get tx txid h False undo c1 = Inr (DISCONNECT_OK, c2) \<and> good usage c2 \<and> shown c2 = shown c"
proof -
  have ne: "\<forall>i \<in> set (vin tx). shown c (prevout i) \<noteq> None" using ins by fastforce
  obtain undo d where d: "spend_inputs usage get (vin tx) c = Inr (undo, d)" "good usage d"
    "shown d = minus_inputs (vin tx) (shown c)" "list_all2 (\<lambda>i cn. visible cn = shown c (prevout i)) (vin tx) undo"
    using spend_inputs_ok [OF c tx(2) ne] by blast
  have dn: "\<forall>k \<in> own txid 0 (length (vout tx)). shown d k = None" using outs d(3) by (simp add: minus_inputs_def)
  obtain c1 where c1: "add_outputs usage txid h False (vout tx) 0 d = Inr c1" "good usage c1"
    "shown c1 = put_outputs txid h False (vout tx) 0 (shown d)"
    using add_outputs_ok [OF d(2) tx(3), of 0 False txid] tx(4) dn by auto
  have u: "UpdateCoins usage get tx txid h c = Inr (undo, c1)" using tx(1) d(1) c1(1) by (simp add: UpdateCoins_def AddCoins_def)
  obtain e where e: "remove_outputs usage get txid h False (vout tx) 0 True c1 = (True, e)" "good usage e" "shown e = shown d"
    using remove_outputs_ok [OF c1(2) c(2), of 0 "vout tx" txid h False True] tx(4) c1(3) put_outputs_has [of 0 "vout tx"]
      drop_put_outputs [of 0 "vout tx" txid "shown d" h False] dn by auto
  have len: "length undo = length (vin tx)" using d(4) by (auto dest: list_all2_lengthD)
  let ?ps = "rev (zip (vin tx) undo)"
  have each: "visible u = shown c (prevout i) \<and> i \<in> set (vin tx)" if "(i, u) \<in> set (zip (vin tx) undo)" for i u
    using d(4) that by (auto simp: list_all2_iff dest: set_zip_leftD)
  have rs: "\<forall>(i, u) \<in> set ?ps. restorable u \<and> shown e (prevout i) = None"
  proof (clarify)
    fix i u
    assume "(i, u) \<in> set ?ps"
    then have iu: "visible u = shown c (prevout i)" "i \<in> set (vin tx)" using each by auto
    then obtain cn where "visible u = Some cn" "restorable cn" using ins by auto
    then have "restorable u" by (auto simp: visible_def restorable_def forget_def IsSpent_def split: if_splits)
    then show "restorable u \<and> shown e (prevout i) = None" using iu(2) e(3) d(3) by (simp add: minus_inputs_def)
  qed
  have ds: "distinct (map (prevout \<circ> fst) ?ps)" using tx(2) len by (simp add: rev_map [symmetric] map_map [symmetric] del: map_map)
  obtain c2 where c2: "restore_inputs usage get ?ps True e = Inr (DISCONNECT_OK, c2)" "good usage c2" "shown c2 = put_inputs ?ps (shown e)"
    using restore_inputs_ok [OF e(2) rs ds] by blast
  have "shown c2 k = shown c k" for k
  proof (cases "k \<in> prevout ` set (vin tx)")
    case True
    then obtain i u where iu: "(i, u) \<in> set ?ps" "prevout i = k"
      using len by (auto simp: set_zip in_set_conv_nth image_iff) (metis)
    have "map_of (map (\<lambda>(i, u). (prevout i, forget u)) ?ps) k = Some (forget u)"
    proof (rule map_of_is_SomeI)
      show "distinct (map fst (map (\<lambda>(i, u). (prevout i, forget u)) ?ps))" using ds by (simp add: comp_def case_prod_unfold)
      show "(k, forget u) \<in> set (map (\<lambda>(i, u). (prevout i, forget u)) ?ps)" using iu by force
    qed
    moreover have "shown c k = Some (forget u)"
      using each [of i u] iu ins by (auto simp: visible_def split: if_splits)
    ultimately show ?thesis using c2(3) put_inputs_lookup [OF ds] by simp
  next
    case False
    then have "map_of (map (\<lambda>(i, u). (prevout i, forget u)) ?ps) k = None"
      by (auto simp: map_of_eq_None_iff dest: set_zip_leftD)
    then show ?thesis using False c2(3) put_inputs_lookup [OF ds, of "shown e" k] e(3) d(3) by (simp add: minus_inputs_def)
  qed
  then show ?thesis using u c1(2) e(1) len tx(1) c2(1,2) by (auto simp: disconnect_tx_def)
qed

lemma ApplyTxInUndo_existing:
  assumes "good usage c" "restorable undo" "\<not> fCoinBase undo" "shown c k \<noteq> None"
  shows "ApplyTxInUndo usage get undo k c = Inl Thrown"
proof -
  obtain f d where f: "FetchCoin usage get c k = (f, d)" by (rule prod.exhaust)
  note l = FetchCoin_ok [OF assms(1) f]
  obtain e where e: "f = Some e" "\<not> IsSpent (coin e)" using l assms(4) by (cases f) (auto simp: visible_def split: if_splits)
  have "HaveCoin usage get c k = (True, d)" using f e by (simp add: HaveCoin_def)
  moreover have "AddCoin usage d k undo False = Inl Thrown"
    using l e assms(2) by (simp add: AddCoin_def restorable_def Let_def)
  ultimately show ?thesis using assms(2,3) by (simp add: ApplyTxInUndo_def restorable_def)
qed

end

section \<open>Properties\<close>

text \<open>The stack of views in which a block is connected and disconnected: a scratch cache over the tip over the database.\<close>

abbreviation block_inv :: "(bytes \<Rightarrow> nat) \<Rightarrow> CCoinsViewDB CCoinsViewCache CCoinsViewCache \<Rightarrow> bool" where
  "block_inv usage \<equiv> cache_inv usage (cache_inv usage db_inv db_view) (cache_view db_view)"

abbreviation block_view :: "CCoinsViewDB CCoinsViewCache CCoinsViewCache \<Rightarrow> COutPoint \<Rightarrow> Coin option" where
  "block_view \<equiv> cache_view (cache_view db_view)"

text \<open>
  C6. Disconnecting a transaction restores the set of coins: if \<open>UpdateCoins\<close> applies a transaction
  whose inputs are available coins (with known height) and whose outputs are new, it succeeds, and undoing it with the undo data it
  returned succeeds cleanly and leads back to the same map of unspent coins.
\<close>

theorem disconnect_undoes_connect:
  assumes "block_inv usage c" "usage [] = 0" and "\<not> IsCoinBase tx" "distinct (map prevout (vin tx))"
    and "\<forall>out \<in> set (vout tx). nValue out \<noteq> -1" "length (vout tx) \<le> 2 ^ 32"
    and "\<forall>i \<in> set (vin tx). \<exists>cn. block_view c (prevout i) = Some cn \<and> restorable cn"
    and "\<forall>j < length (vout tx). block_view c (outpoint_at txid j) = None"
  shows "\<exists>undo c1 c2. UpdateCoins usage (GetCoin usage db_GetCoin) tx txid nHeight c = Inr (undo, c1) \<and> block_inv usage c1 \<and>
    disconnect_tx usage (GetCoin usage db_GetCoin) tx txid nHeight False undo c1 = Inr (DISCONNECT_OK, c2) \<and>
    block_inv usage c2 \<and> block_view c2 = block_view c"
proof (rule tip.connect_disconnect [OF assms(1-7)])
  show "\<forall>k \<in> own txid 0 (length (vout tx)). block_view c k = None" using assms(8) by (auto simp: own_def)
qed

definition old_coin :: Coin where
  "old_coin = \<lparr>coin_out = \<lparr>nValue = 5, scriptPubKey = [0x51], sTxOutMessage = []\<rparr>, fCoinBase = False, coin_nHeight = 7\<rparr>"

definition example_view :: "CCoinsViewDB CCoinsViewCache CCoinsViewCache" where
  "example_view = \<lparr>base = \<lparr>base = \<lparr>db_coins = [(outpoint_at [1] 0, old_coin)], db_best = []\<rparr>, hashBlock = [], cacheCoins = [],
     cachedCoinsUsage = 0\<rparr>, hashBlock = [], cacheCoins = [], cachedCoinsUsage = 0\<rparr>"

definition spending_tx :: CTransaction where
  "spending_tx = \<lparr>tx_nVersion = 1, nType = 0, vin = [\<lparr>prevout = outpoint_at [1] 0, scriptSig = [], nSequence = SEQUENCE_FINAL\<rparr>],
     vout = [\<lparr>nValue = 4, scriptPubKey = [0x52], sTxOutMessage = [65]\<rparr>], nLockTime = 0, vExtraPayload = []\<rparr>"

lemma example_view_ok: "block_inv length example_view" "block_view example_view = (\<lambda>k. if k = outpoint_at [1] 0 then Some old_coin else None)"
  by (auto simp: cache_inv_def example_view_def db_inv_def entries_ok_def used_memory_def cache_view_def db_view_def
      forget_def old_coin_def IsSpent_def fun_eq_iff)

lemma old_coin_restorable: "restorable old_coin"
  by (simp add: restorable_def old_coin_def IsSpent_def IsUnspendable_def)

theorem disconnect_undoes_connect_witness:
  "\<exists>undo c1 c2. UpdateCoins length (GetCoin length db_GetCoin) spending_tx [2] 9 example_view = Inr (undo, c1) \<and>
    disconnect_tx length (GetCoin length db_GetCoin) spending_tx [2] 9 False undo c1 = Inr (DISCONNECT_OK, c2) \<and>
    block_view c2 = block_view example_view"
proof -
  have "\<not> IsCoinBase spending_tx" by (simp add: IsCoinBase_def spending_tx_def IsNull_outpoint_def outpoint_at_def)
  moreover have "\<forall>j < length (vout spending_tx). block_view example_view (outpoint_at [2] j) = None"
    by (simp add: example_view_ok outpoint_at_def)
  moreover have "\<forall>i \<in> set (vin spending_tx). \<exists>cn. block_view example_view (prevout i) = Some cn \<and> restorable cn"
    using old_coin_restorable by (simp add: example_view_ok spending_tx_def)
  moreover have "distinct (map prevout (vin spending_tx))" "\<forall>out \<in> set (vout spending_tx). nValue out \<noteq> -1"
    "length (vout spending_tx) \<le> 2 ^ 32" by (simp_all add: spending_tx_def)
  ultimately show ?thesis
    using disconnect_undoes_connect [OF example_view_ok(1), of spending_tx "[2]" 9] by fastforce
qed

text \<open>
  C37. Restoring a spent output that is still shown as unspent, unless it comes from a coinbase, ends with a
  \<open>logic_error\<close> thrown by \<open>AddCoin\<close>: the result \<open>DISCONNECT_UNCLEAN\<close>, which \<open>fClean\<close> prepares, is never
  returned for such an output.
\<close>

theorem ApplyTxInUndo_never_unclean:
  assumes "block_inv usage c" "restorable undo" "\<not> fCoinBase undo" "block_view c out \<noteq> None"
  shows "ApplyTxInUndo usage (GetCoin usage db_GetCoin) undo out c = Inl Thrown"
  by (rule tip.ApplyTxInUndo_existing [OF assms])

theorem ApplyTxInUndo_never_unclean_witness:
  "ApplyTxInUndo length (GetCoin length db_GetCoin) old_coin (outpoint_at [1] 0) example_view = Inl Thrown"
proof -
  have "\<not> fCoinBase old_coin" "block_view example_view (outpoint_at [1] 0) \<noteq> None"
    by (simp add: old_coin_def, simp add: example_view_ok)
  then show ?thesis
    using ApplyTxInUndo_never_unclean [OF example_view_ok(1) old_coin_restorable, of "outpoint_at [1] 0"] by blast
qed

end
