(* ===== verification/Tx_Checks.thy ===== *)
theory Tx_Checks
  imports Coins_Update Consensus_Params
begin

text \<open>
  The checks of a transaction in \<open>src/src/validation.cpp\<close>: \<open>GetLegacySigOpCount\<close>, \<open>GetP2SHSigOpCount\<close>,
  \<open>CheckTransaction\<close>, \<open>ContextualCheckTransaction\<close> and \<open>Consensus::CheckTxInputs\<close>.

  A rejection is the ban score, the reject code and the reason given to \<open>CValidationState::DoS\<close>; \<open>Invalid\<close> is the
  score 0. An exception or a failed assertion is a \<open>Failure\<close>.
\<close>

datatype tx_error = Reject nat nat string | Failure script_exn

definition REJECT_INVALID :: nat where "REJECT_INVALID = 0x10"
definition MAX_LEGACY_BLOCK_SIZE :: nat where "MAX_LEGACY_BLOCK_SIZE = 2000000"
definition MAX_TX_EXTRA_PAYLOAD :: nat where "MAX_TX_EXTRA_PAYLOAD = 10000"
definition COINBASE_MATURITY :: int where "COINBASE_MATURITY = 101"
definition MAX_STANDARD_TX_SIZE :: nat where "MAX_STANDARD_TX_SIZE = 100000"

definition TRANSACTION_NORMAL :: u16 where "TRANSACTION_NORMAL = 0"
definition TRANSACTION_PROVIDER_REGISTER :: u16 where "TRANSACTION_PROVIDER_REGISTER = 1"
definition TRANSACTION_PROVIDER_UPDATE_SERVICE :: u16 where "TRANSACTION_PROVIDER_UPDATE_SERVICE = 2"
definition TRANSACTION_PROVIDER_UPDATE_REGISTRAR :: u16 where "TRANSACTION_PROVIDER_UPDATE_REGISTRAR = 3"
definition TRANSACTION_PROVIDER_UPDATE_REVOKE :: u16 where "TRANSACTION_PROVIDER_UPDATE_REVOKE = 4"
definition TRANSACTION_COINBASE :: u16 where "TRANSACTION_COINBASE = 5"
definition TRANSACTION_QUORUM_COMMITMENT :: u16 where "TRANSACTION_QUORUM_COMMITMENT = 6"
definition TRANSACTION_NON_FINANCIAL :: u16 where "TRANSACTION_NON_FINANCIAL = 7"

section \<open>Signature operations\<close>

definition GetLegacySigOpCount :: "CTransaction \<Rightarrow> int" where
  "GetLegacySigOpCount tx =
     fold (\<lambda>txout nSigOps. nSigOps + GetSigOpCount (scriptPubKey txout) False) (vout tx)
       (fold (\<lambda>txin nSigOps. nSigOps + GetSigOpCount (scriptSig txin) False) (vin tx) 0)"

fun p2sh_loop :: "(bytes \<Rightarrow> nat) \<Rightarrow> 's getter \<Rightarrow> CTxIn list \<Rightarrow> int \<Rightarrow> 's CCoinsViewCache \<Rightarrow> script_exn + int \<times> 's CCoinsViewCache" where
  "p2sh_loop usage get [] nSigOps c = Inr (nSigOps, c)"
| "p2sh_loop usage get (i # ins) nSigOps c =
     (case AccessCoin usage get c (prevout i) of
        (cn, c) \<Rightarrow>
          (if IsSpent cn then Inl Aborted
           else let prev = scriptPubKey (coin_out cn) in
             p2sh_loop usage get ins
               (if IsPayToScriptHash prev then nSigOps + GetSigOpCountP2SH prev (scriptSig i) else nSigOps) c))"

definition GetP2SHSigOpCount :: "(bytes \<Rightarrow> nat) \<Rightarrow> 's getter \<Rightarrow> CTransaction \<Rightarrow> 's CCoinsViewCache \<Rightarrow> script_exn + int \<times> 's CCoinsViewCache" where
  "GetP2SHSigOpCount usage get tx c = (if IsCoinBase tx then Inr (0, c) else p2sh_loop usage get (vin tx) 0 c)"

section \<open>Checks without context\<close>

fun output_values :: "CTxOut list \<Rightarrow> int \<Rightarrow> tx_error + unit" where
  "output_values [] nValueOut = Inr ()"
| "output_values (txout # outs) nValueOut =
     (if nValue txout < 0 then Inl (Reject 100 REJECT_INVALID ''bad-txns-vout-negative'')
      else if nValue txout > MAX_MONEY then Inl (Reject 100 REJECT_INVALID ''bad-txns-vout-toolarge'')
      else let nValueOut = i64 (nValueOut + nValue txout) in
        if \<not> MoneyRange nValueOut then Inl (Reject 100 REJECT_INVALID ''bad-txns-txouttotal-toolarge'')
        else output_values outs nValueOut)"

fun duplicate_inputs :: "CTxIn list \<Rightarrow> COutPoint list \<Rightarrow> tx_error + unit" where
  "duplicate_inputs [] vInOutPoints = Inr ()"
| "duplicate_inputs (txin # ins) vInOutPoints =
     (if prevout txin \<in> set vInOutPoints then Inl (Reject 100 REJECT_INVALID ''bad-txns-inputs-duplicate'')
      else duplicate_inputs ins (prevout txin # vInOutPoints))"

definition CheckTransaction :: "CTransaction \<Rightarrow> tx_error + unit" where
  "CheckTransaction tx =
     (let allowEmptyTxInOut = (nType tx = TRANSACTION_QUORUM_COMMITMENT) in
      if \<not> allowEmptyTxInOut \<and> vin tx = [] then Inl (Reject 10 REJECT_INVALID ''bad-txns-vin-empty'')
      else if \<not> allowEmptyTxInOut \<and> vout tx = [] then Inl (Reject 10 REJECT_INVALID ''bad-txns-vout-empty'')
      else if length (ser_tx tx) > MAX_LEGACY_BLOCK_SIZE then Inl (Reject 100 REJECT_INVALID ''bad-txns-oversize'')
      else if length (vExtraPayload tx) > MAX_TX_EXTRA_PAYLOAD
      then Inl (Reject 100 REJECT_INVALID ''bad-txns-payload-oversize'')
      else sbind (output_values (vout tx) 0) (\<lambda>_.
           sbind (duplicate_inputs (vin tx) []) (\<lambda>_.
           if IsCoinBase tx then
             (let minCbSize = (if nType tx = TRANSACTION_COINBASE then 1 else 2);
                  size = length (scriptSig (vin tx ! 0)) in
              if size < minCbSize \<or> size > 100 then Inl (Reject 100 REJECT_INVALID ''bad-cb-length'') else Inr ())
           else if list_ex (\<lambda>txin. IsNull_outpoint (prevout txin)) (vin tx)
           then Inl (Reject 10 REJECT_INVALID ''bad-txns-prevout-null'')
           else Inr ())))"

text \<open>\<open>pindexPrev\<close> is given by its height; \<open>None\<close> is the null pointer.\<close>

definition ContextualCheckTransaction :: "Params \<Rightarrow> int option \<Rightarrow> CTransaction \<Rightarrow> tx_error + unit" where
  "ContextualCheckTransaction params prev tx =
     (let height = (case prev of None \<Rightarrow> 0 | Some h \<Rightarrow> h + 1);
          fDIP0001Active_context = (height \<ge> DIP0001Height params);
          fDIP0003Active_context = (height \<ge> DIP0003Height params) in
      sbind
        (if fDIP0003Active_context then
           (if sint (tx_nVersion tx) \<ge> 3 then
              (if nType tx \<noteq> TRANSACTION_NORMAL \<and> nType tx \<noteq> TRANSACTION_PROVIDER_REGISTER \<and>
                  nType tx \<noteq> TRANSACTION_PROVIDER_UPDATE_SERVICE \<and> nType tx \<noteq> TRANSACTION_PROVIDER_UPDATE_REGISTRAR \<and>
                  nType tx \<noteq> TRANSACTION_PROVIDER_UPDATE_REVOKE \<and> nType tx \<noteq> TRANSACTION_COINBASE \<and>
                  nType tx \<noteq> TRANSACTION_QUORUM_COMMITMENT \<and> nType tx \<noteq> TRANSACTION_NON_FINANCIAL
               then Inl (Reject 100 REJECT_INVALID ''bad-txns-type'')
               else if IsCoinBase tx \<and> nType tx \<noteq> TRANSACTION_COINBASE
               then Inl (Reject 100 REJECT_INVALID ''bad-txns-cb-type'')
               else Inr ())
            else if nType tx \<noteq> TRANSACTION_NORMAL then Inl (Reject 100 REJECT_INVALID ''bad-txns-type'')
            else Inr ())
         else Inr ())
        (\<lambda>_. if fDIP0001Active_context \<and> length (ser_tx tx) > MAX_STANDARD_TX_SIZE
              then Inl (Reject 100 REJECT_INVALID ''bad-txns-oversize'') else Inr ()))"

section \<open>Checks of the inputs\<close>

definition failing :: "script_exn + 'a \<Rightarrow> tx_error + 'a" where
  "failing m = (case m of Inl e \<Rightarrow> Inl (Failure e) | Inr x \<Rightarrow> Inr x)"

fun input_values :: "(bytes \<Rightarrow> nat) \<Rightarrow> 's getter \<Rightarrow> int \<Rightarrow> CTxIn list \<Rightarrow> int \<Rightarrow> 's CCoinsViewCache \<Rightarrow> tx_error + int \<times> 's CCoinsViewCache" where
  "input_values usage get nSpendHeight [] nValueIn c = Inr (nValueIn, c)"
| "input_values usage get nSpendHeight (i # ins) nValueIn c =
     (case AccessCoin usage get c (prevout i) of
        (cn, c) \<Rightarrow>
          (if IsSpent cn then Inl (Failure Aborted)
           else if fCoinBase cn \<and> nSpendHeight - int (coin_nHeight cn) < COINBASE_MATURITY
           then Inl (Reject 0 REJECT_INVALID ''bad-txns-premature-spend-of-coinbase'')
           else let nValueIn = i64 (nValueIn + nValue (coin_out cn)) in
             if \<not> MoneyRange (nValue (coin_out cn)) \<or> \<not> MoneyRange nValueIn
             then Inl (Reject 100 REJECT_INVALID ''bad-txns-inputvalues-outofrange'')
             else input_values usage get nSpendHeight ins nValueIn c))"

definition CheckTxInputs :: "(bytes \<Rightarrow> nat) \<Rightarrow> 's getter \<Rightarrow> CTransaction \<Rightarrow> int \<Rightarrow> 's CCoinsViewCache \<Rightarrow> tx_error + 's CCoinsViewCache" where
  "CheckTxInputs usage get tx nSpendHeight c =
     (case HaveInputs usage get tx c of
        (False, c) \<Rightarrow> Inl (Reject 0 0 '''')
      | (True, c) \<Rightarrow>
          sbind (input_values usage get nSpendHeight (vin tx) 0 c) (\<lambda>(nValueIn, c).
          sbind (failing (GetValueOut tx)) (\<lambda>nValueOut.
            if nValueIn < nValueOut then Inl (Reject 100 REJECT_INVALID ''bad-txns-in-belowout'')
            else let nTxFee = nValueIn - nValueOut in
              if nTxFee < 0 then Inl (Reject 100 REJECT_INVALID ''bad-txns-fee-negative'')
              else if \<not> MoneyRange (0 + nTxFee) then Inl (Reject 100 REJECT_INVALID ''bad-txns-fee-outofrange'')
              else Inr c)))"

section \<open>What the checks establish\<close>

lemma output_values_ok:
  "MoneyRange acc \<Longrightarrow> output_values outs acc = Inr () \<longleftrightarrow>
     (\<forall>out \<in> set outs. MoneyRange (nValue out)) \<and> MoneyRange (acc + sum_list (map nValue outs))"
proof -
  assume acc: "MoneyRange acc"
  have "output_values outs acc = Inr () \<longleftrightarrow> (\<exists>r. value_loop outs acc = Inr r)"
    by (induction outs arbitrary: acc) (auto simp: Let_def MoneyRange_def)
  then show ?thesis using value_loop_ok [OF acc, of outs] by auto
qed

lemma duplicate_inputs_ok:
  "duplicate_inputs ins seen = Inr () \<longleftrightarrow> distinct (map prevout ins) \<and> set seen \<inter> prevout ` set ins = {}"
  by (induction ins arbitrary: seen) auto

lemma MoneyRange_0: "MoneyRange 0"
  by (simp add: MoneyRange_def MAX_MONEY_def COIN_def)

lemma output_values_no_failure: "output_values outs acc \<noteq> Inl (Failure e)"
  by (induction outs arbitrary: acc) (auto simp: Let_def)

lemma duplicate_inputs_no_failure: "duplicate_inputs ins seen \<noteq> Inl (Failure e)"
  by (induction ins arbitrary: seen) auto

lemma CheckTransaction_no_failure: "CheckTransaction tx \<noteq> Inl (Failure e)"
proof (cases "output_values (vout tx) 0")
  case (Inl x)
  then have "x \<noteq> Failure e" using output_values_no_failure by metis
  then show ?thesis by (simp add: CheckTransaction_def Let_def Inl)
next
  case (Inr u)
  then show ?thesis
  proof (cases "duplicate_inputs (vin tx) []")
    case (Inl x)
    then have "x \<noteq> Failure e" using duplicate_inputs_no_failure by metis
    then show ?thesis by (simp add: CheckTransaction_def Let_def Inl Inr)
  next
    case (Inr w)
    then show ?thesis by (simp add: CheckTransaction_def Let_def Inr \<open>output_values (vout tx) 0 = Inr u\<close>)
  qed
qed

lemma CheckTransaction_iff:
  "CheckTransaction tx = Inr () \<longleftrightarrow>
     (nType tx = TRANSACTION_QUORUM_COMMITMENT \<or> vin tx \<noteq> [] \<and> vout tx \<noteq> []) \<and>
     length (ser_tx tx) \<le> 2000000 \<and> length (vExtraPayload tx) \<le> 10000 \<and>
     (\<forall>out \<in> set (vout tx). MoneyRange (nValue out)) \<and> MoneyRange (sum_list (map nValue (vout tx))) \<and>
     distinct (map prevout (vin tx)) \<and>
     (if IsCoinBase tx
      then (if nType tx = TRANSACTION_COINBASE then 1 else 2) \<le> length (scriptSig (hd (vin tx))) \<and> length (scriptSig (hd (vin tx))) \<le> 100
      else \<forall>i \<in> set (vin tx). \<not> IsNull_outpoint (prevout i))"
proof -
  have hd: "IsCoinBase tx \<Longrightarrow> vin tx ! 0 = hd (vin tx)" by (cases "vin tx") (auto simp: IsCoinBase_def)
  have ov: "output_values (vout tx) 0 = Inr () \<longleftrightarrow>
      (\<forall>out \<in> set (vout tx). MoneyRange (nValue out)) \<and> MoneyRange (sum_list (map nValue (vout tx)))"
    using output_values_ok [OF MoneyRange_0, of "vout tx"] by simp
  have di: "duplicate_inputs (vin tx) [] = Inr () \<longleftrightarrow> distinct (map prevout (vin tx))"
    using duplicate_inputs_ok [of "vin tx" "[]"] by simp
  show ?thesis unfolding ov [symmetric] di [symmetric] conj_assoc [symmetric]
    by (auto simp: CheckTransaction_def Let_def sbind_Inr_iff hd list_ex_iff MAX_LEGACY_BLOCK_SIZE_def MAX_TX_EXTRA_PAYLOAD_def Suc_le_eq)
qed

lemma CheckTransactionD:
  assumes "CheckTransaction tx = Inr ()"
  shows "\<forall>out \<in> set (vout tx). MoneyRange (nValue out)" "distinct (map prevout (vin tx))" "length (ser_tx tx) \<le> 2000000"
    "MoneyRange (sum_list (map nValue (vout tx)))"
  using assms unfolding CheckTransaction_iff by blast+

text \<open>What the checks of the inputs ask for, over the map of unspent coins that the view shows.\<close>

definition mature :: "int \<Rightarrow> Coin \<Rightarrow> bool" where
  "mature h cn \<longleftrightarrow> (fCoinBase cn \<longrightarrow> COINBASE_MATURITY \<le> h - int (coin_nHeight cn))"

definition inputs_total :: "(COutPoint \<Rightarrow> Coin option) \<Rightarrow> CTxIn list \<Rightarrow> int" where
  "inputs_total utxo ins = sum_list (map (\<lambda>i. nValue (coin_out (the (utxo (prevout i))))) ins)"

definition inputs_spendable :: "int \<Rightarrow> (COutPoint \<Rightarrow> Coin option) \<Rightarrow> CTxIn list \<Rightarrow> bool" where
  "inputs_spendable h utxo ins \<longleftrightarrow>
     (\<forall>i \<in> set ins. mature h (the (utxo (prevout i))) \<and> MoneyRange (nValue (coin_out (the (utxo (prevout i))))))"

definition inputs_pay :: "int \<Rightarrow> (COutPoint \<Rightarrow> Coin option) \<Rightarrow> CTransaction \<Rightarrow> bool" where
  "inputs_pay h utxo tx \<longleftrightarrow>
     (\<forall>i \<in> set (vin tx). utxo (prevout i) \<noteq> None) \<and> inputs_spendable h utxo (vin tx) \<and>
     MoneyRange (inputs_total utxo (vin tx)) \<and> (\<exists>v. GetValueOut tx = Inr v) \<and>
     sum_list (map nValue (vout tx)) \<le> inputs_total utxo (vin tx)"

context coins_backend
begin

lemma have_loop_ok:
  "good usage c \<Longrightarrow> have_loop usage get ins c = (r, c') \<Longrightarrow>
   good usage c' \<and> shown c' = shown c \<and> (r \<longleftrightarrow> (\<forall>i \<in> set ins. shown c (prevout i) \<noteq> None))"
proof (induction ins arbitrary: c)
  case (Cons i ins)
  obtain b d where h: "HaveCoin usage get c (prevout i) = (b, d)" by (rule prod.exhaust)
  note l = HaveCoin_ok [OF Cons.prems(1) h]
  show ?case
  proof (cases b)
    case True
    then have "have_loop usage get ins d = (r, c')" using Cons.prems(2) h by simp
    then show ?thesis using Cons.IH [of d] l True by auto
  next
    case False
    then show ?thesis using Cons.prems(2) h l by auto
  qed
qed simp

lemma input_step:
  assumes g: "good usage c" and acc: "MoneyRange acc" and sh: "shown c (prevout i) = Some cn"
    and a: "AccessCoin usage get c (prevout i) = (d, c1)"
  shows "input_values usage get h (i # ins) acc c =
     (if \<not> mature h cn then Inl (Reject 0 REJECT_INVALID ''bad-txns-premature-spend-of-coinbase'')
      else if \<not> MoneyRange (nValue (coin_out cn)) \<or> \<not> MoneyRange (acc + nValue (coin_out cn))
      then Inl (Reject 100 REJECT_INVALID ''bad-txns-inputvalues-outofrange'')
      else input_values usage get h ins (acc + nValue (coin_out cn)) c1)"
proof -
  have v: "visible d = Some cn" using AccessCoin_ok [OF g a] sh by simp
  then have d: "\<not> IsSpent d" "cn = forget d" by (auto simp: visible_def split: if_splits)
  have same: "fCoinBase d = fCoinBase cn" "coin_nHeight d = coin_nHeight cn" "nValue (coin_out d) = nValue (coin_out cn)"
    using d(2) by (simp_all add: forget_def)
  have "MoneyRange (nValue (coin_out cn)) \<Longrightarrow> i64 (acc + nValue (coin_out cn)) = acc + nValue (coin_out cn)"
    using acc by (intro i64_ident) (auto simp: MoneyRange_def MAX_MONEY_def COIN_def)
  then show ?thesis using a d(1) same
    by (cases "MoneyRange (nValue (coin_out cn))") (auto simp: Let_def mature_def)
qed

lemma input_values_ok:
  assumes "good usage c" "MoneyRange acc" "\<forall>i \<in> set ins. shown c (prevout i) \<noteq> None"
  shows "(\<exists>r c'. input_values usage get h ins acc c = Inr (r, c') \<and> good usage c' \<and> shown c' = shown c \<and>
       r = acc + inputs_total (shown c) ins \<and> MoneyRange r \<and> inputs_spendable h (shown c) ins) \<or>
    (\<exists>n s. input_values usage get h ins acc c = Inl (Reject n REJECT_INVALID s)) \<and>
       \<not> (inputs_spendable h (shown c) ins \<and> MoneyRange (acc + inputs_total (shown c) ins))"
  using assms
proof (induction ins arbitrary: c acc)
  case Nil
  then show ?case by (simp add: inputs_total_def inputs_spendable_def)
next
  case (Cons i ins)
  obtain d c1 where a: "AccessCoin usage get c (prevout i) = (d, c1)" by (rule prod.exhaust)
  obtain cn where cn: "shown c (prevout i) = Some cn" using Cons.prems(3) by auto
  note step = input_step [OF Cons.prems(1,2) cn a, of h ins]
  note ac = AccessCoin_ok [OF Cons.prems(1) a]
  let ?v = "nValue (coin_out cn)"
  have tot: "inputs_total (shown c) (i # ins) = ?v + inputs_total (shown c) ins"
    and sp: "inputs_spendable h (shown c) (i # ins) \<longleftrightarrow> mature h cn \<and> MoneyRange ?v \<and> inputs_spendable h (shown c) ins"
    using cn by (simp_all add: inputs_total_def inputs_spendable_def)
  have pos: "inputs_spendable h (shown c) ins \<Longrightarrow> 0 \<le> inputs_total (shown c) ins"
    unfolding inputs_total_def inputs_spendable_def by (rule sum_list_nonneg) (auto simp: MoneyRange_def)
  show ?case
  proof (cases "mature h cn \<and> MoneyRange ?v \<and> MoneyRange (acc + ?v)")
    case True
    then have eq: "input_values usage get h (i # ins) acc c = input_values usage get h ins (acc + ?v) c1" using step by simp
    have "\<forall>i \<in> set ins. shown c1 (prevout i) \<noteq> None" using Cons.prems(3) ac by simp
    from Cons.IH [OF conjunct1 [OF ac] _ this, of "acc + ?v"] show ?thesis
      using True ac unfolding eq tot sp by (simp add: add.assoc)
  next
    case False
    then have "\<not> (inputs_spendable h (shown c) (i # ins) \<and> MoneyRange (acc + inputs_total (shown c) (i # ins)))"
      using pos Cons.prems(2) unfolding tot sp by (auto simp: MoneyRange_def)
    then show ?thesis using step False by auto
  qed
qed

lemma CheckTxInputs_ok:
  assumes g: "good usage c" and cb: "\<not> IsCoinBase tx"
  shows "(\<exists>c'. CheckTxInputs usage get tx h c = Inr c' \<and> good usage c' \<and> shown c' = shown c \<and> inputs_pay h (shown c) tx) \<or>
    (\<exists>e. CheckTxInputs usage get tx h c = Inl e \<and> (e = Failure Thrown \<longrightarrow> (\<exists>x. GetValueOut tx = Inl x)) \<and> e \<noteq> Failure Aborted) \<and>
      \<not> inputs_pay h (shown c) tx"
proof -
  obtain r c1 where h: "HaveInputs usage get tx c = (r, c1)" by (rule prod.exhaust)
  have "have_loop usage get (vin tx) c = (r, c1)" using h cb by (simp add: HaveInputs_def)
  note hl = have_loop_ok [OF g this]
  note out = value_loop_ok [OF MoneyRange_0, of "vout tx", folded GetValueOut_def]
  show ?thesis
  proof (cases r)
    case False
    then have "\<not> inputs_pay h (shown c) tx" using hl by (auto simp: inputs_pay_def)
    then show ?thesis using h False by (auto simp: CheckTxInputs_def)
  next
    case True
    then have av: "\<forall>i \<in> set (vin tx). shown c1 (prevout i) \<noteq> None" using hl by simp
    have c1: "good usage c1" "shown c1 = shown c" using hl by auto
    from input_values_ok [OF c1(1) MoneyRange_0 av, of h] show ?thesis
    proof (elim disjE exE conjE)
      fix v c2
      assume iv: "input_values usage get h (vin tx) 0 c1 = Inr (v, c2)" and c2: "good usage c2" "shown c2 = shown c1"
        and v: "v = 0 + inputs_total (shown c1) (vin tx)" "MoneyRange v" and sp: "inputs_spendable h (shown c1) (vin tx)"
      show ?thesis
      proof (cases "GetValueOut tx")
        case (Inl e)
        then have "\<not> inputs_pay h (shown c) tx" using out by (auto simp: inputs_pay_def)
        moreover have "e = Thrown" using Inl unfolding GetValueOut_def by (rule value_loop_Inl)
        ultimately show ?thesis using h True iv Inl by (auto simp: CheckTxInputs_def failing_def)
      next
        case (Inr w)
        then have w: "w = sum_list (map nValue (vout tx))" "MoneyRange w" using out [of w] by auto
        have "inputs_pay h (shown c) tx \<longleftrightarrow> w \<le> v"
          using True hl v sp c1 Inr unfolding inputs_pay_def w(1) by auto
        then show ?thesis using h True iv Inr v(2) w(2) c1 c2
          by (cases "v < w") (auto simp: CheckTxInputs_def failing_def MoneyRange_def)
      qed
    next
      fix k s
      assume "input_values usage get h (vin tx) 0 c1 = Inl (Reject k REJECT_INVALID s)"
        and "\<not> (inputs_spendable h (shown c1) (vin tx) \<and> MoneyRange (0 + inputs_total (shown c1) (vin tx)))"
      then show ?thesis using h True c1 by (auto simp: CheckTxInputs_def inputs_pay_def)
    qed
  qed
qed

end

text \<open>An example: a transaction that spends one coin.\<close>

lemma spending_tx_pays: "inputs_pay 9 (block_view example_view) spending_tx"
proof -
  have "GetValueOut spending_tx = Inr 4"
    by (simp add: GetValueOut_def spending_tx_def Let_def MoneyRange_def MAX_MONEY_def COIN_def i64_ident)
  then show ?thesis
    by (simp add: inputs_pay_def inputs_spendable_def inputs_total_def spending_tx_def example_view_ok
        mature_def old_coin_def MoneyRange_def MAX_MONEY_def COIN_def)
qed

lemma spending_tx_not_coinbase: "\<not> IsCoinBase spending_tx"
  by (simp add: IsCoinBase_def spending_tx_def IsNull_outpoint_def outpoint_at_def)

lemma spending_tx_accepted: "CheckTransaction spending_tx = Inr ()"
proof -
  have "length (ser_tx spending_tx) \<le> 2000000"
    by (simp add: spending_tx_def ser_tx_def ser_txin_def ser_txout_def ser_outpoint_def write_vector_def write_blob_def
        WriteCompactSize_def ser_writedata8_def ser_writedata32_def ser_writedata64_def outpoint_at_def has_payload_def)
  then show ?thesis using spending_tx_not_coinbase
    by (simp add: CheckTransaction_iff)
      (simp add: spending_tx_def MoneyRange_def MAX_MONEY_def COIN_def IsNull_outpoint_def outpoint_at_def)
qed

section \<open>Properties\<close>

text \<open>
  C17. \<open>CheckTransaction\<close> accepts a transaction exactly when it has inputs and outputs (unless it is a quorum
  commitment), fits the size limits, pays amounts whose values and total are within the money range, spends no outpoint
  twice, and has a coinbase script of the permitted length or no null outpoint. It never fails, and the total of the
  outputs of an accepted transaction is computed by \<open>GetValueOut\<close> without an exception.
\<close>

theorem CheckTransaction_accepts:
  "(CheckTransaction tx = Inr () \<longleftrightarrow>
     (nType tx = TRANSACTION_QUORUM_COMMITMENT \<or> vin tx \<noteq> [] \<and> vout tx \<noteq> []) \<and>
     length (ser_tx tx) \<le> 2000000 \<and> length (vExtraPayload tx) \<le> 10000 \<and>
     (\<forall>out \<in> set (vout tx). MoneyRange (nValue out)) \<and> MoneyRange (sum_list (map nValue (vout tx))) \<and>
     distinct (map prevout (vin tx)) \<and>
     (if IsCoinBase tx
      then (if nType tx = TRANSACTION_COINBASE then 1 else 2) \<le> length (scriptSig (hd (vin tx))) \<and> length (scriptSig (hd (vin tx))) \<le> 100
      else \<forall>i \<in> set (vin tx). \<not> IsNull_outpoint (prevout i))) \<and>
   CheckTransaction tx \<noteq> Inl (Failure e) \<and>
   (CheckTransaction tx = Inr () \<longrightarrow> GetValueOut tx = Inr (sum_list (map nValue (vout tx))))"
proof -
  have "GetValueOut tx = Inr (sum_list (map nValue (vout tx)))" if "CheckTransaction tx = Inr ()"
    using value_loop_ok [OF MoneyRange_0, of "vout tx", folded GetValueOut_def] CheckTransactionD [OF that] by simp
  then show ?thesis using CheckTransaction_iff CheckTransaction_no_failure by blast
qed

theorem CheckTransaction_accepts_witness:
  "CheckTransaction spending_tx = Inr () \<and> GetValueOut spending_tx = Inr 4"
proof -
  have "sum_list (map nValue (vout spending_tx)) = 4" by (simp add: spending_tx_def)
  then show ?thesis using CheckTransaction_accepts [of spending_tx] spending_tx_accepted by metis
qed

text \<open>
  C16. On the view in which a block is connected, \<open>CheckTxInputs\<close> accepts a transaction other than a coinbase exactly
  when all its inputs are unspent coins, coinbase coins among them are at least 101 blocks deep, every value and the
  total of the inputs are within the money range, and the outputs have a total that the inputs cover. The view keeps
  showing the same coins. No assertion fails, and an exception comes only from outputs outside the money range.
\<close>

theorem CheckTxInputs_accepts:
  assumes "block_inv usage c" and "\<not> IsCoinBase tx"
  shows "(\<exists>c'. CheckTxInputs usage (GetCoin usage db_GetCoin) tx h c = Inr c' \<and> block_inv usage c' \<and> block_view c' = block_view c \<and>
      inputs_pay h (block_view c) tx) \<or>
    (\<exists>e. CheckTxInputs usage (GetCoin usage db_GetCoin) tx h c = Inl e \<and> (e = Failure Thrown \<longrightarrow> (\<exists>x. GetValueOut tx = Inl x)) \<and>
      e \<noteq> Failure Aborted) \<and> \<not> inputs_pay h (block_view c) tx"
  by (rule tip.CheckTxInputs_ok [OF assms])

theorem CheckTxInputs_accepts_witness:
  "\<exists>c'. CheckTxInputs length (GetCoin length db_GetCoin) spending_tx 9 example_view = Inr c' \<and>
     block_view c' = block_view example_view"
  using CheckTxInputs_accepts [OF example_view_ok(1) spending_tx_not_coinbase, of 9] spending_tx_pays by blast

end
