(* ===== verification/Money_Supply.thy ===== *)
theory Money_Supply
  imports Tx_Checks
begin

text \<open>
  The amount of money in the set of coins, and what the accepted transactions do to it: the lemmas that join the checks
  of \<open>Tx_Checks\<close> with the update of the coins in \<open>Coins_Update\<close>.
\<close>

definition money_supply :: "(COutPoint \<Rightarrow> Coin option) \<Rightarrow> int" where
  "money_supply utxo = (\<Sum>k \<in> dom utxo. nValue (coin_out (the (utxo k))))"

text \<open>The outputs that enter the set of coins: the others are provably unspendable.\<close>

definition spendable_outputs :: "CTxOut list \<Rightarrow> CTxOut list" where
  "spendable_outputs outs = filter (\<lambda>out. \<not> IsUnspendable (scriptPubKey out)) outs"

lemma finite_overlay: "finite (dom bview) \<Longrightarrow> finite (dom (overlay bview m))"
proof -
  assume "finite (dom bview)"
  moreover have "dom (overlay bview m) \<subseteq> dom bview \<union> fst ` set m"
  proof
    fix k
    assume k: "k \<in> dom (overlay bview m)"
    show "k \<in> dom bview \<union> fst ` set m"
    proof (cases "map_of m k")
      case None
      then show ?thesis using k by (auto simp: overlay_def)
    next
      case (Some e)
      then show ?thesis by (auto dest: map_of_SomeD intro: rev_image_eqI)
    qed
  qed
  ultimately show ?thesis using finite_subset by fastforce
qed

lemma finite_block_view: "finite (dom (block_view c))"
  unfolding cache_view_def db_view_def by (intro finite_overlay finite_dom_map_of)

lemma supply_insert:
  assumes "finite (dom v)" "v k = None"
  shows "money_supply (v(k \<mapsto> cn)) = money_supply v + nValue (coin_out cn)"
proof -
  have "k \<notin> dom v" using assms(2) by auto
  moreover have "money_supply (v(k \<mapsto> cn)) = (\<Sum>j \<in> insert k (dom v). nValue (coin_out (the ((v(k \<mapsto> cn)) j))))"
    by (simp add: money_supply_def)
  moreover have "(\<Sum>j \<in> dom v. nValue (coin_out (the ((v(k \<mapsto> cn)) j)))) = money_supply v"
    unfolding money_supply_def using \<open>k \<notin> dom v\<close> by (intro sum.cong) auto
  ultimately show ?thesis using assms(1) by simp
qed

lemma supply_put_outputs:
  assumes "finite (dom v)" "i + length outs \<le> 2 ^ 32" "\<forall>k \<in> own txid i (length outs). v k = None"
  shows "money_supply (put_outputs txid h cb outs i v) = money_supply v + sum_list (map nValue (spendable_outputs outs))"
  using assms
proof (induction outs arbitrary: i v)
  case (Cons out outs)
  let ?k = "outpoint_at txid i" and ?cn = "forget \<lparr>coin_out = out, fCoinBase = cb, coin_nHeight = h\<rparr>"
  let ?w = "if IsUnspendable (scriptPubKey out) then v else v(?k \<mapsto> ?cn)"
  have k: "v ?k = None" "?k \<notin> own txid (Suc i) (length outs)"
    using Cons.prems(2,3) own_head [of i "length outs" txid] by (auto simp: own_Suc)
  have "\<forall>k \<in> own txid (Suc i) (length outs). ?w k = None" using Cons.prems(3) k(2) by (auto simp: own_Suc)
  then have "money_supply (put_outputs txid h cb outs (Suc i) ?w) = money_supply ?w + sum_list (map nValue (spendable_outputs outs))"
    using Cons.prems(1,2) by (intro Cons.IH) auto
  moreover have "money_supply ?w = money_supply v + (if IsUnspendable (scriptPubKey out) then 0 else nValue out)"
    using supply_insert [OF Cons.prems(1) k(1), of ?cn] by (simp add: forget_def)
  ultimately show ?case by (simp add: spendable_outputs_def)
qed (simp add: spendable_outputs_def)

lemma supply_minus_inputs:
  assumes "finite (dom v)" "distinct (map prevout ins)" "\<forall>i \<in> set ins. v (prevout i) \<noteq> None"
  shows "money_supply (minus_inputs ins v) = money_supply v - inputs_total v ins"
proof -
  let ?f = "\<lambda>k. nValue (coin_out (the (v k)))" and ?P = "prevout ` set ins"
  have d: "dom (minus_inputs ins v) = dom v - ?P" by (auto simp: minus_inputs_def dom_def)
  have "money_supply (minus_inputs ins v) = sum ?f (dom v - ?P)"
    unfolding money_supply_def d by (intro sum.cong) (auto simp: minus_inputs_def)
  moreover have "?P \<subseteq> dom v" using assms(3) by auto
  moreover have "inputs_total v ins = sum ?f ?P"
    using sum_list_distinct_conv_sum_set [OF assms(2), of ?f] by (simp add: inputs_total_def comp_def)
  ultimately show ?thesis using assms(1) by (simp add: sum_diff money_supply_def)
qed

lemma spendable_outputs_le:
  "\<forall>out \<in> set outs. 0 \<le> nValue out \<Longrightarrow> sum_list (map nValue (spendable_outputs outs)) \<le> sum_list (map nValue outs)"
  by (induction outs) (auto simp: spendable_outputs_def)

text \<open>Every output takes at least a byte of the transaction.\<close>

lemma outputs_le_size: "length (vout tx) \<le> length (ser_tx tx)"
proof -
  have "length outs \<le> length (concat (map ser_txout outs))" for outs
    by (induction outs) (simp_all add: ser_txout_def ser_writedata64_def)
  from this [of "vout tx"] show ?thesis by (simp add: ser_tx_def write_vector_def)
qed

context coins_backend
begin

lemma UpdateCoins_shown:
  assumes "good usage c" "usage [] = 0" "\<not> IsCoinBase tx" "distinct (map prevout (vin tx))"
    and "\<forall>out \<in> set (vout tx). nValue out \<noteq> -1" "length (vout tx) \<le> 2 ^ 32"
    and "\<forall>i \<in> set (vin tx). shown c (prevout i) \<noteq> None" "\<forall>k \<in> own txid 0 (length (vout tx)). shown c k = None"
  shows "\<exists>undo c'. UpdateCoins usage get tx txid h c = Inr (undo, c') \<and> good usage c' \<and>
    shown c' = put_outputs txid h False (vout tx) 0 (minus_inputs (vin tx) (shown c))"
proof -
  obtain undo d where d: "spend_inputs usage get (vin tx) c = Inr (undo, d)" "good usage d" "shown d = minus_inputs (vin tx) (shown c)"
    using spend_inputs_ok [OF assms(1,2,4,7)] by blast
  have "\<forall>k \<in> own txid 0 (length (vout tx)). shown d k = None" using assms(8) d(3) by (simp add: minus_inputs_def)
  then obtain c' where "add_outputs usage txid h False (vout tx) 0 d = Inr c'" "good usage c'"
    "shown c' = put_outputs txid h False (vout tx) 0 (shown d)"
    using add_outputs_ok [OF d(2) assms(5), of 0 False txid] assms(6) by auto
  then show ?thesis using d assms(3) by (simp add: UpdateCoins_def AddCoins_def)
qed

end

end
