(* ===== verification/Merkle.thy ===== *)
theory Merkle
  imports Prelude
begin

text \<open>
  Merkle trees: \<open>MerkleComputation\<close>, the roots and the branches of \<open>src/src/consensus/merkle.cpp\<close>, and the node hashes
  \<open>CalcHash\<close> of \<open>src/src/merkleblock.cpp\<close>, which serve as their specification.

  The double hash of a byte string is a parameter \<open>Hash\<close>. The counter is a 32-bit number, kept as a natural number
  modulo \<open>2 ^ 32\<close>; \<open>None\<close> is a shift by 32 bits or more or an access outside the array \<open>inner\<close>.
\<close>

section \<open>Node hashes\<close>

definition CalcTreeWidth :: "nat \<Rightarrow> nat \<Rightarrow> nat" where
  "CalcTreeWidth nTransactions height = (nTransactions + 2 ^ height - 1) div 2 ^ height"

fun CalcHash :: "(bytes \<Rightarrow> bytes) \<Rightarrow> bytes list \<Rightarrow> nat \<Rightarrow> nat \<Rightarrow> bytes" where
  "CalcHash Hash vTxid 0 pos = vTxid ! pos"
| "CalcHash Hash vTxid (Suc height) pos =
     (let left = CalcHash Hash vTxid height (pos * 2);
          right = (if pos * 2 + 1 < CalcTreeWidth (length vTxid) height
                   then CalcHash Hash vTxid height (pos * 2 + 1) else left)
      in Hash (left @ right))"

section \<open>The constant-space computation\<close>

text \<open>
  The steps of one leaf: \<open>inner\<close> holds a complete subtree for every bit of the number of leaves before it, and the
  new leaf is merged with the subtrees of the trailing ones. The result is the level reached, with the hash there.
\<close>

function leaf_up :: "(bytes \<Rightarrow> bytes) \<Rightarrow> bytes list \<Rightarrow> int \<Rightarrow> nat \<Rightarrow> nat \<Rightarrow> bytes \<Rightarrow> bool \<Rightarrow> bytes list \<Rightarrow> bool \<Rightarrow>
    (nat \<times> bytes \<times> bool \<times> bytes list \<times> bool) option" where
  "leaf_up Hash inner matchlevel count level h matchh branch mutated =
     (if level \<ge> 32 then None
      else if bit count level then Some (level, h, matchh, branch, mutated)
      else let (matchh, branch) =
             (if matchh then (True, branch @ [inner ! level])
              else if matchlevel = int level then (True, branch @ [h]) else (False, branch))
           in leaf_up Hash inner matchlevel count (level + 1) (Hash (inner ! level @ h)) matchh branch
                (mutated \<or> inner ! level = h))"
  by pat_completeness auto
termination
  by (relation "measure (\<lambda>(H, i, ml, c, l, r). 32 - l)") auto

fun leaf_loop :: "(bytes \<Rightarrow> bytes) \<Rightarrow> nat \<Rightarrow> bytes list \<Rightarrow> nat \<Rightarrow> bytes list \<Rightarrow> int \<Rightarrow> bytes list \<Rightarrow> bool \<Rightarrow>
    (nat \<times> bytes list \<times> int \<times> bytes list \<times> bool) option" where
  "leaf_loop Hash branchpos [] count inner matchlevel branch mutated = Some (count, inner, matchlevel, branch, mutated)"
| "leaf_loop Hash branchpos (h # leaves) count inner matchlevel branch mutated =
     (let matchh = (count = branchpos);
          count = (count + 1) mod 2 ^ 32
      in case leaf_up Hash inner matchlevel count 0 h matchh branch mutated of
           None \<Rightarrow> None
         | Some (level, h, matchh, branch, mutated) \<Rightarrow>
             leaf_loop Hash branchpos leaves count (inner[level := h])
               (if matchh then int level else matchlevel) branch mutated)"

function skip_levels :: "nat \<Rightarrow> nat \<Rightarrow> nat option" where
  "skip_levels count level =
     (if level \<ge> 32 then None else if bit count level then Some level else skip_levels count (level + 1))"
  by pat_completeness auto
termination
  by (relation "measure (\<lambda>(c, l). 32 - l)") auto

function sweep_up :: "(bytes \<Rightarrow> bytes) \<Rightarrow> bytes list \<Rightarrow> int \<Rightarrow> nat \<Rightarrow> nat \<Rightarrow> bytes \<Rightarrow> bool \<Rightarrow> bytes list \<Rightarrow>
    (nat \<times> bytes \<times> bool \<times> bytes list) option" where
  "sweep_up Hash inner matchlevel count level h matchh branch =
     (if level \<ge> 32 then None
      else if bit count level then Some (level, h, matchh, branch)
      else let (matchh, branch) =
             (if matchh then (True, branch @ [inner ! level])
              else if matchlevel = int level then (True, branch @ [h]) else (False, branch))
           in sweep_up Hash inner matchlevel count (level + 1) (Hash (inner ! level @ h)) matchh branch)"
  by pat_completeness auto
termination
  by (relation "measure (\<lambda>(H, i, ml, c, l, r). 32 - l)") auto

declare leaf_up.simps [simp del] skip_levels.simps [simp del] sweep_up.simps [simp del]

lemma sweep_up_level:
  "sweep_up Hash inner matchlevel count level h matchh branch = Some (level', r) \<Longrightarrow> level \<le> level' \<and> level' < 32"
proof (induction Hash inner matchlevel count level h matchh branch rule: sweep_up.induct)
  case (1 Hash inner matchlevel count level h matchh branch)
  show ?case using 1
    by (subst (asm) (2) sweep_up.simps) (fastforce simp: Let_def split: if_splits prod.splits)
qed

function sweep :: "(bytes \<Rightarrow> bytes) \<Rightarrow> bytes list \<Rightarrow> int \<Rightarrow> nat \<Rightarrow> nat \<Rightarrow> bytes \<Rightarrow> bool \<Rightarrow> bytes list \<Rightarrow>
    (bytes \<times> bytes list) option" where
  "sweep Hash inner matchlevel count level h matchh branch =
     (if level \<ge> 32 then None
      else if count = 2 ^ level then Some (h, branch)
      else let branch = (if matchh then branch @ [h] else branch);
               h = Hash (h @ h);
               count = (count + 2 ^ level) mod 2 ^ 32
           in case sweep_up Hash inner matchlevel count (level + 1) h matchh branch of
                None \<Rightarrow> None
              | Some (level', h, matchh, branch) \<Rightarrow> sweep Hash inner matchlevel count level' h matchh branch)"
  by pat_completeness auto
termination
proof (relation "measure (\<lambda>(H, i, ml, c, l, r). 32 - l)", goal_cases)
  case (2 Hash inner matchlevel count level h matchh branch)
  then show ?case by (force dest: sweep_up_level)
qed simp

declare sweep.simps [simp del]

text \<open>The result is the root, whether two equal hashes were combined, and the branch.\<close>

definition MerkleComputation :: "(bytes \<Rightarrow> bytes) \<Rightarrow> bytes list \<Rightarrow> nat \<Rightarrow> (bytes \<times> bool \<times> bytes list) option" where
  "MerkleComputation Hash leaves branchpos =
     (if length leaves = 0 then Some (replicate 32 0, False, [])
      else case leaf_loop Hash branchpos leaves 0 (replicate 32 (replicate 32 0)) (-1) [] False of
        None \<Rightarrow> None
      | Some (count, inner, matchlevel, branch, mutated) \<Rightarrow>
          (case skip_levels count 0 of
             None \<Rightarrow> None
           | Some level \<Rightarrow>
               (case sweep Hash inner matchlevel count level (inner ! level) (matchlevel = int level) branch of
                  None \<Rightarrow> None
                | Some (h, branch) \<Rightarrow> Some (h, mutated, branch))))"

definition ComputeMerkleRoot :: "(bytes \<Rightarrow> bytes) \<Rightarrow> bytes list \<Rightarrow> (bytes \<times> bool) option" where
  "ComputeMerkleRoot Hash leaves =
     map_option (\<lambda>(root, mutated, branch). (root, mutated)) (MerkleComputation Hash leaves (2 ^ 32 - 1))"

definition ComputeMerkleBranch :: "(bytes \<Rightarrow> bytes) \<Rightarrow> bytes list \<Rightarrow> nat \<Rightarrow> bytes list option" where
  "ComputeMerkleBranch Hash leaves position =
     map_option (\<lambda>(root, mutated, branch). branch) (MerkleComputation Hash leaves position)"

fun ComputeMerkleRootFromBranch :: "(bytes \<Rightarrow> bytes) \<Rightarrow> bytes \<Rightarrow> bytes list \<Rightarrow> nat \<Rightarrow> bytes" where
  "ComputeMerkleRootFromBranch Hash h [] nIndex = h"
| "ComputeMerkleRootFromBranch Hash h (x # vMerkleBranch) nIndex =
     ComputeMerkleRootFromBranch Hash (if nIndex mod 2 = 1 then Hash (x @ h) else Hash (h @ x)) vMerkleBranch (nIndex div 2)"

section \<open>Widths\<close>

lemma CalcTreeWidth_less: "p < CalcTreeWidth n h \<longleftrightarrow> p * 2 ^ h < n"
proof -
  have "p < (n + 2 ^ h - 1) div 2 ^ h \<longleftrightarrow> Suc p * 2 ^ h \<le> n + 2 ^ h - 1"
    by (simp add: less_eq_div_iff_mult_less_eq Suc_le_eq [symmetric])
  also have "\<dots> \<longleftrightarrow> p * 2 ^ h < n"
  proof -
    have "(0 :: nat) < a \<Longrightarrow> a + b \<le> n + a - 1 \<longleftrightarrow> b < n" for a b by arith
    from this [of "2 ^ h" "p * 2 ^ h"] show ?thesis by simp
  qed
  finally show ?thesis by (simp add: CalcTreeWidth_def)
qed

lemma le_CalcTreeWidth: "q * 2 ^ h \<le> n \<Longrightarrow> q \<le> CalcTreeWidth n h"
proof (cases q)
  case (Suc p)
  assume "q * 2 ^ h \<le> n"
  moreover have "p * 2 ^ h < q * 2 ^ h" using Suc by simp
  ultimately have "p * 2 ^ h < n" by linarith
  then show ?thesis using Suc CalcTreeWidth_less [of p n h] by simp
qed simp

lemma CalcTreeWidth_0 [simp]: "CalcTreeWidth n 0 = n"
  by (simp add: CalcTreeWidth_def)

lemma CalcTreeWidth_Suc: "CalcTreeWidth n (Suc h) = (CalcTreeWidth n h + 1) div 2"
proof -
  have "p < CalcTreeWidth n (Suc h) \<longleftrightarrow> p < (CalcTreeWidth n h + 1) div 2" for p
  proof -
    have "p < (CalcTreeWidth n h + 1) div 2 \<longleftrightarrow> 2 * p < CalcTreeWidth n h" by arith
    then show ?thesis by (simp add: CalcTreeWidth_less mult.assoc mult.left_commute)
  qed
  then show ?thesis by (meson linorder_neq_iff)
qed

lemma CalcTreeWidth_exact: "2 ^ h dvd n \<Longrightarrow> CalcTreeWidth n h = n div 2 ^ h"
proof -
  assume "2 ^ h dvd n"
  then obtain q where q: "n = 2 ^ h * q" by blast
  have "p < CalcTreeWidth n h \<longleftrightarrow> p < q" for p by (simp add: CalcTreeWidth_less q mult.commute)
  then show ?thesis using q by (metis linorder_neq_iff nonzero_mult_div_cancel_left power_not_zero zero_neq_numeral)
qed

lemma CalcTreeWidth_inexact: "n < CalcTreeWidth n h * 2 ^ h \<Longrightarrow> n div 2 ^ h = CalcTreeWidth n h - 1"
proof -
  assume n: "n < CalcTreeWidth n h * 2 ^ h"
  then have "0 < CalcTreeWidth n h" by (cases "CalcTreeWidth n h") auto
  then have "(CalcTreeWidth n h - 1) * 2 ^ h < n" using CalcTreeWidth_less [of "CalcTreeWidth n h - 1" n h] by simp
  moreover have "n < Suc (CalcTreeWidth n h - 1) * 2 ^ h" using n \<open>0 < CalcTreeWidth n h\<close> by simp
  ultimately show ?thesis by (intro div_nat_eqI) (simp_all add: mult.commute)
qed

section \<open>The state of the computation\<close>

text \<open>Bits of the counter: after \<open>count\<close> leaves a subtree of \<open>2 ^ j\<close> leaves is kept for every bit \<open>j\<close>.\<close>

lemma bit_odd: "bit (c :: nat) j \<longleftrightarrow> odd (c div 2 ^ j)"
  by (simp add: bit_iff_odd)

lemma minus_one_div:
  assumes "c = q * 2 ^ k" "odd q" "k < j"
  shows "(c - 1) div 2 ^ j = (c :: nat) div 2 ^ j"
proof -
  obtain m where m: "q = 2 * m + 1" using assms(2) by (elim oddE)
  have c: "c = 2 ^ Suc k * m + 2 ^ k" using assms(1) m by (simp add: algebra_simps)
  then have c1: "c - 1 = 2 ^ Suc k * m + (2 ^ k - 1)" by simp
  have "(c - 1) div 2 ^ Suc k = m"
  proof (rule div_nat_eqI)
    show "2 ^ Suc k * m \<le> c - 1" unfolding c1 by (rule le_add1)
    have "(2 ^ k - 1 :: nat) < 2 ^ Suc k" by (simp add: less_imp_diff_less)
    then show "c - 1 < 2 ^ Suc k * Suc m" unfolding c1 by simp
  qed
  moreover have "c div 2 ^ Suc k = m" unfolding c by simp
  moreover have "2 ^ j = 2 ^ Suc k * (2 :: nat) ^ (j - Suc k)" using assms(3) by (simp only: power_add [symmetric]) simp
  ultimately show ?thesis by (simp only: div_mult2_eq)
qed

lemma minus_one_bits:
  assumes "c = q * 2 ^ Suc l" "0 < q"
  shows "(c - 1) div 2 ^ l = (2 * q - 1 :: nat)"
proof -
  obtain v where v: "q = Suc v" using assms(2) gr0_implies_Suc by blast
  have c: "c = 2 ^ l * (2 * v + 1) + 2 ^ l" using assms(1) v by (simp add: algebra_simps)
  have "(c - 1) div 2 ^ l = 2 * v + 1"
  proof (rule div_nat_eqI)
    show "2 ^ l * (2 * v + 1) \<le> c - 1" unfolding c by (metis Suc_leI add_diff_assoc diff_Suc_1 le_add1 neq0_conv One_nat_def power_not_zero zero_neq_numeral)
    show "c - 1 < 2 ^ l * Suc (2 * v + 1)" unfolding c by simp
  qed
  then show ?thesis using v by simp
qed

definition good_inner :: "(bytes \<Rightarrow> bytes) \<Rightarrow> bytes list \<Rightarrow> nat \<Rightarrow> bytes list \<Rightarrow> bool" where
  "good_inner Hash leaves c inner \<longleftrightarrow> length inner = 32 \<and>
     (\<forall>j < 32. bit c j \<longrightarrow> inner ! j = CalcHash Hash leaves j (c div 2 ^ j - 1))"

text \<open>The sibling that a branch lists for the leaf \<open>pos\<close> at a level.\<close>

definition sibling :: "(bytes \<Rightarrow> bytes) \<Rightarrow> bytes list \<Rightarrow> nat \<Rightarrow> nat \<Rightarrow> bytes" where
  "sibling Hash leaves pos l =
     (let p = pos div 2 ^ l in
      if odd p then CalcHash Hash leaves l (p - 1)
      else if p + 1 < CalcTreeWidth (length leaves) l then CalcHash Hash leaves l (p + 1)
      else CalcHash Hash leaves l p)"

definition branch_to :: "(bytes \<Rightarrow> bytes) \<Rightarrow> bytes list \<Rightarrow> nat \<Rightarrow> nat \<Rightarrow> bytes list" where
  "branch_to Hash leaves pos k = map (sibling Hash leaves pos) [0..<k]"

lemma branch_to_Suc: "branch_to Hash leaves pos (Suc k) = branch_to Hash leaves pos k @ [sibling Hash leaves pos k]"
  by (simp add: branch_to_def)

text \<open>The branch collected while the subtree that holds the leaf is the one kept at level \<open>matchlevel\<close>.\<close>

definition kept_at :: "(bytes \<Rightarrow> bytes) \<Rightarrow> bytes list \<Rightarrow> nat \<Rightarrow> nat \<Rightarrow> nat \<Rightarrow> int \<Rightarrow> bytes list \<Rightarrow> bool" where
  "kept_at Hash leaves pos c l matchlevel branch \<longleftrightarrow>
     (\<exists>k \<ge> l. matchlevel = int k \<and> bit c k \<and> pos div 2 ^ k = c div 2 ^ k - 1 \<and> branch = branch_to Hash leaves pos k)"

definition carries :: "(bytes \<Rightarrow> bytes) \<Rightarrow> bytes list \<Rightarrow> nat \<Rightarrow> nat \<Rightarrow> nat \<Rightarrow> nat \<Rightarrow> bool \<Rightarrow> int \<Rightarrow> bytes list \<Rightarrow> bool" where
  "carries Hash leaves pos c l q matchh matchlevel branch \<longleftrightarrow>
     (if matchh then pos div 2 ^ l = q - 1 \<and> branch = branch_to Hash leaves pos l
      else kept_at Hash leaves pos c l matchlevel branch)"

definition tracks :: "(bytes \<Rightarrow> bytes) \<Rightarrow> bytes list \<Rightarrow> nat \<Rightarrow> nat \<Rightarrow> int \<Rightarrow> bytes list \<Rightarrow> bool" where
  "tracks Hash leaves pos c matchlevel branch \<longleftrightarrow>
     (if pos < c then kept_at Hash leaves pos c 0 matchlevel branch else matchlevel = -1 \<and> branch = [])"

text \<open>Merging two neighbours.\<close>

lemma CalcHash_pair:
  assumes "even w" "0 < w" "w \<le> CalcTreeWidth (length leaves) l"
  shows "Hash (CalcHash Hash leaves l (w - 2) @ CalcHash Hash leaves l (w - 1)) = CalcHash Hash leaves (Suc l) (w div 2 - 1)"
proof -
  obtain v where "w = 2 * Suc v" using assms(1,2) by (metis dvdE gr0_implies_Suc nat_0_less_mult_iff)
  then show ?thesis using assms(3) by (simp add: Let_def mult.commute)
qed

lemma CalcHash_single:
  assumes "odd w" "w = CalcTreeWidth (length leaves) l"
  shows "Hash (CalcHash Hash leaves l (w - 1) @ CalcHash Hash leaves l (w - 1)) = CalcHash Hash leaves (Suc l) ((w + 1) div 2 - 1)"
proof -
  obtain v where v: "w = 2 * v + 1" using assms(1) by (elim oddE)
  then show ?thesis using assms(2) [symmetric] by (simp add: Let_def mult.commute)
qed

declare CalcHash.simps(2) [simp del]

lemma sibling_left:
  assumes "even w" "0 < w" "pos div 2 ^ l = w - 1"
  shows "sibling Hash leaves pos l = CalcHash Hash leaves l (w - 2)"
proof -
  obtain v where "w = 2 * Suc v" using assms(1,2) by (metis dvdE gr0_implies_Suc nat_0_less_mult_iff)
  then show ?thesis using assms(3) by (simp add: sibling_def)
qed

lemma sibling_right:
  assumes "even w" "0 < w" "w \<le> CalcTreeWidth (length leaves) l" "pos div 2 ^ l = w - 2"
  shows "sibling Hash leaves pos l = CalcHash Hash leaves l (w - 1)"
proof -
  obtain v where "w = 2 * Suc v" using assms(1,2) by (metis dvdE gr0_implies_Suc nat_0_less_mult_iff)
  then show ?thesis using assms(3,4) by (simp add: sibling_def)
qed

text \<open>One step upwards: the leaf is carried, or found in the left neighbour, or still kept higher up.\<close>

lemma carries_step:
  assumes c: "carries Hash leaves pos c l w matchh matchlevel branch" and w: "even w" "0 < w" "w \<le> CalcTreeWidth (length leaves) l"
    and cl: "c div 2 ^ l = w - 1" and i: "inner ! l = CalcHash Hash leaves l (w - 2)" and h: "h = CalcHash Hash leaves l (w - 1)"
    and new: "(matchh', branch') = (if matchh then (True, branch @ [inner ! l])
       else if matchlevel = int l then (True, branch @ [h]) else (False, branch))"
  shows "carries Hash leaves pos c (Suc l) (w div 2) matchh' matchlevel branch'"
proof -
  have up: "pos div 2 ^ Suc l = pos div 2 ^ l div 2" by (simp add: div_mult2_eq [symmetric] mult.commute)
  have wv: "(w - 1) div 2 = w div 2 - 1" "(w - 2) div 2 = w div 2 - 1" using w(1,2) by presburger+
  show ?thesis
  proof (cases matchh)
    case True
    then have p: "pos div 2 ^ l = w - 1" "branch = branch_to Hash leaves pos l" using c by (simp_all add: carries_def)
    then show ?thesis using new True i sibling_left [OF w(1,2) p(1)] up wv by (simp add: carries_def branch_to_Suc)
  next
    case False
    then obtain k where k: "l \<le> k" "matchlevel = int k" "bit c k" "pos div 2 ^ k = c div 2 ^ k - 1" "branch = branch_to Hash leaves pos k"
      using c by (auto simp: carries_def kept_at_def)
    show ?thesis
    proof (cases "k = l")
      case True
      then have "pos div 2 ^ l = w - 2" using k(4) cl by simp
      then show ?thesis using new False True k(2,5) h sibling_right [OF w] up wv by (simp add: carries_def branch_to_Suc)
    next
      case neq: False
      then show ?thesis using new False k by (auto simp: carries_def kept_at_def)
    qed
  qed
qed

lemma level_bound: "c = q * 2 ^ l \<Longrightarrow> 0 < q \<Longrightarrow> c < 2 ^ 32 \<Longrightarrow> l < (32 :: nat)" for c q :: nat
proof (rule ccontr)
  assume c: "c = q * 2 ^ l" "0 < q" "c < 2 ^ 32" and "\<not> l < 32"
  then have "(2 :: nat) ^ 32 \<le> 2 ^ l" by (intro power_increasing) auto
  also have "\<dots> \<le> q * 2 ^ l" using c(2) by simp
  finally show False using c(1,3) by linarith
qed

text \<open>Two equal neighbours that are combined when the counter reaches \<open>c\<close>.\<close>

definition twins :: "(bytes \<Rightarrow> bytes) \<Rightarrow> bytes list \<Rightarrow> nat \<Rightarrow> nat \<Rightarrow> bool" where
  "twins Hash leaves l c \<longleftrightarrow> (\<exists>j p. l \<le> j \<and> (p + 1) * 2 ^ Suc j = c \<and>
     CalcHash Hash leaves j (2 * p) = CalcHash Hash leaves j (2 * p + 1))"

lemma leaf_up_ok:
  assumes "good_inner Hash leaves (c - 1) inner" "c = q * 2 ^ l" "0 < q" "c \<le> length leaves" "c < 2 ^ 32"
    and "h = CalcHash Hash leaves l (q - 1)"
    and "pos < c \<Longrightarrow> carries Hash leaves pos (c - 1) l q matchh matchlevel branch"
    and "\<not> pos < c \<Longrightarrow> \<not> matchh \<and> matchlevel = -1 \<and> branch = []"
  shows "\<exists>l' q' h' matchh' branch'. leaf_up Hash inner matchlevel c l h matchh branch mutated =
       Some (l', h', matchh', branch', mutated \<or> twins Hash leaves l c) \<and>
     l' < 32 \<and> c = q' * 2 ^ l' \<and> odd q' \<and> h' = CalcHash Hash leaves l' (q' - 1) \<and>
     (pos < c \<longrightarrow> carries Hash leaves pos (c - 1) l' q' matchh' matchlevel branch') \<and>
     (\<not> pos < c \<longrightarrow> \<not> matchh' \<and> branch' = [])"
  using assms(2-8)
proof (induction "32 - l" arbitrary: l q h matchh branch mutated rule: less_induct)
  case (less l q h matchh branch mutated)
  have l: "l < 32" by (rule level_bound [OF less.prems(1,2,4)])
  have bit: "bit c l \<longleftrightarrow> odd q" using less.prems(1) by (simp add: bit_odd)
  show ?case
  proof (cases "odd q")
    case True
    have "\<not> (\<exists>j p. l \<le> j \<and> (p + 1) * 2 ^ Suc j = c)"
    proof (rule notI, elim exE conjE)
      fix j p
      assume "l \<le> j" and c: "(p + 1) * 2 ^ Suc j = c"
      then have "(2 :: nat) ^ Suc j = 2 ^ Suc (j - l) * 2 ^ l" by (simp only: power_add [symmetric]) simp
      then have "c = (p + 1) * 2 ^ Suc (j - l) * 2 ^ l" using c by (simp only: mult.assoc)
      then have "q = (p + 1) * 2 ^ Suc (j - l)" using less.prems(1) by simp
      then show False using True by simp
    qed
    moreover have "leaf_up Hash inner matchlevel c l h matchh branch mutated = Some (l, h, matchh, branch, mutated)"
      using l True bit by (subst leaf_up.simps) simp
    ultimately show ?thesis using l True less.prems
      by (intro exI [of _ l] exI [of _ q] exI [of _ h] exI [of _ matchh] exI [of _ branch]) (auto simp: twins_def)
  next
    case False
    obtain matchh' branch' where new: "(matchh', branch') = (if matchh then (True, branch @ [inner ! l])
        else if matchlevel = int l then (True, branch @ [h]) else (False, branch))" by (metis surj_pair)
    let ?h = "Hash (inner ! l @ h)" and ?mut = "mutated \<or> inner ! l = h"
    have c: "c = q div 2 * 2 ^ Suc l" using less.prems(1) False by (auto elim: evenE)
    have q2: "0 < q div 2" using False less.prems(2) by (auto elim!: evenE)
    have cl: "(c - 1) div 2 ^ l = q - 1" using minus_one_bits [OF c q2] False by (simp add: dvd_mult_div_cancel)
    have w: "q \<le> CalcTreeWidth (length leaves) l"
      using less.prems(1,3) by (intro le_CalcTreeWidth) simp
    have "odd (q - 1)" using False less.prems(2) by simp
    then have i: "inner ! l = CalcHash Hash leaves l (q - 2)"
      using assms(1) l cl by (simp add: good_inner_def bit_odd numeral_2_eq_2)
    have up: "leaf_up Hash inner matchlevel c l h matchh branch mutated = leaf_up Hash inner matchlevel c (Suc l) ?h matchh' branch' ?mut"
      using l False bit by (subst leaf_up.simps) (simp add: new [symmetric])
    have "32 - Suc l < 32 - l" using l by simp
    moreover have "?h = CalcHash Hash leaves (Suc l) (q div 2 - 1)"
      unfolding i less.prems(5) by (rule CalcHash_pair) (use False less.prems(2) w in auto)
    moreover have "pos < c \<Longrightarrow> carries Hash leaves pos (c - 1) (Suc l) (q div 2) matchh' matchlevel branch'"
      using carries_step [OF less.prems(6) _ less.prems(2) w cl i less.prems(5) new] False by blast
    moreover have "\<not> pos < c \<Longrightarrow> \<not> matchh' \<and> matchlevel = -1 \<and> branch' = []"
      using less.prems(7) new by auto
    ultimately have IH: "\<exists>l' q' h' matchh'' branch''. leaf_up Hash inner matchlevel c (Suc l) ?h matchh' branch' ?mut =
       Some (l', h', matchh'', branch'', ?mut \<or> twins Hash leaves (Suc l) c) \<and>
     l' < 32 \<and> c = q' * 2 ^ l' \<and> odd q' \<and> h' = CalcHash Hash leaves l' (q' - 1) \<and>
     (pos < c \<longrightarrow> carries Hash leaves pos (c - 1) l' q' matchh'' matchlevel branch'') \<and>
     (\<not> pos < c \<longrightarrow> \<not> matchh'' \<and> branch'' = [])"
      by (intro less.hyps [OF _ c q2 less.prems(3,4)])
    have "?mut \<or> twins Hash leaves (Suc l) c \<longleftrightarrow> mutated \<or> twins Hash leaves l c"
    proof -
      have at: "(p + 1) * 2 ^ Suc l = c \<longleftrightarrow> p = q div 2 - 1" for p
      proof -
        have "(p + 1) * 2 ^ Suc l = c \<longleftrightarrow> p + 1 = q div 2" unfolding c by (simp only: mult_cancel2) simp
        then show ?thesis using q2 by auto
      qed
      have "2 * (q div 2 - 1) = q - 2" "2 * (q div 2 - 1) + 1 = q - 1" using False less.prems(2) by presburger+
      then have "inner ! l = h \<longleftrightarrow> (\<exists>p. (p + 1) * 2 ^ Suc l = c \<and> CalcHash Hash leaves l (2 * p) = CalcHash Hash leaves l (2 * p + 1))"
        unfolding at i less.prems(5) by simp
      then show ?thesis unfolding twins_def by (metis Suc_leD le_antisym not_less_eq_eq order_refl)
    qed
    then show ?thesis using IH unfolding up by simp
  qed
qed

text \<open>All the leaves.\<close>

lemma good_inner_update:
  assumes "good_inner Hash leaves (c - 1) inner" "c = q * 2 ^ l" "odd q" "l < 32"
  shows "good_inner Hash leaves c (inner[l := CalcHash Hash leaves l (q - 1)])"
proof -
  have "inner[l := CalcHash Hash leaves l (q - 1)] ! j = CalcHash Hash leaves j (c div 2 ^ j - 1)" if j: "j < 32" "bit c j" for j
  proof (cases rule: linorder_cases [of j l])
    case less
    have "(2 :: nat) ^ l = 2 ^ (l - j) * 2 ^ j" using less by (simp only: power_add [symmetric]) simp
    then have "c div 2 ^ j = q * 2 ^ (l - j)" using assms(2) by simp
    then show ?thesis using j(2) less by (simp add: bit_odd)
  next
    case equal
    then show ?thesis using assms by (simp add: good_inner_def)
  next
    case greater
    then show ?thesis using assms(1) j minus_one_div [OF assms(2,3) greater] by (simp add: good_inner_def bit_odd)
  qed
  then show ?thesis using assms(1) by (simp add: good_inner_def)
qed

lemma kept_at_after:
  assumes "carries Hash leaves pos (c - 1) l q matchh matchlevel branch" "c = q * 2 ^ l" "odd q"
  shows "kept_at Hash leaves pos c 0 (if matchh then int l else matchlevel) branch"
proof (cases matchh)
  case True
  then show ?thesis using assms by (auto simp: carries_def kept_at_def bit_odd)
next
  case False
  then obtain k where k: "l \<le> k" "matchlevel = int k" "bit (c - 1) k" "pos div 2 ^ k = (c - 1) div 2 ^ k - 1" "branch = branch_to Hash leaves pos k"
    using assms(1) by (auto simp: carries_def kept_at_def)
  have "k \<noteq> l"
  proof
    assume "k = l"
    obtain v where v: "q = 2 * v + 1" using assms(3) by (elim oddE)
    have "(c - 1) div 2 ^ l = 2 * v"
    proof (rule div_nat_eqI)
      have cv: "c = 2 ^ l * (2 * v) + 2 ^ l" using assms(2) v by (simp add: algebra_simps)
      have one: "(1 :: nat) \<le> 2 ^ l" by simp
      then show "2 ^ l * (2 * v) \<le> c - 1" unfolding cv by linarith
      show "c - 1 < 2 ^ l * Suc (2 * v)" unfolding cv mult_Suc_right using one by linarith
    qed
    then show False using k(3) \<open>k = l\<close> by (simp add: bit_odd)
  qed
  then have "l < k" using k(1) by simp
  from minus_one_div [OF assms(2,3) this] show ?thesis using False k by (auto simp: kept_at_def bit_odd)
qed

lemma leaf_loop_ok:
  assumes "good_inner Hash leaves c inner" "tracks Hash leaves pos c matchlevel branch" "rest = drop c leaves" "c \<le> length leaves"
    and "length leaves < 2 ^ 32"
  shows "\<exists>inner' matchlevel' branch'. leaf_loop Hash pos rest c inner matchlevel branch mutated =
      Some (length leaves, inner', matchlevel', branch', mutated \<or> (\<exists>d. c < d \<and> d \<le> length leaves \<and> twins Hash leaves 0 d)) \<and>
    good_inner Hash leaves (length leaves) inner' \<and> tracks Hash leaves pos (length leaves) matchlevel' branch'"
  using assms(1-4)
proof (induction rest arbitrary: c inner matchlevel branch mutated)
  case Nil
  then have "c = length leaves" by simp
  then show ?case using Nil by auto
next
  case (Cons h rest)
  have c: "c < length leaves" and h: "h = CalcHash Hash leaves 0 c" and rest: "rest = drop (c + 1) leaves"
  proof -
    have "drop c leaves \<noteq> []" using Cons.prems(3) by auto
    then show c: "c < length leaves" by simp
    then have "drop c leaves = leaves ! c # drop (Suc c) leaves" by (simp add: Cons_nth_drop_Suc)
    then show "h = CalcHash Hash leaves 0 c" "rest = drop (c + 1) leaves" using Cons.prems(3) by simp_all
  qed
  let ?c = "c + 1"
  have wrap: "?c mod 2 ^ 32 = ?c" using c assms(5) by simp
  have a1: "pos < ?c \<Longrightarrow> carries Hash leaves pos (?c - 1) 0 ?c (c = pos) matchlevel branch"
    using Cons.prems(2) by (cases "pos = c") (simp_all add: carries_def tracks_def branch_to_def)
  have a2: "\<not> pos < ?c \<Longrightarrow> \<not> (c = pos) \<and> matchlevel = -1 \<and> branch = []"
    using Cons.prems(2) by (simp add: tracks_def)
  have s: "good_inner Hash leaves (?c - 1) inner" "?c = ?c * 2 ^ 0" "0 < ?c" "?c \<le> length leaves" "?c < 2 ^ 32"
    "h = CalcHash Hash leaves 0 (?c - 1)" using Cons.prems(1) c h assms(5) by simp_all
  from leaf_up_ok [OF s a1 a2, of mutated]
  obtain l q h' m b where up: "leaf_up Hash inner matchlevel ?c 0 h (c = pos) branch mutated =
       Some (l, h', m, b, mutated \<or> twins Hash leaves 0 ?c)" "l < 32" "?c = q * 2 ^ l" "odd q" "h' = CalcHash Hash leaves l (q - 1)"
     "pos < ?c \<longrightarrow> carries Hash leaves pos (?c - 1) l q m matchlevel b" "\<not> pos < ?c \<longrightarrow> \<not> m \<and> b = []" by blast
  let ?inner = "inner[l := h']" and ?ml = "if m then int l else matchlevel" and ?mut = "mutated \<or> twins Hash leaves 0 ?c"
  have g: "good_inner Hash leaves ?c ?inner"
    using good_inner_update [of Hash leaves ?c inner q l] Cons.prems(1) up(2-5) by simp
  have t: "tracks Hash leaves pos ?c ?ml b"
    using kept_at_after [OF _ up(3,4)] up(6,7) Cons.prems(2) by (auto simp: tracks_def)
  have step: "leaf_loop Hash pos (h # rest) c inner matchlevel branch mutated = leaf_loop Hash pos rest ?c ?inner ?ml b ?mut"
    using up(1) by (simp only: leaf_loop.simps Let_def wrap) simp
  have eq: "(?mut \<or> (\<exists>d. ?c < d \<and> d \<le> length leaves \<and> twins Hash leaves 0 d)) \<longleftrightarrow>
      mutated \<or> (\<exists>d. c < d \<and> d \<le> length leaves \<and> twins Hash leaves 0 d)"
    using c by (metis Suc_eq_plus1 Suc_leI le_eq_less_or_eq less_Suc_eq_le not_less_eq)
  have "?c \<le> length leaves" using c by simp
  from Cons.IH [OF g t rest this, of ?mut] show ?case unfolding step eq .
qed

lemma skip_levels_ok:
  assumes "c = q * 2 ^ l" "0 < q" "c < 2 ^ 32"
  shows "\<exists>l' q'. skip_levels c l = Some l' \<and> c = q' * 2 ^ l' \<and> odd q' \<and> l' < 32"
  using assms
proof (induction "32 - l" arbitrary: l q rule: less_induct)
  case (less l q)
  have l: "l < 32" by (rule level_bound [OF less.prems])
  have bit: "bit c l \<longleftrightarrow> odd q" using less.prems(1) by (simp add: bit_odd)
  show ?case
  proof (cases "odd q")
    case True
    then show ?thesis using l bit less.prems by (subst skip_levels.simps) auto
  next
    case False
    then have "c = q div 2 * 2 ^ Suc l" "0 < q div 2" using less.prems(1,2) by (auto elim!: evenE)
    moreover have "skip_levels c l = skip_levels c (Suc l)" using l bit False by (subst skip_levels.simps) simp
    ultimately show ?thesis using less.hyps [of "Suc l" "q div 2"] l less.prems(3) by simp
  qed
qed

section \<open>The final sweep\<close>

text \<open>
  At every level of the sweep \<open>h\<close> is the last node, the counter is what it would be if the leaves filled that node,
  and a left neighbour of the last node is a complete subtree, which \<open>inner\<close> has kept.
\<close>

lemma kept_left:
  assumes "good_inner Hash leaves (length leaves) inner" "l < 32" "even w" "w = CalcTreeWidth (length leaves) l" "0 < w"
    and "length leaves < w * 2 ^ l"
  shows "length leaves div 2 ^ l = w - 1" "inner ! l = CalcHash Hash leaves l (w - 2)"
proof -
  show 1: "length leaves div 2 ^ l = w - 1" using CalcTreeWidth_inexact [of "length leaves" l] assms(4,6) by simp
  moreover have "odd (w - 1)" using assms(3,5) by simp
  ultimately show "inner ! l = CalcHash Hash leaves l (w - 2)"
    using assms(1,2) by (simp add: good_inner_def bit_odd numeral_2_eq_2)
qed

lemma sweep_up_ok:
  assumes g: "good_inner Hash leaves (length leaves) inner"
    and "w = CalcTreeWidth (length leaves) l" "c = w * 2 ^ l" "length leaves < c" "0 < w" "c < 2 ^ 32"
    and "h = CalcHash Hash leaves l (w - 1)"
    and "pos < length leaves \<Longrightarrow> carries Hash leaves pos (length leaves) l w matchh matchlevel branch"
  shows "\<exists>l' w' h' matchh' branch'. sweep_up Hash inner matchlevel c l h matchh branch = Some (l', h', matchh', branch') \<and>
    l \<le> l' \<and> l' < 32 \<and> w' = CalcTreeWidth (length leaves) l' \<and> c = w' * 2 ^ l' \<and> odd w' \<and> h' = CalcHash Hash leaves l' (w' - 1) \<and>
    (pos < length leaves \<longrightarrow> carries Hash leaves pos (length leaves) l' w' matchh' matchlevel branch') \<and>
    (l < l' \<longrightarrow> 1 < CalcTreeWidth (length leaves) (l' - 1))"
  using assms(2-8)
proof (induction "32 - l" arbitrary: l w h matchh branch rule: less_induct)
  case (less l w h matchh branch)
  have l: "l < 32" by (rule level_bound [OF less.prems(2,4,5)])
  have bit: "bit c l \<longleftrightarrow> odd w" using less.prems(2) by (simp add: bit_odd)
  show ?case
  proof (cases "odd w")
    case True
    then have "sweep_up Hash inner matchlevel c l h matchh branch = Some (l, h, matchh, branch)"
      using l bit by (subst sweep_up.simps) simp
    then show ?thesis using l True less.prems by auto
  next
    case False
    obtain matchh' branch' where new: "(matchh', branch') = (if matchh then (True, branch @ [inner ! l])
        else if matchlevel = int l then (True, branch @ [h]) else (False, branch))" by (metis surj_pair)
    have ev: "even w" and le: "w \<le> CalcTreeWidth (length leaves) l" using False less.prems(1) by simp_all
    note kl = kept_left [OF g l ev less.prems(1,4) less.prems(3) [unfolded less.prems(2)]]
    have up: "sweep_up Hash inner matchlevel c l h matchh branch = sweep_up Hash inner matchlevel c (Suc l) (Hash (inner ! l @ h)) matchh' branch'"
      using l False bit by (subst sweep_up.simps) (simp add: new [symmetric])
    have "w div 2 = CalcTreeWidth (length leaves) (Suc l)" using ev less.prems(1) by (simp add: CalcTreeWidth_Suc)
    moreover have "c = w div 2 * 2 ^ Suc l" "0 < w div 2" using less.prems(2,4) ev by (auto elim!: evenE)
    moreover have "32 - Suc l < 32 - l" using l by simp
    moreover have "Hash (inner ! l @ h) = CalcHash Hash leaves (Suc l) (w div 2 - 1)"
      unfolding kl(2) less.prems(6) by (rule CalcHash_pair [OF ev less.prems(4) le])
    moreover have "pos < length leaves \<Longrightarrow> carries Hash leaves pos (length leaves) (Suc l) (w div 2) matchh' matchlevel branch'"
      using carries_step [OF less.prems(7) ev less.prems(4) le kl less.prems(6) new] by blast
    ultimately obtain l' w' h' m b where IH: "sweep_up Hash inner matchlevel c (Suc l) (Hash (inner ! l @ h)) matchh' branch' = Some (l', h', m, b)"
      "Suc l \<le> l'" "l' < 32" "w' = CalcTreeWidth (length leaves) l'" "c = w' * 2 ^ l'" "odd w'" "h' = CalcHash Hash leaves l' (w' - 1)"
      "pos < length leaves \<longrightarrow> carries Hash leaves pos (length leaves) l' w' m matchlevel b"
      "Suc l < l' \<longrightarrow> 1 < CalcTreeWidth (length leaves) (l' - 1)"
      using less.hyps [of "Suc l" "w div 2" "Hash (inner ! l @ h)" matchh' branch'] less.prems(3,5) by blast
    have "1 < CalcTreeWidth (length leaves) (l' - 1)"
    proof (cases "Suc l < l'")
      case False
      then have "l' - 1 = l" using IH(2) by simp
      then show ?thesis using ev less.prems(1,4) by (auto elim!: evenE)
    qed (use IH(9) in simp)
    then show ?thesis using IH unfolding up by (intro exI [of _ l'] exI [of _ w'] exI [of _ h'] exI [of _ m] exI [of _ b]) simp
  qed
qed

text \<open>The last node of a level has no right neighbour: the leaf is carried along with it, or kept higher up.\<close>

lemma carries_alone:
  assumes c: "carries Hash leaves pos (length leaves) l w matchh matchlevel branch" and w: "odd w" "w = CalcTreeWidth (length leaves) l"
    and h: "h = CalcHash Hash leaves l (w - 1)" and last: "matchlevel = int l \<Longrightarrow> matchh \<or> length leaves < w * 2 ^ l"
  shows "carries Hash leaves pos (length leaves) (Suc l) ((w + 1) div 2) matchh matchlevel (if matchh then branch @ [h] else branch)"
proof (cases matchh)
  case True
  then have p: "pos div 2 ^ l = w - 1" "branch = branch_to Hash leaves pos l" using c by (simp_all add: carries_def)
  have "even (w - 1)" "0 < w" using w(1) by (auto elim: oddE)
  then have "sibling Hash leaves pos l = h" using p(1) w(2) h by (simp add: sibling_def)
  moreover have "pos div 2 ^ Suc l = (w + 1) div 2 - 1"
    using p(1) w(1) by (auto simp: power_Suc2 div_mult2_eq simp del: power_Suc elim!: oddE)
  ultimately show ?thesis using True p by (simp add: carries_def branch_to_Suc)
next
  case False
  then obtain k where k: "l \<le> k" "matchlevel = int k" "bit (length leaves) k" "pos div 2 ^ k = length leaves div 2 ^ k - 1"
    "branch = branch_to Hash leaves pos k" using c by (auto simp: carries_def kept_at_def)
  have "k \<noteq> l"
  proof
    assume "k = l"
    then have "length leaves < w * 2 ^ l" using last k(2) False by simp
    then have "length leaves div 2 ^ l = w - 1" using CalcTreeWidth_inexact [of "length leaves" l] w(2) by simp
    then show False using k(3) \<open>k = l\<close> w(1) by (auto simp: bit_odd elim!: oddE)
  qed
  then show ?thesis using False k by (auto simp: carries_def kept_at_def)
qed

definition tree_height :: "nat \<Rightarrow> nat \<Rightarrow> bool" where
  "tree_height n l \<longleftrightarrow> CalcTreeWidth n l = 1 \<and> (\<forall>j < l. 1 < CalcTreeWidth n j)"

lemma CalcTreeWidth_antimono: "i \<le> j \<Longrightarrow> CalcTreeWidth n j \<le> CalcTreeWidth n i"
proof (induction j)
  case (Suc j)
  have "CalcTreeWidth n (Suc j) \<le> CalcTreeWidth n j" by (cases "CalcTreeWidth n j") (simp_all add: CalcTreeWidth_Suc)
  then show ?case using Suc by (cases "i = Suc j") auto
qed simp

lemma tree_heightI: "CalcTreeWidth n l = 1 \<Longrightarrow> (0 < l \<Longrightarrow> 1 < CalcTreeWidth n (l - 1)) \<Longrightarrow> tree_height n l"
proof -
  assume 1: "CalcTreeWidth n l = 1" and 2: "0 < l \<Longrightarrow> 1 < CalcTreeWidth n (l - 1)"
  have "1 < CalcTreeWidth n j" if "j < l" for j
  proof -
    have "CalcTreeWidth n (l - 1) \<le> CalcTreeWidth n j" using that by (intro CalcTreeWidth_antimono) simp
    then show ?thesis using 2 that by simp
  qed
  then show ?thesis using 1 by (simp add: tree_height_def)
qed

lemma tree_height_unique: "tree_height n h \<Longrightarrow> tree_height n h' \<Longrightarrow> h' = h"
  unfolding tree_height_def by (metis less_irrefl linorder_neq_iff)

text \<open>Rounding the number of leaves up to full nodes stays below \<open>2 ^ 32\<close>.\<close>

lemma width_bound: "n \<le> 2 ^ 31 \<Longrightarrow> l \<le> 31 \<Longrightarrow> CalcTreeWidth n l * 2 ^ l \<le> 2 ^ 31"
proof -
  assume n: "n \<le> 2 ^ 31" and l: "l \<le> 31"
  have p: "(2 :: nat) ^ 31 = 2 ^ (31 - l) * 2 ^ l" using l by (simp only: power_add [symmetric]) simp
  have "\<not> 2 ^ (31 - l) < CalcTreeWidth n l" using n unfolding CalcTreeWidth_less p [symmetric] by simp
  then have "CalcTreeWidth n l * 2 ^ l \<le> 2 ^ (31 - l) * 2 ^ l" by (intro mult_le_mono1) simp
  then show ?thesis unfolding p .
qed

lemma sweep_ok:
  assumes g: "good_inner Hash leaves (length leaves) inner" and n: "length leaves \<le> 2 ^ 31"
    and "w = CalcTreeWidth (length leaves) l" "c = w * 2 ^ l" "odd w" "l < 32"
    and "h = CalcHash Hash leaves l (w - 1)" "0 < l \<Longrightarrow> 1 < CalcTreeWidth (length leaves) (l - 1)"
    and "pos < length leaves \<Longrightarrow> carries Hash leaves pos (length leaves) l w matchh matchlevel branch"
    and "matchlevel = int l \<Longrightarrow> matchh \<or> length leaves < c"
  shows "\<exists>l' branch'. sweep Hash inner matchlevel c l h matchh branch = Some (CalcHash Hash leaves l' 0, branch') \<and>
    tree_height (length leaves) l' \<and> (pos < length leaves \<longrightarrow> branch' = branch_to Hash leaves pos l')"
  using assms(3-10)
proof (induction "32 - l" arbitrary: l w c h matchh branch rule: less_induct)
  case (less l w c h matchh branch)
  let ?n = "length leaves"
  have w0: "0 < w" using less.prems(3) by (cases w) auto
  show ?case
  proof (cases "w = 1")
    case True
    then have "sweep Hash inner matchlevel c l h matchh branch = Some (CalcHash Hash leaves l 0, branch)"
      using less.prems by (subst sweep.simps) simp
    moreover have "tree_height ?n l" using True less.prems(1,6) by (intro tree_heightI) simp_all
    moreover have "branch = branch_to Hash leaves pos l" if pos: "pos < ?n"
    proof (cases matchh)
      case True
      then show ?thesis using less.prems(7) [OF pos] by (simp add: carries_def)
    next
      case False
      then obtain k where k: "l \<le> k" "bit ?n k" "pos div 2 ^ k = ?n div 2 ^ k - 1" "branch = branch_to Hash leaves pos k"
        using less.prems(7) [OF pos] by (auto simp: carries_def kept_at_def)
      have "CalcTreeWidth ?n k \<le> 1" using CalcTreeWidth_antimono [OF k(1), of ?n] True less.prems(1) by simp
      then have "?n \<le> 2 ^ k" using CalcTreeWidth_less [of 1 ?n k] by simp
      then have nk: "?n = 2 ^ k" using k(2) by (cases "?n = 2 ^ k") (auto simp: bit_odd)
      have "\<not> l < k"
      proof
        assume "l < k"
        then have "1 * 2 ^ l < ?n" using nk by simp
        then show False using CalcTreeWidth_less [of 1 ?n l] True less.prems(1) by simp
      qed
      then show ?thesis using k(1,4) by simp
    qed
    ultimately show ?thesis by blast
  next
    case False
    let ?b = "if matchh then branch @ [h] else branch" and ?h = "Hash (h @ h)" and ?c = "c + 2 ^ l" and ?w = "(w + 1) div 2"
    have wS: "?w = CalcTreeWidth ?n (Suc l)" using less.prems(1) by (simp add: CalcTreeWidth_Suc)
    have c: "?c = ?w * 2 ^ Suc l" using less.prems(2,3) by (auto elim!: oddE simp: algebra_simps)
    have l31: "Suc l \<le> 31"
    proof (rule ccontr)
      assume "\<not> Suc l \<le> 31"
      then have "l = 31" using less.prems(4) by simp
      then have "\<not> 1 < CalcTreeWidth ?n l" using n by (simp add: CalcTreeWidth_less)
      then show False using False w0 less.prems(1) by simp
    qed
    have cb: "?c < 2 ^ 32" using width_bound [OF n l31] unfolding c wS by simp
    then have wrap: "?c mod 2 ^ 32 = ?c" by simp
    have "\<not> c < ?n" using CalcTreeWidth_less [of w ?n l] less.prems(1,2) by simp
    then have lt: "?n < ?c" by (metis add_strict_increasing2 leI less_add_same_cancel1 order_le_less_trans zero_less_numeral zero_less_power)
    have h: "?h = CalcHash Hash leaves (Suc l) (?w - 1)"
      unfolding less.prems(5) by (rule CalcHash_single [OF less.prems(3,1)])
    have cr: "carries Hash leaves pos ?n (Suc l) ?w matchh matchlevel ?b" if pos: "pos < ?n"
      using carries_alone [OF less.prems(7) [OF pos] less.prems(3,1,5)] less.prems(2,8) by simp
    have "0 < ?w" using w0 by simp
    from sweep_up_ok [OF g wS c lt this cb h cr]
    obtain l' w' h' m b where up: "sweep_up Hash inner matchlevel ?c (Suc l) ?h matchh ?b = Some (l', h', m, b)"
      "Suc l \<le> l'" "l' < 32" "w' = CalcTreeWidth ?n l'" "?c = w' * 2 ^ l'" "odd w'" "h' = CalcHash Hash leaves l' (w' - 1)"
      "pos < ?n \<longrightarrow> carries Hash leaves pos ?n l' w' m matchlevel b" "Suc l < l' \<longrightarrow> 1 < CalcTreeWidth ?n (l' - 1)" by blast
    have prev: "1 < CalcTreeWidth ?n (l' - 1)"
    proof (cases "Suc l < l'")
      case False
      then have "l' - 1 = l" using up(2) by simp
      then show ?thesis using \<open>w \<noteq> 1\<close> w0 less.prems(1) by simp
    qed (use up(9) in simp)
    have "c \<noteq> 2 ^ l" using False less.prems(2) by simp
    then have "sweep Hash inner matchlevel c l h matchh branch = sweep Hash inner matchlevel ?c l' h' m b"
      using less.prems(4) up(1) by (subst sweep.simps) (simp only: Let_def wrap, simp)
    then show ?thesis using less.hyps [OF _ up(4,5,6,3,7) prev, of m b] up(2,3,8) lt by simp
  qed
qed

section \<open>The root and the branches\<close>

definition mutated_tree :: "(bytes \<Rightarrow> bytes) \<Rightarrow> bytes list \<Rightarrow> bool" where
  "mutated_tree Hash leaves \<longleftrightarrow> (\<exists>j p. (p + 1) * 2 ^ Suc j \<le> length leaves \<and>
     CalcHash Hash leaves j (2 * p) = CalcHash Hash leaves j (2 * p + 1))"

lemma twins_mutated: "(\<exists>d. 0 < d \<and> d \<le> length leaves \<and> twins Hash leaves 0 d) \<longleftrightarrow> mutated_tree Hash leaves"
proof -
  have "0 < (p + 1) * (2 :: nat) ^ Suc j" for p j by simp
  then show ?thesis unfolding twins_def mutated_tree_def by (metis le0)
qed

lemma exact_below:
  assumes "0 < l" "n = w * 2 ^ l" "odd w"
  shows "1 < CalcTreeWidth n (l - 1)"
proof -
  obtain k where k: "l = Suc k" using assms(1) gr0_implies_Suc by blast
  have "0 < w" using assms(3) by (cases w) auto
  then have "1 * 2 ^ k < w * (2 * 2 ^ k)" by simp
  then show ?thesis unfolding k assms(2) CalcTreeWidth_less by simp
qed

lemma MerkleComputation_ok:
  assumes "leaves \<noteq> []" "length leaves \<le> 2 ^ 31"
  shows "\<exists>l branch. MerkleComputation Hash leaves pos = Some (CalcHash Hash leaves l 0, mutated_tree Hash leaves, branch) \<and>
    tree_height (length leaves) l \<and> (pos < length leaves \<longrightarrow> branch = branch_to Hash leaves pos l)"
proof -
  let ?n = "length leaves"
  have n: "?n < 2 ^ 32" "0 < ?n" using assms by simp_all
  define z where "z = replicate 32 (replicate 32 (0 :: u8))"
  have "length z = 32" unfolding z_def by (rule length_replicate)
  then have g0: "good_inner Hash leaves 0 z" by (simp add: good_inner_def bit_odd)
  have t0: "tracks Hash leaves pos 0 (-1) []" by (simp add: tracks_def)
  have "leaves = drop 0 leaves" by simp
  from leaf_loop_ok [OF g0 t0 this le0 n(1), of False]
  obtain inner ml b where loop: "leaf_loop Hash pos leaves 0 z (-1) [] False =
      Some (?n, inner, ml, b, False \<or> mutated_tree Hash leaves)" and g: "good_inner Hash leaves ?n inner" and t: "tracks Hash leaves pos ?n ml b"
    unfolding twins_mutated by blast
  obtain l w where sk: "skip_levels ?n 0 = Some l" "?n = w * 2 ^ l" "odd w" "l < 32"
    using skip_levels_ok [of ?n ?n 0] n by (metis mult.right_neutral power_0)
  have dv: "?n div 2 ^ l = w" unfolding sk(2) by simp
  have w: "w = CalcTreeWidth ?n l" using CalcTreeWidth_exact [of l ?n] dv by (metis dvd_triv_right sk(2))
  have h: "inner ! l = CalcHash Hash leaves l (w - 1)"
    using g sk(3,4) dv by (simp add: good_inner_def bit_odd)
  have prev: "1 < CalcTreeWidth ?n (l - 1)" if "0 < l" by (rule exact_below [OF that sk(2,3)])
  have cr: "carries Hash leaves pos ?n l w (ml = int l) ml b" if pos: "pos < ?n"
  proof -
    obtain k where kk: "ml = int k" "bit ?n k" "pos div 2 ^ k = ?n div 2 ^ k - 1" "b = branch_to Hash leaves pos k"
      using t pos by (auto simp: tracks_def kept_at_def)
    have "\<not> k < l"
    proof
      assume "k < l"
      then have "(2 :: nat) ^ l = 2 ^ (l - k) * 2 ^ k" by (simp only: power_add [symmetric]) simp
      then have "?n div 2 ^ k = w * 2 ^ (l - k)" using sk(2) by simp
      then show False using kk(2) \<open>k < l\<close> by (simp add: bit_odd)
    qed
    then show ?thesis using kk dv by (auto simp: carries_def kept_at_def)
  qed
  have "ml = int l \<Longrightarrow> ml = int l \<or> ?n < ?n" by (rule disjI1)
  from sweep_ok [OF g assms(2) w sk(2,3,4) h prev cr this] obtain l' branch'
    where "sweep Hash inner ml ?n l (inner ! l) (ml = int l) b = Some (CalcHash Hash leaves l' 0, branch')"
      "tree_height ?n l'" "pos < ?n \<longrightarrow> branch' = branch_to Hash leaves pos l'" by blast
  then show ?thesis unfolding MerkleComputation_def z_def [symmetric] loop using sk(1) assms(1) by auto
qed

lemma root_from_branch:
  assumes "pos < length leaves"
  shows "ComputeMerkleRootFromBranch Hash (CalcHash Hash leaves k (pos div 2 ^ k)) (map (sibling Hash leaves pos) [k..<k + m]) (pos div 2 ^ k) =
    CalcHash Hash leaves (k + m) (pos div 2 ^ (k + m))"
proof (induction m arbitrary: k)
  case (Suc m)
  let ?p = "pos div 2 ^ k"
  have up: "pos div 2 ^ Suc k = ?p div 2" by (simp only: power_Suc2 div_mult2_eq)
  have wid: "?p < CalcTreeWidth (length leaves) k" using assms by (simp add: CalcTreeWidth_less le_less_trans [OF div_times_less_eq_dividend])
  have step: "(if ?p mod 2 = 1 then Hash (sibling Hash leaves pos k @ CalcHash Hash leaves k ?p)
      else Hash (CalcHash Hash leaves k ?p @ sibling Hash leaves pos k)) = CalcHash Hash leaves (Suc k) (?p div 2)"
  proof (cases "odd ?p")
    case True
    have "odd p \<Longrightarrow> p div 2 * 2 = p - 1 \<and> p div 2 * 2 + 1 = p" for p :: nat by presburger
    from this [OF True] have "?p div 2 * 2 = ?p - 1" "?p div 2 * 2 + 1 = ?p" by blast+
    then show ?thesis using True wid by (simp add: CalcHash.simps(2) sibling_def Let_def odd_iff_mod_2_eq_one)
  next
    case False
    then have "?p div 2 * 2 = ?p" by simp
    then show ?thesis using False by (simp add: CalcHash.simps(2) sibling_def Let_def)
  qed
  have "[k..<k + Suc m] = k # [Suc k..<Suc k + m]" by (simp add: upt_conv_Cons)
  then have "ComputeMerkleRootFromBranch Hash (CalcHash Hash leaves k ?p) (map (sibling Hash leaves pos) [k..<k + Suc m]) ?p =
    ComputeMerkleRootFromBranch Hash (CalcHash Hash leaves (Suc k) (?p div 2)) (map (sibling Hash leaves pos) [Suc k..<Suc k + m]) (?p div 2)"
    by (simp only: list.map ComputeMerkleRootFromBranch.simps step)
  also have "\<dots> = CalcHash Hash leaves (k + Suc m) (pos div 2 ^ (k + Suc m))" using Suc [of "Suc k"] unfolding up by simp
  finally show ?case .
qed simp

section \<open>What the root determines\<close>

text \<open>The strings that are hashed for the inner nodes, and a collision among given strings.\<close>

definition node_string :: "(bytes \<Rightarrow> bytes) \<Rightarrow> bytes list \<Rightarrow> nat \<Rightarrow> nat \<Rightarrow> bytes" where
  "node_string Hash leaves h pos =
     CalcHash Hash leaves h (pos * 2) @
     CalcHash Hash leaves h (if pos * 2 + 1 < CalcTreeWidth (length leaves) h then pos * 2 + 1 else pos * 2)"

definition hashed_strings :: "(bytes \<Rightarrow> bytes) \<Rightarrow> bytes list \<Rightarrow> bytes set" where
  "hashed_strings Hash leaves = {node_string Hash leaves h pos | h pos. 1 < CalcTreeWidth (length leaves) h \<and> pos * 2 < CalcTreeWidth (length leaves) h}"

definition collision :: "(bytes \<Rightarrow> bytes) \<Rightarrow> bytes set \<Rightarrow> bool" where
  "collision Hash A \<longleftrightarrow> (\<exists>x \<in> A. \<exists>y \<in> A. x \<noteq> y \<and> Hash x = Hash y)"

definition txids :: "bytes list \<Rightarrow> bool" where
  "txids leaves \<longleftrightarrow> (\<forall>h \<in> set leaves. length h = 32)"

lemma CalcHash_node: "CalcHash Hash leaves (Suc h) pos = Hash (node_string Hash leaves h pos)"
  by (simp add: CalcHash.simps(2) node_string_def Let_def)

lemma CalcHash_length:
  "txids leaves \<Longrightarrow> (\<And>x. length (Hash x) = 32) \<Longrightarrow> pos < CalcTreeWidth (length leaves) h \<Longrightarrow> length (CalcHash Hash leaves h pos) = 32"
  by (cases h) (auto simp: CalcHash_node txids_def)

text \<open>Without a collision equal nodes have equal children.\<close>

lemma equal_children:
  assumes c: "\<not> collision Hash (hashed_strings Hash xs \<union> hashed_strings Hash ys)" and t: "txids xs" "txids ys" "\<And>x. length (Hash x) = 32"
    and eq: "CalcHash Hash xs (Suc h) p = CalcHash Hash ys (Suc h) q"
    and w: "p * 2 < CalcTreeWidth (length xs) h" "q * 2 < CalcTreeWidth (length ys) h"
    and top: "1 < CalcTreeWidth (length xs) h" "1 < CalcTreeWidth (length ys) h"
  shows "CalcHash Hash xs h (p * 2) = CalcHash Hash ys h (q * 2)"
    "CalcHash Hash xs h (if p * 2 + 1 < CalcTreeWidth (length xs) h then p * 2 + 1 else p * 2) =
     CalcHash Hash ys h (if q * 2 + 1 < CalcTreeWidth (length ys) h then q * 2 + 1 else q * 2)"
proof -
  have "node_string Hash xs h p \<in> hashed_strings Hash xs" "node_string Hash ys h q \<in> hashed_strings Hash ys"
    using w top by (auto simp: hashed_strings_def)
  then have "node_string Hash xs h p = node_string Hash ys h q" using c eq unfolding collision_def CalcHash_node by blast
  moreover have "length (CalcHash Hash xs h (p * 2)) = length (CalcHash Hash ys h (q * 2))"
    using CalcHash_length [OF t(1,3) w(1)] CalcHash_length [OF t(2,3) w(2)] by simp
  ultimately show "CalcHash Hash xs h (p * 2) = CalcHash Hash ys h (q * 2)"
    "CalcHash Hash xs h (if p * 2 + 1 < CalcTreeWidth (length xs) h then p * 2 + 1 else p * 2) =
     CalcHash Hash ys h (if q * 2 + 1 < CalcTreeWidth (length ys) h then q * 2 + 1 else q * 2)"
    unfolding node_string_def by simp_all
qed

text \<open>A complete node that equals one filled up by repetition has equal complete subtrees.\<close>

lemma partial_equal:
  assumes c: "\<not> collision Hash (hashed_strings Hash ys)" and t: "txids ys" "\<And>x. length (Hash x) = 32"
    and "(a + 1) * 2 ^ h \<le> length ys" "b * 2 ^ h < length ys" "length ys < (b + 1) * 2 ^ h"
    and "CalcHash Hash ys h a = CalcHash Hash ys h b"
  shows "mutated_tree Hash ys"
  using assms(4-7)
proof (induction h arbitrary: a b)
  case (Suc h)
  let ?w = "CalcTreeWidth (length ys) h"
  have wa2: "(a * 2 + 2) * 2 ^ h \<le> length ys" using Suc.prems(1) by (simp add: algebra_simps)
  then have wa: "a * 2 + 1 < ?w" using le_CalcTreeWidth by fastforce
  then have top: "1 < ?w" by simp
  have wb: "b * 2 < ?w" using Suc.prems(2) by (simp add: CalcTreeWidth_less mult.assoc)
  have "\<not> collision Hash (hashed_strings Hash ys \<union> hashed_strings Hash ys)" using c by simp
  note ch = equal_children [OF this t(1,1,2) Suc.prems(4) _ wb top top]
  have l: "CalcHash Hash ys h (a * 2) = CalcHash Hash ys h (b * 2)" using ch(1) wa by simp
  show ?case
  proof (cases "b * 2 + 1 < ?w")
    case False
    then have "CalcHash Hash ys h (a * 2) = CalcHash Hash ys h (a * 2 + 1)" using ch(2) wa l by simp
    then show ?thesis unfolding mutated_tree_def using Suc.prems(1) by (intro exI [of _ h] exI [of _ a]) (simp add: mult.commute)
  next
    case True
    then have "CalcHash Hash ys h (a * 2 + 1) = CalcHash Hash ys h (b * 2 + 1)" using ch(2) wa by simp
    moreover have "(b * 2 + 1) * 2 ^ h < length ys" using True by (simp add: CalcTreeWidth_less)
    moreover have "length ys < (b * 2 + 1 + 1) * 2 ^ h" using Suc.prems(3) by (simp add: algebra_simps)
    moreover have "(a * 2 + 1 + 1) * 2 ^ h \<le> length ys" using wa2 by simp
    ultimately show ?thesis using Suc.IH by blast
  qed
qed simp

lemma last_pair_equal:
  assumes c: "\<not> collision Hash (hashed_strings Hash ys)" and t: "txids ys" "\<And>x. length (Hash x) = 32"
    and w: "CalcTreeWidth (length ys) h = 2 * p + 2" and eq: "CalcHash Hash ys h (2 * p) = CalcHash Hash ys h (2 * p + 1)"
  shows "mutated_tree Hash ys"
proof (cases "(p + 1) * 2 ^ Suc h \<le> length ys")
  case True
  then show ?thesis using eq by (auto simp: mutated_tree_def)
next
  case False
  have a: "(2 * p + 1) * 2 ^ h < length ys" using w CalcTreeWidth_less [of "2 * p + 1" "length ys" h] by simp
  show ?thesis
    by (rule partial_equal [OF c t _ a _ eq]) (use a False in \<open>simp_all add: algebra_simps\<close>)
qed

text \<open>The nodes of a level determine those of the level below.\<close>

definition level_eq :: "(bytes \<Rightarrow> bytes) \<Rightarrow> bytes list \<Rightarrow> bytes list \<Rightarrow> nat \<Rightarrow> bool" where
  "level_eq Hash xs ys h \<longleftrightarrow> CalcTreeWidth (length xs) h = CalcTreeWidth (length ys) h \<and>
     (\<forall>p < CalcTreeWidth (length xs) h. CalcHash Hash xs h p = CalcHash Hash ys h p)"

lemma level_widths:
  assumes c: "\<not> collision Hash (hashed_strings Hash xs \<union> hashed_strings Hash ys)" and t: "txids xs" "txids ys" "\<And>x. length (Hash x) = 32"
    and m: "\<not> mutated_tree Hash ys" and up: "level_eq Hash xs ys (Suc h)"
    and top: "1 < CalcTreeWidth (length xs) h" "1 < CalcTreeWidth (length ys) h"
  shows "CalcTreeWidth (length ys) h \<le> CalcTreeWidth (length xs) h"
proof (rule ccontr)
  let ?x = "CalcTreeWidth (length xs) h" and ?y = "CalcTreeWidth (length ys) h"
  assume lt: "\<not> ?y \<le> ?x"
  have half: "(?x + 1) div 2 = (?y + 1) div 2" using up by (simp add: level_eq_def CalcTreeWidth_Suc)
  have "(x + 1) div 2 = (y + 1) div 2 \<Longrightarrow> \<not> y \<le> x \<Longrightarrow> x = 2 * (x div 2) + 1 \<and> y = 2 * (x div 2) + 2" for x y :: nat
    by (cases "even x"; cases "even y") (auto elim!: evenE oddE)
  from this [OF half lt] obtain p where p: "?x = 2 * p + 1" "?y = 2 * p + 2" by blast
  have "p < CalcTreeWidth (length xs) (Suc h)" by (simp add: CalcTreeWidth_Suc p)
  then have eq: "CalcHash Hash xs (Suc h) p = CalcHash Hash ys (Suc h) p" using up by (simp add: level_eq_def)
  have "p * 2 < ?x" "p * 2 < ?y" using p by simp_all
  note ch = equal_children [OF c t eq this top]
  have "CalcHash Hash ys h (2 * p) = CalcHash Hash ys h (2 * p + 1)" using ch p by (simp add: mult.commute)
  moreover have "\<not> collision Hash (hashed_strings Hash ys)" using c by (auto simp: collision_def)
  ultimately show False using last_pair_equal [where Hash = Hash, OF _ t(2,3) p(2)] m by blast
qed

lemma level_down:
  assumes c: "\<not> collision Hash (hashed_strings Hash xs \<union> hashed_strings Hash ys)" and t: "txids xs" "txids ys" "\<And>x. length (Hash x) = 32"
    and m: "\<not> mutated_tree Hash xs" "\<not> mutated_tree Hash ys" and up: "level_eq Hash xs ys (Suc h)"
    and top: "1 < CalcTreeWidth (length xs) h" "1 < CalcTreeWidth (length ys) h"
  shows "level_eq Hash xs ys h"
proof -
  let ?x = "CalcTreeWidth (length xs) h"
  have up': "level_eq Hash ys xs (Suc h)" using up by (simp add: level_eq_def)
  have c': "\<not> collision Hash (hashed_strings Hash ys \<union> hashed_strings Hash xs)" using c by (simp add: Un_commute)
  have w: "?x = CalcTreeWidth (length ys) h"
    using level_widths [OF c t m(2) up top] level_widths [OF c' t(2,1,3) m(1) up' top(2,1)] by simp
  have "CalcHash Hash xs h p = CalcHash Hash ys h p" if p: "p < ?x" for p
  proof -
    have "p div 2 < CalcTreeWidth (length xs) (Suc h)" using p by (simp add: CalcTreeWidth_Suc)
    then have eq: "CalcHash Hash xs (Suc h) (p div 2) = CalcHash Hash ys (Suc h) (p div 2)" using up by (simp add: level_eq_def)
    have q: "p div 2 * 2 < ?x" using p by linarith
    note ch = equal_children [OF c t eq q q [unfolded w] top]
    show ?thesis
    proof (cases "even p")
      case True
      then show ?thesis using ch(1) by simp
    next
      case False
      then have "p div 2 * 2 + 1 = p" by presburger
      then show ?thesis using ch(2) p w by simp
    qed
  qed
  then show ?thesis using w by (simp add: level_eq_def)
qed

lemma root_binds:
  assumes c: "\<not> collision Hash (hashed_strings Hash xs \<union> hashed_strings Hash ys)" and t: "txids xs" "txids ys" "\<And>x. length (Hash x) = 32"
    and m: "\<not> mutated_tree Hash xs" "\<not> mutated_tree Hash ys" and h: "tree_height (length xs) H" "tree_height (length ys) H"
  shows "h \<le> H \<Longrightarrow> level_eq Hash xs ys h \<Longrightarrow> xs = ys"
proof (induction h)
  case 0
  then show ?case by (intro nth_equalityI) (auto simp: level_eq_def)
next
  case (Suc h)
  then show ?case using level_down [OF c t m Suc.prems(2)] h by (simp add: tree_height_def)
qed

text \<open>
  Trees of different heights: down the left edge, the first leaf of the lower tree equals an inner node of the higher one.
\<close>

lemma left_edge:
  assumes c: "\<not> collision Hash (hashed_strings Hash xs \<union> hashed_strings Hash ys)" and t: "txids xs" "txids ys" "\<And>x. length (Hash x) = 32"
    and "CalcHash Hash xs h 0 = CalcHash Hash ys k 0" "h \<le> k"
    and "\<forall>j < h. 1 < CalcTreeWidth (length xs) j" "\<forall>j < k. 1 < CalcTreeWidth (length ys) j"
  shows "CalcHash Hash xs 0 0 = CalcHash Hash ys (k - h) 0"
  using assms(5-8)
proof (induction h arbitrary: k)
  case (Suc h)
  obtain k' where k: "k = Suc k'" using Suc.prems(2) by (cases k) auto
  have w: "1 < CalcTreeWidth (length xs) h" "1 < CalcTreeWidth (length ys) k'" using Suc.prems(3,4) k by simp_all
  then have "node_string Hash xs h 0 \<in> hashed_strings Hash xs" "node_string Hash ys k' 0 \<in> hashed_strings Hash ys"
    unfolding hashed_strings_def by force+
  then have "node_string Hash xs h 0 = node_string Hash ys k' 0"
    using c Suc.prems(1) unfolding collision_def k CalcHash_node by blast
  moreover have "length (CalcHash Hash xs h 0) = length (CalcHash Hash ys k' 0)"
    using CalcHash_length [OF t(1,3), of 0 h] CalcHash_length [OF t(2,3), of 0 k'] w by simp
  ultimately have "CalcHash Hash xs h 0 = CalcHash Hash ys k' 0" by (simp add: node_string_def)
  then show ?case using Suc.IH [of k'] Suc.prems(2-4) k by simp
qed simp

lemma higher_tree_node:
  assumes c: "\<not> collision Hash (hashed_strings Hash xs \<union> hashed_strings Hash ys)" and t: "txids xs" "txids ys" "\<And>x. length (Hash x) = 32"
    and "tree_height (length xs) h" "tree_height (length ys) k" "CalcHash Hash xs h 0 = CalcHash Hash ys k 0" "h < k"
  shows "\<exists>s \<in> hashed_strings Hash ys. CalcHash Hash xs 0 0 = Hash s \<and> length s = 64"
proof -
  obtain j where j: "k - h = Suc j" using assms(8) by (metis Suc_diff_Suc)
  have "CalcHash Hash xs 0 0 = CalcHash Hash ys (k - h) 0"
    by (rule left_edge [OF c t assms(7)]) (use assms(5,6,8) in \<open>simp_all add: tree_height_def\<close>)
  then have e: "CalcHash Hash xs 0 0 = Hash (node_string Hash ys j 0)" by (simp only: j CalcHash_node)
  have w: "1 < CalcTreeWidth (length ys) j" using assms(6) j by (simp add: tree_height_def)
  then have "node_string Hash ys j 0 \<in> hashed_strings Hash ys" unfolding hashed_strings_def by force
  moreover have "length (node_string Hash ys j 0) = 64"
    using CalcHash_length [OF t(2,3), of 0 j] CalcHash_length [OF t(2,3), of 1 j] w by (simp add: node_string_def)
  ultimately show ?thesis using e by blast
qed

section \<open>Properties\<close>

text \<open>
  For up to \<open>2 ^ 31\<close> leaves the constant-space computation returns, without an undefined shift, the hash of the top node
  of the recursive tree in which an odd last node is paired with itself, and it reports a mutation exactly when two
  equal neighbours with all their leaves present were combined.
\<close>

theorem merkle_root_correct:
  assumes "leaves \<noteq> []" "length leaves \<le> 2 ^ 31"
  shows "\<exists>h. tree_height (length leaves) h \<and>
    ComputeMerkleRoot Hash leaves = Some (CalcHash Hash leaves h 0, mutated_tree Hash leaves)"
  using MerkleComputation_ok [OF assms, of Hash "2 ^ 32 - 1"] by (auto simp: ComputeMerkleRoot_def)

theorem merkle_root_correct_witness:
  "\<exists>h. tree_height 3 h \<and> ComputeMerkleRoot id [[1], [2], [3]] = Some (CalcHash id [[1], [2], [3]] h 0, mutated_tree id [[1], [2], [3]])"
  using merkle_root_correct [of "[[1], [2], [3]]" id] by (simp add: numeral_3_eq_3)

text \<open>
  The branch computed for a position leads from the leaf there to the root:
  \<open>ComputeMerkleRootFromBranch\<close> returns what \<open>ComputeMerkleRoot\<close> computes.
\<close>

theorem merkle_branch_proves:
  assumes "pos < length leaves" "length leaves \<le> 2 ^ 31"
  shows "\<exists>branch root mutated. ComputeMerkleBranch Hash leaves pos = Some branch \<and>
    ComputeMerkleRoot Hash leaves = Some (root, mutated) \<and> ComputeMerkleRootFromBranch Hash (leaves ! pos) branch pos = root"
proof -
  have ne: "leaves \<noteq> []" using assms(1) by auto
  obtain h where h: "MerkleComputation Hash leaves pos = Some (CalcHash Hash leaves h 0, mutated_tree Hash leaves, branch_to Hash leaves pos h)"
    "tree_height (length leaves) h" using MerkleComputation_ok [OF ne assms(2), of Hash pos] assms(1) by blast
  obtain h' b where h': "MerkleComputation Hash leaves (2 ^ 32 - 1) = Some (CalcHash Hash leaves h' 0, mutated_tree Hash leaves, b)"
    "tree_height (length leaves) h'" using MerkleComputation_ok [OF ne assms(2), of Hash "2 ^ 32 - 1"] by blast
  have "h' = h" using h(2) h'(2) by (rule tree_height_unique)
  moreover have "pos div 2 ^ h = 0" using h(2) assms(1) CalcTreeWidth_less [of 1 "length leaves" h] by (simp add: tree_height_def)
  ultimately show ?thesis using root_from_branch [OF assms(1), of Hash 0 h] h(1) h'(1)
    by (simp add: ComputeMerkleBranch_def ComputeMerkleRoot_def branch_to_def)
qed

theorem merkle_branch_proves_witness:
  "\<exists>branch root mutated. ComputeMerkleBranch id [[1], [2], [3]] 2 = Some branch \<and>
    ComputeMerkleRoot id [[1], [2], [3]] = Some (root, mutated) \<and> ComputeMerkleRootFromBranch id [3] branch 2 = root"
  using merkle_branch_proves [of 2 "[[1], [2], [3]]" id] by simp

text \<open>
  Two lists of transaction hashes with trees of the same height and the same root, neither reported as mutated, are the
  same list, unless two different strings among those hashed for the two trees have the same hash.
\<close>

theorem merkle_root_binds:
  assumes "ComputeMerkleRoot Hash xs = Some (root, False)" "ComputeMerkleRoot Hash ys = Some (root, False)"
    and "xs \<noteq> []" "ys \<noteq> []" "length xs \<le> 2 ^ 31" "length ys \<le> 2 ^ 31"
    and "\<forall>h. tree_height (length xs) h = tree_height (length ys) h"
    and "txids xs" "txids ys" "\<forall>x. length (Hash x) = 32"
    and "\<not> collision Hash (hashed_strings Hash xs \<union> hashed_strings Hash ys)"
  shows "xs = ys"
proof -
  obtain h where h: "tree_height (length xs) h" "CalcHash Hash xs h 0 = root" "\<not> mutated_tree Hash xs"
    using MerkleComputation_ok [OF assms(3,5), of Hash "2 ^ 32 - 1"] assms(1) by (auto simp: ComputeMerkleRoot_def)
  obtain k where k: "tree_height (length ys) k" "CalcHash Hash ys k 0 = root" "\<not> mutated_tree Hash ys"
    using MerkleComputation_ok [OF assms(4,6), of Hash "2 ^ 32 - 1"] assms(2) by (auto simp: ComputeMerkleRoot_def)
  have "k = h" using h(1) k(1) assms(7) tree_height_unique by blast
  then have "level_eq Hash xs ys h" using h k by (simp add: level_eq_def tree_height_def)
  then show ?thesis using root_binds [OF assms(11,8,9) _ h(3) k(3) h(1) k(1) [unfolded \<open>k = h\<close>]] assms(10) by blast
qed

definition example_leaves :: "bytes list" where
  "example_leaves = [replicate 32 1, replicate 32 2]"

definition example_hash :: "bytes \<Rightarrow> bytes" where
  "example_hash x = replicate 32 7"

lemma example_height: "tree_height (length example_leaves) h \<longleftrightarrow> h = 1"
proof -
  have "tree_height (length example_leaves) 1" by (rule tree_heightI) (simp_all add: example_leaves_def CalcTreeWidth_def)
  then show ?thesis using tree_height_unique by blast
qed

lemma example_unmutated: "\<not> mutated_tree example_hash example_leaves"
proof
  assume "mutated_tree example_hash example_leaves"
  then obtain j p where jp: "(p + 1) * 2 ^ Suc j \<le> 2" "CalcHash example_hash example_leaves j (2 * p) = CalcHash example_hash example_leaves j (2 * p + 1)"
    unfolding mutated_tree_def by (metis One_nat_def Suc_1 example_leaves_def list.size(3,4) Suc_eq_plus1)
  have "2 ^ Suc j \<le> (p + 1) * (2 :: nat) ^ Suc j" by simp
  then have "(2 :: nat) ^ j \<le> 1" using jp(1) by simp
  moreover have "j < (2 :: nat) ^ j" by simp
  ultimately have j: "j = 0" by linarith
  then have "p = 0" using jp(1) by simp
  then have "replicate 32 (1 :: u8) = replicate 32 2" using jp(2) j by (simp add: example_leaves_def)
  then show False by (simp add: replicate_eq_replicate)
qed

lemma example_no_collision: "\<not> collision Hash (hashed_strings Hash example_leaves)"
proof -
  have "h = 0 \<and> pos = 0" if "1 < CalcTreeWidth (length example_leaves) h" "pos * 2 < CalcTreeWidth (length example_leaves) h" for h pos
  proof -
    have "2 ^ h < (2 :: nat)" using that(1) by (simp add: CalcTreeWidth_less example_leaves_def)
    then have "h = 0" by (cases h) auto
    then show ?thesis using that(2) by (simp add: example_leaves_def)
  qed
  then have "hashed_strings Hash example_leaves \<subseteq> {node_string Hash example_leaves 0 0}" by (fastforce simp: hashed_strings_def)
  then show ?thesis by (auto simp: collision_def)
qed

lemma example_size: "example_leaves \<noteq> []" "length example_leaves \<le> 2 ^ 31"
  by (simp_all add: example_leaves_def)

lemma example_txids: "txids example_leaves"
  by (auto simp: txids_def example_leaves_def)

lemma example_root: "ComputeMerkleRoot example_hash example_leaves = Some (replicate 32 7, False)"
proof -
  obtain h b where "MerkleComputation example_hash example_leaves (2 ^ 32 - 1) = Some (CalcHash example_hash example_leaves h 0, False, b)" "h = 1"
    using MerkleComputation_ok [OF example_size, of example_hash "2 ^ 32 - 1"] example_unmutated example_height by auto
  then show ?thesis by (simp add: ComputeMerkleRoot_def CalcHash_node example_hash_def)
qed

theorem merkle_root_binds_witness:
  "ComputeMerkleRoot example_hash example_leaves = Some (replicate 32 7, False) \<and> example_leaves = [replicate 32 1, replicate 32 2]"
proof -
  note r = example_root and e = example_size and t = example_txids
  have "example_leaves = [replicate 32 1, replicate 32 2]"
    by (rule merkle_root_binds [of example_hash example_leaves "replicate 32 7" "[replicate 32 1, replicate 32 2]",
          OF r r [unfolded example_leaves_def] e(1) e(1) [unfolded example_leaves_def] e(2) e(2) [unfolded example_leaves_def]
            _ t t [unfolded example_leaves_def]])
      (unfold example_leaves_def [symmetric], simp_all add: example_hash_def example_no_collision)
  then show ?thesis using r by blast
qed

end
