(* ===== verification/Partial_Merkle.thy ===== *)
theory Partial_Merkle
  imports Merkle Serialization
begin

text \<open>
  Partial Merkle trees, \<open>src/src/merkleblock.h\<close> and \<open>merkleblock.cpp\<close>: building one from the transactions of a block and a
  selection of them, sending it, and extracting the selected transactions and the root.
\<close>

record CPartialMerkleTree =
  nTransactions :: nat
  vBits :: "bool list"
  vHash :: "bytes list"

section \<open>Building\<close>

function height_from :: "nat \<Rightarrow> nat \<Rightarrow> nat" where
  "height_from n nHeight = (if CalcTreeWidth n nHeight > 1 then height_from n (nHeight + 1) else nHeight)"
  by pat_completeness auto
termination
proof (relation "measure (\<lambda>(n, h). n - h)", goal_cases)
  case (2 n h)
  then have "2 ^ h < n" by (simp add: CalcTreeWidth_less)
  moreover have "h < 2 ^ h" by simp
  ultimately have "h < n" by linarith
  then show ?case by simp
qed simp

declare height_from.simps [simp del]

definition fParentOfMatch :: "nat \<Rightarrow> bool list \<Rightarrow> nat \<Rightarrow> nat \<Rightarrow> bool" where
  "fParentOfMatch n vMatch height pos =
     list_ex (\<lambda>p. vMatch ! p) [pos * 2 ^ height..<min ((pos + 1) * 2 ^ height) n]"

text \<open>The result is what the traversal appends to \<open>vBits\<close> and to \<open>vHash\<close>.\<close>

fun TraverseAndBuild :: "(bytes \<Rightarrow> bytes) \<Rightarrow> bytes list \<Rightarrow> bool list \<Rightarrow> nat \<Rightarrow> nat \<Rightarrow> bool list \<times> bytes list" where
  "TraverseAndBuild Hash vTxid vMatch 0 pos =
     ([fParentOfMatch (length vTxid) vMatch 0 pos], [CalcHash Hash vTxid 0 pos])"
| "TraverseAndBuild Hash vTxid vMatch (Suc height) pos =
     (if \<not> fParentOfMatch (length vTxid) vMatch (Suc height) pos
      then ([False], [CalcHash Hash vTxid (Suc height) pos])
      else let (lb, lh) = TraverseAndBuild Hash vTxid vMatch height (pos * 2);
               (rb, rh) = (if pos * 2 + 1 < CalcTreeWidth (length vTxid) height
                           then TraverseAndBuild Hash vTxid vMatch height (pos * 2 + 1) else ([], []))
           in (True # lb @ rb, lh @ rh))"

text \<open>The constructor; on an empty list it reads \<open>vTxid[0]\<close>, which is undefined.\<close>

definition make_tree :: "(bytes \<Rightarrow> bytes) \<Rightarrow> bytes list \<Rightarrow> bool list \<Rightarrow> CPartialMerkleTree option" where
  "make_tree Hash vTxid vMatch =
     (if vTxid = [] then None
      else case TraverseAndBuild Hash vTxid vMatch (height_from (length vTxid) 0) 0 of
        (b, h) \<Rightarrow> Some \<lparr>nTransactions = length vTxid, vBits = b, vHash = h\<rparr>)"

section \<open>Extracting\<close>

record extract_state =
  nBitsUsed :: nat
  nHashUsed :: nat
  fBad :: bool
  vMatched :: "bytes list"
  vnIndex :: "nat list"

definition null_hash :: bytes where
  "null_hash = replicate 32 0"

fun TraverseAndExtract :: "(bytes \<Rightarrow> bytes) \<Rightarrow> CPartialMerkleTree \<Rightarrow> nat \<Rightarrow> nat \<Rightarrow> extract_state \<Rightarrow> bytes \<times> extract_state" where
  "TraverseAndExtract Hash t 0 pos s =
     (if nBitsUsed s \<ge> length (vBits t) then (null_hash, s\<lparr>fBad := True\<rparr>)
      else let parent = vBits t ! nBitsUsed s; s = s\<lparr>nBitsUsed := nBitsUsed s + 1\<rparr> in
        if nHashUsed s \<ge> length (vHash t) then (null_hash, s\<lparr>fBad := True\<rparr>)
        else let h = vHash t ! nHashUsed s; s = s\<lparr>nHashUsed := nHashUsed s + 1\<rparr> in
          (h, if parent then s\<lparr>vMatched := vMatched s @ [h], vnIndex := vnIndex s @ [pos]\<rparr> else s))"
| "TraverseAndExtract Hash t (Suc height) pos s =
     (if nBitsUsed s \<ge> length (vBits t) then (null_hash, s\<lparr>fBad := True\<rparr>)
      else let parent = vBits t ! nBitsUsed s; s = s\<lparr>nBitsUsed := nBitsUsed s + 1\<rparr> in
        if \<not> parent then
          (if nHashUsed s \<ge> length (vHash t) then (null_hash, s\<lparr>fBad := True\<rparr>)
           else (vHash t ! nHashUsed s, s\<lparr>nHashUsed := nHashUsed s + 1\<rparr>))
        else
          (case TraverseAndExtract Hash t height (pos * 2) s of
             (left, s) \<Rightarrow>
               (if pos * 2 + 1 < CalcTreeWidth (nTransactions t) height then
                  (case TraverseAndExtract Hash t height (pos * 2 + 1) s of
                     (right, s) \<Rightarrow> (Hash (left @ right), if right = left then s\<lparr>fBad := True\<rparr> else s))
                else (Hash (left @ left), s))))"

text \<open>The root, zero in case of a failure, with the matches found so far and their positions.\<close>

definition ExtractMatches :: "(bytes \<Rightarrow> bytes) \<Rightarrow> CPartialMerkleTree \<Rightarrow> bytes \<times> bytes list \<times> nat list" where
  "ExtractMatches Hash t =
     (if nTransactions t = 0 then (null_hash, [], [])
      else if nTransactions t > 2000000 div 60 then (null_hash, [], [])
      else if length (vHash t) > nTransactions t then (null_hash, [], [])
      else if length (vBits t) < length (vHash t) then (null_hash, [], [])
      else case TraverseAndExtract Hash t (height_from (nTransactions t) 0) 0
                  \<lparr>nBitsUsed = 0, nHashUsed = 0, fBad = False, vMatched = [], vnIndex = []\<rparr> of
        (root, s) \<Rightarrow>
          (if fBad s then (null_hash, vMatched s, vnIndex s)
           else if (nBitsUsed s + 7) div 8 \<noteq> (length (vBits t) + 7) div 8 then (null_hash, vMatched s, vnIndex s)
           else if nHashUsed s \<noteq> length (vHash t) then (null_hash, vMatched s, vnIndex s)
           else (root, vMatched s, vnIndex s)))"

section \<open>Sending\<close>

definition ser_tree :: "CPartialMerkleTree \<Rightarrow> bytes" where
  "ser_tree t = ser_writedata32 (of_nat (nTransactions t)) @ write_vector (\<lambda>h. h) (vHash t) @
     write_blob (write_fixed_bits (length (vBits t)) (vBits t))"

definition deser_tree :: "CPartialMerkleTree reader" where
  "deser_tree s =
     sbind (ser_readdata32 s) (\<lambda>(total, s).
     sbind (read_vector (read_bytes 32) s) (\<lambda>(hs, s).
     sbind (read_blob s) (\<lambda>(vBytes, s).
       Inr (\<lparr>nTransactions = unat total,
             vBits = map (\<lambda>p. vBytes ! (p div 8) AND push_bit (p mod 8) 1 \<noteq> 0) [0..<length vBytes * 8],
             vHash = hs\<rparr>, s))))"

section \<open>What the traversals have in common\<close>

lemma height_from_ok: "0 < n \<Longrightarrow> (\<And>j. j < h \<Longrightarrow> 1 < CalcTreeWidth n j) \<Longrightarrow> tree_height n (height_from n h)"
proof (induction n h rule: height_from.induct)
  case (1 n h)
  show ?case
  proof (cases "1 < CalcTreeWidth n h")
    case True
    have "1 < CalcTreeWidth n j" if "j < h + 1" for j using True 1(3) [of j] that by (cases "j = h") auto
    then have "tree_height n (height_from n (h + 1))" using 1(1) [OF True 1(2)] by blast
    then show ?thesis using True by (subst height_from.simps) simp
  next
    case False
    moreover have "0 < CalcTreeWidth n h" using 1(2) by (simp add: CalcTreeWidth_less)
    ultimately have "CalcTreeWidth n h = 1" by simp
    then show ?thesis using False 1(3) by (subst height_from.simps) (simp add: tree_height_def)
  qed
qed

text \<open>The selected positions below a node.\<close>

definition selected :: "nat \<Rightarrow> bool list \<Rightarrow> nat \<Rightarrow> nat \<Rightarrow> nat list" where
  "selected n vMatch height pos = filter (\<lambda>p. vMatch ! p) [pos * 2 ^ height..<min ((pos + 1) * 2 ^ height) n]"

lemma fParentOfMatch_selected: "fParentOfMatch n vMatch height pos \<longleftrightarrow> selected n vMatch height pos \<noteq> []"
  by (auto simp: fParentOfMatch_def selected_def list_ex_iff filter_empty_conv)

lemma selected_split:
  assumes "pos * 2 < CalcTreeWidth n h"
  shows "selected n vMatch (Suc h) pos = selected n vMatch h (pos * 2) @
    (if pos * 2 + 1 < CalcTreeWidth n h then selected n vMatch h (pos * 2 + 1) else [])"
proof -
  let ?a = "pos * 2 * 2 ^ h" and ?b = "(pos * 2 + 1) * 2 ^ h" and ?c = "(pos * 2 + 2) * 2 ^ h"
  have ab: "?a \<le> ?b" "?b \<le> ?c" by simp_all
  have eq: "pos * 2 ^ Suc h = ?a" "(pos + 1) * 2 ^ Suc h = ?c" "(pos * 2 + 1 + 1) * 2 ^ h = ?c" by (simp_all add: algebra_simps)
  have lt: "pos * 2 + 1 < CalcTreeWidth n h \<longleftrightarrow> ?b < n" by (rule CalcTreeWidth_less)
  show ?thesis
  proof (cases "?b < n")
    case True
    then have "[?a..<min ?c n] = [?a..<min ?b n] @ [?b..<min ?c n]"
      using ab upt_add_eq_append [of ?a ?b "min ?c n - ?b"] by (simp add: min_def)
    then show ?thesis using True unfolding selected_def lt eq by simp
  next
    case False
    then have "min ?c n = n" "min ?b n = n" using ab by (simp_all add: min_def)
    then show ?thesis using False unfolding selected_def lt eq by simp
  qed
qed

lemma leaf_selected: "pos < n \<Longrightarrow> selected n vMatch 0 pos = (if vMatch ! pos then [pos] else [])"
  by (simp add: selected_def min_def upt_rec [of pos "Suc pos"])

text \<open>The state after the hashes and bits of a subtree have been consumed.\<close>

definition consumed :: "bool list \<times> bytes list \<Rightarrow> bytes list \<Rightarrow> nat list \<Rightarrow> extract_state \<Rightarrow> extract_state" where
  "consumed bh vTxid ps s = s\<lparr>nBitsUsed := nBitsUsed s + length (fst bh), nHashUsed := nHashUsed s + length (snd bh),
     vMatched := vMatched s @ map ((!) vTxid) ps, vnIndex := vnIndex s @ ps\<rparr>"

definition holds_at :: "CPartialMerkleTree \<Rightarrow> bool list \<times> bytes list \<Rightarrow> extract_state \<Rightarrow> bool" where
  "holds_at t bh s \<longleftrightarrow> (\<exists>rb rh. drop (nBitsUsed s) (vBits t) = fst bh @ rb \<and> drop (nHashUsed s) (vHash t) = snd bh @ rh)"

definition no_twins :: "(bytes \<Rightarrow> bytes) \<Rightarrow> bytes list \<Rightarrow> bool" where
  "no_twins Hash vTxid \<longleftrightarrow> (\<forall>h p. p * 2 + 1 < CalcTreeWidth (length vTxid) h \<longrightarrow>
     CalcHash Hash vTxid h (p * 2) \<noteq> CalcHash Hash vTxid h (p * 2 + 1))"

lemma nth_drop_Cons: "drop k xs = y # ys \<Longrightarrow> k < length xs \<and> xs ! k = y \<and> drop (Suc k) xs = ys"
proof -
  assume d: "drop k xs = y # ys"
  then have "k < length xs" by (metis drop_all linorder_not_less list.distinct(1))
  moreover from this have "drop k xs = xs ! k # drop (Suc k) xs" by (rule Cons_nth_drop_Suc [symmetric])
  ultimately show ?thesis using d by simp
qed

lemma holds_at_append:
  assumes "holds_at t (b1 @ b2, h1 @ h2) s"
  shows "holds_at t (b1, h1) s" "holds_at t (b2, h2) (consumed (b1, h1) vTxid ps s)"
proof -
  obtain rb rh where r: "drop (nBitsUsed s) (vBits t) = b1 @ b2 @ rb" "drop (nHashUsed s) (vHash t) = h1 @ h2 @ rh"
    using assms by (auto simp: holds_at_def)
  then show "holds_at t (b1, h1) s" by (auto simp: holds_at_def)
  have "drop (nBitsUsed s + length b1) (vBits t) = b2 @ rb" "drop (nHashUsed s + length h1) (vHash t) = h2 @ rh"
    using r by (metis add.commute append_eq_conv_conj drop_drop)+
  then show "holds_at t (b2, h2) (consumed (b1, h1) vTxid ps s)" by (auto simp: holds_at_def consumed_def)
qed

lemma consumed_consumed:
  "consumed (b2, h2) vTxid qs (consumed (b1, h1) vTxid ps s) = consumed (b1 @ b2, h1 @ h2) vTxid (ps @ qs) s"
  by (simp add: consumed_def add.assoc)

lemma extract_build:
  assumes n: "nTransactions t = length vTxid" and nt: "no_twins Hash vTxid"
  shows "pos < CalcTreeWidth (length vTxid) h \<Longrightarrow> holds_at t (TraverseAndBuild Hash vTxid vMatch h pos) s \<Longrightarrow>
    TraverseAndExtract Hash t h pos s =
      (CalcHash Hash vTxid h pos, consumed (TraverseAndBuild Hash vTxid vMatch h pos) vTxid (selected (length vTxid) vMatch h pos) s)"
proof (induction h arbitrary: pos s)
  case 0
  obtain rb rh where r: "drop (nBitsUsed s) (vBits t) = fParentOfMatch (length vTxid) vMatch 0 pos # rb"
      "drop (nHashUsed s) (vHash t) = (vTxid ! pos) # rh"
    using 0(2) by (auto simp: holds_at_def)
  show ?case using nth_drop_Cons [OF r(1)] nth_drop_Cons [OF r(2)] leaf_selected [of pos "length vTxid" vMatch] 0(1)
    by (simp add: Let_def consumed_def fParentOfMatch_selected)
next
  case (Suc h)
  let ?w = "CalcTreeWidth (length vTxid) h" and ?T = "TraverseAndBuild Hash vTxid vMatch h"
  have wl: "pos * 2 < ?w" using Suc.prems(1) by (simp add: CalcTreeWidth_less mult.assoc)
  show ?case
  proof (cases "fParentOfMatch (length vTxid) vMatch (Suc h) pos")
    case False
    then obtain rb rh where r: "drop (nBitsUsed s) (vBits t) = False # rb" "drop (nHashUsed s) (vHash t) = CalcHash Hash vTxid (Suc h) pos # rh"
      using Suc.prems(2) by (auto simp: holds_at_def)
    show ?thesis using nth_drop_Cons [OF r(1)] nth_drop_Cons [OF r(2)] False
      by (simp add: Let_def consumed_def fParentOfMatch_selected)
  next
    case True
    obtain lb lh where L: "?T (pos * 2) = (lb, lh)" by (rule prod.exhaust)
    obtain rb rh where R: "(if pos * 2 + 1 < ?w then ?T (pos * 2 + 1) else ([], [])) = (rb, rh)" by (rule prod.exhaust)
    have T: "TraverseAndBuild Hash vTxid vMatch (Suc h) pos = (True # lb @ rb, lh @ rh)" using True L R by (simp add: Let_def)
    let ?s = "s\<lparr>nBitsUsed := nBitsUsed s + 1\<rparr>"
    have "holds_at t ([True] @ (lb @ rb), [] @ (lh @ rh)) s" using Suc.prems(2) T by simp
    from this holds_at_append(2) [OF this, of vTxid "[]"] have b0: "nBitsUsed s < length (vBits t)" "vBits t ! nBitsUsed s"
      and h: "holds_at t (lb @ rb, lh @ rh) ?s"
      by (auto simp: holds_at_def consumed_def dest: nth_drop_Cons)
    note hl = holds_at_append [OF h]
    let ?pl = "selected (length vTxid) vMatch h (pos * 2)"
    have el: "TraverseAndExtract Hash t h (pos * 2) ?s = (CalcHash Hash vTxid h (pos * 2), consumed (lb, lh) vTxid ?pl ?s)"
      using Suc.IH [OF wl, of ?s] hl(1) L by simp
    show ?thesis
    proof (cases "pos * 2 + 1 < ?w")
      case False
      then have "rb = []" "rh = []" using R by simp_all
      then show ?thesis using b0 el False T n wl selected_split [OF wl, of vMatch]
        by (simp add: Let_def CalcHash.simps(2) consumed_def)
    next
      case w: True
      then have R': "?T (pos * 2 + 1) = (rb, rh)" using R by simp
      have "TraverseAndExtract Hash t h (pos * 2 + 1) (consumed (lb, lh) vTxid ?pl ?s) =
          (CalcHash Hash vTxid h (pos * 2 + 1), consumed (rb, rh) vTxid (selected (length vTxid) vMatch h (pos * 2 + 1)) (consumed (lb, lh) vTxid ?pl ?s))"
        using Suc.IH [OF w, of "consumed (lb, lh) vTxid ?pl ?s"] hl(2) R' by simp
      moreover have "CalcHash Hash vTxid h (pos * 2 + 1) \<noteq> CalcHash Hash vTxid h (pos * 2)" using nt w unfolding no_twins_def by metis
      ultimately show ?thesis using b0 el w T n selected_split [OF wl, of vMatch]
        by (simp add: Let_def CalcHash.simps(2) consumed_consumed) (simp add: consumed_def)
    qed
  qed
qed

section \<open>Sizes\<close>

definition leaves_below :: "nat \<Rightarrow> nat \<Rightarrow> nat \<Rightarrow> nat" where
  "leaves_below n h pos = min ((pos + 1) * 2 ^ h) n - pos * 2 ^ h"

lemma leaves_below_split:
  "pos * 2 < CalcTreeWidth n h \<Longrightarrow> leaves_below n (Suc h) pos = leaves_below n h (pos * 2) +
     (if pos * 2 + 1 < CalcTreeWidth n h then leaves_below n h (pos * 2 + 1) else 0)"
  unfolding CalcTreeWidth_less leaves_below_def by (auto simp: min_def algebra_simps)

lemma leaves_below_pos: "pos < CalcTreeWidth n h \<Longrightarrow> 0 < leaves_below n h pos"
proof -
  assume "pos < CalcTreeWidth n h"
  then have "pos * 2 ^ h < n" "pos * 2 ^ h < (pos + 1) * 2 ^ h" by (simp_all add: CalcTreeWidth_less)
  then show ?thesis unfolding leaves_below_def by linarith
qed

lemma build_sizes:
  "pos < CalcTreeWidth (length vTxid) h \<Longrightarrow> TraverseAndBuild Hash vTxid vMatch h pos = (b, hs) \<Longrightarrow>
   length hs \<le> leaves_below (length vTxid) h pos \<and> length hs \<le> length b \<and> length b < 2 * 2 ^ h \<and>
   (txids vTxid \<and> (\<forall>x. length (Hash x) = 32) \<longrightarrow> txids hs)"
proof (induction h arbitrary: pos b hs)
  case 0
  then show ?case by (auto simp: leaves_below_def txids_def)
next
  case (Suc h)
  let ?w = "CalcTreeWidth (length vTxid) h" and ?T = "TraverseAndBuild Hash vTxid vMatch h"
  have wl: "pos * 2 < ?w" using Suc.prems(1) by (simp add: CalcTreeWidth_less mult.assoc)
  have lp: "0 < leaves_below (length vTxid) (Suc h) pos" by (rule leaves_below_pos [OF Suc.prems(1)])
  show ?case
  proof (cases "fParentOfMatch (length vTxid) vMatch (Suc h) pos")
    case False
    have hs: "b = [False]" "hs = [CalcHash Hash vTxid (Suc h) pos]" using False Suc.prems(2) by simp_all
    have tx: "txids vTxid \<and> (\<forall>x. length (Hash x) = 32) \<longrightarrow> txids hs"
      using CalcHash_length [of vTxid Hash pos "Suc h"] Suc.prems(1) unfolding hs(2) txids_def by (metis empty_set list.simps(15) singletonD)
    have "(0 :: nat) < 2 ^ h" by simp
    then have "(1 :: nat) < 2 * 2 ^ Suc h" unfolding power_Suc by linarith
    then have "length b < 2 * 2 ^ Suc h" unfolding hs(1) by (simp only: list.size One_nat_def add_0)
    moreover have "length hs \<le> leaves_below (length vTxid) (Suc h) pos" "length hs \<le> length b" using lp unfolding hs by simp_all
    ultimately show ?thesis using tx by blast
  next
    case True
    obtain lb lh where L: "?T (pos * 2) = (lb, lh)" by (rule prod.exhaust)
    obtain rb rh where R: "(if pos * 2 + 1 < ?w then ?T (pos * 2 + 1) else ([], [])) = (rb, rh)" by (rule prod.exhaust)
    have b: "b = True # lb @ rb" "hs = lh @ rh" using Suc.prems(2) True L R by (auto simp: Let_def)
    note l = Suc.IH [OF wl L]
    have r: "length rh \<le> (if pos * 2 + 1 < ?w then leaves_below (length vTxid) h (pos * 2 + 1) else 0) \<and> length rh \<le> length rb \<and>
      length rb < 2 * 2 ^ h \<and> (txids vTxid \<and> (\<forall>x. length (Hash x) = 32) \<longrightarrow> txids rh)"
    proof (cases "pos * 2 + 1 < ?w")
      case w: True
      then have "?T (pos * 2 + 1) = (rb, rh)" using R by simp
      from Suc.IH [OF w this] show ?thesis unfolding if_P [OF w] .
    next
      case False
      then have "rb = []" "rh = []" using R by simp_all
      then show ?thesis by (simp add: txids_def)
    qed
    have "length hs \<le> leaves_below (length vTxid) (Suc h) pos"
      unfolding b leaves_below_split [OF wl] length_append using l r by (intro add_mono) blast+
    moreover have "length hs \<le> length b" "length b < 2 * 2 ^ Suc h" unfolding b power_Suc length_append list.size using l r by linarith+
    moreover have "txids vTxid \<and> (\<forall>x. length (Hash x) = 32) \<longrightarrow> txids hs"
      using l r unfolding b txids_def set_append ball_Un by blast
    ultimately show ?thesis by blast
  qed
qed

section \<open>Round trip\<close>

interpretation hash32: canonical_codec "\<lambda>h. length h = 32" "\<lambda>h. h" "read_bytes 32"
  by unfold_locales (auto simp: read_bytes_append dest: read_bytes_only)

lemma tree_roundtrip:
  assumes "nTransactions t < 2 ^ 32" "txids (vHash t)" "length (vHash t) \<le> MAX_SIZE" "(length (vBits t) + 7) div 8 \<le> MAX_SIZE"
  shows "\<exists>pad. deser_tree (ser_tree t @ s) = Inr (t\<lparr>vBits := vBits t @ pad\<rparr>, s) \<and>
    (length (vBits t @ pad) + 7) div 8 = (length (vBits t) + 7) div 8"
proof -
  let ?n = "length (vBits t)" and ?v = "write_fixed_bits (length (vBits t)) (vBits t)"
  define bs where "bs = map (\<lambda>p. ?v ! (p div 8) AND push_bit (p mod 8) 1 \<noteq> 0) [0..<length ?v * 8]"
  note w = write_fixed_bits_bit [of "vBits t" "length (vBits t)", OF refl]
  have n: "?n \<le> (?n + 7) div 8 * 8" by linarith
  have lb: "length bs = (?n + 7) div 8 * 8" by (simp add: bs_def w(1))
  have nth: "bs ! p \<longleftrightarrow> p < ?n \<and> vBits t ! p" if "p < (?n + 7) div 8 * 8" for p
  proof -
    have "p div 8 < (?n + 7) div 8" using that by (simp add: less_mult_imp_div_less)
    then show ?thesis using w(2) [of "p div 8" "p mod 8"] that test_bit_mask [of "?v ! (p div 8)" "p mod 8"]
      by (simp add: bs_def w(1))
  qed
  have "take ?n bs = vBits t"
  proof (rule nth_equalityI)
    show "length (take ?n bs) = ?n" using lb n by simp
    fix p
    assume "p < length (take ?n bs)"
    then show "take ?n bs ! p = vBits t ! p" using nth [of p] lb n by simp
  qed
  then have bs: "vBits t @ drop ?n bs = bs" by (metis append_take_drop_id)
  have "unat (of_nat (nTransactions t) :: u32) = nTransactions t" using assms(1) by (simp add: unat_of_nat)
  moreover have "length ?v \<le> MAX_SIZE" using assms(4) w(1) by simp
  moreover have "vector_ok (\<lambda>h. length h = 32) (vHash t)" using assms(2,3) by (auto simp: vector_ok_def txids_def)
  ultimately have "deser_tree (ser_tree t @ s) = Inr (t\<lparr>vBits := bs\<rparr>, s)"
    using codec.dec_enc [OF hash32.vector_codec] by (cases t) (simp add: deser_tree_def ser_tree_def u32.dec_enc blob.dec_enc bs_def)
  moreover have "(length bs + 7) div 8 = (?n + 7) div 8" using lb by simp
  ultimately show ?thesis using bs by metis
qed

lemma extract_padded:
  assumes v: "vTxid \<noteq> []" "length vTxid \<le> 2000000 div 60" "no_twins Hash vTxid" and t: "make_tree Hash vTxid vMatch = Some t"
    and pad: "(length (vBits t @ pad) + 7) div 8 = (length (vBits t) + 7) div 8"
    and h: "tree_height (length vTxid) h"
  shows "ExtractMatches Hash (t\<lparr>vBits := vBits t @ pad\<rparr>) =
    (CalcHash Hash vTxid h 0, map ((!) vTxid) (filter ((!) vMatch) [0..<length vTxid]), filter ((!) vMatch) [0..<length vTxid])"
proof -
  let ?n = "length vTxid" and ?t = "t\<lparr>vBits := vBits t @ pad\<rparr>"
  let ?s = "\<lparr>nBitsUsed = 0, nHashUsed = 0, fBad = False, vMatched = [], vnIndex = []\<rparr>"
  have H: "height_from ?n 0 = h" using height_from_ok [of ?n 0] v(1) h tree_height_unique by blast
  obtain b hs where T: "TraverseAndBuild Hash vTxid vMatch h 0 = (b, hs)" by (rule prod.exhaust)
  have tt: "t = \<lparr>nTransactions = ?n, vBits = b, vHash = hs\<rparr>" using t v(1) H T by (simp add: make_tree_def)
  have w: "0 < CalcTreeWidth ?n h" using h by (simp add: tree_height_def)
  have n: "?n \<le> 2 ^ h" using h CalcTreeWidth_less [of 1 ?n h] by (simp add: tree_height_def)
  have sz: "length hs \<le> ?n" "length hs \<le> length b" using build_sizes [OF w T] by (simp_all add: leaves_below_def)
  have "holds_at ?t (TraverseAndBuild Hash vTxid vMatch h 0) ?s" using T tt by (auto simp: holds_at_def)
  then have e: "TraverseAndExtract Hash ?t h 0 ?s =
      (CalcHash Hash vTxid h 0, consumed (b, hs) vTxid (filter ((!) vMatch) [0..<?n]) ?s)"
    using extract_build [OF _ v(3) w, of ?t vMatch ?s] tt T n by (simp add: selected_def min_def)
  show ?thesis using v(1,2) sz e H pad tt by (simp add: ExtractMatches_def consumed_def)
qed

section \<open>Soundness\<close>

text \<open>The strings that are hashed during an extraction.\<close>

fun extract_strings :: "(bytes \<Rightarrow> bytes) \<Rightarrow> CPartialMerkleTree \<Rightarrow> nat \<Rightarrow> nat \<Rightarrow> extract_state \<Rightarrow> bytes set" where
  "extract_strings Hash t 0 pos s = {}"
| "extract_strings Hash t (Suc height) pos s =
     (if nBitsUsed s \<ge> length (vBits t) \<or> \<not> vBits t ! nBitsUsed s then {}
      else let s = s\<lparr>nBitsUsed := nBitsUsed s + 1\<rparr>;
               (left, s') = TraverseAndExtract Hash t height (pos * 2) s
           in extract_strings Hash t height (pos * 2) s \<union>
              (if pos * 2 + 1 < CalcTreeWidth (nTransactions t) height
               then extract_strings Hash t height (pos * 2 + 1) s' \<union>
                 {left @ fst (TraverseAndExtract Hash t height (pos * 2 + 1) s')}
               else {left @ left}))"

text \<open>The matches that a traversal adds are the nodes at level \<open>D\<close> of the block's tree at their positions; the leaves are at level 0.\<close>

definition adds_nodes :: "(bytes \<Rightarrow> bytes) \<Rightarrow> bytes list \<Rightarrow> nat \<Rightarrow> extract_state \<Rightarrow> extract_state \<Rightarrow> bool" where
  "adds_nodes Hash vTxid D s s' \<longleftrightarrow> (\<exists>ms ps. vMatched s' = vMatched s @ ms \<and> vnIndex s' = vnIndex s @ ps \<and>
     list_all2 (\<lambda>m p. p < CalcTreeWidth (length vTxid) D \<and> CalcHash Hash vTxid D p = m) ms ps)"

lemma adds_nodes_refl: "vMatched s' = vMatched s \<Longrightarrow> vnIndex s' = vnIndex s \<Longrightarrow> adds_nodes Hash vTxid D s s'"
  by (auto simp: adds_nodes_def)

lemma adds_nodes_trans: "adds_nodes Hash vTxid D s s' \<Longrightarrow> adds_nodes Hash vTxid D s' s'' \<Longrightarrow> adds_nodes Hash vTxid D s s''"
  unfolding adds_nodes_def by (elim exE conjE) (auto intro: list_all2_appendI)

lemma extract_length:
  assumes H: "\<And>x. length (Hash x) = 32" and t: "txids (vHash t)"
  shows "length (fst (TraverseAndExtract Hash t h pos s)) = 32"
proof -
  have "length null_hash = 32" unfolding null_hash_def by (rule length_replicate)
  moreover have "k < length (vHash t) \<Longrightarrow> length (vHash t ! k) = 32" for k using t by (simp add: txids_def)
  ultimately show ?thesis using H by (cases h) (simp_all add: Let_def case_prod_unfold)
qed

text \<open>A failure stays a failure.\<close>

lemma extract_bad: "TraverseAndExtract Hash t h pos s = (r, s') \<Longrightarrow> fBad s \<Longrightarrow> fBad s'"
proof (induction h arbitrary: pos s r s')
  case 0
  then show ?case by (auto simp: Let_def split: if_splits)
next
  case (Suc h)
  then show ?case by (auto simp: Let_def split: if_splits prod.splits)
qed

text \<open>
  One step down, from a node at level \<open>Suc h\<close> of the partial tree whose hash is that of the node at level \<open>Suc r\<close> of the block: it is given,
  or its children have the hashes of the children in the block. The number of transactions that the partial tree claims only decides
  which of the two last cases it is.
\<close>

lemma extract_step:
  assumes tx: "txids vTxid" "txids (vHash t)" "\<And>x. length (Hash x) = 32" and H: "tree_height (length vTxid) H" "Suc r \<le> H"
    and pos: "pos < CalcTreeWidth (length vTxid) (Suc r)"
    and c: "\<not> collision Hash (extract_strings Hash t (Suc h) pos s \<union> hashed_strings Hash vTxid)"
    and e: "TraverseAndExtract Hash t (Suc h) pos s = (CalcHash Hash vTxid (Suc r) pos, s')" and good: "\<not> fBad s'"
  obtains (given) "vMatched s' = vMatched s" "vnIndex s' = vnIndex s"
    | (one) "TraverseAndExtract Hash t h (pos * 2) (s\<lparr>nBitsUsed := nBitsUsed s + 1\<rparr>) = (CalcHash Hash vTxid r (pos * 2), s')"
        "pos * 2 < CalcTreeWidth (length vTxid) r"
        "extract_strings Hash t h (pos * 2) (s\<lparr>nBitsUsed := nBitsUsed s + 1\<rparr>) \<subseteq> extract_strings Hash t (Suc h) pos s"
    | (two) s1 where "TraverseAndExtract Hash t h (pos * 2) (s\<lparr>nBitsUsed := nBitsUsed s + 1\<rparr>) = (CalcHash Hash vTxid r (pos * 2), s1)"
        "TraverseAndExtract Hash t h (pos * 2 + 1) s1 = (CalcHash Hash vTxid r (pos * 2 + 1), s')"
        "pos * 2 < CalcTreeWidth (length vTxid) r" "pos * 2 + 1 < CalcTreeWidth (length vTxid) r" "\<not> fBad s1"
        "extract_strings Hash t h (pos * 2) (s\<lparr>nBitsUsed := nBitsUsed s + 1\<rparr>) \<subseteq> extract_strings Hash t (Suc h) pos s"
        "extract_strings Hash t h (pos * 2 + 1) s1 \<subseteq> extract_strings Hash t (Suc h) pos s"
proof (cases "vBits t ! nBitsUsed s")
  case False
  then show ?thesis using e good by (intro given) (auto simp: Let_def split: if_splits)
next
  case True
  let ?w = "CalcTreeWidth (length vTxid) r" and ?s = "s\<lparr>nBitsUsed := nBitsUsed s + 1\<rparr>"
  have wl: "pos * 2 < ?w" using pos by (simp add: CalcTreeWidth_less mult.assoc)
  have bits: "nBitsUsed s < length (vBits t)" using e good by (auto split: if_splits)
  obtain left s1 where L: "TraverseAndExtract Hash t h (pos * 2) ?s = (left, s1)" by (rule prod.exhaust)
  have ll: "length left = 32" using extract_length [where Hash = Hash, OF tx(3,2), of h "pos * 2" ?s] L by simp
  have cl: "length (CalcHash Hash vTxid r (pos * 2)) = 32" by (rule CalcHash_length [OF tx(1,3) wl])
  have "1 < ?w" using H by (simp add: tree_height_def)
  then have "node_string Hash vTxid r pos \<in> hashed_strings Hash vTxid" using wl by (auto simp: hashed_strings_def)
  then have same: "x = node_string Hash vTxid r pos" if "x \<in> extract_strings Hash t (Suc h) pos s" "Hash x = CalcHash Hash vTxid (Suc r) pos" for x
    using c that unfolding CalcHash_node collision_def by blast
  show ?thesis
  proof (cases "pos * 2 + 1 < CalcTreeWidth (nTransactions t) h")
    case w: True
    obtain right s2 where R: "TraverseAndExtract Hash t h (pos * 2 + 1) s1 = (right, s2)" by (rule prod.exhaust)
    have st: "extract_strings Hash t (Suc h) pos s =
        extract_strings Hash t h (pos * 2) ?s \<union> (extract_strings Hash t h (pos * 2 + 1) s1 \<union> {left @ right})"
      using bits True L R w by (simp add: Let_def)
    have res: "Hash (left @ right) = CalcHash Hash vTxid (Suc r) pos" "s' = (if right = left then s2\<lparr>fBad := True\<rparr> else s2)"
      using e bits True L R w by (simp_all add: Let_def)
    then have s2: "right \<noteq> left" "s' = s2" using good by (simp_all split: if_splits)
    then have s1: "\<not> fBad s1" using extract_bad [OF R] good by blast
    have "left @ right = node_string Hash vTxid r pos" using same [OF _ res(1)] st by blast
    then have eq: "left = CalcHash Hash vTxid r (pos * 2)" "right = CalcHash Hash vTxid r (pos * 2 + 1)" "pos * 2 + 1 < ?w"
      using ll cl s2(1) by (simp_all add: node_string_def split: if_splits)
    show ?thesis by (rule two [of s1]) (use L R eq s2(2) s1 wl st in auto)
  next
    case w: False
    have st: "extract_strings Hash t (Suc h) pos s = extract_strings Hash t h (pos * 2) ?s \<union> {left @ left}"
      using bits True L w by (simp add: Let_def)
    have res: "Hash (left @ left) = CalcHash Hash vTxid (Suc r) pos" "s' = s1" using e bits True L w by (simp_all add: Let_def)
    have "left @ left = node_string Hash vTxid r pos" using same [OF _ res(1)] st by blast
    then have "left = CalcHash Hash vTxid r (pos * 2)" using ll cl by (simp add: node_string_def)
    then show ?thesis using L res(2) wl st by (intro one) auto
  qed
qed

lemma no_collision_below: "\<not> collision Hash (B \<union> C) \<Longrightarrow> A \<subseteq> B \<Longrightarrow> \<not> collision Hash (A \<union> C)"
  unfolding collision_def by blast

text \<open>A partial tree that is not higher than the block's tree reports nodes of it, \<open>D\<close> levels above the transactions.\<close>

lemma extract_nodes:
  assumes tx: "txids vTxid" "txids (vHash t)" "\<And>x. length (Hash x) = 32" and H: "tree_height (length vTxid) H"
  shows "h + D \<le> H \<Longrightarrow> pos < CalcTreeWidth (length vTxid) (h + D) \<Longrightarrow>
    \<not> collision Hash (extract_strings Hash t h pos s \<union> hashed_strings Hash vTxid) \<Longrightarrow>
    TraverseAndExtract Hash t h pos s = (CalcHash Hash vTxid (h + D) pos, s') \<Longrightarrow> \<not> fBad s' \<Longrightarrow> adds_nodes Hash vTxid D s s'"
proof (induction h arbitrary: pos s s')
  case 0
  then show ?case by (auto simp: Let_def adds_nodes_def split: if_splits)
next
  case (Suc h)
  have skip: "adds_nodes Hash vTxid D s (s\<lparr>nBitsUsed := nBitsUsed s + 1\<rparr>)" by (rule adds_nodes_refl) simp_all
  have p: "Suc (h + D) \<le> H" "pos < CalcTreeWidth (length vTxid) (Suc (h + D))"
    "TraverseAndExtract Hash t (Suc h) pos s = (CalcHash Hash vTxid (Suc (h + D)) pos, s')" using Suc.prems(1,2,4) by simp_all
  show ?case
  proof (cases rule: extract_step [OF tx H p(1,2) Suc.prems(3) p(3) Suc.prems(5), case_names given one two])
    case given
    then show ?thesis by (rule adds_nodes_refl)
  next
    case one
    from Suc.IH [OF _ one(2) no_collision_below [OF Suc.prems(3) one(3)] one(1) Suc.prems(5)] show ?thesis
      using Suc.prems(1) skip adds_nodes_trans by simp
  next
    case (two s1)
    from Suc.IH [OF _ two(3) no_collision_below [OF Suc.prems(3) two(6)] two(1) two(5)]
      Suc.IH [OF _ two(4) no_collision_below [OF Suc.prems(3) two(7)] two(2) Suc.prems(5)]
    have "adds_nodes Hash vTxid D (s\<lparr>nBitsUsed := nBitsUsed s + 1\<rparr>) s1" "adds_nodes Hash vTxid D s1 s'" using Suc.prems(1) by simp_all
    then show ?thesis using skip adds_nodes_trans by blast
  qed
qed

text \<open>One that is higher reports nothing, unless a string that it hashes is hashed to a transaction of the block.\<close>

lemma extract_deep:
  assumes tx: "txids vTxid" "txids (vHash t)" "\<And>x. length (Hash x) = 32" and H: "tree_height (length vTxid) H"
  shows "r \<le> H \<Longrightarrow> pos < CalcTreeWidth (length vTxid) r \<Longrightarrow>
    \<not> collision Hash (extract_strings Hash t (r + Suc d) pos s \<union> hashed_strings Hash vTxid) \<Longrightarrow>
    TraverseAndExtract Hash t (r + Suc d) pos s = (CalcHash Hash vTxid r pos, s') \<Longrightarrow> \<not> fBad s' \<Longrightarrow>
    \<forall>x \<in> extract_strings Hash t (r + Suc d) pos s. Hash x \<notin> set vTxid \<Longrightarrow> vMatched s' = vMatched s \<and> vnIndex s' = vnIndex s"
proof (induction r arbitrary: pos s s')
  case 0
  let ?s = "s\<lparr>nBitsUsed := nBitsUsed s + 1\<rparr>"
  have tx: "CalcHash Hash vTxid 0 pos \<in> set vTxid" using 0(2) by simp
  have bits: "nBitsUsed s < length (vBits t)" using 0(4,5) by (auto split: if_splits)
  have "\<not> vBits t ! nBitsUsed s"
  proof
    assume b: "vBits t ! nBitsUsed s"
    obtain left s1 where L: "TraverseAndExtract Hash t d (pos * 2) ?s = (left, s1)" by (rule prod.exhaust)
    obtain right s2 where R: "TraverseAndExtract Hash t d (pos * 2 + 1) s1 = (right, s2)" by (rule prod.exhaust)
    let ?x = "if pos * 2 + 1 < CalcTreeWidth (nTransactions t) d then left @ right else left @ left"
    have "?x \<in> extract_strings Hash t (Suc d) pos s" "Hash ?x = CalcHash Hash vTxid 0 pos"
      using 0(4) bits b L R by (auto simp: Let_def split: if_splits)
    then show False using 0(6) tx unfolding add_0 by metis
  qed
  then show ?case using 0(4,5) bits by (auto simp: Let_def split: if_splits)
next
  case (Suc r)
  let ?s = "s\<lparr>nBitsUsed := nBitsUsed s + 1\<rparr>"
  have p: "\<not> collision Hash (extract_strings Hash t (Suc (r + Suc d)) pos s \<union> hashed_strings Hash vTxid)"
    "TraverseAndExtract Hash t (Suc (r + Suc d)) pos s = (CalcHash Hash vTxid (Suc r) pos, s')"
    "\<forall>x \<in> extract_strings Hash t (Suc (r + Suc d)) pos s. Hash x \<notin> set vTxid" using Suc.prems(3,4,6) by simp_all
  show ?case
  proof (cases rule: extract_step [OF tx H Suc.prems(1,2) p(1,2) Suc.prems(5), case_names given one two])
    case given
    then show ?thesis by simp
  next
    case one
    have "\<forall>x \<in> extract_strings Hash t (r + Suc d) (pos * 2) ?s. Hash x \<notin> set vTxid" using one(3) p(3) by blast
    from Suc.IH [OF _ one(2) no_collision_below [OF p(1) one(3)] one(1) Suc.prems(5) this] show ?thesis using Suc.prems(1) by simp
  next
    case (two s1)
    have "\<forall>x \<in> extract_strings Hash t (r + Suc d) (pos * 2) ?s. Hash x \<notin> set vTxid"
      "\<forall>x \<in> extract_strings Hash t (r + Suc d) (pos * 2 + 1) s1. Hash x \<notin> set vTxid" using two(6,7) p(3) by blast+
    from Suc.IH [OF _ two(3) no_collision_below [OF p(1) two(6)] two(1) two(5) this(1)]
      Suc.IH [OF _ two(4) no_collision_below [OF p(1) two(7)] two(2) Suc.prems(5) this(2)]
    show ?thesis using Suc.prems(1) by simp
  qed
qed

section \<open>Properties\<close>

text \<open>
  A partial tree built for a block of at most 33333 transactions, no two neighbouring nodes of whose Merkle tree are equal,
  sent and received, yields the Merkle root of the block and exactly the selected transactions with their positions.
\<close>

theorem partial_tree_roundtrip:
  assumes "vTxid \<noteq> []" "length vTxid \<le> 33333" "no_twins Hash vTxid" "txids vTxid" "\<forall>x. length (Hash x) = 32"
  shows "\<exists>t t' root mutated. make_tree Hash vTxid vMatch = Some t \<and> deser_tree (ser_tree t @ s) = Inr (t', s) \<and>
    ComputeMerkleRoot Hash vTxid = Some (root, mutated) \<and>
    ExtractMatches Hash t' = (root, map ((!) vTxid) (filter ((!) vMatch) [0..<length vTxid]), filter ((!) vMatch) [0..<length vTxid])"
proof -
  let ?n = "length vTxid"
  obtain h b where h: "tree_height ?n h" "MerkleComputation Hash vTxid (2 ^ 32 - 1) = Some (CalcHash Hash vTxid h 0, mutated_tree Hash vTxid, b)"
    using MerkleComputation_ok [OF assms(1), of Hash "2 ^ 32 - 1"] assms(2) by auto
  have H: "height_from ?n 0 = h" using height_from_ok [of ?n 0] assms(1) h(1) tree_height_unique by blast
  have w: "0 < CalcTreeWidth ?n h" using h(1) by (simp add: tree_height_def)
  obtain bs hs where T: "TraverseAndBuild Hash vTxid vMatch h 0 = (bs, hs)" by (rule prod.exhaust)
  define t where tt: "t = \<lparr>nTransactions = ?n, vBits = bs, vHash = hs\<rparr>"
  have t: "make_tree Hash vTxid vMatch = Some t" using assms(1) H T by (simp add: make_tree_def tt)
  note sz = build_sizes [OF w T]
  have "h \<le> 16"
  proof (rule ccontr)
    assume "\<not> h \<le> 16"
    then have "1 < CalcTreeWidth ?n 16" using h(1) by (simp add: tree_height_def)
    then show False using assms(2) by (simp add: CalcTreeWidth_less)
  qed
  then have "(2 :: nat) ^ h \<le> 2 ^ 16" by (intro power_increasing) simp_all
  then have "(2 :: nat) ^ h \<le> 65536" by simp
  moreover have "length bs < 2 * 2 ^ h" using sz by simp
  ultimately have "length bs < 131072" by linarith
  then have "(length bs + 7) div 8 \<le> MAX_SIZE" by (simp add: MAX_SIZE_def)
  moreover have "length hs \<le> MAX_SIZE" using sz assms(2) by (auto simp: leaves_below_def MAX_SIZE_def)
  moreover have "txids hs" using sz assms(4,5) by blast
  ultimately obtain pad where pad: "deser_tree (ser_tree t @ s) = Inr (t\<lparr>vBits := vBits t @ pad\<rparr>, s)"
    "(length (vBits t @ pad) + 7) div 8 = (length (vBits t) + 7) div 8"
    using tree_roundtrip [of t s] assms(2) tt by auto
  have "?n \<le> 2000000 div 60" using assms(2) by simp
  from extract_padded [OF assms(1) this assms(3) t pad(2) h(1)] show ?thesis using t pad(1) h(2) by (simp add: ComputeMerkleRoot_def)
qed

lemma example_no_twins: "no_twins Hash example_leaves"
  unfolding no_twins_def
proof (intro allI impI)
  fix h p
  assume "p * 2 + 1 < CalcTreeWidth (length example_leaves) h"
  then have l: "(p * 2 + 1) * 2 ^ h < 2" by (simp only: CalcTreeWidth_less) (simp add: example_leaves_def)
  moreover have "h < 2 ^ h" "(2 :: nat) ^ h \<le> (p * 2 + 1) * 2 ^ h" by simp_all
  ultimately have "h = 0" by linarith
  moreover from this l have "p = 0" by simp
  ultimately show "CalcHash Hash example_leaves h (p * 2) \<noteq> CalcHash Hash example_leaves h (p * 2 + 1)"
    by (simp add: example_leaves_def replicate_eq_replicate)
qed

theorem partial_tree_roundtrip_witness:
  "\<exists>t t' root mutated. make_tree example_hash example_leaves [True, False] = Some t \<and> deser_tree (ser_tree t @ []) = Inr (t', []) \<and>
    ComputeMerkleRoot example_hash example_leaves = Some (root, mutated) \<and> ExtractMatches example_hash t' = (root, [replicate 32 1], [0])"
proof -
  have "length example_leaves \<le> 33333" "\<forall>x. length (example_hash x) = 32" by (simp_all add: example_leaves_def example_hash_def)
  moreover have "filter ((!) [True, False]) [0..<length example_leaves] = [0]" "example_leaves ! 0 = replicate 32 1"
    by (simp_all add: example_leaves_def upt_rec)
  ultimately show ?thesis
    using partial_tree_roundtrip [OF example_size(1) _ example_no_twins example_txids, of example_hash "[True, False]" "[]"] by simp
qed

text \<open>
  C9. A partial tree, however it was made and whatever number of transactions it claims, that yields the Merkle root of a block (not the
  zero that signals a failure): if the number that it claims has a tree as high as the block's, every match is a transaction of the block at its
  position; if its tree is lower, every match is the inner node of the block's tree at its position on the level where the partial tree
  ends; if it is higher, there is no match, unless a string that was hashed for the extraction is hashed to a transaction of the block (a
  transaction of 64 bytes). All this unless two different strings among those hashed for the extraction and for the block have the same hash.
\<close>

theorem partial_tree_sound:
  fixes Hash :: "bytes \<Rightarrow> bytes" and t :: CPartialMerkleTree and vTxid :: "bytes list"
  defines "claimed \<equiv> height_from (nTransactions t) 0" and "real \<equiv> height_from (length vTxid) 0"
  defines "hashed \<equiv> extract_strings Hash t claimed 0 \<lparr>nBitsUsed = 0, nHashUsed = 0, fBad = False, vMatched = [], vnIndex = []\<rparr>"
  assumes "ExtractMatches Hash t = (root, ms, ps)" "ComputeMerkleRoot Hash vTxid = Some (root, mutated)" "root \<noteq> null_hash"
    and "vTxid \<noteq> []" "length vTxid \<le> 2 ^ 31" "txids vTxid" "txids (vHash t)" "\<forall>x. length (Hash x) = 32"
    and "\<not> collision Hash (hashed \<union> hashed_strings Hash vTxid)"
  shows "(claimed = real \<longrightarrow> list_all2 (\<lambda>m p. p < length vTxid \<and> vTxid ! p = m) ms ps) \<and>
    (claimed < real \<longrightarrow>
       list_all2 (\<lambda>m p. p < CalcTreeWidth (length vTxid) (real - claimed) \<and> CalcHash Hash vTxid (real - claimed) p = m) ms ps) \<and>
    (claimed > real \<longrightarrow> (ms = [] \<and> ps = []) \<or> (\<exists>x \<in> hashed. Hash x \<in> set vTxid))"
proof -
  let ?n = "length vTxid" and ?s = "\<lparr>nBitsUsed = 0, nHashUsed = 0, fBad = False, vMatched = [], vnIndex = []\<rparr>"
  have len: "\<And>x. length (Hash x) = 32" using assms(11) by simp
  have H: "tree_height ?n real" using height_from_ok [of ?n 0] assms(7) by (simp add: real_def)
  then have top: "0 < CalcTreeWidth ?n real" by (simp add: tree_height_def)
  obtain h b where h: "tree_height ?n h" "MerkleComputation Hash vTxid (2 ^ 32 - 1) = Some (CalcHash Hash vTxid h 0, mutated_tree Hash vTxid, b)"
    using MerkleComputation_ok [OF assms(7,8), of Hash "2 ^ 32 - 1"] by auto
  then have root: "root = CalcHash Hash vTxid real 0" using assms(5) tree_height_unique [OF H h(1)] by (simp add: ComputeMerkleRoot_def)
  obtain r s' where "TraverseAndExtract Hash t claimed 0 ?s = (r, s')" by (rule prod.exhaust)
  moreover from this have ex: "\<not> fBad s'" "r = root" "ms = vMatched s'" "ps = vnIndex s'"
    using assms(4,6) by (auto simp: ExtractMatches_def claimed_def split: if_splits)
  ultimately have e: "TraverseAndExtract Hash t claimed 0 ?s = (CalcHash Hash vTxid real 0, s')" using root by simp
  note c = assms(12) [unfolded hashed_def]
  show ?thesis
  proof (cases "claimed \<le> real")
    case True
    then have "claimed + (real - claimed) = real" by simp
    then have "adds_nodes Hash vTxid (real - claimed) ?s s'"
      using extract_nodes [where Hash = Hash and s = ?s, OF assms(9,10) len H, of claimed "real - claimed" 0 s'] top c e ex(1) by simp
    then show ?thesis using ex(3,4) True by (auto simp: adds_nodes_def)
  next
    case False
    then have d: "real + Suc (claimed - real - 1) = claimed" by simp
    have "ms = [] \<and> ps = []" if "\<forall>x \<in> hashed. Hash x \<notin> set vTxid"
      using extract_deep [where Hash = Hash and s = ?s, OF assms(9,10) len H order_refl top, of "claimed - real - 1" s'] that c e ex unfolding d hashed_def by simp
    then show ?thesis using False by auto
  qed
qed

definition example_tree :: CPartialMerkleTree where
  "example_tree = \<lparr>nTransactions = 2, vBits = [True, True, False], vHash = example_leaves\<rparr>"

theorem partial_tree_sound_witness:
  "ExtractMatches example_hash example_tree = (replicate 32 7, [replicate 32 1], [0]) \<and>
   list_all2 (\<lambda>m p. p < length example_leaves \<and> example_leaves ! p = m) [replicate 32 1] [0]"
proof -
  have n: "length example_leaves = 2" by (simp add: example_leaves_def)
  have ne: "replicate 32 (2 :: u8) \<noteq> replicate 32 1" by (simp add: replicate_eq_replicate)
  have H: "height_from 2 0 = Suc 0" using height_from_ok [of 2 0] example_height n by simp
  have w: "Suc 0 < CalcTreeWidth 2 0" by simp
  have ex: "ExtractMatches example_hash example_tree = (replicate 32 7, [replicate 32 1], [0])"
    using ne by (simp add: ExtractMatches_def H example_tree_def n Let_def example_hash_def) (simp add: example_leaves_def)
  let ?S = "extract_strings example_hash example_tree (height_from (nTransactions example_tree) 0) 0
        \<lparr>nBitsUsed = 0, nHashUsed = 0, fBad = False, vMatched = [], vnIndex = []\<rparr>"
  have m: "nTransactions example_tree = 2" by (simp add: example_tree_def)
  have "?S = {node_string example_hash example_leaves 0 0}"
    by (simp add: n H example_tree_def Let_def) (simp add: node_string_def example_leaves_def)
  moreover have "node_string example_hash example_leaves 0 0 \<in> hashed_strings example_hash example_leaves"
    unfolding hashed_strings_def using n by force
  ultimately have c: "\<not> collision example_hash (?S \<union> hashed_strings example_hash example_leaves)"
    using example_no_collision [of example_hash] by (simp add: insert_absorb)
  have "replicate 32 (7 :: u8) \<noteq> null_hash" by (simp add: null_hash_def replicate_eq_replicate)
  from partial_tree_sound [OF ex example_root this example_size example_txids _ _ c] show ?thesis
    using ex example_txids n m by (simp add: example_tree_def example_hash_def)
qed

text \<open>
  The second case happens: for a block of four transactions, a partial tree that claims two and gives the two inner nodes yields the
  root and reports the first inner node as the first transaction.
\<close>

lemma inner_node_reported:
  fixes Hash :: "bytes \<Rightarrow> bytes" and vTxid :: "bytes list"
  defines "l \<equiv> CalcHash Hash vTxid 1 0" and "r \<equiv> CalcHash Hash vTxid 1 1"
  assumes "length vTxid = 4" "l \<noteq> r"
  shows "\<exists>mutated. ComputeMerkleRoot Hash vTxid = Some (Hash (l @ r), mutated) \<and>
    ExtractMatches Hash \<lparr>nTransactions = 2, vBits = [True, True, False], vHash = [l, r]\<rparr> = (Hash (l @ r), [l], [0])"
proof -
  have ne: "vTxid \<noteq> []" using assms(3) by auto
  have "tree_height 4 2" by (rule tree_heightI) (simp_all add: CalcTreeWidth_def)
  moreover obtain h b where h: "tree_height 4 h" "MerkleComputation Hash vTxid (2 ^ 32 - 1) = Some (CalcHash Hash vTxid h 0, mutated_tree Hash vTxid, b)"
    using MerkleComputation_ok [OF ne, of Hash "2 ^ 32 - 1"] assms(3) by auto
  ultimately have "h = Suc 1" using tree_height_unique by force
  then have "ComputeMerkleRoot Hash vTxid = Some (Hash (l @ r), mutated_tree Hash vTxid)"
    using h(2) assms(3) CalcHash_node [of Hash vTxid 1 0] by (simp add: ComputeMerkleRoot_def node_string_def l_def r_def CalcTreeWidth_def)
  moreover have "tree_height 2 (height_from 2 0)" "tree_height 2 1"
    using height_from_ok [of 2 0] by (simp, intro tree_heightI) (simp_all add: CalcTreeWidth_def)
  then have "height_from 2 0 = Suc 0" using tree_height_unique by force
  ultimately show ?thesis using assms(4) by (auto simp: ExtractMatches_def Let_def CalcTreeWidth_def)
qed

end
