(* ===== verification/Compressor.thy ===== *)
theory Compressor
  imports Signature_Hash Coins_View
begin

text \<open>
  The compact form of coins on disk: \<open>src/src/compressor.h\<close> and \<open>compressor.cpp\<close>, the coin in \<open>coins.h\<close>, the keys of
  the database in \<open>txdb.cpp\<close>, the undo records in \<open>undo.h\<close>, and \<open>IsFullyValid\<close> and \<open>Decompress\<close> of \<open>pubkey.cpp\<close>.

  The curve library is a parameter: \<open>parse\<close> is \<open>secp256k1_ec_pubkey_parse\<close>, \<open>uncompressed\<close> is
  \<open>secp256k1_ec_pubkey_serialize\<close> with the uncompressed format. What is used of them is \<open>curve_keys\<close>.
\<close>

section \<open>Amounts\<close>

function strip_zeros :: "nat \<Rightarrow> nat \<Rightarrow> nat \<times> nat" where
  "strip_zeros m e = (if m mod 10 = 0 \<and> e < 9 then strip_zeros (m div 10) (e + 1) else (m, e))"
  by pat_completeness auto
termination
  by (relation "measure (\<lambda>(m, e). 9 - e)") auto

declare strip_zeros.simps [simp del]

text \<open>The numbers are unsigned and of 64 bits.\<close>

definition CompressAmount :: "nat \<Rightarrow> nat" where
  "CompressAmount m =
     (if m = 0 then 0
      else case strip_zeros m 0 of
        (m, e) \<Rightarrow>
          (if e < 9 then (1 + (m div 10 * 9 + m mod 10 - 1) * 10 + e) mod 2 ^ 64
           else (1 + (m - 1) * 10 + 9) mod 2 ^ 64))"

fun times_ten :: "nat \<Rightarrow> nat \<Rightarrow> nat" where
  "times_ten m 0 = m"
| "times_ten m (Suc e) = times_ten (m * 10 mod 2 ^ 64) e"

definition DecompressAmount :: "nat \<Rightarrow> nat" where
  "DecompressAmount x =
     (if x = 0 then 0
      else let x = x - 1; e = x mod 10; x = x div 10;
               m = (if e < 9 then (x div 9 * 10 + (x mod 9 + 1)) mod 2 ^ 64 else x + 1)
           in times_ten m e)"

section \<open>Scripts\<close>

definition IsToKeyID :: "bytes \<Rightarrow> bytes option" where
  "IsToKeyID script =
     (if length script = 25 \<and> unat (script ! 0) = OP_DUP \<and> unat (script ! 1) = OP_HASH160 \<and> script ! 2 = 20 \<and>
         unat (script ! 23) = OP_EQUALVERIFY \<and> unat (script ! 24) = OP_CHECKSIG
      then Some (take 20 (drop 3 script)) else None)"

definition IsToScriptID :: "bytes \<Rightarrow> bytes option" where
  "IsToScriptID script =
     (if length script = 23 \<and> unat (script ! 0) = OP_HASH160 \<and> script ! 1 = 20 \<and> unat (script ! 22) = OP_EQUAL
      then Some (take 20 (drop 2 script)) else None)"

definition IsFullyValid :: "(bytes \<Rightarrow> 'p option) \<Rightarrow> bytes \<Rightarrow> bool" where
  "IsFullyValid parse key \<longleftrightarrow> IsValid_pubkey key \<and> parse key \<noteq> None"

definition IsToPubKey :: "(bytes \<Rightarrow> 'p option) \<Rightarrow> bytes \<Rightarrow> bytes option" where
  "IsToPubKey parse script =
     (if length script = 35 \<and> script ! 0 = 33 \<and> unat (script ! 34) = OP_CHECKSIG \<and> (script ! 1 = 2 \<or> script ! 1 = 3)
      then Some (take 33 (drop 1 script))
      else if length script = 67 \<and> script ! 0 = 65 \<and> unat (script ! 66) = OP_CHECKSIG \<and> script ! 1 = 4
      then let key = take 65 (drop 1 script) in if IsFullyValid parse key then Some key else None
      else None)"

definition Compress :: "(bytes \<Rightarrow> 'p option) \<Rightarrow> bytes \<Rightarrow> bytes option" where
  "Compress parse script =
     (case IsToKeyID script of
        Some keyID \<Rightarrow> Some (0 # keyID)
      | None \<Rightarrow>
        (case IsToScriptID script of
           Some scriptID \<Rightarrow> Some (1 # scriptID)
         | None \<Rightarrow>
           (case IsToPubKey parse script of
              None \<Rightarrow> None
            | Some key \<Rightarrow>
                (if key ! 0 = 2 \<or> key ! 0 = 3 then Some (key ! 0 # take 32 (drop 1 key))
                 else if key ! 0 = 4 then Some ((4 OR (key ! 64 AND 1)) # take 32 (drop 1 key))
                 else None))))"

definition GetSpecialSize :: "nat \<Rightarrow> nat" where
  "GetSpecialSize nSize =
     (if nSize = 0 \<or> nSize = 1 then 20
      else if nSize = 2 \<or> nSize = 3 \<or> nSize = 4 \<or> nSize = 5 then 32
      else 0)"

definition Decompress_pubkey :: "(bytes \<Rightarrow> 'p option) \<Rightarrow> ('p \<Rightarrow> bytes) \<Rightarrow> bytes \<Rightarrow> bytes option" where
  "Decompress_pubkey parse uncompressed key =
     (if \<not> IsValid_pubkey key then None else map_option uncompressed (parse key))"

text \<open>\<open>Inr None\<close> is the result \<open>false\<close>, which leaves the script as it was.\<close>

definition Decompress :: "(bytes \<Rightarrow> 'p option) \<Rightarrow> ('p \<Rightarrow> bytes) \<Rightarrow> nat \<Rightarrow> bytes \<Rightarrow> ser_error + bytes option" where
  "Decompress parse uncompressed nSize inp =
     (if nSize = 0 then Inr (Some ([of_nat OP_DUP, of_nat OP_HASH160, 20] @ take 20 inp @ [of_nat OP_EQUALVERIFY, of_nat OP_CHECKSIG]))
      else if nSize = 1 then Inr (Some ([of_nat OP_HASH160, 20] @ take 20 inp @ [of_nat OP_EQUAL]))
      else if nSize = 2 \<or> nSize = 3 then Inr (Some ([33, of_nat nSize] @ take 32 inp @ [of_nat OP_CHECKSIG]))
      else if nSize = 4 \<or> nSize = 5 then
        (case Decompress_pubkey parse uncompressed (of_nat (nSize - 2) # take 32 inp) of
           None \<Rightarrow> Inr None
         | Some key \<Rightarrow>
             (if \<not> (IsValid_pubkey key \<and> length key = 65) then Inl AssertionFailed
              else Inr (Some ([65] @ key @ [of_nat OP_CHECKSIG]))))
      else Inr None)"

definition nSpecialScripts :: nat where
  "nSpecialScripts = 6"

definition ser_script :: "(bytes \<Rightarrow> 'p option) \<Rightarrow> bytes \<Rightarrow> bytes" where
  "ser_script parse script =
     (case Compress parse script of
        Some compr \<Rightarrow> compr
      | None \<Rightarrow> WriteVarInt ((length script + nSpecialScripts) mod 2 ^ 32) @ script)"

text \<open>\<open>ignore\<close> of a \<open>CDataStream\<close>: the size is passed as an \<open>int\<close>.\<close>

definition ignore :: "nat \<Rightarrow> unit reader" where
  "ignore nSize s =
     (if nSize \<ge> 2 ^ 31 then Inl NegativeSize
      else if length s < nSize then Inl EndOfData else Inr ((), drop nSize s))"

definition unser_script :: "(bytes \<Rightarrow> 'p option) \<Rightarrow> ('p \<Rightarrow> bytes) \<Rightarrow> bytes \<Rightarrow> bytes reader" where
  "unser_script parse uncompressed script s =
     sbind (ReadVarInt s) (\<lambda>(w :: u32, s).
       let nSize = unat w in
       if nSize < nSpecialScripts then
         sbind (read_bytes (GetSpecialSize nSize) s) (\<lambda>(vch, s).
         sbind (Decompress parse uncompressed nSize vch) (\<lambda>r.
           Inr (case r of None \<Rightarrow> script | Some script' \<Rightarrow> script', s)))
       else let nSize = nSize - nSpecialScripts in
         if nSize > MAX_SCRIPT_SIZE then sbind (ignore nSize s) (\<lambda>(_, s). Inr (script @ [of_nat OP_RETURN], s))
         else read_bytes nSize s)"

section \<open>Outputs and coins\<close>

definition ser_txout_compressed :: "(bytes \<Rightarrow> 'p option) \<Rightarrow> CTxOut \<Rightarrow> bytes" where
  "ser_txout_compressed parse out =
     WriteVarInt (CompressAmount (nat (nValue out mod 2 ^ 64))) @ ser_script parse (scriptPubKey out)"

definition unser_txout_compressed :: "(bytes \<Rightarrow> 'p option) \<Rightarrow> ('p \<Rightarrow> bytes) \<Rightarrow> CTxOut \<Rightarrow> CTxOut reader" where
  "unser_txout_compressed parse uncompressed out s =
     sbind (ReadVarInt s) (\<lambda>(nVal :: u64, s).
     sbind (unser_script parse uncompressed (scriptPubKey out) s) (\<lambda>(script, s).
       Inr (out\<lparr>nValue := i64 (int (DecompressAmount (unat nVal))), scriptPubKey := script\<rparr>, s)))"

text \<open>The height has 31 bits; \<open>None\<close> is the failed assertion that the coin is not spent.\<close>

definition ser_coin :: "(bytes \<Rightarrow> 'p option) \<Rightarrow> Coin \<Rightarrow> bytes option" where
  "ser_coin parse c =
     (if IsSpent c then None
      else Some (WriteVarInt ((coin_nHeight c * 2 + (if fCoinBase c then 1 else 0)) mod 2 ^ 32) @
                 ser_txout_compressed parse (coin_out c)))"

definition empty_coin :: Coin where
  "empty_coin = \<lparr>coin_out = \<lparr>nValue = -1, scriptPubKey = [], sTxOutMessage = []\<rparr>, fCoinBase = False, coin_nHeight = 0\<rparr>"

definition unser_coin :: "(bytes \<Rightarrow> 'p option) \<Rightarrow> ('p \<Rightarrow> bytes) \<Rightarrow> Coin reader" where
  "unser_coin parse uncompressed s =
     sbind (ReadVarInt s) (\<lambda>(code :: u32, s).
     sbind (unser_txout_compressed parse uncompressed (coin_out empty_coin) s) (\<lambda>(out, s).
       Inr (\<lparr>coin_out = out, fCoinBase = odd (unat code), coin_nHeight = unat code div 2\<rparr>, s)))"

text \<open>Keys of the database.\<close>

definition DB_COIN :: u8 where
  "DB_COIN = 0x43"

definition ser_CoinEntry :: "COutPoint \<Rightarrow> bytes" where
  "ser_CoinEntry k = ser_writedata8 DB_COIN @ hash k @ WriteVarInt (unat (n k))"

definition unser_CoinEntry :: "(u8 \<times> COutPoint) reader" where
  "unser_CoinEntry s =
     sbind (ser_readdata8 s) (\<lambda>(key, s).
     sbind (read_bytes 32 s) (\<lambda>(h, s).
     sbind (ReadVarInt s) (\<lambda>(i, s). Inr ((key, \<lparr>hash = h, n = i\<rparr>), s))))"

section \<open>Undo records\<close>

definition ser_TxInUndo :: "(bytes \<Rightarrow> 'p option) \<Rightarrow> Coin \<Rightarrow> bytes" where
  "ser_TxInUndo parse c =
     WriteVarInt ((coin_nHeight c * 2 + (if fCoinBase c then 1 else 0)) mod 2 ^ 32) @
     (if coin_nHeight c > 0 then ser_writedata8 0 else []) @ ser_txout_compressed parse (coin_out c)"

definition unser_TxInUndo :: "(bytes \<Rightarrow> 'p option) \<Rightarrow> ('p \<Rightarrow> bytes) \<Rightarrow> Coin reader" where
  "unser_TxInUndo parse uncompressed s =
     sbind (ReadVarInt s) (\<lambda>(nCode :: u32, s).
     sbind (if unat nCode div 2 > 0 then sbind (ReadVarInt s) (\<lambda>(nVersionDummy :: u32, s). Inr ((), s)) else Inr ((), s)) (\<lambda>(_, s).
     sbind (unser_txout_compressed parse uncompressed (coin_out empty_coin) s) (\<lambda>(out, s).
       Inr (\<lparr>coin_out = out, fCoinBase = odd (unat nCode), coin_nHeight = unat nCode div 2\<rparr>, s))))"

text \<open>A \<open>CTxIn\<close> with an empty script takes 41 bytes.\<close>

definition MAX_INPUTS_PER_BLOCK :: nat where
  "MAX_INPUTS_PER_BLOCK = 2000000 div 41"

definition ser_CTxUndo :: "(bytes \<Rightarrow> 'p option) \<Rightarrow> Coin list \<Rightarrow> bytes" where
  "ser_CTxUndo parse vprevout = WriteCompactSize (length vprevout) @ concat (map (ser_TxInUndo parse) vprevout)"

definition unser_CTxUndo :: "(bytes \<Rightarrow> 'p option) \<Rightarrow> ('p \<Rightarrow> bytes) \<Rightarrow> Coin list reader" where
  "unser_CTxUndo parse uncompressed s =
     sbind (ReadCompactSize s) (\<lambda>(cnt, s).
       if cnt > MAX_INPUTS_PER_BLOCK then Inl TooManyUndoRecords
       else read_items (unser_TxInUndo parse uncompressed) cnt s)"

definition ser_CBlockUndo :: "(bytes \<Rightarrow> 'p option) \<Rightarrow> Coin list list \<Rightarrow> bytes" where
  "ser_CBlockUndo parse vtxundo = write_vector (ser_CTxUndo parse) vtxundo"

definition unser_CBlockUndo :: "(bytes \<Rightarrow> 'p option) \<Rightarrow> ('p \<Rightarrow> bytes) \<Rightarrow> Coin list list reader" where
  "unser_CBlockUndo parse uncompressed = read_vector (unser_CTxUndo parse uncompressed)"

section \<open>Amounts survive compression\<close>

lemma strip_zeros_ok:
  "strip_zeros m e = (m', e') \<Longrightarrow> e \<le> 9 \<Longrightarrow>
   m = m' * 10 ^ (e' - e) \<and> e \<le> e' \<and> e' \<le> 9 \<and> (e' < 9 \<longrightarrow> m' mod 10 \<noteq> 0)"
proof (induction m e rule: strip_zeros.induct)
  case (1 m e)
  show ?case
  proof (cases "m mod 10 = 0 \<and> e < 9")
    case True
    then have "strip_zeros (m div 10) (e + 1) = (m', e')" using 1(2) by (simp add: strip_zeros.simps [of m])
    then have i: "m div 10 = m' * 10 ^ (e' - (e + 1))" "e + 1 \<le> e'" "e' \<le> 9" "e' < 9 \<longrightarrow> m' mod 10 \<noteq> 0" using 1(1) True by auto
    then have "e' - e = Suc (e' - (e + 1))" by simp
    then have "m' * 10 ^ (e' - e) = 10 * (m div 10)" using i(1) by simp
    then show ?thesis using True i by auto
  next
    case False
    then show ?thesis using 1(2,3) by (auto simp: strip_zeros.simps [of m])
  qed
qed

lemma times_ten_ok: "m * 10 ^ e < 2 ^ 64 \<Longrightarrow> times_ten m e = m * 10 ^ e"
proof (induction e arbitrary: m)
  case (Suc e)
  have "m * 10 \<le> m * 10 * 10 ^ e" by simp
  also have "\<dots> < 2 ^ 64" using Suc.prems by (simp add: mult.assoc)
  finally have "m * 10 mod 2 ^ 64 = m * 10" by simp
  then show ?case using Suc.IH [of "m * 10"] Suc.prems by (simp add: mult.assoc)
qed simp

lemma pow_ten_ge: "m * 1 + e \<le> m * 10 ^ e" if "0 < m" for m e :: nat
proof (induction e)
  case (Suc e)
  have "m * 1 + Suc e \<le> 10 * (m * 10 ^ e)" using Suc that by linarith
  then show ?case by (simp add: ac_simps)
qed simp

lemma CompressAmount_cases:
  assumes "0 < m" "9 * m < 2 ^ 64"
  obtains q d e where "m = (10 * q + d) * 10 ^ e" "e < 9" "0 < d" "d < 10" "CompressAmount m = Suc ((q * 9 + (d - 1)) * 10 + e)"
      "CompressAmount m \<le> 9 * m"
    | q where "m = Suc q * 10 ^ 9" "CompressAmount m = Suc (q * 10 + 9)" "CompressAmount m \<le> 9 * m"
proof -
  obtain m' e where r: "strip_zeros m 0 = (m', e)" by (rule prod.exhaust)
  have m: "m = m' * 10 ^ e" "e \<le> 9" "e < 9 \<Longrightarrow> m' mod 10 \<noteq> 0" using strip_zeros_ok [OF r] by auto
  have pos: "0 < m'" using m(1) assms(1) by (cases m') auto
  show thesis
  proof (cases "e < 9")
    case True
    define q d where "q = m' div 10" and "d = m' mod 10"
    have d: "0 < d" "d < 10" "m' = 10 * q + d" using m(3) [OF True] by (simp_all add: q_def d_def)
    have "m' * 1 + e \<le> m" using pow_ten_ge [OF pos] m(1) by simp
    moreover obtain d' where "d = Suc d'" using d(1) by (cases d) auto
    ultimately have b: "Suc ((q * 9 + (d - 1)) * 10 + e) \<le> 9 * m" using d by simp
    moreover have "CompressAmount m = Suc ((q * 9 + (d - 1)) * 10 + e) mod 2 ^ 64"
      using assms(1) r True d by (simp add: CompressAmount_def q_def [symmetric] d_def [symmetric])
    ultimately have c: "CompressAmount m = Suc ((q * 9 + (d - 1)) * 10 + e)" using assms(2) by simp
    show thesis using that(1) [OF _ True d(1,2) c] m(1) d(3) b c by simp
  next
    case False
    then have e: "e = 9" using m(2) by simp
    obtain q where q: "m' = Suc q" using pos by (cases m') auto
    have b: "Suc (q * 10 + 9) \<le> 9 * m" using m(1) q e by simp
    moreover have "CompressAmount m = Suc (q * 10 + 9) mod 2 ^ 64" using assms(1) r q e by (simp add: CompressAmount_def)
    ultimately have c: "CompressAmount m = Suc (q * 10 + 9)" using assms(2) by simp
    show thesis using that(2) [OF _ c] m(1) q e b c by simp
  qed
qed

lemma amount_survives:
  assumes "9 * m < 2 ^ 64"
  shows "DecompressAmount (CompressAmount m) = m" "CompressAmount m \<le> 9 * m"
proof -
  have z: "CompressAmount 0 = 0" by (simp add: CompressAmount_def)
  have lt: "m < 2 ^ 64" using assms by simp
  show "DecompressAmount (CompressAmount m) = m"
  proof (cases "m = 0")
    case True
    then show ?thesis by (simp add: z DecompressAmount_def)
  next
    case False
    then have pos: "0 < m" by simp
    show ?thesis
    proof (rule CompressAmount_cases [OF pos assms], goal_cases)
      case (1 q d e)
      define x where "x = q * 9 + (d - 1)"
      obtain d' where d': "d = Suc d'" "d' < 9" using 1(3,4) by (cases d) auto
      have x: "x div 9 = q" "x mod 9 + 1 = d" using d' by (simp_all add: x_def)
      have "10 * q + d \<le> m" using 1(1) by simp
      then have "(q * 10 + d) mod 2 ^ 64 = 10 * q + d" using lt by simp
      moreover have "times_ten (10 * q + d) e = m" using times_ten_ok [of "10 * q + d" e] lt 1(1) by simp
      ultimately show ?thesis unfolding 1(5) x_def [symmetric] using 1(2) x by (simp add: DecompressAmount_def Let_def)
    next
      case (2 q)
      then have "times_ten (Suc q) 9 = m" using times_ten_ok [of "Suc q" 9] lt by simp
      then show ?thesis unfolding 2(2) by (simp add: DecompressAmount_def Let_def)
    qed
  qed
  show "CompressAmount m \<le> 9 * m"
  proof (cases "m = 0")
    case False
    then have "0 < m" by simp
    then show ?thesis by (cases rule: CompressAmount_cases [OF _ assms]) simp_all
  qed (simp add: z)
qed

section \<open>Scripts survive compression\<close>

text \<open>
  What the curve library promises: a key in the uncompressed format is what its point is written as, the point is also
  found from the first coordinate and the parity of the second, and the uncompressed form has 65 bytes and the header 4.
\<close>

definition curve_keys :: "(bytes \<Rightarrow> 'p option) \<Rightarrow> ('p \<Rightarrow> bytes) \<Rightarrow> bool" where
  "curve_keys parse uncompressed \<longleftrightarrow>
     (\<forall>key P. length key = 65 \<and> key ! 0 = 4 \<and> parse key = Some P \<longrightarrow>
        uncompressed P = key \<and> parse ((2 OR (key ! 64 AND 1)) # take 32 (drop 1 key)) = Some P) \<and>
     (\<forall>P. length (uncompressed P) = 65 \<and> uncompressed P ! 0 = 4)"

lemma shape:
  assumes "length xs = length pre + m + length post"
    and "\<forall>i < length pre. xs ! i = pre ! i" "\<forall>i < length post. xs ! (length pre + m + i) = post ! i"
  shows "xs = pre @ take m (drop (length pre) xs) @ post"
proof (rule nth_equalityI)
  fix i
  assume "i < length xs"
  then consider "i < length pre" | "length pre \<le> i" "i < length pre + m"
    | j where "i = length pre + m + j" "j < length post" using assms(1) by (metis add_less_cancel_left le_Suc_ex not_less)
  then show "xs ! i = (pre @ take m (drop (length pre) xs) @ post) ! i"
  proof cases
    case (3 j)
    then show ?thesis using assms by (simp add: nth_append)
  qed (use assms in \<open>auto simp: nth_append\<close>)
qed (use assms in auto)

lemma unat_byte: "unat (x :: u8) = k \<longleftrightarrow> k < 256 \<and> x = of_nat k"
  using unat_u8_lt [of x] by (auto simp: unat_of_nat)

lemma all_upto: "(\<forall>i < Suc k. P i) \<longleftrightarrow> P 0 \<and> (\<forall>i < k. P (Suc i))"
  by (metis less_Suc_eq_0_disj)

lemma key_id_script:
  assumes "IsToKeyID script = Some h"
  shows "length h = 20 \<and> script = [of_nat OP_DUP, of_nat OP_HASH160, 20] @ h @ [of_nat OP_EQUALVERIFY, of_nat OP_CHECKSIG]"
  using assms shape [of script "[of_nat OP_DUP, of_nat OP_HASH160, 20]" 20 "[of_nat OP_EQUALVERIFY, of_nat OP_CHECKSIG]"]
  by (simp add: IsToKeyID_def unat_byte all_upto numeral_2_eq_2 numeral_3_eq_3 split: if_splits)

lemma script_id_script:
  assumes "IsToScriptID script = Some h"
  shows "length h = 20 \<and> script = [of_nat OP_HASH160, 20] @ h @ [of_nat OP_EQUAL]"
  using assms shape [of script "[of_nat OP_HASH160, 20]" 20 "[of_nat OP_EQUAL]"]
  by (simp add: IsToScriptID_def unat_byte all_upto numeral_2_eq_2 split: if_splits)

lemma pubkey_script:
  assumes "IsToPubKey parse script = Some key"
  shows "script = of_nat (length key) # key @ [of_nat OP_CHECKSIG] \<and>
    (length key = 33 \<and> (key ! 0 = 2 \<or> key ! 0 = 3) \<or> length key = 65 \<and> key ! 0 = 4 \<and> (\<exists>P. parse key = Some P))"
proof -
  consider (short) "length script = 35" "script ! 0 = 33" "unat (script ! 34) = OP_CHECKSIG" "script ! 1 = 2 \<or> script ! 1 = 3"
      "key = take 33 (drop 1 script)"
    | (long) "length script = 67" "script ! 0 = 65" "unat (script ! 66) = OP_CHECKSIG" "script ! 1 = 4"
      "key = take 65 (drop 1 script)" "IsFullyValid parse key"
    using assms by (auto simp: IsToPubKey_def Let_def split: if_splits)
  then show ?thesis
  proof cases
    case short
    then show ?thesis using shape [of script "[33]" 33 "[of_nat OP_CHECKSIG]"] by (simp add: unat_byte)
  next
    case long
    then show ?thesis using shape [of script "[65]" 65 "[of_nat OP_CHECKSIG]"] by (auto simp: unat_byte IsFullyValid_def)
  qed
qed

text \<open>A special script is read from one byte below six and its fixed number of bytes.\<close>

lemma unser_special:
  assumes "Decompress parse uncompressed (unat b) body = Inr (Some script')" "unat b < 6" "length body = GetSpecialSize (unat b)"
  shows "unser_script parse uncompressed script (b # body @ s) = Inr (script', s)"
proof -
  have "unat b mod 128 = unat b" "unat b \<le> 0x7f" using assms(2) by simp_all
  then have "WriteVarInt (unat b) = [b]" unfolding WriteVarInt_def by (subst var_digits.simps) simp
  then have "ReadVarInt (b # body @ s) = Inr (of_nat (unat b) :: u32, body @ s)"
    using ReadVarInt_Write [of "unat b" "body @ s", where 'a = 32] by (simp only: append.simps) simp
  moreover have "unat (of_nat (unat b) :: u32) = unat b" using assms(2) by (simp only: unat_of_nat) simp
  ultimately show ?thesis using assms by (simp add: unser_script_def nSpecialScripts_def read_bytes_append del: unsigned_of_nat of_nat_unat)
qed

lemma script_survives:
  assumes "curve_keys parse uncompressed" "length script \<le> MAX_SCRIPT_SIZE"
  shows "unser_script parse uncompressed old (ser_script parse script @ s) = Inr (script, s)"
proof -
  consider (key) h where "IsToKeyID script = Some h" "Compress parse script = Some (0 # h)"
    | (id) h where "IsToScriptID script = Some h" "Compress parse script = Some (1 # h)"
    | (short) k where "IsToPubKey parse script = Some k" "k ! 0 = 2 \<or> k ! 0 = 3" "Compress parse script = Some (k ! 0 # take 32 (drop 1 k))"
    | (long) k where "IsToPubKey parse script = Some k" "k ! 0 = 4" "Compress parse script = Some ((4 OR (k ! 64 AND 1)) # take 32 (drop 1 k))"
    | (plain) "Compress parse script = None"
    by (cases "IsToKeyID script"; cases "IsToScriptID script"; cases "IsToPubKey parse script"; fastforce simp: Compress_def split: if_splits)
  then show ?thesis
  proof cases
    case (key h)
    then show ?thesis using key_id_script [OF key(1)] unser_special [of parse uncompressed 0 h script old s]
      by (simp add: Decompress_def GetSpecialSize_def ser_script_def)
  next
    case (id h)
    then show ?thesis using script_id_script [OF id(1)] unser_special [of parse uncompressed 1 h script old s]
      by (simp add: Decompress_def GetSpecialSize_def ser_script_def)
  next
    case (short k)
    have k: "length k = 33" "script = 33 # k @ [of_nat OP_CHECKSIG]" using pubkey_script [OF short(1)] short(2) by auto
    obtain b t where "k = b # t" "length t = 32" using k(1) by (cases k) auto
    then show ?thesis using k short unser_special [of parse uncompressed b t script old s]
      by (auto simp: Decompress_def GetSpecialSize_def ser_script_def)
  next
    case (long k)
    have k: "length k = 65" "script = 65 # k @ [of_nat OP_CHECKSIG]" and "\<exists>P. parse k = Some P"
      using pubkey_script [OF long(1)] long(2) by auto
    then obtain P where P: "uncompressed P = k" "parse ((2 OR (k ! 64 AND 1)) # take 32 (drop 1 k)) = Some P"
      using assms(1) long(2) by (auto simp: curve_keys_def)
    define y where "y = k ! 64 AND 1"
    have y: "y = 0 \<or> y = 1" by (simp add: y_def and_one_eq mod_2_eq_odd)
    then have "(of_nat (unat (4 OR y) - 2) :: u8) = 2 OR y" "unat (4 OR y) = 4 \<or> unat (4 OR y) = 5" by auto
    moreover have "IsValid_pubkey ((2 OR y) # take 32 (drop 1 k))" using y k(1) by (auto simp: IsValid_pubkey_def GetLen_def)
    moreover have "IsValid_pubkey k" using k(1) long(2) by (cases k) (auto simp: IsValid_pubkey_def GetLen_def)
    ultimately show ?thesis using k P long(3) unser_special [of parse uncompressed "4 OR y" "take 32 (drop 1 k)" script old s]
      by (auto simp: Decompress_def Decompress_pubkey_def GetSpecialSize_def ser_script_def y_def [symmetric])
  next
    case plain
    have "ReadVarInt (WriteVarInt (length script + 6) @ script @ s) = Inr (of_nat (length script + 6) :: u32, script @ s)"
      using ReadVarInt_Write [of "length script + 6" "script @ s", where 'a = 32] by simp
    moreover have "unat (of_nat (length script + 6) :: u32) = length script + 6" using assms(2) by (simp only: unat_of_nat) simp
    ultimately show ?thesis using plain assms(2)
      by (simp del: of_nat_add add: ser_script_def unser_script_def nSpecialScripts_def read_bytes_append)
  qed
qed

section \<open>Coins survive the disk\<close>

definition storable :: "CTxOut \<Rightarrow> bool" where
  "storable out \<longleftrightarrow> 0 \<le> nValue out \<and> 9 * nValue out < 2 ^ 64 \<and> length (scriptPubKey out) \<le> MAX_SCRIPT_SIZE"

lemma MoneyRange_storable: "MoneyRange (nValue out) \<Longrightarrow> length (scriptPubKey out) \<le> MAX_SCRIPT_SIZE \<Longrightarrow> storable out"
  by (simp add: storable_def MoneyRange_def MAX_MONEY_def COIN_def)

lemma txout_survives:
  assumes "curve_keys parse uncompressed" "storable out"
  shows "unser_txout_compressed parse uncompressed old (ser_txout_compressed parse out @ s) =
    Inr (old\<lparr>nValue := nValue out, scriptPubKey := scriptPubKey out\<rparr>, s)"
proof -
  define m where "m = nat (nValue out)"
  have v: "0 \<le> nValue out" "9 * nValue out < 2 ^ 64" using assms(2) by (simp_all add: storable_def)
  have "nat (nValue out mod 2 ^ 64) = m" "int m = nValue out" using v by (simp_all add: m_def)
  moreover have "9 * m < 2 ^ 64" using v by (simp add: m_def nat_less_iff)
  ultimately have m: "nat (nValue out mod 2 ^ 64) = m" "int m = nValue out" "9 * m < 2 ^ 64" by simp_all
  have "unat (of_nat (CompressAmount m) :: u64) = CompressAmount m"
    using amount_survives(2) [OF m(3)] m(3) by (simp only: unat_of_nat) simp
  moreover have "i64 (int m) = int m" using m(3) by (intro i64_ident) simp_all
  ultimately show ?thesis
    using ReadVarInt_Write [of "CompressAmount m" "ser_script parse (scriptPubKey out) @ s", where 'a = 64]
      script_survives [OF assms(1), of "scriptPubKey out" "scriptPubKey old" s] assms(2) amount_survives(1) [OF m(3)] m(2)
    unfolding ser_txout_compressed_def unser_txout_compressed_def m(1)
    by (simp add: storable_def del: unsigned_of_nat)
qed

lemma code_survives:
  assumes "h < 2 ^ 30"
  shows "ReadVarInt (WriteVarInt ((h * 2 + (if b then 1 else 0)) mod 2 ^ 32) @ s) =
      Inr (of_nat (h * 2 + (if b then 1 else 0)) :: u32, s)"
    "unat (of_nat (h * 2 + (if b then 1 else 0)) :: u32) div 2 = h"
    "odd (unat (of_nat (h * 2 + (if b then 1 else 0)) :: u32)) = b"
proof -
  have l: "h * 2 + (if b then 1 else 0) < 2 ^ 32" using assms by simp
  then show "ReadVarInt (WriteVarInt ((h * 2 + (if b then 1 else 0)) mod 2 ^ 32) @ s) = Inr (of_nat (h * 2 + (if b then 1 else 0)) :: u32, s)"
    by (simp only: mod_less ReadVarInt_Write)
      (simp add: ReadVarInt_Write)
  have u: "unat (of_nat (h * 2 + (if b then 1 else 0)) :: u32) = h * 2 + (if b then 1 else 0)"
    using l by (simp only: unat_of_nat) simp
  show "unat (of_nat (h * 2 + (if b then 1 else 0)) :: u32) div 2 = h"
    "odd (unat (of_nat (h * 2 + (if b then 1 else 0)) :: u32)) = b" unfolding u by simp_all
qed

definition coin_storable :: "Coin \<Rightarrow> bool" where
  "coin_storable c \<longleftrightarrow> storable (coin_out c) \<and> coin_nHeight c < 2 ^ 30"

lemma forget_coin: "\<lparr>coin_out = (coin_out empty_coin)\<lparr>nValue := nValue (coin_out c), scriptPubKey := scriptPubKey (coin_out c)\<rparr>,
    fCoinBase = fCoinBase c, coin_nHeight = coin_nHeight c\<rparr> = forget c"
  by (simp add: forget_def empty_coin_def)

lemma coin_survives:
  assumes "curve_keys parse uncompressed" "coin_storable c"
  shows "\<exists>b. ser_coin parse c = Some b \<and> unser_coin parse uncompressed (b @ s) = Inr (forget c, s)"
proof -
  have st: "storable (coin_out c)" and h: "coin_nHeight c < 2 ^ 30" using assms(2) by (auto simp: coin_storable_def)
  then have "\<not> IsSpent c" by (auto simp: IsSpent_def storable_def)
  moreover note txout_survives [OF assms(1) st, of "coin_out empty_coin" s]
  ultimately show ?thesis using code_survives [OF h, of "fCoinBase c"] forget_coin [of c]
    by (simp add: ser_coin_def unser_coin_def del: unsigned_of_nat of_nat_add of_nat_mult)
qed

lemma undo_survives:
  assumes "curve_keys parse uncompressed" "coin_storable c"
  shows "unser_TxInUndo parse uncompressed (ser_TxInUndo parse c @ s) = Inr (forget c, s)"
proof -
  have st: "storable (coin_out c)" and h: "coin_nHeight c < 2 ^ 30" using assms(2) by (auto simp: coin_storable_def)
  have z: "ReadVarInt (0 # t) = Inr (0 :: u32, t)" for t by (simp add: ReadVarInt_def Let_def)
  note txout_survives [OF assms(1) st, of "coin_out empty_coin" s]
  then show ?thesis using code_survives [OF h, of "fCoinBase c"] forget_coin [of c] z
    by (cases "coin_nHeight c = 0") (simp_all add: ser_TxInUndo_def unser_TxInUndo_def ser_writedata8_def del: unsigned_of_nat of_nat_add of_nat_mult)
qed

interpretation undo: codec "\<lambda>c. curve_keys parse uncompressed \<and> coin_storable c \<and> forget c = c"
    "ser_TxInUndo parse" "unser_TxInUndo parse uncompressed"
  for parse :: "bytes \<Rightarrow> 'p option" and uncompressed
  by unfold_locales (simp add: undo_survives)

lemma ser_forget: "ser_TxInUndo parse (forget c) = ser_TxInUndo parse c" "coin_storable (forget c) = coin_storable c"
    "forget (forget c) = forget c"
  by (simp_all add: ser_TxInUndo_def ser_txout_compressed_def forget_def coin_storable_def storable_def)

definition undo_storable :: "Coin list \<Rightarrow> bool" where
  "undo_storable vprevout \<longleftrightarrow> length vprevout \<le> MAX_INPUTS_PER_BLOCK \<and> (\<forall>c \<in> set vprevout. coin_storable c)"

lemma tx_undo_survives:
  assumes "curve_keys parse uncompressed" "undo_storable vs"
  shows "unser_CTxUndo parse uncompressed (ser_CTxUndo parse vs @ s) = Inr (map forget vs, s)"
proof -
  have "length vs \<le> MAX_SIZE" using assms(2) by (simp add: undo_storable_def MAX_INPUTS_PER_BLOCK_def MAX_SIZE_def)
  moreover have "read_items (unser_TxInUndo parse uncompressed) (length (map forget vs)) (concat (map (ser_TxInUndo parse) (map forget vs)) @ s) = Inr (map forget vs, s)"
    using assms by (intro undo.read_items_enc) (auto simp: ser_forget undo_storable_def)
  ultimately show ?thesis using assms(2)
    by (simp add: ser_CTxUndo_def unser_CTxUndo_def cs.dec_enc undo_storable_def comp_def ser_forget)
qed

interpretation tx_undo: codec "\<lambda>vs. curve_keys parse uncompressed \<and> undo_storable vs \<and> map forget vs = vs"
    "ser_CTxUndo parse" "unser_CTxUndo parse uncompressed"
  for parse :: "bytes \<Rightarrow> 'p option" and uncompressed
  by unfold_locales (simp add: tx_undo_survives)

lemma ser_undo_forget: "ser_CTxUndo parse (map forget vs) = ser_CTxUndo parse vs" "undo_storable (map forget vs) = undo_storable vs"
  by (simp_all add: ser_CTxUndo_def undo_storable_def comp_def ser_forget)

lemma block_undo_survives:
  assumes "curve_keys parse uncompressed" "length vtxundo \<le> MAX_SIZE" "\<forall>vs \<in> set vtxundo. undo_storable vs"
  shows "unser_CBlockUndo parse uncompressed (ser_CBlockUndo parse vtxundo @ s) = Inr (map (map forget) vtxundo, s)"
proof -
  have "vector_ok (\<lambda>vs. curve_keys parse uncompressed \<and> undo_storable vs \<and> map forget vs = vs) (map (map forget) vtxundo)"
    using assms by (auto simp: vector_ok_def ser_undo_forget ser_forget comp_def)
  then show ?thesis using codec.dec_enc [OF tx_undo.vector_codec, of parse uncompressed "map (map forget) vtxundo" s]
    by (simp add: ser_CBlockUndo_def unser_CBlockUndo_def write_vector_def comp_def ser_undo_forget)
qed

lemma entry_survives: "length (hash k) = 32 \<Longrightarrow> unser_CoinEntry (ser_CoinEntry k @ s) = Inr ((DB_COIN, k), s)"
  using ReadVarInt_Write [of "unat (n k)" s, where 'a = 32]
  by (simp add: unser_CoinEntry_def ser_CoinEntry_def u8.dec_enc read_bytes_append)

section \<open>Properties\<close>

text \<open>
  C25. A coin with an amount in the money range, a script of at most 10000 bytes and a height below \<open>2 ^ 30\<close> is
  written without a failed assertion and read back from the database as it was, except for its message; its key is
  read back as written. The hypothesis on the curve library is that an uncompressed key is recovered from its first
  coordinate and the parity of the second.
\<close>

theorem coin_disk_roundtrip:
  assumes "curve_keys parse uncompressed" "MoneyRange (nValue (coin_out c))"
    and "length (scriptPubKey (coin_out c)) \<le> MAX_SCRIPT_SIZE" "coin_nHeight c < 2 ^ 30" "length (hash k) = 32"
  shows "\<exists>b. ser_coin parse c = Some b \<and> unser_coin parse uncompressed (b @ s) = Inr (forget c, s) \<and>
    unser_CoinEntry (ser_CoinEntry k @ s) = Inr ((DB_COIN, k), s)"
  using coin_survives [OF assms(1), of c s] MoneyRange_storable [OF assms(2,3)] assms(4) entry_survives [OF assms(5)]
  by (auto simp: coin_storable_def)

text \<open>A curve with one key, whose second coordinate is odd.\<close>

definition example_key :: bytes where
  "example_key = 4 # replicate 32 7 @ replicate 32 9"

definition example_parse :: "bytes \<Rightarrow> unit option" where
  "example_parse key = (if key = example_key \<or> key = 3 # replicate 32 7 then Some () else None)"

lemma example_curve: "curve_keys example_parse (\<lambda>_. example_key)"
proof -
  have "key = example_key" if "length key = 65" "key ! 0 = 4" "example_parse key = Some P" for key P
    using that by (auto simp: example_parse_def split: if_splits)
  moreover have "example_parse ((2 OR (example_key ! 64 AND 1)) # take 32 (drop 1 example_key)) = Some ()"
    by (simp add: example_parse_def example_key_def nth_append)
  ultimately show ?thesis by (fastforce simp: curve_keys_def example_key_def)
qed

definition example_coin :: Coin where
  "example_coin = \<lparr>coin_out = \<lparr>nValue = 500, scriptPubKey = [65] @ example_key @ [of_nat OP_CHECKSIG], sTxOutMessage = [1]\<rparr>,
     fCoinBase = True, coin_nHeight = 7\<rparr>"

theorem coin_disk_roundtrip_witness:
  "\<exists>b. ser_coin example_parse example_coin = Some b \<and>
    unser_coin example_parse (\<lambda>_. example_key) (b @ [1, 2]) = Inr (forget example_coin, [1, 2]) \<and>
    unser_CoinEntry (ser_CoinEntry \<lparr>hash = replicate 32 5, n = 3\<rparr> @ [1, 2]) = Inr ((DB_COIN, \<lparr>hash = replicate 32 5, n = 3\<rparr>), [1, 2])"
  by (rule coin_disk_roundtrip [OF example_curve])
    (simp_all add: example_coin_def example_key_def MoneyRange_def MAX_MONEY_def COIN_def)

text \<open>
  C26. The undo data of a block, with at most \<open>MAX_INPUTS_PER_BLOCK\<close> spent coins for each transaction, is read
  back as written, except for the messages of the outputs.
\<close>

theorem undo_disk_roundtrip:
  assumes "curve_keys parse uncompressed" "length vtxundo \<le> MAX_SIZE"
    and "\<forall>vs \<in> set vtxundo. length vs \<le> MAX_INPUTS_PER_BLOCK \<and>
      (\<forall>c \<in> set vs. MoneyRange (nValue (coin_out c)) \<and> length (scriptPubKey (coin_out c)) \<le> MAX_SCRIPT_SIZE \<and> coin_nHeight c < 2 ^ 30)"
  shows "unser_CBlockUndo parse uncompressed (ser_CBlockUndo parse vtxundo @ s) = Inr (map (map forget) vtxundo, s)"
  using assms by (intro block_undo_survives) (auto simp: undo_storable_def coin_storable_def intro: MoneyRange_storable)

theorem undo_disk_roundtrip_witness:
  "unser_CBlockUndo example_parse (\<lambda>_. example_key) (ser_CBlockUndo example_parse [[], [example_coin, example_coin]] @ [1]) =
   Inr ([[], [forget example_coin, forget example_coin]], [1])"
  using undo_disk_roundtrip [OF example_curve, of "[[], [example_coin, example_coin]]" "[1]"]
  by (simp add: MAX_SIZE_def MAX_INPUTS_PER_BLOCK_def example_coin_def example_key_def MoneyRange_def MAX_MONEY_def COIN_def)

text \<open>
  Every amount \<open>m\<close> with \<open>9 * m < 2 ^ 64\<close>, hence every amount in the money range, is recovered from its compressed
  form, which never exceeds \<open>9 * m\<close>; so different amounts have different compressed forms.
\<close>

theorem amount_compression:
  assumes "9 * m < 2 ^ 64"
  shows "DecompressAmount (CompressAmount m) = m \<and> CompressAmount m \<le> 9 * m \<and>
    (\<forall>m'. 9 * m' < 2 ^ 64 \<and> CompressAmount m' = CompressAmount m \<longrightarrow> m' = m)"
  using amount_survives [OF assms] amount_survives(1) by metis


theorem amount_compression_witness:
  "9 * 1501001001000000000 < (2 :: nat) ^ 64 \<and> DecompressAmount (CompressAmount 1501001001000000000) = 1501001001000000000 \<and>
   CompressAmount 1501001001000000000 = 15010010010"
proof -
  have "CompressAmount 1501001001000000000 = 15010010010" by (simp add: CompressAmount_def strip_zeros.simps)
  then show ?thesis using amount_compression [of 1501001001000000000] by simp
qed

end
