(* ===== verification/Hash_Tables.thy ===== *)
theory Hash_Tables
  imports Prelude
begin

text \<open>
  The hash functions of \<open>src/src/hash.cpp\<close> that tables and filters use: \<open>MurmurHash3\<close>, and SipHash both as the
  incremental \<open>CSipHasher\<close> and as the versions specialised to a \<open>uint256\<close>.
\<close>

section \<open>MurmurHash3\<close>

definition ROTL32 :: "u32 \<Rightarrow> nat \<Rightarrow> u32" where
  "ROTL32 x r = push_bit r x OR drop_bit (32 - r) x"

definition murmur_c1 :: u32 where "murmur_c1 = 0xcc9e2d51"
definition murmur_c2 :: u32 where "murmur_c2 = 0x1b873593"

definition murmur_mix :: "u32 \<Rightarrow> u32" where
  "murmur_mix k1 = ROTL32 (k1 * murmur_c1) 15 * murmur_c2"

fun murmur_body :: "u32 \<Rightarrow> bytes \<Rightarrow> u32" where
  "murmur_body h1 (b0 # b1 # b2 # b3 # blocks) =
     murmur_body (ROTL32 (h1 XOR murmur_mix (le_decode [b0, b1, b2, b3])) 13 * 5 + 0xe6546b64) blocks"
| "murmur_body h1 tail =
     (case tail of
        [] \<Rightarrow> h1
      | [t0] \<Rightarrow> h1 XOR murmur_mix (ucast t0)
      | [t0, t1] \<Rightarrow> h1 XOR murmur_mix (push_bit 8 (ucast t1) XOR ucast t0)
      | t0 # t1 # t2 # r \<Rightarrow> h1 XOR murmur_mix (push_bit 16 (ucast t2) XOR push_bit 8 (ucast t1) XOR ucast t0))"

definition MurmurHash3 :: "u32 \<Rightarrow> bytes \<Rightarrow> u32" where
  "MurmurHash3 nHashSeed vDataToHash =
     (let h1 = murmur_body nHashSeed vDataToHash;
          h1 = h1 XOR of_nat (length vDataToHash);
          h1 = h1 XOR drop_bit 16 h1;
          h1 = h1 * 0x85ebca6b;
          h1 = h1 XOR drop_bit 13 h1;
          h1 = h1 * 0xc2b2ae35
      in h1 XOR drop_bit 16 h1)"

section \<open>SipHash\<close>

definition ROTL :: "u64 \<Rightarrow> nat \<Rightarrow> u64" where
  "ROTL x b = push_bit b x OR drop_bit (64 - b) x"

type_synonym sip_vector = "u64 \<times> u64 \<times> u64 \<times> u64"

fun SIPROUND :: "sip_vector \<Rightarrow> sip_vector" where
  "SIPROUND (v0, v1, v2, v3) =
     (let v0 = v0 + v1; v1 = ROTL v1 13; v1 = v1 XOR v0;
          v0 = ROTL v0 32;
          v2 = v2 + v3; v3 = ROTL v3 16; v3 = v3 XOR v2;
          v0 = v0 + v3; v3 = ROTL v3 21; v3 = v3 XOR v0;
          v2 = v2 + v1; v1 = ROTL v1 17; v1 = v1 XOR v2;
          v2 = ROTL v2 32
      in (v0, v1, v2, v3))"

fun xor_v0 :: "u64 \<Rightarrow> sip_vector \<Rightarrow> sip_vector" where
  "xor_v0 x (v0, v1, v2, v3) = (v0 XOR x, v1, v2, v3)"

fun xor_v2 :: "u64 \<Rightarrow> sip_vector \<Rightarrow> sip_vector" where
  "xor_v2 x (v0, v1, v2, v3) = (v0, v1, v2 XOR x, v3)"

fun xor_v3 :: "u64 \<Rightarrow> sip_vector \<Rightarrow> sip_vector" where
  "xor_v3 x (v0, v1, v2, v3) = (v0, v1, v2, v3 XOR x)"

fun xor_all :: "sip_vector \<Rightarrow> u64" where
  "xor_all (v0, v1, v2, v3) = v0 XOR v1 XOR v2 XOR v3"

record CSipHasher =
  sip_v :: sip_vector
  sip_tmp :: u64
  sip_count :: nat

definition make_CSipHasher :: "u64 \<Rightarrow> u64 \<Rightarrow> CSipHasher" where
  "make_CSipHasher k0 k1 =
     \<lparr>sip_v = (0x736f6d6570736575 XOR k0, 0x646f72616e646f6d XOR k1, 0x6c7967656e657261 XOR k0, 0x7465646279746573 XOR k1),
      sip_tmp = 0, sip_count = 0\<rparr>"

text \<open>\<open>None\<close> is the failed assertion that a multiple of eight bytes was written.\<close>

definition sip_Write64 :: "u64 \<Rightarrow> CSipHasher \<Rightarrow> CSipHasher option" where
  "sip_Write64 data h =
     (if sip_count h mod 8 \<noteq> 0 then None
      else Some (h\<lparr>sip_v := xor_v0 data (SIPROUND (SIPROUND (xor_v3 data (sip_v h)))), sip_count := sip_count h + 8\<rparr>))"

fun sip_Write :: "bytes \<Rightarrow> CSipHasher \<Rightarrow> CSipHasher" where
  "sip_Write [] h = h"
| "sip_Write (b # data) h =
     (let t = sip_tmp h OR push_bit (8 * (sip_count h mod 8)) (ucast b);
          c = sip_count h + 1
      in if c mod 8 = 0
         then sip_Write data \<lparr>sip_v = xor_v0 t (SIPROUND (SIPROUND (xor_v3 t (sip_v h)))), sip_tmp = 0, sip_count = c\<rparr>
         else sip_Write data (h\<lparr>sip_tmp := t, sip_count := c\<rparr>))"

definition sip_Finalize :: "CSipHasher \<Rightarrow> u64" where
  "sip_Finalize h =
     (let t = sip_tmp h OR push_bit 56 (of_nat (sip_count h));
          v = xor_v3 t (sip_v h);
          v = SIPROUND (SIPROUND v);
          v = xor_v2 0xFF (xor_v0 t v);
          v = SIPROUND (SIPROUND (SIPROUND (SIPROUND v)))
      in xor_all v)"

definition GetUint64 :: "bytes \<Rightarrow> nat \<Rightarrow> u64" where
  "GetUint64 val pos =
     (let ptr = drop (pos * 8) val in
      ucast (ptr ! 0) OR push_bit 8 (ucast (ptr ! 1)) OR push_bit 16 (ucast (ptr ! 2)) OR push_bit 24 (ucast (ptr ! 3)) OR
      push_bit 32 (ucast (ptr ! 4)) OR push_bit 40 (ucast (ptr ! 5)) OR push_bit 48 (ucast (ptr ! 6)) OR push_bit 56 (ucast (ptr ! 7)))"

definition SipHashUint256 :: "u64 \<Rightarrow> u64 \<Rightarrow> bytes \<Rightarrow> u64" where
  "SipHashUint256 k0 k1 val =
     (let d = GetUint64 val 0;
          v = (0x736f6d6570736575 XOR k0, 0x646f72616e646f6d XOR k1, 0x6c7967656e657261 XOR k0, (0x7465646279746573 XOR k1) XOR d);
          v = xor_v0 d (SIPROUND (SIPROUND v));
          d = GetUint64 val 1;
          v = xor_v0 d (SIPROUND (SIPROUND (xor_v3 d v)));
          d = GetUint64 val 2;
          v = xor_v0 d (SIPROUND (SIPROUND (xor_v3 d v)));
          d = GetUint64 val 3;
          v = xor_v0 d (SIPROUND (SIPROUND (xor_v3 d v)));
          v = xor_v0 (push_bit 59 4) (SIPROUND (SIPROUND (xor_v3 (push_bit 59 4) v)));
          v = SIPROUND (SIPROUND (SIPROUND (SIPROUND (xor_v2 0xFF v))))
      in xor_all v)"

definition SipHashUint256Extra :: "u64 \<Rightarrow> u64 \<Rightarrow> bytes \<Rightarrow> u32 \<Rightarrow> u64" where
  "SipHashUint256Extra k0 k1 val extra =
     (let d = GetUint64 val 0;
          v = (0x736f6d6570736575 XOR k0, 0x646f72616e646f6d XOR k1, 0x6c7967656e657261 XOR k0, (0x7465646279746573 XOR k1) XOR d);
          v = xor_v0 d (SIPROUND (SIPROUND v));
          d = GetUint64 val 1;
          v = xor_v0 d (SIPROUND (SIPROUND (xor_v3 d v)));
          d = GetUint64 val 2;
          v = xor_v0 d (SIPROUND (SIPROUND (xor_v3 d v)));
          d = GetUint64 val 3;
          v = xor_v0 d (SIPROUND (SIPROUND (xor_v3 d v)));
          d = push_bit 56 36 OR ucast extra;
          v = xor_v0 d (SIPROUND (SIPROUND (xor_v3 d v)));
          v = SIPROUND (SIPROUND (SIPROUND (SIPROUND (xor_v2 0xFF v))))
      in xor_all v)"

section \<open>Incremental writing\<close>

lemma sip_Write_append: "sip_Write (a @ b) h = sip_Write b (sip_Write a h)"
  by (induction a arbitrary: h) (simp_all add: Let_def)

lemma le_decode_snoc: "le_decode (bs @ [b]) = (le_decode bs OR push_bit (8 * length bs) (ucast b) :: 'a::len word)"
  by (induction bs) (simp_all add: push_bit_or or.assoc)

text \<open>Up to seven bytes only collect in the buffer; the eighth is mixed in.\<close>

lemma sip_Write_short:
  assumes "length bs < 8" "sip_count h mod 8 = 0" "sip_tmp h = 0"
  shows "sip_Write bs h = h\<lparr>sip_tmp := le_decode bs, sip_count := sip_count h + length bs\<rparr>"
  using assms
proof (induction bs rule: rev_induct)
  case (snoc b bs)
  have m: "(sip_count h + k) mod 8 = k" if "k < 8" for k
    using mod_add_left_eq [of "sip_count h" 8 k] snoc.prems(2) that by simp
  moreover have "Suc (sip_count h + length bs) mod 8 \<noteq> 0" using m [of "Suc (length bs)"] snoc.prems by simp
  ultimately show ?case using snoc by (simp add: sip_Write_append le_decode_snoc Let_def)
qed simp

lemma sip_Write_word:
  assumes "length bs = 8" "sip_count h mod 8 = 0" "sip_tmp h = 0"
  shows "Some (sip_Write bs h) = sip_Write64 (le_decode bs) h"
proof -
  obtain b r where bs: "bs = r @ [b]" "length r = 7" using assms(1) by (cases bs rule: rev_cases) auto
  have m: "(sip_count h + 7) mod 8 = 7" "Suc (sip_count h + 7) mod 8 = 0" using assms(2) by presburger+
  have t: "\<lparr>sip_v = v, sip_tmp = 0, sip_count = c\<rparr> = h\<lparr>sip_v := v, sip_count := c\<rparr>" for v c using assms(3) by simp
  show ?thesis using sip_Write_short [of r h] assms bs m
    by (simp add: sip_Write_append le_decode_snoc sip_Write64_def Let_def t)
qed

lemma GetUint64_decode:
  assumes "pos * 8 + 8 \<le> length val"
  shows "GetUint64 val pos = le_decode (take 8 (drop (pos * 8) val))"
proof -
  define p where "p = drop (pos * 8) val"
  have "Suc (Suc (Suc (Suc (Suc (Suc (Suc (Suc 0))))))) \<le> length p" using assms by (simp add: p_def)
  then obtain b0 b1 b2 b3 b4 b5 b6 b7 r where "p = b0 # b1 # b2 # b3 # b4 # b5 # b6 # b7 # r"
    by (auto simp: Suc_le_length_iff)
  then have "drop (pos * 8) val = b0 # b1 # b2 # b3 # b4 # b5 # b6 # b7 # r" by (simp add: p_def)
  then show ?thesis by (simp add: GetUint64_def push_bit_or or.assoc)
qed

section \<open>Properties\<close>

lemma sip_Write_words:
  assumes "length val = 32"
  shows "sip_Write val h = sip_Write (drop 24 val) (sip_Write (take 8 (drop 16 val)) (sip_Write (take 8 (drop 8 val)) (sip_Write (take 8 val) h)))"
proof -
  have "val = take 8 val @ take 8 (drop 8 val) @ take 8 (drop 16 val) @ drop 24 val"
    using append_take_drop_id [of 8 val] append_take_drop_id [of 8 "drop 8 val"] append_take_drop_id [of 8 "drop 16 val"] by simp
  then show ?thesis by (metis sip_Write_append)
qed

definition sip_block :: "u64 \<Rightarrow> sip_vector \<Rightarrow> sip_vector" where
  "sip_block d v = xor_v0 d (SIPROUND (SIPROUND (xor_v3 d v)))"

lemma sip_Write_block:
  assumes "length bs = 8" "c mod 8 = 0"
  shows "sip_Write bs \<lparr>sip_v = v, sip_tmp = 0, sip_count = c\<rparr> = \<lparr>sip_v = sip_block (le_decode bs) v, sip_tmp = 0, sip_count = c + 8\<rparr>"
  using sip_Write_word [of bs "\<lparr>sip_v = v, sip_tmp = 0, sip_count = c\<rparr>"] assms by (simp add: sip_Write64_def sip_block_def)

definition sip_value :: "u64 \<Rightarrow> u64 \<Rightarrow> bytes \<Rightarrow> sip_vector" where
  "sip_value k0 k1 val = sip_block (GetUint64 val 3) (sip_block (GetUint64 val 2) (sip_block (GetUint64 val 1) (sip_block (GetUint64 val 0)
     (0x736f6d6570736575 XOR k0, 0x646f72616e646f6d XOR k1, 0x6c7967656e657261 XOR k0, 0x7465646279746573 XOR k1))))"

lemma sip_Write_value:
  assumes "length val = 32"
  shows "sip_Write val (make_CSipHasher k0 k1) = \<lparr>sip_v = sip_value k0 k1 val, sip_tmp = 0, sip_count = 32\<rparr>"
  using assms by (simp add: sip_Write_words make_CSipHasher_def sip_Write_block sip_value_def GetUint64_decode)

lemma sip_Write64_value:
  assumes "length val = 32"
  shows "Option.bind (Option.bind (Option.bind (sip_Write64 (GetUint64 val 0) (make_CSipHasher k0 k1)) (sip_Write64 (GetUint64 val 1)))
    (sip_Write64 (GetUint64 val 2))) (sip_Write64 (GetUint64 val 3)) = Some \<lparr>sip_v = sip_value k0 k1 val, sip_tmp = 0, sip_count = 32\<rparr>"
  by (simp add: sip_Write64_def make_CSipHasher_def sip_value_def sip_block_def)

lemma specialised_value:
  "SipHashUint256 k0 k1 val = xor_all (SIPROUND (SIPROUND (SIPROUND (SIPROUND (xor_v2 0xFF (sip_block (push_bit 59 4) (sip_value k0 k1 val)))))))"
  "SipHashUint256Extra k0 k1 val extra =
     xor_all (SIPROUND (SIPROUND (SIPROUND (SIPROUND (xor_v2 0xFF (sip_block (push_bit 56 36 OR ucast extra) (sip_value k0 k1 val)))))))"
  by (simp_all only: SipHashUint256_def SipHashUint256Extra_def sip_value_def sip_block_def Let_def xor_v3.simps)

text \<open>
  The SipHash specialised to a \<open>uint256\<close> is the incremental SipHash of its four 64-bit words, and of its 32 bytes written in
  any pieces; the version with an extra number is the SipHash of the 32 bytes and the four bytes of the number.
\<close>

theorem siphash_specialised:
  assumes "length val = 32" "concat pieces = val"
  shows "Option.bind (Option.bind (Option.bind (sip_Write64 (GetUint64 val 0) (make_CSipHasher k0 k1)) (sip_Write64 (GetUint64 val 1)))
      (sip_Write64 (GetUint64 val 2))) (sip_Write64 (GetUint64 val 3)) = Some (fold sip_Write pieces (make_CSipHasher k0 k1)) \<and>
    SipHashUint256 k0 k1 val = sip_Finalize (fold sip_Write pieces (make_CSipHasher k0 k1)) \<and>
    SipHashUint256Extra k0 k1 val extra = sip_Finalize (sip_Write (le_encode 4 extra) (fold sip_Write pieces (make_CSipHasher k0 k1)))"
proof -
  have "fold sip_Write ps h = sip_Write (concat ps) h" for ps h by (induction ps arbitrary: h) (simp_all add: sip_Write_append)
  then have f: "fold sip_Write pieces (make_CSipHasher k0 k1) = \<lparr>sip_v = sip_value k0 k1 val, sip_tmp = 0, sip_count = 32\<rparr>"
    using sip_Write_value [OF assms(1)] assms(2) by simp
  have "(le_decode (le_encode 4 extra) :: u64) = ucast extra"
  proof (rule bit_word_eqI)
    fix k :: nat
    show "bit (le_decode (le_encode 4 extra) :: u64) k \<longleftrightarrow> bit (ucast extra :: u64) k" if "k < LENGTH(64)"
      using that bit_imp_le_length [of extra k] by (cases "k < 32") (auto simp: bit_le_decode le_encode_def bit_simps)
  qed
  then have x: "sip_Write (le_encode 4 extra) \<lparr>sip_v = sip_value k0 k1 val, sip_tmp = 0, sip_count = 32\<rparr> =
      \<lparr>sip_v = sip_value k0 k1 val, sip_tmp = ucast extra, sip_count = 36\<rparr>"
    by (simp add: sip_Write_short)
  have "push_bit 59 4 = (push_bit 56 32 :: u64)" by simp
  then show ?thesis unfolding f x specialised_value using sip_Write64_value [OF assms(1)]
    by (simp add: sip_Finalize_def Let_def sip_block_def or.commute)
qed

theorem siphash_specialised_witness:
  "SipHashUint256 3 4 (replicate 5 1 @ replicate 27 2) = sip_Finalize (fold sip_Write [replicate 5 1, replicate 27 2] (make_CSipHasher 3 4))"
  using siphash_specialised [of "replicate 5 1 @ replicate 27 2" "[replicate 5 1, replicate 27 2]" 3 4 5] by simp

end
