(* ===== verification/Standard.thy ===== *)
theory Standard
  imports Pay_To_Pubkey_Hash Signature_Hash
begin

text \<open>
  Standard output scripts, \<open>src/src/script/standard.h\<close> and \<open>standard.cpp\<close>: recognising them by templates and building
  them. Iterators into a script are the bytes from there to the end, as in \<open>Script\<close>. The hash of a key is a parameter.
\<close>

datatype txnouttype = TX_NONSTANDARD | TX_PUBKEY | TX_PUBKEYHASH | TX_SCRIPTHASH | TX_MULTISIG | TX_NULL_DATA

datatype CTxDestination = CNoDestination | CKeyID bytes | CScriptID bytes

definition GetTxnOutputType :: "txnouttype \<Rightarrow> string" where
  "GetTxnOutputType t =
     (case t of
        TX_NONSTANDARD \<Rightarrow> ''nonstandard''
      | TX_PUBKEY \<Rightarrow> ''pubkey''
      | TX_PUBKEYHASH \<Rightarrow> ''pubkeyhash''
      | TX_SCRIPTHASH \<Rightarrow> ''scripthash''
      | TX_MULTISIG \<Rightarrow> ''multisig''
      | TX_NULL_DATA \<Rightarrow> ''nulldata'')"

section \<open>The solver\<close>

text \<open>The templates, in the order of the map.\<close>

definition mTemplates :: "(txnouttype \<times> bytes) list" where
  "mTemplates =
     [(TX_PUBKEY, [of_nat OP_PUBKEY, of_nat OP_CHECKSIG]),
      (TX_PUBKEYHASH, [of_nat OP_DUP, of_nat OP_HASH160, of_nat OP_PUBKEYHASH, of_nat OP_EQUALVERIFY, of_nat OP_CHECKSIG]),
      (TX_MULTISIG, [of_nat OP_SMALLINTEGER, of_nat OP_PUBKEYS, of_nat OP_SMALLINTEGER, of_nat OP_CHECKMULTISIG])]"

text \<open>
  The inner loop over public keys: \<open>opcode1\<close>, \<open>vch1\<close> and \<open>pc1\<close> afterwards, with the solutions. A read that fails
  sets \<open>opcode1\<close> to \<open>OP_INVALIDOPCODE\<close> and clears \<open>vch1\<close>.
\<close>

function take_keys :: "nat \<Rightarrow> bytes \<Rightarrow> bytes \<Rightarrow> bytes list \<Rightarrow> nat \<times> bytes \<times> bytes \<times> bytes list" where
  "take_keys opcode1 vch1 pc1 vSolutions =
     (if length vch1 \<ge> 33 \<and> length vch1 \<le> 65 then
        (case GetOp2 pc1 of
           Inl pc1' \<Rightarrow> (OP_INVALIDOPCODE, [], pc1', vSolutions @ [vch1])
         | Inr (opcode1', vch1', pc1') \<Rightarrow> take_keys opcode1' vch1' pc1' (vSolutions @ [vch1]))
      else (opcode1, vch1, pc1, vSolutions))"
  by pat_completeness auto
termination
  by (relation "measure (\<lambda>(oc, v, pc, s). length pc)") (auto dest: GetOp2_shorter)

declare take_keys.simps [simp del]

text \<open>
  What the element \<open>opcode1\<close>, \<open>vch1\<close> does against the template's \<open>opcode2\<close>: the new solutions, or \<open>None\<close> for a \<open>break\<close>.
\<close>

definition match_op :: "nat \<Rightarrow> bytes \<Rightarrow> nat \<Rightarrow> bytes \<Rightarrow> bytes list \<Rightarrow> bytes list option" where
  "match_op opcode1 vch1 opcode2 vch2 vSolutions =
     (if opcode2 = OP_PUBKEY then
        (if length vch1 < 33 \<or> length vch1 > 65 then None else Some (vSolutions @ [vch1]))
      else if opcode2 = OP_PUBKEYHASH then
        (if length vch1 \<noteq> 20 then None else Some (vSolutions @ [vch1]))
      else if opcode2 = OP_SMALLINTEGER then
        (if opcode1 = OP_0 \<or> (opcode1 \<ge> OP_1 \<and> opcode1 \<le> OP_16)
         then map_option (\<lambda>k. vSolutions @ [[word_of_int k]]) (DecodeOP_N opcode1)
         else None)
      else if opcode1 \<noteq> opcode2 \<or> vch1 \<noteq> vch2 then None else Some vSolutions)"

text \<open>The bounds of a multisig script, read from the first and the last solution.\<close>

definition multisig_bounds :: "bytes list \<Rightarrow> bool" where
  "multisig_bounds vSolutions =
     (let m = unat (hd vSolutions ! 0); n = unat (last vSolutions ! 0)
      in \<not> (m < 1 \<or> n < 1 \<or> m > n \<or> length vSolutions - 2 \<noteq> n))"

lemma take_keys_shorter: "take_keys oc v pc sols = (oc', v', pc', sols') \<Longrightarrow> length pc' \<le> length pc"
proof (induction oc v pc sols rule: take_keys.induct)
  case (1 oc v pc sols)
  show ?case
  proof (cases "length v \<ge> 33 \<and> length v \<le> 65")
    case True
    show ?thesis
    proof (cases "GetOp2 pc")
      case (Inl q)
      have "length q \<le> length pc" using Inl
        by (auto simp: GetOp2_def push_size_def Let_def split: list.splits sum.splits if_splits prod.splits)
      then show ?thesis using 1(2) True Inl by (simp add: take_keys.simps [of oc])
    next
      case (Inr r)
      obtain o2 v2 p2 where r: "r = (o2, v2, p2)" by (cases r) auto
      then show ?thesis using 1 True Inr GetOp2_shorter [of pc o2 v2 p2] by (fastforce simp: take_keys.simps [of oc])
    qed
  next
    case False
    then have "take_keys oc v pc sols = (oc, v, pc, sols)" by (subst take_keys.simps) auto
    then show ?thesis using 1(2) by simp
  qed
qed

text \<open>The comparison with one template: \<open>None\<close> when it does not match, otherwise the result with the solutions.\<close>

function match_template :: "txnouttype \<Rightarrow> bytes \<Rightarrow> bytes \<Rightarrow> bytes list \<Rightarrow> (bool \<times> bytes list) option" where
  "match_template t pc1 pc2 vSolutions =
     (if pc1 = [] \<and> pc2 = [] then
        Some (if t = TX_MULTISIG then multisig_bounds vSolutions else True, vSolutions)
      else case GetOp2 pc1 of
        Inl _ \<Rightarrow> None
      | Inr (opcode1, vch1, pc1') \<Rightarrow>
          (case GetOp2 pc2 of
             Inl _ \<Rightarrow> None
           | Inr (opcode2, vch2, pc2') \<Rightarrow>
               (if opcode2 = OP_PUBKEYS then
                  (case take_keys opcode1 vch1 pc1' vSolutions of
                     (opcode1, vch1, pc1', vSolutions) \<Rightarrow>
                       (case GetOp2 pc2' of
                          Inl _ \<Rightarrow> None
                        | Inr (opcode2, vch2, pc2') \<Rightarrow>
                            (case match_op opcode1 vch1 opcode2 vch2 vSolutions of
                               None \<Rightarrow> None
                             | Some vSolutions \<Rightarrow> match_template t pc1' pc2' vSolutions)))
                else
                  (case match_op opcode1 vch1 opcode2 vch2 vSolutions of
                     None \<Rightarrow> None
                   | Some vSolutions \<Rightarrow> match_template t pc1' pc2' vSolutions))))"
  by pat_completeness auto
termination
  by (relation "measure (\<lambda>(t, pc1, pc2, s). length pc1 + length pc2)")
    (auto dest!: GetOp2_shorter take_keys_shorter [OF sym])

declare match_template.simps [simp del]

fun scan_templates :: "bytes \<Rightarrow> (txnouttype \<times> bytes) list \<Rightarrow> bool \<times> txnouttype \<times> bytes list" where
  "scan_templates script1 [] = (False, TX_NONSTANDARD, [])"
| "scan_templates script1 ((t, script2) # rest) =
     (case match_template t script1 script2 [] of
        Some (ok, vSolutions) \<Rightarrow> (ok, t, vSolutions)
      | None \<Rightarrow> scan_templates script1 rest)"

text \<open>The result, the type and the solutions.\<close>

definition Solver :: "bytes \<Rightarrow> bool \<times> txnouttype \<times> bytes list" where
  "Solver script =
     (if IsPayToScriptHash script then (True, TX_SCRIPTHASH, [take 20 (drop 2 script)])
      else if length script \<ge> 1 \<and> unat (script ! 0) = OP_RETURN \<and> IsPushOnly (drop 1 script)
      then (True, TX_NULL_DATA, [])
      else scan_templates script mTemplates)"

definition ExtractDestination :: "(bytes \<Rightarrow> bytes) \<Rightarrow> bytes \<Rightarrow> CTxDestination option" where
  "ExtractDestination KeyHash script =
     (case Solver script of
        (ok, whichType, vSolutions) \<Rightarrow>
          (if \<not> ok then None
           else if whichType = TX_PUBKEY then
             (if \<not> IsValid_pubkey (vSolutions ! 0) then None else Some (CKeyID (KeyHash (vSolutions ! 0))))
           else if whichType = TX_PUBKEYHASH then Some (CKeyID (vSolutions ! 0))
           else if whichType = TX_SCRIPTHASH then Some (CScriptID (vSolutions ! 0))
           else None))"

text \<open>The type, the destinations and the number of signatures; \<open>None\<close> is the result \<open>false\<close>.\<close>

definition ExtractDestinations :: "(bytes \<Rightarrow> bytes) \<Rightarrow> bytes \<Rightarrow> (txnouttype \<times> CTxDestination list \<times> nat) option" where
  "ExtractDestinations KeyHash script =
     (case Solver script of
        (ok, typeRet, vSolutions) \<Rightarrow>
          (if \<not> ok then None
           else if typeRet = TX_NULL_DATA then None
           else if typeRet = TX_MULTISIG then
             (let addressRet = map (\<lambda>k. CKeyID (KeyHash k)) (filter IsValid_pubkey (butlast (tl vSolutions)))
              in if addressRet = [] then None else Some (typeRet, addressRet, unat (hd vSolutions ! 0)))
           else
             (case ExtractDestination KeyHash script of
                None \<Rightarrow> None
              | Some address \<Rightarrow> Some (typeRet, [address], 1))))"

section \<open>Building scripts\<close>

definition GetScriptForDestination :: "CTxDestination \<Rightarrow> bytes" where
  "GetScriptForDestination dest =
     (case dest of
        CNoDestination \<Rightarrow> []
      | CKeyID keyID \<Rightarrow> [of_nat OP_DUP, of_nat OP_HASH160] @ push_data keyID @ [of_nat OP_EQUALVERIFY, of_nat OP_CHECKSIG]
      | CScriptID scriptID \<Rightarrow> [of_nat OP_HASH160] @ push_data scriptID @ [of_nat OP_EQUAL])"

definition GetScriptForRawPubKey :: "bytes \<Rightarrow> bytes" where
  "GetScriptForRawPubKey pubKey = push_data pubKey @ [of_nat OP_CHECKSIG]"

text \<open>\<open>None\<close> is a failed assertion of \<open>EncodeOP_N\<close>.\<close>

definition GetScriptForMultisig :: "int \<Rightarrow> bytes list \<Rightarrow> bytes option" where
  "GetScriptForMultisig nRequired keys =
     (case EncodeOP_N nRequired of
        None \<Rightarrow> None
      | Some m \<Rightarrow>
          (case EncodeOP_N (int (length keys)) of
             None \<Rightarrow> None
           | Some k \<Rightarrow> Some ([of_nat m] @ concat (map push_data keys) @ [of_nat k, of_nat OP_CHECKMULTISIG])))"

section \<open>Scripts as lists of operations\<close>

function script_ops :: "bytes \<Rightarrow> (nat \<times> bytes) list option" where
  "script_ops pc =
     (if pc = [] then Some []
      else case GetOp2 pc of
        Inl _ \<Rightarrow> None
      | Inr (opcode, vch, pc') \<Rightarrow> map_option ((#) (opcode, vch)) (script_ops pc'))"
  by pat_completeness auto
termination
  by (relation "measure length") (auto dest: GetOp2_shorter)

declare script_ops.simps [simp del]

lemma script_ops_Nil [simp]: "script_ops [] = Some []"
  by (simp add: script_ops.simps)

lemma script_ops_eq_Nil [simp]: "script_ops pc = Some [] \<longleftrightarrow> pc = []"
  by (auto simp: script_ops.simps [of pc] split: sum.splits)

lemma script_ops_eq_Cons:
  "script_ops pc = Some (x # xs) \<longleftrightarrow> (\<exists>pc'. GetOp2 pc = Inr (fst x, snd x, pc') \<and> script_ops pc' = Some xs)"
  by (auto simp: script_ops.simps [of pc] split: sum.splits)

lemma GetOp2_plain_opcode: "OP_PUSHDATA4 < unat b \<Longrightarrow> GetOp2 (b # pc) = Inr (unat b, [], pc)"
  by (simp add: GetOp2_def)

text \<open>Opcodes beyond the pushes carry no data.\<close>

lemma GetOp2_no_data: "GetOp2 pc = Inr (opcode, vch, pc') \<Longrightarrow> OP_PUSHDATA4 < opcode \<or> opcode = 0 \<Longrightarrow> vch = []"
  by (auto simp: GetOp2_def Let_def push_size_def split: list.splits if_splits sum.splits prod.splits)

lemma GetOp2_first: "GetOp2 pc = Inr (opcode, vch, pc') \<Longrightarrow> pc \<noteq> [] \<and> unat (pc ! 0) = opcode"
  by (auto simp: GetOp2_def Let_def split: list.splits if_splits sum.splits prod.splits)

text \<open>One step of a template other than the one for public keys.\<close>

lemma match_step:
  assumes "OP_PUSHDATA4 < unat b" "unat b \<noteq> OP_PUBKEYS"
  shows "match_template t pc1 (b # pc2) sols = Some r \<longleftrightarrow>
    (\<exists>opc v pc' sols'. GetOp2 pc1 = Inr (opc, v, pc') \<and> match_op opc v (unat b) [] sols = Some sols' \<and> match_template t pc' pc2 sols' = Some r)"
  using assms by (subst match_template.simps) (auto simp: GetOp2_plain_opcode split: sum.splits option.splits)

lemma match_end: "match_template t pc [] sols = Some r \<longleftrightarrow>
    pc = [] \<and> r = (if t = TX_MULTISIG then multisig_bounds sols else True, sols)"
  by (subst match_template.simps) (auto split: sum.splits)

lemma match_op_iff:
  "match_op opc v OP_PUBKEY w sols = Some sols' \<longleftrightarrow> 33 \<le> length v \<and> length v \<le> 65 \<and> sols' = sols @ [v]"
  "match_op opc v OP_PUBKEYHASH w sols = Some sols' \<longleftrightarrow> length v = 20 \<and> sols' = sols @ [v]"
  "match_op opc v OP_SMALLINTEGER w sols = Some sols' \<longleftrightarrow>
     (opc = 0 \<and> sols' = sols @ [[0]] \<or> 81 \<le> opc \<and> opc \<le> 96 \<and> sols' = sols @ [[of_nat (opc - 80)]])"
  "opc2 \<noteq> OP_PUBKEY \<Longrightarrow> opc2 \<noteq> OP_PUBKEYHASH \<Longrightarrow> opc2 \<noteq> OP_SMALLINTEGER \<Longrightarrow>
     match_op opc v opc2 w sols = Some sols' \<longleftrightarrow> opc = opc2 \<and> v = w \<and> sols' = sols"
  by (auto simp: match_op_def DecodeOP_N_def of_nat_diff split: if_splits)

lemma match_pubkey: "match_template TX_PUBKEY s [of_nat OP_PUBKEY, of_nat OP_CHECKSIG] [] = Some (b, v) \<longleftrightarrow>
    b \<and> (\<exists>opc key. script_ops s = Some [(opc, key), (OP_CHECKSIG, [])] \<and> 33 \<le> length key \<and> length key \<le> 65 \<and> v = [key])"
  using match_op_iff(1) by (simp add: match_step match_end match_op_iff script_ops_eq_Cons) blast

lemma match_pubkeyhash:
  "match_template TX_PUBKEYHASH s [of_nat OP_DUP, of_nat OP_HASH160, of_nat OP_PUBKEYHASH, of_nat OP_EQUALVERIFY, of_nat OP_CHECKSIG] [] = Some (b, v) \<longleftrightarrow>
    b \<and> (\<exists>opc h. script_ops s = Some [(OP_DUP, []), (OP_HASH160, []), (opc, h), (OP_EQUALVERIFY, []), (OP_CHECKSIG, [])] \<and> length h = 20 \<and> v = [h])"
  using match_op_iff(2) by (simp add: match_step match_end match_op_iff script_ops_eq_Cons) blast

text \<open>The loop over public keys splits the operations at the first one that does not push a key.\<close>

definition key_sized :: "bytes \<Rightarrow> bool" where
  "key_sized v \<longleftrightarrow> 33 \<le> length v \<and> length v \<le> 65"

definition small_opcode :: "nat \<Rightarrow> bool" where
  "small_opcode opc \<longleftrightarrow> opc = 0 \<or> 81 \<le> opc \<and> opc \<le> 96"

definition small_value :: "nat \<Rightarrow> nat" where
  "small_value opc = (if opc = 0 then 0 else opc - 80)"

lemma take_keys_stop: "\<not> key_sized v \<Longrightarrow> take_keys opc v pc sols = (opc, v, pc, sols)"
  by (subst take_keys.simps) (auto simp: key_sized_def)

lemma take_keys_go:
  "key_sized v \<Longrightarrow> take_keys opc v pc sols =
    (case GetOp2 pc of Inl pc' \<Rightarrow> (OP_INVALIDOPCODE, [], pc', sols @ [v]) | Inr (opc', v', pc') \<Rightarrow> take_keys opc' v' pc' (sols @ [v]))"
  by (subst take_keys.simps) (simp add: key_sized_def)

lemma take_keys_sound:
  "take_keys opc v pc sols = (opc', v', pc', sols') \<Longrightarrow> opc' \<noteq> OP_INVALIDOPCODE \<Longrightarrow> script_ops pc' = Some xs \<Longrightarrow>
   \<exists>keys ops. script_ops pc = Some ops \<and> (opc, v) # ops = keys @ (opc', v') # xs \<and> (\<forall>k \<in> set keys. key_sized (snd k)) \<and>
     sols' = sols @ map snd keys"
proof (induction opc v pc sols rule: take_keys.induct)
  case (1 opc v pc sols)
  show ?case
  proof (cases "key_sized v")
    case True
    then obtain opc2 v2 p2 where g: "GetOp2 pc = Inr (opc2, v2, p2)" and t: "take_keys opc2 v2 p2 (sols @ [v]) = (opc', v', pc', sols')"
      using "1.prems"(1,2) by (auto simp: take_keys_go split: sum.splits prod.splits)
    then obtain keys ops where k: "script_ops p2 = Some ops" "(opc2, v2) # ops = keys @ (opc', v') # xs" "\<forall>k \<in> set keys. key_sized (snd k)"
        "sols' = sols @ v # map snd keys"
      using "1.IH" [OF _ g refl refl t "1.prems"(2,3)] True by (auto simp: key_sized_def)
    have "script_ops pc = Some ((opc2, v2) # ops)" using g k(1) by (simp add: script_ops_eq_Cons)
    then show ?thesis using k True by (intro exI [of _ "(opc, v) # keys"] exI [of _ "(opc2, v2) # ops"]) auto
  next
    case False
    then show ?thesis using "1.prems" by (intro exI [of _ "[]"] exI [of _ xs]) (simp add: take_keys_stop)
  qed
qed

lemma take_keys_complete:
  "script_ops pc = Some ops \<Longrightarrow> (opc, v) # ops = keys @ (opc', v') # xs \<Longrightarrow> \<forall>k \<in> set keys. key_sized (snd k) \<Longrightarrow> \<not> key_sized v' \<Longrightarrow>
   \<exists>pc'. take_keys opc v pc sols = (opc', v', pc', sols @ map snd keys) \<and> script_ops pc' = Some xs"
proof (induction keys arbitrary: opc v pc ops sols)
  case Nil
  then show ?case by (simp add: take_keys_stop)
next
  case (Cons k keys)
  then have k: "k = (opc, v)" "key_sized v" and ops: "ops = keys @ (opc', v') # xs" by auto
  obtain y ys where y: "ops = y # ys" using ops by (cases keys) auto
  then obtain p2 where p2: "GetOp2 pc = Inr (fst y, snd y, p2)" "script_ops p2 = Some ys"
    using Cons.prems(1) by (auto simp: script_ops_eq_Cons)
  have "(fst y, snd y) # ys = keys @ (opc', v') # xs" using y ops by simp
  then obtain pc' where "take_keys (fst y) (snd y) p2 (sols @ [v]) = (opc', v', pc', (sols @ [v]) @ map snd keys)" "script_ops pc' = Some xs"
    using Cons.IH [OF p2(2), of "fst y" "snd y" "sols @ [v]"] Cons.prems by auto
  then show ?case using k p2(1) by (simp add: take_keys_go)
qed

lemma match_keys:
  "match_template t pc1 (of_nat OP_PUBKEYS # of_nat OP_SMALLINTEGER # pc2) sols = Some r \<longleftrightarrow>
    (\<exists>opc v pc opc' v' pc' sols' sols''. GetOp2 pc1 = Inr (opc, v, pc) \<and> take_keys opc v pc sols = (opc', v', pc', sols') \<and>
       match_op opc' v' OP_SMALLINTEGER [] sols' = Some sols'' \<and> match_template t pc' pc2 sols'' = Some r)"
  by (subst match_template.simps) (auto simp: GetOp2_plain_opcode split: sum.splits option.splits prod.splits)

lemma script_ops_no_data: "script_ops pc = Some ops \<Longrightarrow> (opc, v) \<in> set ops \<Longrightarrow> small_opcode opc \<Longrightarrow> v = []"
proof (induction pc arbitrary: ops rule: script_ops.induct)
  case (1 pc)
  then obtain y ys where y: "ops = y # ys" by (cases ops) auto
  then obtain p2 where p2: "GetOp2 pc = Inr (fst y, snd y, p2)" "script_ops p2 = Some ys"
    using 1(2) by (auto simp: script_ops_eq_Cons)
  show ?case
  proof (cases "(opc, v) = y")
    case True
    then show ?thesis using GetOp2_no_data [OF p2(1)] 1(4) by (auto simp: small_opcode_def)
  next
    case False
    moreover have "pc \<noteq> []" using GetOp2_first [OF p2(1)] by simp
    ultimately show ?thesis using 1(1) [OF _ p2(1) refl refl p2(2)] 1(3,4) y by auto
  qed
qed

lemma match_small_iff: "match_op opc v OP_SMALLINTEGER w sols = Some sols' \<longleftrightarrow> small_opcode opc \<and> sols' = sols @ [[of_nat (small_value opc)]]"
  unfolding match_op_iff(3) by (auto simp: small_opcode_def small_value_def)

lemma match_small:
  "match_template t pc1 (of_nat OP_SMALLINTEGER # pc2) sols = Some r \<longleftrightarrow>
    (\<exists>opc v pc'. GetOp2 pc1 = Inr (opc, v, pc') \<and> small_opcode opc \<and> match_template t pc' pc2 (sols @ [[of_nat (small_value opc)]]) = Some r)"
proof -
  have "unat (of_nat OP_SMALLINTEGER :: u8) = OP_SMALLINTEGER" by simp
  then show ?thesis using match_step [of "of_nat OP_SMALLINTEGER" t pc1 pc2 sols r] by (cases r) (auto simp only: match_small_iff, auto)
qed

lemma match_checkmultisig:
  "match_template t pc1 [of_nat OP_CHECKMULTISIG] sols = Some r \<longleftrightarrow>
    script_ops pc1 = Some [(OP_CHECKMULTISIG, [])] \<and> r = (if t = TX_MULTISIG then multisig_bounds sols else True, sols)"
  by (auto simp: match_step match_end match_op_iff script_ops_eq_Cons)

lemma match_multisig:
  "match_template TX_MULTISIG s [of_nat OP_SMALLINTEGER, of_nat OP_PUBKEYS, of_nat OP_SMALLINTEGER, of_nat OP_CHECKMULTISIG] [] = Some (b, v) \<longleftrightarrow>
   (\<exists>m keys k. script_ops s = Some ((m, []) # keys @ [(k, []), (OP_CHECKMULTISIG, [])]) \<and> small_opcode m \<and> small_opcode k \<and>
      (\<forall>key \<in> set keys. key_sized (snd key)) \<and> v = [of_nat (small_value m)] # map snd keys @ [[of_nat (small_value k)]] \<and> b = multisig_bounds v)"
    (is "?L \<longleftrightarrow> ?R")
proof
  assume ?L
  then obtain m w p opc x q k y q' sols where m: "GetOp2 s = Inr (m, w, p)" "small_opcode m"
      and q: "GetOp2 p = Inr (opc, x, q)" "take_keys opc x q [[of_nat (small_value m)]] = (k, y, q', sols)" "small_opcode k"
      and e: "script_ops q' = Some [(OP_CHECKMULTISIG, [])]" "v = sols @ [[of_nat (small_value k)]]" "b = multisig_bounds v"
    unfolding match_small match_keys match_small_iff match_checkmultisig by auto
  have "k \<noteq> OP_INVALIDOPCODE" using q(3) by (auto simp: small_opcode_def)
  then obtain keys ops where k: "script_ops q = Some ops" "(opc, x) # ops = keys @ (k, y) # [(OP_CHECKMULTISIG, [])]" "\<forall>k \<in> set keys. key_sized (snd k)"
      "sols = [[of_nat (small_value m)]] @ map snd keys" using take_keys_sound [OF q(2) _ e(1)] by blast
  have "script_ops p = Some (keys @ [(k, y), (OP_CHECKMULTISIG, [])])"
    unfolding k(2) [symmetric] using q(1) k(1) by (simp add: script_ops_eq_Cons)
  then have ops: "script_ops s = Some ((m, w) # keys @ [(k, y), (OP_CHECKMULTISIG, [])])"
    using m(1) by (simp add: script_ops_eq_Cons)
  have "w = []" "y = []" using script_ops_no_data [OF ops] m(2) q(3) by auto
  then show ?R using ops m(2) q(3) k e by auto
next
  assume ?R
  then obtain m keys k where ops: "script_ops s = Some ((m, []) # keys @ [(k, []), (OP_CHECKMULTISIG, [])])" and sm: "small_opcode m" "small_opcode k"
    and ks: "\<forall>key \<in> set keys. key_sized (snd key)" and v: "v = [of_nat (small_value m)] # map snd keys @ [[of_nat (small_value k)]]" "b = multisig_bounds v"
    by blast
  obtain p where p: "GetOp2 s = Inr (m, [], p)" "script_ops p = Some (keys @ [(k, []), (OP_CHECKMULTISIG, [])])" using ops by (auto simp: script_ops_eq_Cons)
  obtain y ys where y: "keys @ [(k, []), (OP_CHECKMULTISIG, [])] = y # ys" by (cases keys) auto
  then obtain q where q: "GetOp2 p = Inr (fst y, snd y, q)" "script_ops q = Some ys" using p(2) by (auto simp: script_ops_eq_Cons)
  have a: "(fst y, snd y) # ys = keys @ (k, []) # [(OP_CHECKMULTISIG, [])]" using y by simp
  obtain q' where "take_keys (fst y) (snd y) q [[of_nat (small_value m)]] = (k, [], q', [[of_nat (small_value m)]] @ map snd keys)"
      "script_ops q' = Some [(OP_CHECKMULTISIG, [])]"
    using take_keys_complete [OF q(2) a ks, of "[[of_nat (small_value m)]]"] by (auto simp: key_sized_def)
  then show ?L unfolding match_small match_keys match_small_iff match_checkmultisig using p(1) q(1) sm v by force
qed

section \<open>What the solver recognises\<close>

lemma Solver_template:
  assumes "script_ops s = Some ((opc, v) # ops)" "opc \<noteq> OP_HASH160" "opc \<noteq> OP_RETURN"
  shows "Solver s = scan_templates s mTemplates"
proof -
  have "s \<noteq> []" "unat (s ! 0) = opc" using assms(1) GetOp2_first by (auto simp: script_ops_eq_Cons)
  then show ?thesis using assms(2,3) by (simp add: Solver_def IsPayToScriptHash_def)
qed

lemma scan_cases:
  "scan_templates s mTemplates = (ok, t, v) \<longleftrightarrow>
     (match_template TX_PUBKEY s [of_nat OP_PUBKEY, of_nat OP_CHECKSIG] [] = Some (ok, v) \<and> t = TX_PUBKEY) \<or>
     (match_template TX_PUBKEY s [of_nat OP_PUBKEY, of_nat OP_CHECKSIG] [] = None \<and>
      match_template TX_PUBKEYHASH s [of_nat OP_DUP, of_nat OP_HASH160, of_nat OP_PUBKEYHASH, of_nat OP_EQUALVERIFY, of_nat OP_CHECKSIG] [] = Some (ok, v) \<and>
      t = TX_PUBKEYHASH) \<or>
     (match_template TX_PUBKEY s [of_nat OP_PUBKEY, of_nat OP_CHECKSIG] [] = None \<and>
      match_template TX_PUBKEYHASH s [of_nat OP_DUP, of_nat OP_HASH160, of_nat OP_PUBKEYHASH, of_nat OP_EQUALVERIFY, of_nat OP_CHECKSIG] [] = None \<and>
      match_template TX_MULTISIG s [of_nat OP_SMALLINTEGER, of_nat OP_PUBKEYS, of_nat OP_SMALLINTEGER, of_nat OP_CHECKMULTISIG] [] = Some (ok, v) \<and>
      t = TX_MULTISIG) \<or>
     (match_template TX_PUBKEY s [of_nat OP_PUBKEY, of_nat OP_CHECKSIG] [] = None \<and>
      match_template TX_PUBKEYHASH s [of_nat OP_DUP, of_nat OP_HASH160, of_nat OP_PUBKEYHASH, of_nat OP_EQUALVERIFY, of_nat OP_CHECKSIG] [] = None \<and>
      match_template TX_MULTISIG s [of_nat OP_SMALLINTEGER, of_nat OP_PUBKEYS, of_nat OP_SMALLINTEGER, of_nat OP_CHECKMULTISIG] [] = None \<and>
      \<not> ok \<and> t = TX_NONSTANDARD \<and> v = [])"
  unfolding mTemplates_def scan_templates.simps by (auto split: option.splits)

lemma match_None: "match_template t a b c = None \<longleftrightarrow> (\<forall>ok v. match_template t a b c \<noteq> Some (ok, v))"
  by (cases "match_template t a b c") auto

lemma Solver_matches:
  "Solver s = (ok, TX_PUBKEY, v) \<Longrightarrow> match_template TX_PUBKEY s [of_nat OP_PUBKEY, of_nat OP_CHECKSIG] [] = Some (ok, v)"
  "Solver s = (ok, TX_PUBKEYHASH, v) \<Longrightarrow>
     match_template TX_PUBKEYHASH s [of_nat OP_DUP, of_nat OP_HASH160, of_nat OP_PUBKEYHASH, of_nat OP_EQUALVERIFY, of_nat OP_CHECKSIG] [] = Some (ok, v)"
  "Solver s = (ok, TX_MULTISIG, v) \<Longrightarrow>
     match_template TX_MULTISIG s [of_nat OP_SMALLINTEGER, of_nat OP_PUBKEYS, of_nat OP_SMALLINTEGER, of_nat OP_CHECKMULTISIG] [] = Some (ok, v)"
proof -
  have "Solver s = (ok, t, v) \<Longrightarrow> scan_templates s mTemplates = (ok, t, v)" if "t \<noteq> TX_SCRIPTHASH" "t \<noteq> TX_NULL_DATA" for t
    using that by (auto simp: Solver_def split: if_splits)
  then show "Solver s = (ok, TX_PUBKEY, v) \<Longrightarrow> match_template TX_PUBKEY s [of_nat OP_PUBKEY, of_nat OP_CHECKSIG] [] = Some (ok, v)"
    "Solver s = (ok, TX_PUBKEYHASH, v) \<Longrightarrow>
     match_template TX_PUBKEYHASH s [of_nat OP_DUP, of_nat OP_HASH160, of_nat OP_PUBKEYHASH, of_nat OP_EQUALVERIFY, of_nat OP_CHECKSIG] [] = Some (ok, v)"
    "Solver s = (ok, TX_MULTISIG, v) \<Longrightarrow>
     match_template TX_MULTISIG s [of_nat OP_SMALLINTEGER, of_nat OP_PUBKEYS, of_nat OP_SMALLINTEGER, of_nat OP_CHECKMULTISIG] [] = Some (ok, v)"
    by (force simp only: scan_cases txnouttype.distinct)+
qed

lemma Solver_TX_PUBKEY: "Solver s = (True, TX_PUBKEY, v) \<longleftrightarrow>
    (\<exists>opc key. script_ops s = Some [(opc, key), (OP_CHECKSIG, [])] \<and> 33 \<le> length key \<and> length key \<le> 65 \<and> v = [key])"
    (is "?L \<longleftrightarrow> ?R")
proof
  assume ?L
  from Solver_matches(1) [OF this] show ?R unfolding match_pubkey by blast
next
  assume ?R
  then obtain opc key where r: "script_ops s = Some [(opc, key), (OP_CHECKSIG, [])]" "33 \<le> length key" by blast
  then have "opc \<noteq> OP_HASH160" "opc \<noteq> OP_RETURN" using GetOp2_no_data by (fastforce simp: script_ops_eq_Cons)+
  then have "Solver s = scan_templates s mTemplates" by (rule Solver_template [OF r(1)])
  moreover have "match_template TX_PUBKEY s [of_nat OP_PUBKEY, of_nat OP_CHECKSIG] [] = Some (True, v)"
    unfolding match_pubkey using \<open>?R\<close> by blast
  ultimately show ?L by (simp only: scan_cases) simp
qed

lemma Solver_TX_PUBKEYHASH: "Solver s = (True, TX_PUBKEYHASH, v) \<longleftrightarrow>
    (\<exists>opc h. script_ops s = Some [(OP_DUP, []), (OP_HASH160, []), (opc, h), (OP_EQUALVERIFY, []), (OP_CHECKSIG, [])] \<and> length h = 20 \<and> v = [h])"
    (is "?L \<longleftrightarrow> ?R")
proof
  assume ?L
  from Solver_matches(2) [OF this] show ?R unfolding match_pubkeyhash by blast
next
  assume ?R
  then obtain opc h where r: "script_ops s = Some ((OP_DUP, []) # [(OP_HASH160, []), (opc, h), (OP_EQUALVERIFY, []), (OP_CHECKSIG, [])])" by blast
  then have "match_template TX_PUBKEY s [of_nat OP_PUBKEY, of_nat OP_CHECKSIG] [] = None" by (simp only: match_None match_pubkey) simp
  moreover have "Solver s = scan_templates s mTemplates" by (rule Solver_template [OF r]) simp_all
  moreover have "match_template TX_PUBKEYHASH s [of_nat OP_DUP, of_nat OP_HASH160, of_nat OP_PUBKEYHASH, of_nat OP_EQUALVERIFY, of_nat OP_CHECKSIG] [] = Some (True, v)"
    unfolding match_pubkeyhash using \<open>?R\<close> by blast
  ultimately show ?L by (simp only: scan_cases) simp
qed

lemma bounds_keys:
  assumes "small_opcode m" "small_opcode k"
  shows "multisig_bounds ([of_nat (small_value m)] # ks @ [[of_nat (small_value k)]]) \<longleftrightarrow>
    1 \<le> small_value m \<and> small_value m \<le> small_value k \<and> small_value k = length ks"
proof -
  have "small_value m \<le> 16" "small_value k \<le> 16" using assms by (auto simp: small_opcode_def small_value_def)
  then have "unat (of_nat (small_value m) :: u8) = small_value m" "unat (of_nat (small_value k) :: u8) = small_value k"
    by (simp_all only: unat_of_nat) simp_all
  then show ?thesis by (auto simp: multisig_bounds_def Let_def simp del: unsigned_of_nat)
qed

lemma Solver_TX_MULTISIG: "Solver s = (True, TX_MULTISIG, v) \<longleftrightarrow>
    (\<exists>m keys k. script_ops s = Some ((m, []) # keys @ [(k, []), (OP_CHECKMULTISIG, [])]) \<and> small_opcode m \<and> small_opcode k \<and>
      (\<forall>key \<in> set keys. key_sized (snd key)) \<and> 1 \<le> small_value m \<and> small_value m \<le> small_value k \<and> small_value k = length keys \<and>
      v = [of_nat (small_value m)] # map snd keys @ [[of_nat (small_value k)]])"
    (is "?L \<longleftrightarrow> ?R")
proof
  assume ?L
  from Solver_matches(3) [OF this] obtain m keys k where "script_ops s = Some ((m, []) # keys @ [(k, []), (OP_CHECKMULTISIG, [])])" "small_opcode m" "small_opcode k"
      "\<forall>key \<in> set keys. key_sized (snd key)" "v = [of_nat (small_value m)] # map snd keys @ [[of_nat (small_value k)]]" "multisig_bounds v"
    unfolding match_multisig by blast
  then show ?R using bounds_keys [of m k "map snd keys"] by auto
next
  assume ?R
  then obtain m keys k where r: "script_ops s = Some ((m, []) # keys @ [(k, []), (OP_CHECKMULTISIG, [])])" "small_opcode m" "small_opcode k"
      "\<forall>key \<in> set keys. key_sized (snd key)" "v = [of_nat (small_value m)] # map snd keys @ [[of_nat (small_value k)]]" "multisig_bounds v"
    using bounds_keys by (metis length_map)
  have m: "m \<noteq> OP_HASH160" "m \<noteq> OP_RETURN" "m \<noteq> OP_DUP" using r(2) by (auto simp: small_opcode_def)
  have "match_template TX_PUBKEY s [of_nat OP_PUBKEY, of_nat OP_CHECKSIG] [] = None"
    using r(1) by (simp only: match_None match_pubkey) auto
  moreover have "match_template TX_PUBKEYHASH s [of_nat OP_DUP, of_nat OP_HASH160, of_nat OP_PUBKEYHASH, of_nat OP_EQUALVERIFY, of_nat OP_CHECKSIG] [] = None"
    using r(1) m(3) by (simp only: match_None match_pubkeyhash) auto
  moreover have "match_template TX_MULTISIG s [of_nat OP_SMALLINTEGER, of_nat OP_PUBKEYS, of_nat OP_SMALLINTEGER, of_nat OP_CHECKMULTISIG] [] = Some (True, v)"
    using r unfolding match_multisig by blast
  ultimately show ?L using Solver_template [OF r(1) m(1,2)] by (simp only: scan_cases) simp
qed

lemma Solver_TX_NULL_DATA: "Solver s = (True, TX_NULL_DATA, v) \<longleftrightarrow> (\<exists>r. s = of_nat OP_RETURN # r \<and> IsPushOnly r) \<and> v = []"
proof -
  have "unat (s ! 0) = OP_RETURN \<longleftrightarrow> hd s = of_nat OP_RETURN" if "s \<noteq> []"
    using that unat_of_nat [of OP_RETURN, where 'a = 8] by (cases s) (auto simp: word_unat_eq_iff)
  then show ?thesis
    by (cases s) (auto simp: Solver_def IsPayToScriptHash_def scan_cases)
qed

lemma Solver_TX_SCRIPTHASH:
  "Solver s = (True, TX_SCRIPTHASH, v) \<longleftrightarrow> (\<exists>h. length h = 20 \<and> s = GetScriptForDestination (CScriptID h) \<and> v = [h])"
proof
  assume "Solver s = (True, TX_SCRIPTHASH, v)"
  then have p: "IsPayToScriptHash s" "v = [take 20 (drop 2 s)]" by (auto simp: Solver_def scan_cases split: if_splits)
  have "unat x = k \<longleftrightarrow> k < 256 \<and> x = of_nat k" for x :: u8 and k using unat_u8_lt [of x] by (auto simp: unat_of_nat)
  moreover obtain a b r where s: "s = a # b # r" "length r = Suc 20"
    using p(1) by (auto simp: IsPayToScriptHash_def length_Suc_conv numeral_eq_Suc)
  moreover have "r = take 20 r @ [r ! 20]" using s(2) by (metis Suc_n_not_le_n linorder_not_le order_refl take_Suc_conv_app_nth take_all)
  ultimately have "s = [of_nat OP_HASH160, 20] @ take 20 r @ [of_nat OP_EQUAL]" using p(1) by (simp add: IsPayToScriptHash_def)
  moreover have "v = [take 20 r]" "length (take 20 r) = 20" using p(2) s by simp_all
  ultimately show "\<exists>h. length h = 20 \<and> s = GetScriptForDestination (CScriptID h) \<and> v = [h]"
    by (intro exI [of _ "take 20 r"]) (simp add: GetScriptForDestination_def push_data_def)
next
  assume "\<exists>h. length h = 20 \<and> s = GetScriptForDestination (CScriptID h) \<and> v = [h]"
  then show "Solver s = (True, TX_SCRIPTHASH, v)"
    by (auto simp: Solver_def IsPayToScriptHash_def GetScriptForDestination_def push_data_def nth_append)
qed

section \<open>Destinations\<close>

lemma script_ops_op: "OP_PUSHDATA4 < unat b \<Longrightarrow> script_ops (b # pc) = map_option ((#) (unat b, [])) (script_ops pc)"
  by (subst script_ops.simps) (simp add: GetOp2_plain_opcode)

lemma script_ops_push: "length b \<le> 520 \<Longrightarrow> script_ops (push_data b @ pc) = map_option ((#) (push_opcode b, b)) (script_ops pc)"
  by (subst script_ops.simps) (simp add: GetOp2_push_small push_data_not_Nil)

lemma script_ops_pushes:
  "\<forall>b \<in> set bs. length b \<le> 520 \<Longrightarrow>
   script_ops (concat (map push_data bs) @ pc) = map_option (\<lambda>ops. map (\<lambda>b. (push_opcode b, b)) bs @ ops) (script_ops pc)"
  by (cases "script_ops pc"; induction bs) (simp_all add: script_ops_push)

lemma valid_key_size: "IsValid_pubkey key \<Longrightarrow> key_sized key"
  by (auto simp: IsValid_pubkey_def GetLen_def key_sized_def Let_def split: if_splits)

lemma key_destination: "length h = 20 \<Longrightarrow> Solver (GetScriptForDestination (CKeyID h)) = (True, TX_PUBKEYHASH, [h])"
  unfolding Solver_TX_PUBKEYHASH by (simp add: GetScriptForDestination_def script_ops_op script_ops_push)

lemma raw_destination: "IsValid_pubkey key \<Longrightarrow> Solver (GetScriptForRawPubKey key) = (True, TX_PUBKEY, [key])"
  using valid_key_size [of key]
  unfolding Solver_TX_PUBKEY by (simp add: GetScriptForRawPubKey_def script_ops_op script_ops_push key_sized_def)

lemma multisig_destination:
  assumes "1 \<le> m" "m \<le> int (length keys)" "length keys \<le> 16" "\<forall>key \<in> set keys. IsValid_pubkey key"
  shows "\<exists>s. GetScriptForMultisig m keys = Some s \<and>
    Solver s = (True, TX_MULTISIG, [of_nat (nat m)] # keys @ [[of_nat (length keys)]])"
proof -
  let ?k = "length keys"
  define s where "s = [of_nat (nat (80 + m)) :: u8] @ concat (map push_data keys) @ [of_nat (nat (80 + int ?k)), of_nat OP_CHECKMULTISIG]"
  have g: "GetScriptForMultisig m keys = Some s" using assms(1-3) by (auto simp: GetScriptForMultisig_def EncodeOP_N_def s_def algebra_simps)
  have u: "unat (of_nat (nat (80 + m)) :: u8) = nat (80 + m)" "unat (of_nat (nat (80 + int ?k)) :: u8) = nat (80 + int ?k)"
    using assms(1-3) by (simp_all only: unat_of_nat) simp_all
  have sz: "\<forall>key \<in> set keys. key_sized key" using assms(4) valid_key_size by blast
  then have "\<forall>key \<in> set keys. length key \<le> 520" by (auto simp: key_sized_def)
  then have ops: "script_ops s = Some ((nat (80 + m), []) # map (\<lambda>b. (push_opcode b, b)) keys @ [(nat (80 + int ?k), []), (OP_CHECKMULTISIG, [])])"
    unfolding s_def using assms(1,2) u by (simp add: script_ops_op script_ops_pushes del: of_nat_nat unsigned_of_nat)
  have v: "small_value (nat (80 + m)) = nat m" "small_value (nat (80 + int ?k)) = ?k" using assms(1,2) by (simp_all add: small_value_def nat_add_distrib)
  have "Solver s = (True, TX_MULTISIG, [of_nat (small_value (nat (80 + m)))] # keys @ [[of_nat (small_value (nat (80 + int ?k)))]])"
    unfolding Solver_TX_MULTISIG
    using ops sz v assms(1-3) by (intro exI [of _ "nat (80 + m)"] exI [of _ "map (\<lambda>b. (push_opcode b, b)) keys"] exI [of _ "nat (80 + int ?k)"])
      (auto simp: small_opcode_def comp_def)
  then show ?thesis using g v by simp
qed

lemma p2pkh_destination: "length h = 20 \<Longrightarrow> GetScriptForDestination (CKeyID h) = p2pkh_script h"
  by (simp add: GetScriptForDestination_def p2pkh_script_def push_data_def)

section \<open>Properties\<close>

text \<open>
  C21. What the template matcher accepts, in terms of the operations that a script reads as: a key of 33 to 65 bytes and
  \<open>OP_CHECKSIG\<close>; a pay-to-pubkey-hash script, whatever opcode pushes the 20 bytes; a number \<open>m\<close>, the keys, their number
  and \<open>OP_CHECKMULTISIG\<close> with \<open>1 \<le> m \<le>\<close> the number of keys; exactly the canonical pay-to-script-hash script; and
  \<open>OP_RETURN\<close> followed by pushes.
\<close>

theorem Solver_classifies:
  "(Solver s = (True, TX_PUBKEY, v) \<longleftrightarrow>
      (\<exists>opc key. script_ops s = Some [(opc, key), (OP_CHECKSIG, [])] \<and> 33 \<le> length key \<and> length key \<le> 65 \<and> v = [key])) \<and>
   (Solver s = (True, TX_PUBKEYHASH, v) \<longleftrightarrow>
      (\<exists>opc h. script_ops s = Some [(OP_DUP, []), (OP_HASH160, []), (opc, h), (OP_EQUALVERIFY, []), (OP_CHECKSIG, [])] \<and> length h = 20 \<and> v = [h])) \<and>
   (Solver s = (True, TX_MULTISIG, v) \<longleftrightarrow>
      (\<exists>m keys k. script_ops s = Some ((m, []) # keys @ [(k, []), (OP_CHECKMULTISIG, [])]) \<and> small_opcode m \<and> small_opcode k \<and>
         list_all (\<lambda>key. key_sized (snd key)) keys \<and> 1 \<le> small_value m \<and> small_value m \<le> small_value k \<and> small_value k = length keys \<and>
         v = [of_nat (small_value m)] # map snd keys @ [[of_nat (small_value k)]])) \<and>
   (Solver s = (True, TX_SCRIPTHASH, v) \<longleftrightarrow> (\<exists>h. length h = 20 \<and> s = GetScriptForDestination (CScriptID h) \<and> v = [h])) \<and>
   (Solver s = (True, TX_NULL_DATA, v) \<longleftrightarrow> (\<exists>r. s = of_nat OP_RETURN # r \<and> IsPushOnly r) \<and> v = [])"
  unfolding list_all_iff
  by (intro conjI Solver_TX_PUBKEY Solver_TX_PUBKEYHASH Solver_TX_MULTISIG Solver_TX_SCRIPTHASH Solver_TX_NULL_DATA)

text \<open>
  The script built for a destination is recognised as paying to it: for a key hash and a script hash, for a raw public
  key, and for \<open>m\<close> of at most 16 valid keys, where all of them and \<open>m\<close> are returned.
\<close>

theorem destination_roundtrip:
  assumes "length h = 20" "\<forall>key \<in> set keys. IsValid_pubkey key" "1 \<le> m" "m \<le> int (length keys)" "length keys \<le> 16" "key \<in> set keys"
  shows "ExtractDestination KeyHash (GetScriptForDestination (CKeyID h)) = Some (CKeyID h) \<and>
    ExtractDestination KeyHash (GetScriptForDestination (CScriptID h)) = Some (CScriptID h) \<and>
    ExtractDestination KeyHash (GetScriptForRawPubKey key) = Some (CKeyID (KeyHash key)) \<and>
    (\<exists>s. GetScriptForMultisig m keys = Some s \<and> ExtractDestination KeyHash s = None \<and>
      ExtractDestinations KeyHash s = Some (TX_MULTISIG, map (\<lambda>k. CKeyID (KeyHash k)) keys, nat m))"
proof -
  obtain s where s: "GetScriptForMultisig m keys = Some s" "Solver s = (True, TX_MULTISIG, [of_nat (nat m)] # keys @ [[of_nat (length keys)]])"
    using multisig_destination [OF assms(3-5,2)] by blast
  have "unat (of_nat (nat m) :: u8) = nat m" using assms(3-5) by (simp only: unat_of_nat) simp
  then have "ExtractDestinations KeyHash s = Some (TX_MULTISIG, map (\<lambda>k. CKeyID (KeyHash k)) keys, nat m)"
    using s(2) assms(2,6) by (auto simp: ExtractDestinations_def Let_def filter_True butlast_append simp del: of_nat_nat unsigned_of_nat)
  moreover have "ExtractDestination KeyHash s = None" using s(2) by (simp add: ExtractDestination_def)
  moreover have "Solver (GetScriptForDestination (CScriptID h)) = (True, TX_SCRIPTHASH, [h])"
    unfolding Solver_TX_SCRIPTHASH using assms(1) by blast
  ultimately show ?thesis using key_destination [OF assms(1)] raw_destination [of key] assms(2,6) s(1)
    by (simp add: ExtractDestination_def)
qed

theorem destination_roundtrip_witness:
  "ExtractDestination id (GetScriptForDestination (CKeyID (replicate 20 9))) = Some (CKeyID (replicate 20 9)) \<and>
   ExtractDestination id (GetScriptForRawPubKey (2 # replicate 32 7)) = Some (CKeyID (2 # replicate 32 7)) \<and>
   (\<exists>s. GetScriptForMultisig 1 [2 # replicate 32 7, 3 # replicate 32 7] = Some s)"
  using destination_roundtrip [of "replicate 20 9" "[2 # replicate 32 7, 3 # replicate 32 7]" 1 "2 # replicate 32 7" id]
  by (auto simp: IsValid_pubkey_def GetLen_def)

end
