(* ===== verification/Provider_Tx.thy ===== *)
theory Provider_Tx
  imports Transaction
begin

text \<open>
  The payloads of special transactions, \<open>src/src/evo/providertx.h\<close>, and how they are read from and put into a transaction,
  \<open>evo/specialtx.h\<close>; with the network address of \<open>netaddress.h\<close> and the wrapper of BLS keys and signatures of \<open>bls/bls.h\<close>.

  The payloads of a coinbase (\<open>evo/cbtx.h\<close>) and of a quorum commitment (\<open>llmq/quorums_commitment.h\<close>) are here too.

  The BLS library is a parameter: \<open>bls\<close> parses the bytes of a key (\<open>bls_sig\<close> those of a signature, where both occur) and writes the
  result again, \<open>None\<close> when they are refused. A payload is written and read with the network type, so its signature is part of it.
\<close>

section \<open>Parts\<close>

record CService =
  ip :: bytes
  port :: u16

definition ser_CService :: "CService \<Rightarrow> bytes" where
  "ser_CService a = ip a @ rev (le_encode 2 (port a))"

definition deser_CService :: "CService reader" where
  "deser_CService s =
     sbind (read_bytes 16 s) (\<lambda>(a, s). sbind (read_bytes 2 s) (\<lambda>(p, s).
       Inr (\<lparr>ip = a, port = le_decode (rev p)\<rparr>, s)))"

text \<open>\<open>SetBuf\<close> followed by \<open>GetBuf\<close>: a buffer of zeros and one that the library refuses give the invalid object.\<close>

definition SetBuf :: "(bytes \<Rightarrow> bytes option) \<Rightarrow> bytes \<Rightarrow> bytes option" where
  "SetBuf bls buf = (if list_all (\<lambda>c. c = 0) buf then None else bls buf)"

definition GetBuf :: "nat \<Rightarrow> bytes option \<Rightarrow> bytes" where
  "GetBuf SerSize obj = (case obj of None \<Rightarrow> replicate SerSize 0 | Some b \<Rightarrow> b)"

definition CheckMalleable :: "nat \<Rightarrow> bytes option \<Rightarrow> bytes \<Rightarrow> bool" where
  "CheckMalleable SerSize obj buf \<longleftrightarrow> buf = GetBuf SerSize obj"

definition deser_bls :: "(bytes \<Rightarrow> bytes option) \<Rightarrow> nat \<Rightarrow> bytes option reader" where
  "deser_bls bls SerSize s =
     sbind (read_bytes SerSize s) (\<lambda>(buf, s).
       let obj = SetBuf bls buf in
       if \<not> CheckMalleable SerSize obj buf then Inl MalleableBLS else Inr (obj, s))"

text \<open>\<open>std::string\<close>.\<close>

definition read_string :: "bytes reader" where
  "read_string s = sbind (ReadCompactSize s) (\<lambda>(nSize, s). read_bytes nSize s)"

section \<open>Payloads\<close>

record CProRegTx =
  reg_nVersion :: u16
  reg_nType :: u16
  reg_nMode :: u16
  collateralOutpoint :: COutPoint
  reg_addr :: CService
  keyIDOwner :: bytes
  reg_pubKeyOperator :: "bytes option"
  reg_keyIDVoting :: bytes
  nOperatorReward :: u16
  reg_scriptPayout :: bytes
  reg_inputsHash :: bytes
  reg_vchSig :: bytes

definition ser_CProRegTx :: "CProRegTx \<Rightarrow> bytes" where
  "ser_CProRegTx p =
     ser_writedata16 (reg_nVersion p) @ ser_writedata16 (reg_nType p) @ ser_writedata16 (reg_nMode p) @
     ser_outpoint (collateralOutpoint p) @ ser_CService (reg_addr p) @ keyIDOwner p @ GetBuf 48 (reg_pubKeyOperator p) @
     reg_keyIDVoting p @ ser_writedata16 (nOperatorReward p) @ write_blob (reg_scriptPayout p) @ reg_inputsHash p @
     write_blob (reg_vchSig p)"

definition deser_CProRegTx :: "(bytes \<Rightarrow> bytes option) \<Rightarrow> CProRegTx reader" where
  "deser_CProRegTx bls s =
     sbind (ser_readdata16 s) (\<lambda>(v, s). sbind (ser_readdata16 s) (\<lambda>(t, s). sbind (ser_readdata16 s) (\<lambda>(m, s).
     sbind (deser_outpoint s) (\<lambda>(c, s). sbind (deser_CService s) (\<lambda>(a, s). sbind (read_bytes 20 s) (\<lambda>(ow, s).
     sbind (deser_bls bls 48 s) (\<lambda>(pk, s). sbind (read_bytes 20 s) (\<lambda>(vo, s). sbind (ser_readdata16 s) (\<lambda>(r, s).
     sbind (read_blob s) (\<lambda>(sp, s). sbind (read_bytes 32 s) (\<lambda>(ih, s). sbind (read_blob s) (\<lambda>(sig, s).
       Inr (\<lparr>reg_nVersion = v, reg_nType = t, reg_nMode = m, collateralOutpoint = c, reg_addr = a, keyIDOwner = ow,
             reg_pubKeyOperator = pk, reg_keyIDVoting = vo, nOperatorReward = r, reg_scriptPayout = sp,
             reg_inputsHash = ih, reg_vchSig = sig\<rparr>, s)))))))))))))"

record CNonFinancialTx =
  nf_nVersion :: u16
  nf_proTxHash :: bytes
  nf_inputsHash :: bytes
  nf_vchSig :: bytes
  sNonce :: bytes
  sObjectType :: bytes
  sKey :: bytes
  sValue :: bytes
  dsqlHash :: bytes
  sSigner :: bytes
  iObjectSize :: u32
  sExtraPayload :: bytes
  nTimestamp :: u64

definition ser_CNonFinancialTx :: "CNonFinancialTx \<Rightarrow> bytes" where
  "ser_CNonFinancialTx p =
     ser_writedata16 (nf_nVersion p) @ nf_proTxHash p @ nf_inputsHash p @ write_blob (sNonce p) @ write_blob (sObjectType p) @
     write_blob (sKey p) @ write_blob (sValue p) @ dsqlHash p @ write_blob (sSigner p) @ ser_writedata32 (iObjectSize p) @
     write_blob (sExtraPayload p) @ ser_writedata64 (nTimestamp p) @ write_blob (nf_vchSig p)"

definition deser_CNonFinancialTx :: "CNonFinancialTx reader" where
  "deser_CNonFinancialTx s =
     sbind (ser_readdata16 s) (\<lambda>(v, s). sbind (read_bytes 32 s) (\<lambda>(pr, s). sbind (read_bytes 32 s) (\<lambda>(ih, s).
     sbind (read_string s) (\<lambda>(nc, s). sbind (read_string s) (\<lambda>(ot, s). sbind (read_string s) (\<lambda>(k, s).
     sbind (read_string s) (\<lambda>(va, s). sbind (read_bytes 32 s) (\<lambda>(dh, s). sbind (read_string s) (\<lambda>(sg, s).
     sbind (ser_readdata32 s) (\<lambda>(sz, s). sbind (read_string s) (\<lambda>(ep, s). sbind (ser_readdata64 s) (\<lambda>(ts, s).
     sbind (read_blob s) (\<lambda>(sig, s).
       Inr (\<lparr>nf_nVersion = v, nf_proTxHash = pr, nf_inputsHash = ih, nf_vchSig = sig, sNonce = nc, sObjectType = ot, sKey = k,
             sValue = va, dsqlHash = dh, sSigner = sg, iObjectSize = sz, sExtraPayload = ep, nTimestamp = ts\<rparr>, s))))))))))))))"

record CProUpServTx =
  us_nVersion :: u16
  us_proTxHash :: bytes
  us_addr :: CService
  scriptOperatorPayout :: bytes
  us_inputsHash :: bytes
  us_sig :: "bytes option"

definition ser_CProUpServTx :: "CProUpServTx \<Rightarrow> bytes" where
  "ser_CProUpServTx p =
     ser_writedata16 (us_nVersion p) @ us_proTxHash p @ ser_CService (us_addr p) @ write_blob (scriptOperatorPayout p) @
     us_inputsHash p @ GetBuf 96 (us_sig p)"

definition deser_CProUpServTx :: "(bytes \<Rightarrow> bytes option) \<Rightarrow> CProUpServTx reader" where
  "deser_CProUpServTx bls s =
     sbind (ser_readdata16 s) (\<lambda>(v, s). sbind (read_bytes 32 s) (\<lambda>(pr, s). sbind (deser_CService s) (\<lambda>(a, s).
     sbind (read_blob s) (\<lambda>(sp, s). sbind (read_bytes 32 s) (\<lambda>(ih, s). sbind (deser_bls bls 96 s) (\<lambda>(sig, s).
       Inr (\<lparr>us_nVersion = v, us_proTxHash = pr, us_addr = a, scriptOperatorPayout = sp, us_inputsHash = ih, us_sig = sig\<rparr>, s)))))))"

record CProUpRegTx =
  ur_nVersion :: u16
  ur_proTxHash :: bytes
  ur_nMode :: u16
  ur_pubKeyOperator :: "bytes option"
  ur_keyIDVoting :: bytes
  ur_scriptPayout :: bytes
  ur_inputsHash :: bytes
  ur_vchSig :: bytes

definition ser_CProUpRegTx :: "CProUpRegTx \<Rightarrow> bytes" where
  "ser_CProUpRegTx p =
     ser_writedata16 (ur_nVersion p) @ ur_proTxHash p @ ser_writedata16 (ur_nMode p) @ GetBuf 48 (ur_pubKeyOperator p) @
     ur_keyIDVoting p @ write_blob (ur_scriptPayout p) @ ur_inputsHash p @ write_blob (ur_vchSig p)"

definition deser_CProUpRegTx :: "(bytes \<Rightarrow> bytes option) \<Rightarrow> CProUpRegTx reader" where
  "deser_CProUpRegTx bls s =
     sbind (ser_readdata16 s) (\<lambda>(v, s). sbind (read_bytes 32 s) (\<lambda>(pr, s). sbind (ser_readdata16 s) (\<lambda>(m, s).
     sbind (deser_bls bls 48 s) (\<lambda>(pk, s). sbind (read_bytes 20 s) (\<lambda>(vo, s). sbind (read_blob s) (\<lambda>(sp, s).
     sbind (read_bytes 32 s) (\<lambda>(ih, s). sbind (read_blob s) (\<lambda>(sig, s).
       Inr (\<lparr>ur_nVersion = v, ur_proTxHash = pr, ur_nMode = m, ur_pubKeyOperator = pk, ur_keyIDVoting = vo,
             ur_scriptPayout = sp, ur_inputsHash = ih, ur_vchSig = sig\<rparr>, s)))))))))"

record CProUpRevTx =
  rv_nVersion :: u16
  rv_proTxHash :: bytes
  nReason :: u16
  rv_inputsHash :: bytes
  rv_sig :: "bytes option"

definition ser_CProUpRevTx :: "CProUpRevTx \<Rightarrow> bytes" where
  "ser_CProUpRevTx p =
     ser_writedata16 (rv_nVersion p) @ rv_proTxHash p @ ser_writedata16 (nReason p) @ rv_inputsHash p @ GetBuf 96 (rv_sig p)"

definition deser_CProUpRevTx :: "(bytes \<Rightarrow> bytes option) \<Rightarrow> CProUpRevTx reader" where
  "deser_CProUpRevTx bls s =
     sbind (ser_readdata16 s) (\<lambda>(v, s). sbind (read_bytes 32 s) (\<lambda>(pr, s). sbind (ser_readdata16 s) (\<lambda>(r, s).
     sbind (read_bytes 32 s) (\<lambda>(ih, s). sbind (deser_bls bls 96 s) (\<lambda>(sig, s).
       Inr (\<lparr>rv_nVersion = v, rv_proTxHash = pr, nReason = r, rv_inputsHash = ih, rv_sig = sig\<rparr>, s))))))"

text \<open>The payload of a coinbase, \<open>evo/cbtx.h\<close>; the root of the quorums is there from version 2 on, and zero otherwise.\<close>

record CCbTx =
  cb_nVersion :: u16
  cb_nHeight :: int
  merkleRootMNList :: bytes
  merkleRootQuorums :: bytes

definition ser_CCbTx :: "CCbTx \<Rightarrow> bytes" where
  "ser_CCbTx p = ser_writedata16 (cb_nVersion p) @ ser_writedata32 (word_of_int (cb_nHeight p)) @ merkleRootMNList p @
     (if cb_nVersion p \<ge> 2 then merkleRootQuorums p else [])"

definition deser_CCbTx :: "CCbTx reader" where
  "deser_CCbTx s =
     sbind (ser_readdata16 s) (\<lambda>(v, s). sbind (ser_readdata32 s) (\<lambda>(h, s). sbind (read_bytes 32 s) (\<lambda>(mn, s).
     sbind (if v \<ge> 2 then read_bytes 32 s else Inr (replicate 32 0, s)) (\<lambda>(q, s).
       Inr (\<lparr>cb_nVersion = v, cb_nHeight = sint h, merkleRootMNList = mn, merkleRootQuorums = q\<rparr>, s)))))"

text \<open>The commitment of a quorum and its payload, \<open>llmq/quorums_commitment.h\<close>.\<close>

record CFinalCommitment =
  fc_nVersion :: u16
  llmqType :: u8
  quorumHash :: bytes
  signers :: "bool list"
  validMembers :: "bool list"
  quorumPublicKey :: "bytes option"
  quorumVvecHash :: bytes
  quorumSig :: "bytes option"
  membersSig :: "bytes option"

definition ser_CFinalCommitment :: "CFinalCommitment \<Rightarrow> bytes" where
  "ser_CFinalCommitment c =
     ser_writedata16 (fc_nVersion c) @ ser_writedata8 (llmqType c) @ quorumHash c @ write_dynamic_bits (signers c) @
     write_dynamic_bits (validMembers c) @ GetBuf 48 (quorumPublicKey c) @ quorumVvecHash c @ GetBuf 96 (quorumSig c) @
     GetBuf 96 (membersSig c)"

definition deser_CFinalCommitment :: "(bytes \<Rightarrow> bytes option) \<Rightarrow> (bytes \<Rightarrow> bytes option) \<Rightarrow> CFinalCommitment reader" where
  "deser_CFinalCommitment bls bls_sig s =
     sbind (ser_readdata16 s) (\<lambda>(v, s). sbind (ser_readdata8 s) (\<lambda>(ty, s). sbind (read_bytes 32 s) (\<lambda>(qh, s).
     sbind (read_dynamic_bits s) (\<lambda>(sg, s). sbind (read_dynamic_bits s) (\<lambda>(vm, s). sbind (deser_bls bls 48 s) (\<lambda>(pk, s).
     sbind (read_bytes 32 s) (\<lambda>(vv, s). sbind (deser_bls bls_sig 96 s) (\<lambda>(qs, s). sbind (deser_bls bls_sig 96 s) (\<lambda>(ms, s).
       Inr (\<lparr>fc_nVersion = v, llmqType = ty, quorumHash = qh, signers = sg, validMembers = vm, quorumPublicKey = pk,
             quorumVvecHash = vv, quorumSig = qs, membersSig = ms\<rparr>, s))))))))))"

record CFinalCommitmentTxPayload =
  qc_nVersion :: u16
  qc_nHeight :: u32
  commitment :: CFinalCommitment

definition ser_CFinalCommitmentTxPayload :: "CFinalCommitmentTxPayload \<Rightarrow> bytes" where
  "ser_CFinalCommitmentTxPayload p =
     ser_writedata16 (qc_nVersion p) @ ser_writedata32 (qc_nHeight p) @ ser_CFinalCommitment (commitment p)"

definition deser_CFinalCommitmentTxPayload ::
    "(bytes \<Rightarrow> bytes option) \<Rightarrow> (bytes \<Rightarrow> bytes option) \<Rightarrow> CFinalCommitmentTxPayload reader" where
  "deser_CFinalCommitmentTxPayload bls bls_sig s =
     sbind (ser_readdata16 s) (\<lambda>(v, s). sbind (ser_readdata32 s) (\<lambda>(h, s). sbind (deser_CFinalCommitment bls bls_sig s) (\<lambda>(c, s).
       Inr (\<lparr>qc_nVersion = v, qc_nHeight = h, commitment = c\<rparr>, s))))"

section \<open>Payloads in transactions\<close>

definition GetTxPayload :: "'a reader \<Rightarrow> bytes \<Rightarrow> 'a option" where
  "GetTxPayload dec payload =
     (case dec payload of
        Inl _ \<Rightarrow> None
      | Inr (obj, ds) \<Rightarrow> (if ds = [] then Some obj else None))"

definition SetTxPayload :: "('a \<Rightarrow> bytes) \<Rightarrow> CTransaction \<Rightarrow> 'a \<Rightarrow> CTransaction" where
  "SetTxPayload enc tx payload = tx\<lparr>vExtraPayload := enc payload\<rparr>"

section \<open>The formats are canonical\<close>

definition service_ok :: "CService \<Rightarrow> bool" where
  "service_ok a \<longleftrightarrow> length (ip a) = 16"

interpretation service: canonical_codec service_ok ser_CService deser_CService
proof unfold_locales
  fix a s x t
  show "service_ok a \<Longrightarrow> deser_CService (ser_CService a @ s) = Inr (a, s)"
    by (simp add: deser_CService_def ser_CService_def service_ok_def read_bytes_append le_decode_encode)
  show "deser_CService s = Inr (x, t) \<Longrightarrow> service_ok x \<and> s = ser_CService x @ t"
    by (auto simp: deser_CService_def ser_CService_def service_ok_def sbind_Inr_iff le_only dest!: read_bytes_only)
qed

text \<open>A BLS object that the library reads back from what it wrote.\<close>

definition bls_ok :: "(bytes \<Rightarrow> bytes option) \<Rightarrow> nat \<Rightarrow> bytes option \<Rightarrow> bool" where
  "bls_ok bls k obj \<longleftrightarrow> length (GetBuf k obj) = k \<and> SetBuf bls (GetBuf k obj) = obj"

interpretation bls: canonical_codec "bls_ok bls k" "GetBuf k" "deser_bls bls k" for bls k
proof unfold_locales
  fix a s x t
  show "bls_ok bls k a \<Longrightarrow> deser_bls bls k (GetBuf k a @ s) = Inr (a, s)"
    by (simp add: deser_bls_def bls_ok_def read_bytes_append Let_def CheckMalleable_def)
  show "deser_bls bls k s = Inr (x, t) \<Longrightarrow> bls_ok bls k x \<and> s = GetBuf k x @ t"
    by (auto simp: deser_bls_def bls_ok_def sbind_Inr_iff Let_def CheckMalleable_def split: if_splits dest!: read_bytes_only)
qed

lemma read_string_blob: "read_string = read_blob"
  by (simp add: read_string_def read_blob_def read_blocks_bytes fun_eq_iff)

lemmas payload_enc = u8.dec_enc u16.dec_enc dynbits.dec_enc u32.dec_enc u64.dec_enc read_bytes_append outpoint.dec_enc service.dec_enc bls.dec_enc blob.dec_enc
lemmas payload_dec = u8.dec_only u16.dec_only dynbits.dec_only u32.dec_only u64.dec_only read_bytes_only outpoint.dec_only service.dec_only bls.dec_only blob.dec_only

definition CProRegTx_ok :: "(bytes \<Rightarrow> bytes option) \<Rightarrow> CProRegTx \<Rightarrow> bool" where
  "CProRegTx_ok bls p \<longleftrightarrow> outpoint_ok (collateralOutpoint p) \<and> service_ok (reg_addr p) \<and> length (keyIDOwner p) = 20 \<and>
     bls_ok bls 48 (reg_pubKeyOperator p) \<and> length (reg_keyIDVoting p) = 20 \<and> length (reg_scriptPayout p) \<le> MAX_SIZE \<and>
     length (reg_inputsHash p) = 32 \<and> length (reg_vchSig p) \<le> MAX_SIZE"

interpretation pro_reg: canonical_codec "CProRegTx_ok bls" ser_CProRegTx "deser_CProRegTx bls" for bls
proof unfold_locales
  fix a s x t
  show "CProRegTx_ok bls a \<Longrightarrow> deser_CProRegTx bls (ser_CProRegTx a @ s) = Inr (a, s)"
    by (simp add: deser_CProRegTx_def ser_CProRegTx_def CProRegTx_ok_def payload_enc)
  show "deser_CProRegTx bls s = Inr (x, t) \<Longrightarrow> CProRegTx_ok bls x \<and> s = ser_CProRegTx x @ t"
    by (auto simp: deser_CProRegTx_def ser_CProRegTx_def CProRegTx_ok_def sbind_Inr_iff dest!: payload_dec)
qed

definition CNonFinancialTx_ok :: "CNonFinancialTx \<Rightarrow> bool" where
  "CNonFinancialTx_ok p \<longleftrightarrow> length (nf_proTxHash p) = 32 \<and> length (nf_inputsHash p) = 32 \<and> length (dsqlHash p) = 32 \<and>
     length (nf_vchSig p) \<le> MAX_SIZE \<and> length (sNonce p) \<le> MAX_SIZE \<and> length (sObjectType p) \<le> MAX_SIZE \<and>
     length (sKey p) \<le> MAX_SIZE \<and> length (sValue p) \<le> MAX_SIZE \<and> length (sSigner p) \<le> MAX_SIZE \<and> length (sExtraPayload p) \<le> MAX_SIZE"

interpretation non_financial: canonical_codec CNonFinancialTx_ok ser_CNonFinancialTx deser_CNonFinancialTx
proof unfold_locales
  fix a s x t
  show "CNonFinancialTx_ok a \<Longrightarrow> deser_CNonFinancialTx (ser_CNonFinancialTx a @ s) = Inr (a, s)"
    by (simp add: deser_CNonFinancialTx_def ser_CNonFinancialTx_def CNonFinancialTx_ok_def payload_enc read_string_blob)
  show "deser_CNonFinancialTx s = Inr (x, t) \<Longrightarrow> CNonFinancialTx_ok x \<and> s = ser_CNonFinancialTx x @ t"
    by (auto simp: deser_CNonFinancialTx_def ser_CNonFinancialTx_def CNonFinancialTx_ok_def sbind_Inr_iff read_string_blob dest!: payload_dec)
qed

definition CProUpServTx_ok :: "(bytes \<Rightarrow> bytes option) \<Rightarrow> CProUpServTx \<Rightarrow> bool" where
  "CProUpServTx_ok bls p \<longleftrightarrow> length (us_proTxHash p) = 32 \<and> service_ok (us_addr p) \<and> length (scriptOperatorPayout p) \<le> MAX_SIZE \<and>
     length (us_inputsHash p) = 32 \<and> bls_ok bls 96 (us_sig p)"

interpretation up_serv: canonical_codec "CProUpServTx_ok bls" ser_CProUpServTx "deser_CProUpServTx bls" for bls
proof unfold_locales
  fix a s x t
  show "CProUpServTx_ok bls a \<Longrightarrow> deser_CProUpServTx bls (ser_CProUpServTx a @ s) = Inr (a, s)"
    by (simp add: deser_CProUpServTx_def ser_CProUpServTx_def CProUpServTx_ok_def payload_enc)
  show "deser_CProUpServTx bls s = Inr (x, t) \<Longrightarrow> CProUpServTx_ok bls x \<and> s = ser_CProUpServTx x @ t"
    by (auto simp: deser_CProUpServTx_def ser_CProUpServTx_def CProUpServTx_ok_def sbind_Inr_iff dest!: payload_dec)
qed

definition CProUpRegTx_ok :: "(bytes \<Rightarrow> bytes option) \<Rightarrow> CProUpRegTx \<Rightarrow> bool" where
  "CProUpRegTx_ok bls p \<longleftrightarrow> length (ur_proTxHash p) = 32 \<and> bls_ok bls 48 (ur_pubKeyOperator p) \<and> length (ur_keyIDVoting p) = 20 \<and>
     length (ur_scriptPayout p) \<le> MAX_SIZE \<and> length (ur_inputsHash p) = 32 \<and> length (ur_vchSig p) \<le> MAX_SIZE"

interpretation up_reg: canonical_codec "CProUpRegTx_ok bls" ser_CProUpRegTx "deser_CProUpRegTx bls" for bls
proof unfold_locales
  fix a s x t
  show "CProUpRegTx_ok bls a \<Longrightarrow> deser_CProUpRegTx bls (ser_CProUpRegTx a @ s) = Inr (a, s)"
    by (simp add: deser_CProUpRegTx_def ser_CProUpRegTx_def CProUpRegTx_ok_def payload_enc)
  show "deser_CProUpRegTx bls s = Inr (x, t) \<Longrightarrow> CProUpRegTx_ok bls x \<and> s = ser_CProUpRegTx x @ t"
    by (auto simp: deser_CProUpRegTx_def ser_CProUpRegTx_def CProUpRegTx_ok_def sbind_Inr_iff dest!: payload_dec)
qed

definition CProUpRevTx_ok :: "(bytes \<Rightarrow> bytes option) \<Rightarrow> CProUpRevTx \<Rightarrow> bool" where
  "CProUpRevTx_ok bls p \<longleftrightarrow> length (rv_proTxHash p) = 32 \<and> length (rv_inputsHash p) = 32 \<and> bls_ok bls 96 (rv_sig p)"

interpretation up_rev: canonical_codec "CProUpRevTx_ok bls" ser_CProUpRevTx "deser_CProUpRevTx bls" for bls
proof unfold_locales
  fix a s x t
  show "CProUpRevTx_ok bls a \<Longrightarrow> deser_CProUpRevTx bls (ser_CProUpRevTx a @ s) = Inr (a, s)"
    by (simp add: deser_CProUpRevTx_def ser_CProUpRevTx_def CProUpRevTx_ok_def payload_enc)
  show "deser_CProUpRevTx bls s = Inr (x, t) \<Longrightarrow> CProUpRevTx_ok bls x \<and> s = ser_CProUpRevTx x @ t"
    by (auto simp: deser_CProUpRevTx_def ser_CProUpRevTx_def CProUpRevTx_ok_def sbind_Inr_iff dest!: payload_dec)
qed

definition CCbTx_ok :: "CCbTx \<Rightarrow> bool" where
  "CCbTx_ok p \<longleftrightarrow> -2147483648 \<le> cb_nHeight p \<and> cb_nHeight p < 2147483648 \<and> length (merkleRootMNList p) = 32 \<and>
     length (merkleRootQuorums p) = 32 \<and> (cb_nVersion p < 2 \<longrightarrow> merkleRootQuorums p = replicate 32 0)"

lemma sint_u32_range: "-2147483648 \<le> sint (w :: u32)" "sint (w :: u32) < 2147483648"
  using sint_greater_eq [of w] sint_less [of w] by simp_all

interpretation cb_tx: canonical_codec CCbTx_ok ser_CCbTx deser_CCbTx
proof unfold_locales
  fix a s x t
  show "CCbTx_ok a \<Longrightarrow> deser_CCbTx (ser_CCbTx a @ s) = Inr (a, s)"
    by (cases "2 \<le> cb_nVersion a") (simp_all add: deser_CCbTx_def ser_CCbTx_def CCbTx_ok_def payload_enc sint_u32_of_int not_le)
  show "deser_CCbTx s = Inr (x, t) \<Longrightarrow> CCbTx_ok x \<and> s = ser_CCbTx x @ t"
    by (auto simp: deser_CCbTx_def ser_CCbTx_def CCbTx_ok_def sbind_Inr_iff sint_u32_range not_le split: if_splits dest!: payload_dec)
qed

definition CFinalCommitment_ok :: "(bytes \<Rightarrow> bytes option) \<Rightarrow> (bytes \<Rightarrow> bytes option) \<Rightarrow> CFinalCommitment \<Rightarrow> bool" where
  "CFinalCommitment_ok bls bls_sig c \<longleftrightarrow> length (quorumHash c) = 32 \<and> length (signers c) \<le> MAX_SIZE \<and> length (validMembers c) \<le> MAX_SIZE \<and>
     bls_ok bls 48 (quorumPublicKey c) \<and> length (quorumVvecHash c) = 32 \<and> bls_ok bls_sig 96 (quorumSig c) \<and> bls_ok bls_sig 96 (membersSig c)"

interpretation final_commitment: canonical_codec "CFinalCommitment_ok bls bls_sig" ser_CFinalCommitment "deser_CFinalCommitment bls bls_sig"
  for bls bls_sig
proof unfold_locales
  fix a s x t
  show "CFinalCommitment_ok bls bls_sig a \<Longrightarrow> deser_CFinalCommitment bls bls_sig (ser_CFinalCommitment a @ s) = Inr (a, s)"
    by (simp add: deser_CFinalCommitment_def ser_CFinalCommitment_def CFinalCommitment_ok_def payload_enc)
  show "deser_CFinalCommitment bls bls_sig s = Inr (x, t) \<Longrightarrow> CFinalCommitment_ok bls bls_sig x \<and> s = ser_CFinalCommitment x @ t"
    by (auto simp: deser_CFinalCommitment_def ser_CFinalCommitment_def CFinalCommitment_ok_def sbind_Inr_iff dest!: payload_dec)
qed

interpretation quorum_payload: canonical_codec "\<lambda>p. CFinalCommitment_ok bls bls_sig (commitment p)" ser_CFinalCommitmentTxPayload
  "deser_CFinalCommitmentTxPayload bls bls_sig" for bls bls_sig
proof unfold_locales
  fix a :: CFinalCommitmentTxPayload and s x t
  show "CFinalCommitment_ok bls bls_sig (commitment a) \<Longrightarrow>
      deser_CFinalCommitmentTxPayload bls bls_sig (ser_CFinalCommitmentTxPayload a @ s) = Inr (a, s)"
    by (simp add: deser_CFinalCommitmentTxPayload_def ser_CFinalCommitmentTxPayload_def payload_enc final_commitment.dec_enc)
  show "deser_CFinalCommitmentTxPayload bls bls_sig s = Inr (x, t) \<Longrightarrow>
      CFinalCommitment_ok bls bls_sig (commitment x) \<and> s = ser_CFinalCommitmentTxPayload x @ t"
    by (auto simp: deser_CFinalCommitmentTxPayload_def ser_CFinalCommitmentTxPayload_def sbind_Inr_iff dest!: payload_dec final_commitment.dec_only)
qed

context canonical_codec
begin

lemma payload_iff: "GetTxPayload dec payload = Some x \<longleftrightarrow> ok x \<and> payload = enc x"
proof
  assume "GetTxPayload dec payload = Some x"
  then have "dec payload = Inr (x, [])" by (auto simp: GetTxPayload_def split: sum.splits if_splits)
  from dec_only [OF this] show "ok x \<and> payload = enc x" by simp
next
  assume "ok x \<and> payload = enc x"
  then show "GetTxPayload dec payload = Some x" using dec_enc [of x "[]"] by (simp add: GetTxPayload_def)
qed

end

section \<open>Properties\<close>

text \<open>
  C40. For each of the seven kinds of special transaction (registration, the three updates of a masternode, coinbase, quorum commitment and
  non-financial), the payload of a transaction is read as an object exactly when it is what writing that object gives, with nothing left
  over, and the object's keys, addresses, hashes, bit sets and BLS objects are well-formed: a payload put into a transaction is read back,
  and no two payloads are read as the same object.
\<close>

theorem payload_canonical:
  "(GetTxPayload (deser_CProRegTx bls) payload = Some reg \<longleftrightarrow> CProRegTx_ok bls reg \<and> payload = vExtraPayload (SetTxPayload ser_CProRegTx tx reg)) \<and>
   (GetTxPayload (deser_CProUpServTx bls_sig) payload = Some us \<longleftrightarrow> CProUpServTx_ok bls_sig us \<and> payload = vExtraPayload (SetTxPayload ser_CProUpServTx tx us)) \<and>
   (GetTxPayload (deser_CProUpRegTx bls) payload = Some ur \<longleftrightarrow> CProUpRegTx_ok bls ur \<and> payload = vExtraPayload (SetTxPayload ser_CProUpRegTx tx ur)) \<and>
   (GetTxPayload (deser_CProUpRevTx bls_sig) payload = Some rv \<longleftrightarrow> CProUpRevTx_ok bls_sig rv \<and> payload = vExtraPayload (SetTxPayload ser_CProUpRevTx tx rv)) \<and>
   (GetTxPayload deser_CCbTx payload = Some cb \<longleftrightarrow> CCbTx_ok cb \<and> payload = vExtraPayload (SetTxPayload ser_CCbTx tx cb)) \<and>
   (GetTxPayload (deser_CFinalCommitmentTxPayload bls bls_sig) payload = Some qc \<longleftrightarrow>
      CFinalCommitment_ok bls bls_sig (commitment qc) \<and> payload = vExtraPayload (SetTxPayload ser_CFinalCommitmentTxPayload tx qc)) \<and>
   (GetTxPayload deser_CNonFinancialTx payload = Some nf \<longleftrightarrow> CNonFinancialTx_ok nf \<and> payload = vExtraPayload (SetTxPayload ser_CNonFinancialTx tx nf))"
  by (simp add: SetTxPayload_def pro_reg.payload_iff up_serv.payload_iff up_reg.payload_iff up_rev.payload_iff cb_tx.payload_iff
      quorum_payload.payload_iff non_financial.payload_iff)

end
