(* ===== verification/Bloom_Filter.thy ===== *)
theory Bloom_Filter
  imports Hash_Tables Standard Provider_Tx Tx_Checks
begin

text \<open>
  Bloom filters of light clients, \<open>CBloomFilter\<close> of \<open>src/src/bloom.h\<close> and \<open>bloom.cpp\<close>, with the matching of whole
  transactions, and the message that loads a filter, \<open>net_processing.cpp\<close>.

  The remainder modulo the number of bits is undefined for a filter without data: such a division is the value \<open>None\<close>.
  The hash of a transaction and the BLS library are parameters. The sizes that the public constructor computes with
  floating-point logarithms are its arguments.
\<close>

definition MAX_BLOOM_FILTER_SIZE :: nat where "MAX_BLOOM_FILTER_SIZE = 36000"
definition MAX_HASH_FUNCS :: nat where "MAX_HASH_FUNCS = 50"

definition BLOOM_UPDATE_ALL :: u8 where "BLOOM_UPDATE_ALL = 1"
definition BLOOM_UPDATE_P2PUBKEY_ONLY :: u8 where "BLOOM_UPDATE_P2PUBKEY_ONLY = 2"
definition BLOOM_UPDATE_MASK :: u8 where "BLOOM_UPDATE_MASK = 3"

record CBloomFilter =
  vData :: bytes
  isFull :: bool
  isEmpty :: bool
  nHashFuncs :: nat
  nTweak :: u32
  nFlags :: u8

text \<open>The constructor; \<open>ideal_bits\<close> and \<open>ideal_funcs\<close> are the truncated results of the two formulas.\<close>

definition make_CBloomFilter :: "nat \<Rightarrow> nat \<Rightarrow> u32 \<Rightarrow> u8 \<Rightarrow> CBloomFilter" where
  "make_CBloomFilter ideal_bits ideal_funcs tweak flags =
     \<lparr>vData = replicate (min ideal_bits (MAX_BLOOM_FILTER_SIZE * 8) div 8) 0, isFull = False, isEmpty = True,
      nHashFuncs = min ideal_funcs MAX_HASH_FUNCS, nTweak = tweak, nFlags = flags\<rparr>"

definition empty_CBloomFilter :: CBloomFilter where
  "empty_CBloomFilter = \<lparr>vData = [], isFull = True, isEmpty = False, nHashFuncs = 0, nTweak = 0, nFlags = 0\<rparr>"

section \<open>Inserting and testing\<close>

definition bloom_Hash :: "CBloomFilter \<Rightarrow> nat \<Rightarrow> bytes \<Rightarrow> nat option" where
  "bloom_Hash f nHashNum vDataToHash =
     (if length (vData f) * 8 = 0 then None
      else Some (unat (MurmurHash3 (of_nat nHashNum * 0xFBA4C795 + nTweak f) vDataToHash) mod (length (vData f) * 8)))"

definition set_index :: "nat \<Rightarrow> CBloomFilter \<Rightarrow> CBloomFilter" where
  "set_index nIndex f = f\<lparr>vData := (vData f)[nIndex div 8 := vData f ! (nIndex div 8) OR push_bit (nIndex mod 8) 1]\<rparr>"

definition test_index :: "nat \<Rightarrow> CBloomFilter \<Rightarrow> bool" where
  "test_index nIndex f \<longleftrightarrow> vData f ! (nIndex div 8) AND push_bit (nIndex mod 8) 1 \<noteq> 0"

fun insert_loop :: "bytes \<Rightarrow> nat list \<Rightarrow> CBloomFilter \<Rightarrow> CBloomFilter option" where
  "insert_loop vKey [] f = Some f"
| "insert_loop vKey (i # is) f =
     (case bloom_Hash f i vKey of
        None \<Rightarrow> None
      | Some nIndex \<Rightarrow> insert_loop vKey is (set_index nIndex f))"

definition bloom_insert :: "bytes \<Rightarrow> CBloomFilter \<Rightarrow> CBloomFilter option" where
  "bloom_insert vKey f =
     (if isFull f then Some f
      else map_option (\<lambda>f. f\<lparr>isEmpty := False\<rparr>) (insert_loop vKey [0..<nHashFuncs f] f))"

definition insert_outpoint :: "COutPoint \<Rightarrow> CBloomFilter \<Rightarrow> CBloomFilter option" where
  "insert_outpoint outpoint f = bloom_insert (ser_outpoint outpoint) f"

fun contains_loop :: "bytes \<Rightarrow> nat list \<Rightarrow> CBloomFilter \<Rightarrow> bool option" where
  "contains_loop vKey [] f = Some True"
| "contains_loop vKey (i # is) f =
     (case bloom_Hash f i vKey of
        None \<Rightarrow> None
      | Some nIndex \<Rightarrow> (if \<not> test_index nIndex f then Some False else contains_loop vKey is f))"

definition contains :: "bytes \<Rightarrow> CBloomFilter \<Rightarrow> bool option" where
  "contains vKey f =
     (if isFull f then Some True
      else if isEmpty f then Some False
      else contains_loop vKey [0..<nHashFuncs f] f)"

definition contains_outpoint :: "COutPoint \<Rightarrow> CBloomFilter \<Rightarrow> bool option" where
  "contains_outpoint outpoint f = contains (ser_outpoint outpoint) f"

definition bloom_clear :: "CBloomFilter \<Rightarrow> CBloomFilter" where
  "bloom_clear f = f\<lparr>vData := replicate (length (vData f)) 0, isFull := False, isEmpty := True\<rparr>"

definition bloom_reset :: "u32 \<Rightarrow> CBloomFilter \<Rightarrow> CBloomFilter" where
  "bloom_reset nNewTweak f = (bloom_clear f)\<lparr>nTweak := nNewTweak\<rparr>"

definition IsWithinSizeConstraints :: "CBloomFilter \<Rightarrow> bool" where
  "IsWithinSizeConstraints f \<longleftrightarrow> length (vData f) \<le> MAX_BLOOM_FILTER_SIZE \<and> nHashFuncs f \<le> MAX_HASH_FUNCS"

definition UpdateEmptyFull :: "CBloomFilter \<Rightarrow> CBloomFilter" where
  "UpdateEmptyFull f =
     (let (full, empty) = fold (\<lambda>b (full, empty). (full \<and> b = 0xff, empty \<and> b = 0)) (vData f) (True, True)
      in f\<lparr>isFull := full, isEmpty := empty\<rparr>)"

section \<open>Matching transactions\<close>

text \<open>\<open>a || b\<close>, where \<open>b\<close> is evaluated only when \<open>a\<close> is false.\<close>

definition or_else :: "bool option \<Rightarrow> bool option \<Rightarrow> bool option" where
  "or_else a b = (case a of None \<Rightarrow> None | Some True \<Rightarrow> Some True | Some False \<Rightarrow> b)"

function CheckScript :: "bytes \<Rightarrow> CBloomFilter \<Rightarrow> bool option" where
  "CheckScript pc f =
     (if pc = [] then Some False
      else case GetOp2 pc of
        Inl _ \<Rightarrow> Some False
      | Inr (opcode, data, pc') \<Rightarrow>
          (if data \<noteq> [] then
             (case contains data f of
                None \<Rightarrow> None
              | Some True \<Rightarrow> Some True
              | Some False \<Rightarrow> CheckScript pc' f)
           else CheckScript pc' f))"
  by pat_completeness auto
termination
  by (relation "measure (\<lambda>(pc, f). length pc)") (auto dest: GetOp2_shorter)

declare CheckScript.simps [simp del]

text \<open>The end of the cases of special transactions: update the filter if it has the flag, and report the match.\<close>

definition matched_key :: "bytes \<Rightarrow> CBloomFilter \<Rightarrow> (bool \<times> CBloomFilter) option" where
  "matched_key key f =
     (if nFlags f AND BLOOM_UPDATE_MASK = BLOOM_UPDATE_ALL then map_option (Pair True) (bloom_insert key f)
      else Some (True, f))"

definition CheckSpecialTransactionMatchesAndUpdate ::
    "(bytes \<Rightarrow> bytes option) \<Rightarrow> (CTransaction \<Rightarrow> bytes) \<Rightarrow> CTransaction \<Rightarrow> CBloomFilter \<Rightarrow> (bool \<times> CBloomFilter) option" where
  "CheckSpecialTransactionMatchesAndUpdate bls GetHash tx f =
     (if tx_nVersion tx \<noteq> 3 \<or> nType tx = TRANSACTION_NORMAL then Some (False, f)
      else if nType tx = TRANSACTION_PROVIDER_REGISTER then
        (case GetTxPayload (deser_CProRegTx bls) (vExtraPayload tx) of
           None \<Rightarrow> Some (False, f)
         | Some proTx \<Rightarrow>
             (case or_else (contains_outpoint (collateralOutpoint proTx) f)
                     (or_else (contains (keyIDOwner proTx) f)
                     (or_else (contains (reg_keyIDVoting proTx) f)
                              (CheckScript (reg_scriptPayout proTx) f))) of
                None \<Rightarrow> None
              | Some True \<Rightarrow> matched_key (GetHash tx) f
              | Some False \<Rightarrow> Some (False, f)))
      else if nType tx = TRANSACTION_PROVIDER_UPDATE_SERVICE then
        (case GetTxPayload (deser_CProUpServTx bls) (vExtraPayload tx) of
           None \<Rightarrow> Some (False, f)
         | Some proTx \<Rightarrow>
             (case contains (us_proTxHash proTx) f of
                None \<Rightarrow> None
              | Some True \<Rightarrow> Some (True, f)
              | Some False \<Rightarrow>
                  (case CheckScript (scriptOperatorPayout proTx) f of
                     None \<Rightarrow> None
                   | Some True \<Rightarrow> matched_key (us_proTxHash proTx) f
                   | Some False \<Rightarrow> Some (False, f))))
      else if nType tx = TRANSACTION_PROVIDER_UPDATE_REGISTRAR then
        (case GetTxPayload (deser_CProUpRegTx bls) (vExtraPayload tx) of
           None \<Rightarrow> Some (False, f)
         | Some proTx \<Rightarrow>
             (case contains (ur_proTxHash proTx) f of
                None \<Rightarrow> None
              | Some True \<Rightarrow> Some (True, f)
              | Some False \<Rightarrow>
                  (case or_else (contains (ur_keyIDVoting proTx) f) (CheckScript (ur_scriptPayout proTx) f) of
                     None \<Rightarrow> None
                   | Some True \<Rightarrow> matched_key (ur_proTxHash proTx) f
                   | Some False \<Rightarrow> Some (False, f))))
      else if nType tx = TRANSACTION_PROVIDER_UPDATE_REVOKE then
        (case GetTxPayload (deser_CProUpRevTx bls) (vExtraPayload tx) of
           None \<Rightarrow> Some (False, f)
         | Some proTx \<Rightarrow> map_option (\<lambda>b. (b, f)) (contains (rv_proTxHash proTx) f))
      else if nType tx = TRANSACTION_NON_FINANCIAL then
        Some (GetTxPayload deser_CNonFinancialTx (vExtraPayload tx) \<noteq> None, f)
      else Some (False, f))"

text \<open>The loop over the outputs: \<open>fFound\<close> and the filter.\<close>

definition insert_matched :: "COutPoint \<Rightarrow> bytes \<Rightarrow> CBloomFilter \<Rightarrow> CBloomFilter option" where
  "insert_matched outpoint script f =
     (if nFlags f AND BLOOM_UPDATE_MASK = BLOOM_UPDATE_ALL then insert_outpoint outpoint f
      else if nFlags f AND BLOOM_UPDATE_MASK = BLOOM_UPDATE_P2PUBKEY_ONLY then
        (case Solver script of
           (ok, t, vSolutions) \<Rightarrow> (if ok \<and> (t = TX_PUBKEY \<or> t = TX_MULTISIG) then insert_outpoint outpoint f else Some f))
      else Some f)"

fun relevant_outputs :: "bytes \<Rightarrow> nat \<Rightarrow> CTxOut list \<Rightarrow> bool \<Rightarrow> CBloomFilter \<Rightarrow> (bool \<times> CBloomFilter) option" where
  "relevant_outputs txid i [] fFound f = Some (fFound, f)"
| "relevant_outputs txid i (out # outs) fFound f =
     (case CheckScript (scriptPubKey out) f of
        None \<Rightarrow> None
      | Some True \<Rightarrow>
          (case insert_matched \<lparr>hash = txid, n = of_nat i\<rparr> (scriptPubKey out) f of
             None \<Rightarrow> None
           | Some f \<Rightarrow> relevant_outputs txid (i + 1) outs True f)
      | Some False \<Rightarrow> relevant_outputs txid (i + 1) outs fFound f)"

fun relevant_inputs :: "CTxIn list \<Rightarrow> CBloomFilter \<Rightarrow> bool option" where
  "relevant_inputs [] f = Some False"
| "relevant_inputs (txin # ins) f =
     or_else (contains_outpoint (prevout txin) f) (or_else (CheckScript (scriptSig txin) f) (relevant_inputs ins f))"

definition IsRelevantAndUpdate ::
    "(bytes \<Rightarrow> bytes option) \<Rightarrow> (CTransaction \<Rightarrow> bytes) \<Rightarrow> CTransaction \<Rightarrow> CBloomFilter \<Rightarrow> (bool \<times> CBloomFilter) option" where
  "IsRelevantAndUpdate bls GetHash tx f =
     (if isFull f then Some (True, f)
      else if isEmpty f then Some (False, f)
      else
        (case contains (GetHash tx) f of
           None \<Rightarrow> None
         | Some fFound \<Rightarrow>
             (case (if fFound then Some (True, f) else CheckSpecialTransactionMatchesAndUpdate bls GetHash tx f) of
                None \<Rightarrow> None
              | Some (fFound, f) \<Rightarrow>
                  (case relevant_outputs (GetHash tx) 0 (vout tx) fFound f of
                     None \<Rightarrow> None
                   | Some (fFound, f) \<Rightarrow>
                       (if fFound then Some (True, f)
                        else map_option (\<lambda>b. (b, f)) (relevant_inputs (vin tx) f))))))"

section \<open>Messages\<close>

definition ser_CBloomFilter :: "CBloomFilter \<Rightarrow> bytes" where
  "ser_CBloomFilter f =
     write_blob (vData f) @ ser_writedata32 (of_nat (nHashFuncs f)) @ ser_writedata32 (nTweak f) @ ser_writedata8 (nFlags f)"

text \<open>The object read into is the one of the default constructor.\<close>

definition deser_CBloomFilter :: "CBloomFilter reader" where
  "deser_CBloomFilter s =
     sbind (read_blob s) (\<lambda>(d, s). sbind (ser_readdata32 s) (\<lambda>(k, s). sbind (ser_readdata32 s) (\<lambda>(t, s). sbind (ser_readdata8 s) (\<lambda>(fl, s).
       Inr (empty_CBloomFilter\<lparr>vData := d, nHashFuncs := unat k, nTweak := t, nFlags := fl\<rparr>, s)))))"

text \<open>
  The filter that a node keeps for a peer, and what changes it: the three messages, with the check of the service flag
  before them, and the relay of a transaction, which may update the filter. A message that cannot be read is dropped.
\<close>

record peer_filter =
  pfilter :: "CBloomFilter option"
  fRelayTxes :: bool
  misbehavior :: nat
  fDisconnect :: bool

datatype filter_event = FILTERLOAD bytes | FILTERADD bytes | FILTERCLEAR | RELAY CTransaction

definition Misbehaving :: "nat \<Rightarrow> peer_filter \<Rightarrow> peer_filter" where
  "Misbehaving howmuch p = p\<lparr>misbehavior := misbehavior p + howmuch\<rparr>"

definition bloom_disabled :: "bool \<Rightarrow> peer_filter \<Rightarrow> peer_filter" where
  "bloom_disabled no_bloom_version p = (if no_bloom_version then Misbehaving 100 p else p\<lparr>fDisconnect := True\<rparr>)"

definition filterload :: "bytes \<Rightarrow> peer_filter \<Rightarrow> peer_filter" where
  "filterload vRecv p =
     (case deser_CBloomFilter vRecv of
        Inl _ \<Rightarrow> p
      | Inr (flt, s) \<Rightarrow>
          (if \<not> IsWithinSizeConstraints flt then Misbehaving 100 p
           else p\<lparr>pfilter := Some (UpdateEmptyFull flt), fRelayTxes := True\<rparr>))"

definition filteradd :: "bytes \<Rightarrow> peer_filter \<Rightarrow> peer_filter option" where
  "filteradd vRecv p =
     (case read_blob vRecv of
        Inl _ \<Rightarrow> Some p
      | Inr (data, s) \<Rightarrow>
          (if length data > MAX_SCRIPT_ELEMENT_SIZE then Some (Misbehaving 100 p)
           else case pfilter p of
             None \<Rightarrow> Some (Misbehaving 100 p)
           | Some f \<Rightarrow> map_option (\<lambda>f. p\<lparr>pfilter := Some f\<rparr>) (bloom_insert data f)))"

definition filterclear :: "bool \<Rightarrow> peer_filter \<Rightarrow> peer_filter" where
  "filterclear node_bloom p =
     (if node_bloom then p\<lparr>pfilter := Some empty_CBloomFilter, fRelayTxes := True\<rparr> else p\<lparr>fRelayTxes := True\<rparr>)"

definition ProcessFilter :: "(bytes \<Rightarrow> bytes option) \<Rightarrow> (CTransaction \<Rightarrow> bytes) \<Rightarrow> bool \<Rightarrow> bool \<Rightarrow> filter_event \<Rightarrow> peer_filter \<Rightarrow> peer_filter option" where
  "ProcessFilter bls GetHash node_bloom no_bloom_version ev p =
     (case ev of
        FILTERLOAD vRecv \<Rightarrow> Some (if node_bloom then filterload vRecv p else bloom_disabled no_bloom_version p)
      | FILTERADD vRecv \<Rightarrow> (if node_bloom then filteradd vRecv p else Some (bloom_disabled no_bloom_version p))
      | FILTERCLEAR \<Rightarrow> Some (filterclear node_bloom p)
      | RELAY tx \<Rightarrow>
          (case pfilter p of
             None \<Rightarrow> Some p
           | Some f \<Rightarrow> map_option (\<lambda>(relevant, f). p\<lparr>pfilter := Some f\<rparr>) (IsRelevantAndUpdate bls GetHash tx f)))"

definition new_peer :: peer_filter where
  "new_peer = \<lparr>pfilter = Some empty_CBloomFilter, fRelayTxes = False, misbehavior = 0, fDisconnect = False\<rparr>"

inductive peer_reach :: "(bytes \<Rightarrow> bytes option) \<Rightarrow> (CTransaction \<Rightarrow> bytes) \<Rightarrow> bool \<Rightarrow> bool \<Rightarrow> peer_filter \<Rightarrow> bool"
  for bls GetHash node_bloom no_bloom_version where
    connected: "peer_reach bls GetHash node_bloom no_bloom_version new_peer"
  | step: "peer_reach bls GetHash node_bloom no_bloom_version p \<Longrightarrow>
      ProcessFilter bls GetHash node_bloom no_bloom_version ev p = Some p' \<Longrightarrow> peer_reach bls GetHash node_bloom no_bloom_version p'"

section \<open>Filters only grow\<close>

definition usable :: "CBloomFilter \<Rightarrow> bool" where
  "usable f \<longleftrightarrow> vData f \<noteq> [] \<or> isFull f"

definition grows :: "CBloomFilter \<Rightarrow> CBloomFilter \<Rightarrow> bool" where
  "grows f f' \<longleftrightarrow> length (vData f') = length (vData f) \<and> nHashFuncs f' = nHashFuncs f \<and> nTweak f' = nTweak f \<and> nFlags f' = nFlags f \<and>
     isFull f' = isFull f \<and> (isEmpty f' \<longrightarrow> isEmpty f) \<and> (\<forall>i < 8 * length (vData f). test_index i f \<longrightarrow> test_index i f')"

lemma grows_refl [simp]: "grows f f"
  by (simp add: grows_def)

lemma grows_trans: "grows f g \<Longrightarrow> grows g h \<Longrightarrow> grows f h"
  by (auto simp: grows_def)

lemma grows_usable: "grows f f' \<Longrightarrow> usable f' = usable f"
  by (auto simp: grows_def usable_def)

lemma test_index_bit: "test_index i f \<longleftrightarrow> bit (vData f ! (i div 8)) (i mod 8)"
  unfolding test_index_def by (rule test_bit_mask)

lemma test_index_set:
  assumes "i < 8 * length (vData f)" "j < 8 * length (vData f)"
  shows "test_index i (set_index j f) \<longleftrightarrow> i = j \<or> test_index i f"
proof -
  have "i div 8 < length (vData f)" "j div 8 < length (vData f)" using assms by (simp_all add: less_mult_imp_div_less mult.commute)
  moreover have "i = j \<longleftrightarrow> i div 8 = j div 8 \<and> i mod 8 = j mod 8" by (metis div_mult_mod_eq)
  ultimately show ?thesis
    by (cases "i div 8 = j div 8") (auto simp: test_index_bit set_index_def bit_or_iff bit_exp_iff)
qed

lemma set_index_grows: "j < 8 * length (vData f) \<Longrightarrow> grows f (set_index j f)"
  using test_index_set [of _ f j] by (auto simp: grows_def) (auto simp: set_index_def)

lemma bloom_Hash_grows: "grows f f' \<Longrightarrow> bloom_Hash f' = bloom_Hash f"
  by (simp add: bloom_Hash_def grows_def fun_eq_iff)

lemma bloom_Hash_index: "vData f \<noteq> [] \<Longrightarrow> \<exists>j < 8 * length (vData f). bloom_Hash f i key = Some j"
  by (simp add: bloom_Hash_def mult.commute)

lemma insert_loop_ok:
  "vData f \<noteq> [] \<Longrightarrow> \<exists>f'. insert_loop key is f = Some f' \<and> grows f f' \<and>
     (\<forall>i \<in> set is. \<exists>j < 8 * length (vData f). bloom_Hash f i key = Some j \<and> test_index j f')"
proof (induction "is" arbitrary: f)
  case (Cons i "is")
  obtain j where j: "j < 8 * length (vData f)" "bloom_Hash f i key = Some j" using bloom_Hash_index [OF Cons.prems] by blast
  have g: "grows f (set_index j f)" by (rule set_index_grows [OF j(1)])
  moreover have "vData (set_index j f) \<noteq> []" using Cons.prems by (simp add: set_index_def)
  ultimately obtain f' where f': "insert_loop key is (set_index j f) = Some f'" "grows (set_index j f) f'"
      "\<forall>i \<in> set is. \<exists>j < 8 * length (vData f). bloom_Hash f i key = Some j \<and> test_index j f'"
    using Cons.IH [of "set_index j f"] bloom_Hash_grows [OF g] by (auto simp: set_index_def)
  moreover have "test_index j f'" using f'(2) j(1) test_index_set [OF j(1) j(1)] by (auto simp: grows_def set_index_def)
  ultimately show ?case using j g grows_trans [OF g f'(2)] by auto
qed simp

lemma contains_loop_iff:
  "contains_loop key is f = Some True \<longleftrightarrow> (\<forall>i \<in> set is. \<exists>j. bloom_Hash f i key = Some j \<and> test_index j f)"
  by (induction "is") (auto split: option.splits)

lemma contains_loop_total: "vData f \<noteq> [] \<Longrightarrow> contains_loop key is f \<noteq> None"
  by (induction "is") (auto simp: bloom_Hash_def)

lemma contains_total: "usable f \<Longrightarrow> \<exists>b. contains key f = Some b"
  using contains_loop_total [of f key "[0..<nHashFuncs f]"] by (auto simp: contains_def usable_def)

lemma contains_grows:
  assumes "grows f f'" "contains key f = Some True"
  shows "contains key f' = Some True"
proof -
  have "\<exists>j. bloom_Hash f' i key = Some j \<and> test_index j f'" if "bloom_Hash f i key = Some j" "test_index j f" for i j
  proof -
    have "vData f \<noteq> []" using that(1) by (auto simp: bloom_Hash_def)
    then have "j < 8 * length (vData f)" using bloom_Hash_index [of f i key] that(1) by auto
    then show ?thesis using assms(1) that bloom_Hash_grows [OF assms(1)] by (auto simp: grows_def)
  qed
  then show ?thesis using assms by (auto simp: contains_def contains_loop_iff grows_def split: if_splits)
qed

lemma bloom_insert_ok:
  assumes "usable f"
  shows "\<exists>f'. bloom_insert key f = Some f' \<and> grows f f' \<and> contains key f' = Some True"
proof (cases "isFull f")
  case True
  then show ?thesis by (simp add: bloom_insert_def contains_def)
next
  case False
  then obtain f' where f': "insert_loop key [0..<nHashFuncs f] f = Some f'" "grows f f'"
      "\<forall>i \<in> set [0..<nHashFuncs f]. \<exists>j < 8 * length (vData f). bloom_Hash f i key = Some j \<and> test_index j f'"
    using insert_loop_ok assms by (fastforce simp: usable_def)
  have g: "grows f (f'\<lparr>isEmpty := False\<rparr>)" using f'(2) by (auto simp: grows_def test_index_def)
  have "contains key (f'\<lparr>isEmpty := False\<rparr>) = Some True"
    using f'(3) bloom_Hash_grows [OF g] g False by (auto simp: contains_def contains_loop_iff grows_def test_index_def)
  then show ?thesis using False f'(1) g by (simp add: bloom_insert_def)
qed

section \<open>Matching never divides by zero\<close>

lemma or_else_total: "\<exists>b. a = Some b \<Longrightarrow> \<exists>b. c = Some b \<Longrightarrow> \<exists>b. or_else a c = Some b"
  by (auto simp: or_else_def split: bool.splits)

lemma CheckScript_step:
  "pc \<noteq> [] \<Longrightarrow> GetOp2 pc = Inr (opc, d, pc') \<Longrightarrow> CheckScript pc f =
    (if d \<noteq> [] then (case contains d f of None \<Rightarrow> None | Some True \<Rightarrow> Some True | Some False \<Rightarrow> CheckScript pc' f) else CheckScript pc' f)"
  by (subst CheckScript.simps) simp

lemma CheckScript_stop: "pc = [] \<or> GetOp2 pc = Inl q \<Longrightarrow> CheckScript pc f = Some False"
  by (subst CheckScript.simps) auto

lemma CheckScript_total: "usable f \<Longrightarrow> \<exists>b. CheckScript pc f = Some b"
proof (induction "length pc" arbitrary: pc rule: less_induct)
  case less
  show ?case
  proof (cases "pc = [] \<or> (\<exists>q. GetOp2 pc = Inl q)")
    case True
    then show ?thesis using CheckScript_stop by auto
  next
    case False
    then obtain opc d pc' where g: "pc \<noteq> []" "GetOp2 pc = Inr (opc, d, pc')" by (cases "GetOp2 pc") auto
    obtain b where "contains d f = Some b" using contains_total [OF less.prems] by blast
    moreover have "\<exists>b. CheckScript pc' f = Some b" using less GetOp2_shorter [OF g(2)] by blast
    ultimately show ?thesis using CheckScript_step [OF g] by (auto split: bool.splits)
  qed
qed

lemma CheckScript_grows:
  assumes "grows f f'" "usable f"
  shows "CheckScript pc f = Some True \<Longrightarrow> CheckScript pc f' = Some True"
proof (induction "length pc" arbitrary: pc rule: less_induct)
  case less
  have "\<not> (pc = [] \<or> GetOp2 pc = Inl q)" for q using CheckScript_stop [of pc q f] less.prems by auto
  then obtain opc d pc' where g: "pc \<noteq> []" "GetOp2 pc = Inr (opc, d, pc')" by (cases "GetOp2 pc") auto
  have "usable f'" using assms grows_usable by blast
  then obtain b where b: "contains d f' = Some b" using contains_total by blast
  show ?case
  proof (cases "d \<noteq> [] \<and> contains d f = Some True")
    case True
    then show ?thesis using contains_grows [OF assms(1)] CheckScript_step [OF g] by simp
  next
    case False
    then have "CheckScript pc' f = Some True" using less.prems CheckScript_step [OF g, of f] by (auto split: if_splits option.splits bool.splits)
    then have "CheckScript pc' f' = Some True" using less.hyps GetOp2_shorter [OF g(2)] by blast
    then show ?thesis using CheckScript_step [OF g, of f'] b by (auto split: bool.splits)
  qed
qed

lemma matched_key_ok: "usable f \<Longrightarrow> \<exists>f'. matched_key key f = Some (True, f') \<and> grows f f'"
  using bloom_insert_ok [of f key] by (auto simp: matched_key_def)

lemma insert_matched_ok:
  assumes "usable f"
  shows "\<exists>f'. insert_matched p script f = Some f' \<and> grows f f' \<and>
    (nFlags f AND BLOOM_UPDATE_MASK = BLOOM_UPDATE_ALL \<longrightarrow> contains_outpoint p f' = Some True)"
proof -
  obtain ok t v where "Solver script = (ok, t, v)" by (rule prod_cases3)
  then show ?thesis using bloom_insert_ok [OF assms, of "ser_outpoint p"]
    by (auto simp: insert_matched_def insert_outpoint_def contains_outpoint_def)
qed

definition safe_result :: "CBloomFilter \<Rightarrow> (bool \<times> CBloomFilter) option \<Rightarrow> bool" where
  "safe_result f r \<longleftrightarrow> (\<exists>b f'. r = Some (b, f') \<and> grows f f')"

lemma safe_if: "safe_result f x \<Longrightarrow> safe_result f y \<Longrightarrow> safe_result f (if c then x else y)"
  by simp

lemma safe_payload: "(\<And>p. safe_result f (g p)) \<Longrightarrow> safe_result f (case r of None \<Rightarrow> Some (False, f) | Some p \<Rightarrow> g p)"
  by (auto simp: safe_result_def split: option.splits)

lemma safe_found:
  "\<exists>b. a = Some b \<Longrightarrow> safe_result f x \<Longrightarrow> safe_result f y \<Longrightarrow>
   safe_result f (case a of None \<Rightarrow> None | Some True \<Rightarrow> x | Some False \<Rightarrow> y)"
  by (auto split: bool.splits)

lemma safe_Some: "safe_result f (Some (b, f))" "\<exists>b. a = Some b \<Longrightarrow> safe_result f (map_option (\<lambda>b. (b, f)) a)"
  by (auto simp: safe_result_def)

lemma special_ok:
  assumes "usable f"
  shows "\<exists>b f'. CheckSpecialTransactionMatchesAndUpdate bls GetHash tx f = Some (b, f') \<and> grows f f'"
proof -
  have m: "safe_result f (matched_key k f)" for k using matched_key_ok [OF assms, of k] by (auto simp: safe_result_def)
  have "safe_result f (CheckSpecialTransactionMatchesAndUpdate bls GetHash tx f)"
    unfolding CheckSpecialTransactionMatchesAndUpdate_def contains_outpoint_def
    by (intro safe_if safe_payload safe_found safe_Some m or_else_total contains_total CheckScript_total assms)
  then show ?thesis by (simp add: safe_result_def)
qed

lemma outputs_ok:
  assumes "usable f"
  shows "\<exists>b f'. relevant_outputs txid i outs found f = Some (b, f') \<and> grows f f' \<and> (found \<longrightarrow> b) \<and>
    (\<forall>j < length outs. CheckScript (scriptPubKey (outs ! j)) f = Some True \<longrightarrow> b \<and>
      (nFlags f AND BLOOM_UPDATE_MASK = BLOOM_UPDATE_ALL \<longrightarrow> contains_outpoint \<lparr>hash = txid, n = of_nat (i + j)\<rparr> f' = Some True))"
  using assms
proof (induction outs arbitrary: i found f)
  case (Cons out outs)
  obtain c where c: "CheckScript (scriptPubKey out) f = Some c" using CheckScript_total [OF Cons.prems] by blast
  obtain g where g: "insert_matched \<lparr>hash = txid, n = of_nat i\<rparr> (scriptPubKey out) f = Some g" "grows f g"
      "nFlags f AND BLOOM_UPDATE_MASK = BLOOM_UPDATE_ALL \<longrightarrow> contains_outpoint \<lparr>hash = txid, n = of_nat i\<rparr> g = Some True"
    using insert_matched_ok [OF Cons.prems] by blast
  define h where "h = (if c then g else f)"
  have h: "grows f h" "usable h" using g(2) Cons.prems grows_usable by (auto simp: h_def)
  obtain b f' where f': "relevant_outputs txid (i + 1) outs (c \<or> found) h = Some (b, f')" "grows h f'" "c \<or> found \<longrightarrow> b"
      "\<forall>j < length outs. CheckScript (scriptPubKey (outs ! j)) h = Some True \<longrightarrow> b \<and>
        (nFlags h AND BLOOM_UPDATE_MASK = BLOOM_UPDATE_ALL \<longrightarrow> contains_outpoint \<lparr>hash = txid, n = of_nat (i + 1 + j)\<rparr> f' = Some True)"
    using Cons.IH [OF h(2), of "i + 1" "c \<or> found"] by blast
  have r: "relevant_outputs txid i (out # outs) found f = Some (b, f')" using c g(1) f'(1) by (cases c) (auto simp: h_def)
  have fl: "nFlags h = nFlags f" using h(1) by (simp add: grows_def)
  have "b \<and> (nFlags f AND BLOOM_UPDATE_MASK = BLOOM_UPDATE_ALL \<longrightarrow> contains_outpoint \<lparr>hash = txid, n = of_nat (i + j)\<rparr> f' = Some True)"
    if "j < length (out # outs)" "CheckScript (scriptPubKey ((out # outs) ! j)) f = Some True" for j
  proof (cases j)
    case 0
    then have "c" using that(2) c by simp
    then show ?thesis using 0 g(3) f'(2,3) contains_grows by (auto simp: h_def contains_outpoint_def)
  next
    case (Suc k)
    then have "CheckScript (scriptPubKey (outs ! k)) h = Some True" using that(2) CheckScript_grows [OF h(1) Cons.prems] by simp
    then show ?thesis using f'(4) that(1) Suc fl by auto
  qed
  then show ?case using r grows_trans [OF h(1) f'(2)] f'(3) by blast
qed simp

lemma inputs_total: "usable f \<Longrightarrow> \<exists>b. relevant_inputs ins f = Some b"
  by (induction ins) (auto intro!: or_else_total simp: contains_outpoint_def contains_total CheckScript_total)

lemma inputs_found:
  "usable f \<Longrightarrow> i \<in> set ins \<Longrightarrow> contains_outpoint (prevout i) f = Some True \<Longrightarrow> relevant_inputs ins f = Some True"
proof (induction ins)
  case (Cons x ins)
  obtain b c where "contains_outpoint (prevout x) f = Some b" "CheckScript (scriptSig x) f = Some c"
    using contains_total [OF Cons.prems(1)] CheckScript_total [OF Cons.prems(1)] by (metis contains_outpoint_def)
  then show ?case using Cons by (auto simp: or_else_def split: bool.splits)
qed simp

lemma relevant_ok:
  assumes "usable f"
  shows "\<exists>b f'. IsRelevantAndUpdate bls GetHash tx f = Some (b, f') \<and> grows f f' \<and>
    (\<forall>i \<in> set (vin tx). contains_outpoint (prevout i) f = Some True \<longrightarrow> b) \<and>
    (\<forall>j < length (vout tx). CheckScript (scriptPubKey (vout tx ! j)) f = Some True \<and> \<not> isEmpty f \<longrightarrow> b \<and>
      (nFlags f AND BLOOM_UPDATE_MASK = BLOOM_UPDATE_ALL \<longrightarrow> contains_outpoint \<lparr>hash = GetHash tx, n = of_nat j\<rparr> f' = Some True))"
proof (cases "isFull f \<or> isEmpty f")
  case True
  then show ?thesis by (auto simp: IsRelevantAndUpdate_def contains_outpoint_def contains_def)
next
  case False
  obtain c where c: "contains (GetHash tx) f = Some c" using contains_total [OF assms] by blast
  obtain d g where g: "(if c then Some (True, f) else CheckSpecialTransactionMatchesAndUpdate bls GetHash tx f) = Some (d, g)" "grows f g"
    using special_ok [OF assms, of bls GetHash tx] by (cases c) auto
  have ug: "usable g" using grows_usable [OF g(2)] assms by simp
  obtain b f' where f': "relevant_outputs (GetHash tx) 0 (vout tx) d g = Some (b, f')" "grows g f'"
      "\<forall>j < length (vout tx). CheckScript (scriptPubKey (vout tx ! j)) g = Some True \<longrightarrow> b \<and>
        (nFlags g AND BLOOM_UPDATE_MASK = BLOOM_UPDATE_ALL \<longrightarrow> contains_outpoint \<lparr>hash = GetHash tx, n = of_nat j\<rparr> f' = Some True)"
    using outputs_ok [OF ug, of "GetHash tx" 0 "vout tx" d] by auto
  have uf': "usable f'" using grows_usable [OF f'(2)] ug by simp
  obtain e where e: "relevant_inputs (vin tx) f' = Some e" using inputs_total [OF uf'] by blast
  have gr: "grows f f'" by (rule grows_trans [OF g(2) f'(2)])
  have r: "IsRelevantAndUpdate bls GetHash tx f = Some (b \<or> e, f')"
    using False c g(1) f'(1) e by (cases c; cases b) (auto simp: IsRelevantAndUpdate_def)
  have "e" if "i \<in> set (vin tx)" "contains_outpoint (prevout i) f = Some True" for i
    using inputs_found [OF uf' that(1)] contains_grows [OF gr] that(2) e by (simp add: contains_outpoint_def)
  moreover have "nFlags g = nFlags f" using g(2) by (simp add: grows_def)
  ultimately show ?thesis using r gr f'(3) CheckScript_grows [OF g(2) assms] by auto
qed

section \<open>The filter of a peer\<close>

definition peer_ok :: "peer_filter \<Rightarrow> bool" where
  "peer_ok p \<longleftrightarrow> (case pfilter p of None \<Rightarrow> False | Some f \<Rightarrow> usable f \<and> IsWithinSizeConstraints f)"

lemma grows_within: "grows f f' \<Longrightarrow> IsWithinSizeConstraints f' = IsWithinSizeConstraints f"
  by (simp add: grows_def IsWithinSizeConstraints_def)

lemma UpdateEmptyFull_usable: "usable (UpdateEmptyFull f)" "IsWithinSizeConstraints (UpdateEmptyFull f) = IsWithinSizeConstraints f"
proof -
  obtain a b where "fold (\<lambda>b (full, empty). (full \<and> b = 0xff, empty \<and> b = 0)) (vData f) (True, True) = (a, b)" by (rule prod.exhaust)
  then show "usable (UpdateEmptyFull f)" "IsWithinSizeConstraints (UpdateEmptyFull f) = IsWithinSizeConstraints f"
    by (cases "vData f", auto simp: UpdateEmptyFull_def usable_def IsWithinSizeConstraints_def)
qed

lemma filterload_ok: "peer_ok p \<Longrightarrow> peer_ok (filterload vRecv p)"
  by (auto simp: filterload_def Misbehaving_def peer_ok_def UpdateEmptyFull_usable split: sum.splits)

text \<open>Events other than loading and clearing only let the filter grow.\<close>

lemma grow_event:
  assumes "peer_ok p" "\<forall>b. ev \<noteq> FILTERLOAD b" "ev \<noteq> FILTERCLEAR"
  shows "\<exists>p' f f'. ProcessFilter bls GetHash node_bloom nbv ev p = Some p' \<and> pfilter p = Some f \<and> pfilter p' = Some f' \<and> grows f f'"
proof -
  obtain f where f: "pfilter p = Some f" "usable f" using assms(1) by (auto simp: peer_ok_def split: option.splits)
  show ?thesis
  proof (cases ev)
    case (FILTERADD b)
    have "\<exists>p' f'. filteradd b p = Some p' \<and> pfilter p' = Some f' \<and> grows f f'"
      using f bloom_insert_ok [OF f(2)] by (cases "read_blob b") (fastforce simp: filteradd_def Misbehaving_def split: prod.splits)+
    then show ?thesis using FILTERADD f(1) by (auto simp: ProcessFilter_def bloom_disabled_def Misbehaving_def)
  next
    case (RELAY tx)
    obtain c f' where "IsRelevantAndUpdate bls GetHash tx f = Some (c, f')" "grows f f'" using relevant_ok [OF f(2)] by blast
    then show ?thesis using RELAY f(1) by (auto simp: ProcessFilter_def)
  qed (use assms in auto)
qed

lemma ProcessFilter_ok:
  assumes "peer_ok p"
  shows "\<exists>p'. ProcessFilter bls GetHash node_bloom nbv ev p = Some p' \<and> peer_ok p'"
proof (cases "(\<exists>b. ev = FILTERLOAD b) \<or> ev = FILTERCLEAR")
  case True
  have "peer_ok (bloom_disabled nbv p)" "peer_ok (filterclear node_bloom p)" using assms
    by (auto simp: bloom_disabled_def Misbehaving_def filterclear_def peer_ok_def empty_CBloomFilter_def
        usable_def IsWithinSizeConstraints_def)
  then show ?thesis using True filterload_ok [OF assms] by (auto simp: ProcessFilter_def)
next
  case False
  then obtain p' f f' where "ProcessFilter bls GetHash node_bloom nbv ev p = Some p'" "pfilter p = Some f" "pfilter p' = Some f'" "grows f f'"
    using grow_event [OF assms, of ev bls GetHash node_bloom nbv] by auto
  then show ?thesis using assms grows_usable grows_within by (auto simp: peer_ok_def)
qed

lemma reach_ok: "peer_reach bls GetHash node_bloom nbv p \<Longrightarrow> peer_ok p"
proof (induction rule: peer_reach.induct)
  case connected
  then show ?case by (simp add: peer_ok_def new_peer_def empty_CBloomFilter_def usable_def IsWithinSizeConstraints_def)
next
  case (step p ev p')
  then show ?case using ProcessFilter_ok [of p bls GetHash node_bloom nbv ev] by auto
qed

fun run_events :: "(filter_event \<Rightarrow> peer_filter \<Rightarrow> peer_filter option) \<Rightarrow> filter_event list \<Rightarrow> peer_filter \<Rightarrow> peer_filter option" where
  "run_events process [] p = Some p"
| "run_events process (ev # evs) p = Option.bind (process ev p) (run_events process evs)"

lemma run_grows:
  "peer_ok p \<Longrightarrow> pfilter p = Some f \<Longrightarrow> \<forall>ev \<in> set evs. (\<forall>b. ev \<noteq> FILTERLOAD b) \<and> ev \<noteq> FILTERCLEAR \<Longrightarrow>
   \<exists>p' f'. run_events (ProcessFilter bls GetHash node_bloom nbv) evs p = Some p' \<and> pfilter p' = Some f' \<and> grows f f'"
proof (induction evs arbitrary: p f)
  case (Cons ev evs)
  then obtain p1 f1 where p1: "ProcessFilter bls GetHash node_bloom nbv ev p = Some p1" "pfilter p1 = Some f1" "grows f f1"
    using grow_event [OF Cons.prems(1), of ev bls GetHash node_bloom nbv] by auto
  then have "peer_ok p1" using ProcessFilter_ok [OF Cons.prems(1), of bls GetHash node_bloom nbv ev] by auto
  then obtain p2 f2 where "run_events (ProcessFilter bls GetHash node_bloom nbv) evs p1 = Some p2" "pfilter p2 = Some f2" "grows f1 f2"
    using Cons.IH [OF _ p1(2)] Cons.prems(3) by auto
  then show ?case using p1 grows_trans by auto
qed simp

section \<open>Properties\<close>

text \<open>
  C19. Whatever messages a peer sends and whatever transactions are relayed, from the connection on no remainder modulo zero is
  taken, and the filter kept for the peer respects the size limits.
\<close>

theorem peer_filter_safe:
  assumes "peer_reach bls GetHash node_bloom no_bloom_version p"
  shows "(\<exists>p'. ProcessFilter bls GetHash node_bloom no_bloom_version ev p = Some p') \<and>
    (\<exists>f. pfilter p = Some f \<and> IsWithinSizeConstraints f \<and> (vData f = [] \<longrightarrow> isFull f))"
  using ProcessFilter_ok [OF reach_ok [OF assms], of bls GetHash node_bloom no_bloom_version ev] reach_ok [OF assms]
  by (auto simp: peer_ok_def usable_def split: option.splits)

theorem peer_filter_safe_witness:
  "\<exists>p'. ProcessFilter (\<lambda>_. None) (\<lambda>_. replicate 32 1) True True (FILTERADD [1, 2]) new_peer = Some p'"
  using peer_filter_safe [OF peer_reach.connected, of "\<lambda>_. None" "\<lambda>_. replicate 32 1" True True "FILTERADD [1, 2]"] by blast

text \<open>
  C20. An element of at most 520 bytes that a peer added to its filter is found in it, and stays found while further elements
  are added and transactions are relayed, until the peer loads or clears its filter.
\<close>

theorem bloom_no_false_negatives:
  assumes "peer_reach bls GetHash True no_bloom_version p" "length data \<le> MAX_SCRIPT_ELEMENT_SIZE"
    and "\<forall>ev \<in> set evs. (\<forall>b. ev \<noteq> FILTERLOAD b) \<and> ev \<noteq> FILTERCLEAR"
  shows "\<exists>p' f. run_events (ProcessFilter bls GetHash True no_bloom_version) (FILTERADD (write_blob data) # evs) p = Some p' \<and>
    pfilter p' = Some f \<and> contains data f = Some True"
proof -
  obtain f where f: "pfilter p = Some f" "usable f" using reach_ok [OF assms(1)] by (auto simp: peer_ok_def split: option.splits)
  obtain f1 where f1: "bloom_insert data f = Some f1" "grows f f1" "contains data f1 = Some True" using bloom_insert_ok [OF f(2)] by blast
  have "read_blob (write_blob data) = Inr (data, [])" using blob.dec_enc [of data "[]"] assms(2) by (simp add: MAX_SIZE_def)
  then have s: "ProcessFilter bls GetHash True no_bloom_version (FILTERADD (write_blob data)) p = Some (p\<lparr>pfilter := Some f1\<rparr>)"
    using f1(1) f(1) assms(2) by (simp add: ProcessFilter_def filteradd_def)
  then have "peer_ok (p\<lparr>pfilter := Some f1\<rparr>)" using ProcessFilter_ok [OF reach_ok [OF assms(1)], of bls GetHash True no_bloom_version "FILTERADD (write_blob data)"] by simp
  then obtain p' f' where "run_events (ProcessFilter bls GetHash True no_bloom_version) evs (p\<lparr>pfilter := Some f1\<rparr>) = Some p'" "pfilter p' = Some f'" "grows f1 f'"
    using run_grows [OF _ _ assms(3), of "p\<lparr>pfilter := Some f1\<rparr>" f1 bls GetHash True no_bloom_version] by auto
  then show ?thesis using s contains_grows [OF _ f1(3)] by auto
qed

theorem bloom_no_false_negatives_witness:
  "\<exists>p' f. run_events (ProcessFilter (\<lambda>_. None) (\<lambda>_. replicate 32 1) True True) [FILTERADD (write_blob [5, 6]), FILTERADD (write_blob [7])] new_peer = Some p' \<and>
    pfilter p' = Some f \<and> contains [5, 6] f = Some True"
  using bloom_no_false_negatives [OF peer_reach.connected, of "[5, 6]" "[FILTERADD (write_blob [7])]" "\<lambda>_. None" "\<lambda>_. replicate 32 1" True] by simp

text \<open>
  C27. With the flag \<open>BLOOM_UPDATE_ALL\<close>, a transaction one of whose outputs pays to something in the filter is relevant, and so is
  any transaction that spends this output when it is tested next.
\<close>

theorem bloom_follows_spends:
  assumes "vData f \<noteq> [] \<or> isFull f" "\<not> isEmpty f" "nFlags f AND BLOOM_UPDATE_MASK = BLOOM_UPDATE_ALL"
    and "j < length (vout tx)" "CheckScript (scriptPubKey (vout tx ! j)) f = Some True"
    and "i \<in> set (vin tx2)" "prevout i = \<lparr>hash = GetHash tx, n = of_nat j\<rparr>"
  shows "\<exists>f1 f2. IsRelevantAndUpdate bls GetHash tx f = Some (True, f1) \<and> IsRelevantAndUpdate bls GetHash tx2 f1 = Some (True, f2)"
proof -
  have u: "usable f" using assms(1) by (simp add: usable_def)
  obtain b f1 where r: "IsRelevantAndUpdate bls GetHash tx f = Some (b, f1)" "grows f f1"
      "\<forall>j < length (vout tx). CheckScript (scriptPubKey (vout tx ! j)) f = Some True \<and> \<not> isEmpty f \<longrightarrow> b \<and>
        (nFlags f AND BLOOM_UPDATE_MASK = BLOOM_UPDATE_ALL \<longrightarrow> contains_outpoint \<lparr>hash = GetHash tx, n = of_nat j\<rparr> f1 = Some True)"
    using relevant_ok [OF u, of bls GetHash tx] by blast
  then have "b" "contains_outpoint (prevout i) f1 = Some True" using assms(2-5,7) by auto
  moreover have "usable f1" using grows_usable [OF r(2)] u by simp
  ultimately show ?thesis using r(1) relevant_ok [of f1 bls GetHash tx2] assms(6) by fastforce
qed

text \<open>A filter with all bits set but not marked as full, a payment and a transaction that spends it.\<close>

definition example_filter :: CBloomFilter where
  "example_filter = \<lparr>vData = [0xff], isFull = False, isEmpty = False, nHashFuncs = 2, nTweak = 5, nFlags = 1\<rparr>"

definition example_payment :: CTransaction where
  "example_payment = \<lparr>tx_nVersion = 1, nType = 0, vin = [], vout = [\<lparr>nValue = 5, scriptPubKey = [1, 7], sTxOutMessage = []\<rparr>],
     nLockTime = 0, vExtraPayload = []\<rparr>"

definition example_spend :: CTransaction where
  "example_spend = \<lparr>tx_nVersion = 1, nType = 0, vin = [\<lparr>prevout = \<lparr>hash = replicate 32 1, n = 0\<rparr>, scriptSig = [], nSequence = 0\<rparr>],
     vout = [], nLockTime = 0, vExtraPayload = []\<rparr>"

lemma example_contains: "contains key example_filter = Some True"
proof -
  have "bit (0xff :: u8) (j mod 8)" for j :: nat
  proof -
    have "(0xff :: u8) = - 1" by simp
    then show ?thesis by (simp only: bit_minus_1_iff) (simp add: possible_bit_word)
  qed
  then have "\<exists>j. bloom_Hash example_filter i key = Some j \<and> test_index j example_filter" for i
    by (simp add: bloom_Hash_def test_index_bit) (simp add: example_filter_def)
  then show ?thesis unfolding contains_def contains_loop_iff by (simp add: example_filter_def contains_loop_iff)
qed

theorem bloom_follows_spends_witness:
  "\<exists>f1 f2. IsRelevantAndUpdate (\<lambda>_. None) (\<lambda>_. replicate 32 1) example_payment example_filter = Some (True, f1) \<and>
    IsRelevantAndUpdate (\<lambda>_. None) (\<lambda>_. replicate 32 1) example_spend f1 = Some (True, f2)"
proof (rule bloom_follows_spends [of _ 0 _ "vin example_spend ! 0"])
  have "GetOp2 [1, 7] = Inr (1, [7], [])" by (simp add: GetOp2_def push_size_def)
  then have "CheckScript [1, 7] example_filter = Some True" using example_contains [of "[7]"] by (simp add: CheckScript_step)
  then show "CheckScript (scriptPubKey (vout example_payment ! 0)) example_filter = Some True" by (simp add: example_payment_def)
qed (simp_all add: example_filter_def example_payment_def example_spend_def BLOOM_UPDATE_MASK_def BLOOM_UPDATE_ALL_def)

end
