(* ===== verification/Rolling_Bloom.thy ===== *)
theory Rolling_Bloom
  imports Hash_Tables
begin

text \<open>
  \<open>CRollingBloomFilter\<close> of \<open>src/src/bloom.h\<close> and \<open>bloom.cpp\<close>: a set of recently inserted keys. Every position has two
  bits, which hold the number, 1 to 3, of the generation that set it last; a new generation wipes the positions of
  the generation three before it, which had the same number.

  The two numbers that the constructor computes with floating-point functions, the number of hash functions and the
  number of bits, and the random number of \<open>reset\<close> are arguments.
\<close>

record CRollingBloomFilter =
  nEntriesPerGeneration :: nat
  nEntriesThisGeneration :: nat
  nGeneration :: nat
  rb_data :: "u64 list"
  rb_nTweak :: u32
  rb_nHashFuncs :: nat

definition rolling_reset :: "u32 \<Rightarrow> CRollingBloomFilter \<Rightarrow> CRollingBloomFilter" where
  "rolling_reset rand f =
     f\<lparr>rb_nTweak := rand, nEntriesThisGeneration := 0, nGeneration := 1, rb_data := map (\<lambda>_. 0) (rb_data f)\<rparr>"

definition make_CRollingBloomFilter :: "nat \<Rightarrow> nat \<Rightarrow> nat \<Rightarrow> u32 \<Rightarrow> CRollingBloomFilter" where
  "make_CRollingBloomFilter nElements funcs nFilterBits rand =
     rolling_reset rand
       \<lparr>nEntriesPerGeneration = (nElements + 1) mod 2 ^ 32 div 2, nEntriesThisGeneration = 0, nGeneration = 1,
        rb_data = replicate ((nFilterBits + 63) mod 2 ^ 32 div 64 * 2) 0, rb_nTweak = 0, rb_nHashFuncs = max 1 (min funcs 50)\<rparr>"

definition RollingBloomHash :: "nat \<Rightarrow> u32 \<Rightarrow> bytes \<Rightarrow> u32" where
  "RollingBloomHash nHashNum tweak vDataToHash = MurmurHash3 (of_nat nHashNum * 0xFBA4C795 + tweak) vDataToHash"

definition FastMod :: "u32 \<Rightarrow> nat \<Rightarrow> nat" where
  "FastMod x k = unat x * k mod 2 ^ 64 div 2 ^ 32 mod 2 ^ 32"

text \<open>The loop that wipes one generation, two integers at a time.\<close>

fun wipe :: "nat \<Rightarrow> u64 list \<Rightarrow> u64 list" where
  "wipe g (p1 # p2 # data) =
     (let nGenerationMask1 = 0 - of_nat (g mod 2);
          nGenerationMask2 = 0 - of_nat (g div 2);
          mask = (p1 XOR nGenerationMask1) OR (p2 XOR nGenerationMask2)
      in (p1 AND mask) # (p2 AND mask) # wipe g data)"
| "wipe g data = data"

text \<open>Setting position \<open>pos\<close>, \<open>b\<close> to a generation; \<open>pos & ~1\<close> is \<open>2 * (pos div 2)\<close> and \<open>pos | 1\<close> the next.\<close>

definition set_generation :: "nat \<Rightarrow> nat \<Rightarrow> nat \<Rightarrow> u64 list \<Rightarrow> u64 list" where
  "set_generation g pos b data =
     (let lo = 2 * (pos div 2); hi = 2 * (pos div 2) + 1;
          data = data[lo := (data ! lo AND NOT (push_bit b 1)) OR push_bit b (of_nat (g mod 2))]
      in data[hi := (data ! hi AND NOT (push_bit b 1)) OR push_bit b (of_nat (g div 2))])"

fun insert_positions :: "nat \<Rightarrow> u32 \<Rightarrow> bytes \<Rightarrow> nat list \<Rightarrow> u64 list \<Rightarrow> u64 list" where
  "insert_positions g tweak vKey [] data = data"
| "insert_positions g tweak vKey (i # is) data =
     (let h = RollingBloomHash i tweak vKey;
          b = unat (h AND 0x3F);
          pos = FastMod h (length data)
      in insert_positions g tweak vKey is (set_generation g pos b data))"

definition rolling_insert :: "bytes \<Rightarrow> CRollingBloomFilter \<Rightarrow> CRollingBloomFilter" where
  "rolling_insert vKey f =
     (let f = (if nEntriesThisGeneration f = nEntriesPerGeneration f then
                 (let g = (if nGeneration f + 1 = 4 then 1 else nGeneration f + 1)
                  in f\<lparr>nEntriesThisGeneration := 0, nGeneration := g, rb_data := wipe g (rb_data f)\<rparr>)
               else f);
          f = f\<lparr>nEntriesThisGeneration := nEntriesThisGeneration f + 1\<rparr>
      in f\<lparr>rb_data := insert_positions (nGeneration f) (rb_nTweak f) vKey [0..<rb_nHashFuncs f] (rb_data f)\<rparr>)"

definition rolling_contains :: "bytes \<Rightarrow> CRollingBloomFilter \<Rightarrow> bool" where
  "rolling_contains vKey f \<longleftrightarrow>
     list_all (\<lambda>i.
       let h = RollingBloomHash i (rb_nTweak f) vKey;
           b = unat (h AND 0x3F);
           pos = FastMod h (length (rb_data f))
       in drop_bit b (rb_data f ! (2 * (pos div 2)) OR rb_data f ! (2 * (pos div 2) + 1)) AND 1 \<noteq> 0)
     [0..<rb_nHashFuncs f]"

section \<open>Positions and their generations\<close>

definition gen_at :: "u64 list \<Rightarrow> nat \<times> nat \<Rightarrow> bool \<times> bool" where
  "gen_at data q = (bit (data ! (2 * fst q)) (snd q), bit (data ! (2 * fst q + 1)) (snd q))"

definition gen_code :: "nat \<Rightarrow> bool \<times> bool" where
  "gen_code g = (odd g, odd (g div 2))"

definition touched :: "nat \<Rightarrow> u32 \<Rightarrow> bytes \<Rightarrow> nat \<Rightarrow> nat \<times> nat" where
  "touched len tweak key i =
     (FastMod (RollingBloomHash i tweak key) len div 2, unat (RollingBloomHash i tweak key AND 0x3F))"

lemma FastMod_less:
  assumes "0 < k" "k \<le> 2 ^ 32"
  shows "FastMod x k < k"
proof -
  have a: "unat x * k < 2 ^ 32 * k" using assms(1) unat_u32_lt [of x] by simp
  moreover have "2 ^ 32 * k \<le> 2 ^ 64" using mult_le_mono2 [OF assms(2), of "2 ^ 32"] by simp
  ultimately have "unat x * k mod 2 ^ 64 = unat x * k" by (intro mod_less) (rule order.strict_trans2)
  moreover have "unat x * k div 2 ^ 32 < k" using a by (simp add: less_mult_imp_div_less mult.commute)
  ultimately show ?thesis using assms(2) by (simp only: FastMod_def) simp
qed

lemma six_bits: "unat (h AND 0x3F :: u32) < 64"
proof -
  have "h AND 0x3F = take_bit 6 h" by (simp add: take_bit_eq_mask mask_eq_exp_minus_1)
  then show ?thesis by (simp add: take_bit_eq_mod unat_mod_distrib)
qed

definition shaped :: "u64 list \<Rightarrow> bool" where
  "shaped data \<longleftrightarrow> even (length data) \<and> data \<noteq> [] \<and> length data \<le> 2 ^ 32"

definition position :: "u64 list \<Rightarrow> nat \<times> nat \<Rightarrow> bool" where
  "position data q \<longleftrightarrow> 2 * fst q + 1 < length data \<and> snd q < 64"

lemma touched_position: "shaped data \<Longrightarrow> length data = len \<Longrightarrow> position data (touched len tweak key i)"
proof -
  assume s: "shaped data" "length data = len"
  then have "FastMod (RollingBloomHash i tweak key) len < len" by (intro FastMod_less) (auto simp: shaped_def)
  moreover have "p < len \<Longrightarrow> 2 * (p div 2) + 1 < len" for p using s by (auto simp: shaped_def) presburger
  ultimately show ?thesis using s(2) by (simp add: position_def touched_def six_bits)
qed

lemma set_generation_at:
  assumes "position data (pos div 2, b)" "position data q" "g < 4"
  shows "gen_at (set_generation g pos b data) q = (if q = (pos div 2, b) then gen_code g else gen_at data q)"
proof -
  have g: "of_nat (g mod 2) = (if odd g then 1 else 0 :: u64)" "of_nat (g div 2) = (if odd (g div 2) then 1 else 0 :: u64)"
  proof -
    have "g = 0 \<or> g = 1 \<or> g = 2 \<or> g = 3" using assms(3) by linarith
    then show "of_nat (g mod 2) = (if odd g then 1 else 0 :: u64)" "of_nat (g div 2) = (if odd (g div 2) then 1 else 0 :: u64)"
      by auto
  qed
  define upd where "upd = (\<lambda>(x :: u64) (v :: u64). (x AND NOT (push_bit b 1)) OR push_bit b v)"
  have bits: "bit (upd x (if c then 1 else 0)) k \<longleftrightarrow> (if k = b then c else bit x k)" if "k < 64" for x k c
    using that assms(1) by (auto simp: upd_def bit_simps position_def)
  have "set_generation g pos b data =
      data[2 * (pos div 2) := upd (data ! (2 * (pos div 2))) (of_nat (g mod 2)),
           2 * (pos div 2) + 1 := upd (data ! (2 * (pos div 2) + 1)) (of_nat (g div 2))]"
    by (simp add: set_generation_def Let_def upd_def)
  moreover obtain k c where q: "q = (k, c)" by (cases q) auto
  moreover have "2 * (pos div 2) + 1 < length data" "2 * k + 1 < length data" "c < 64" using assms(1,2) q by (simp_all add: position_def)
  ultimately show ?thesis
    by (cases "k = pos div 2") (auto simp: gen_at_def gen_code_def g bits nth_list_update simp del: of_nat_mod)
qed

lemma length_set_generation [simp]: "length (set_generation g pos b data) = length data"
  by (simp add: set_generation_def Let_def)

lemma insert_positions_at:
  assumes "g < 4" "shaped data" "length data = len" "position data q"
  shows "length (insert_positions g tweak key is data) = len \<and>
    gen_at (insert_positions g tweak key is data) q = (if q \<in> touched len tweak key ` set is then gen_code g else gen_at data q)"
  using assms(2-4)
proof (induction "is" arbitrary: data)
  case (Cons i "is")
  define d where "d = set_generation g (FastMod (RollingBloomHash i tweak key) len) (unat (RollingBloomHash i tweak key AND 0x3F)) data"
  have l: "length d = length data" by (simp add: d_def)
  have "position data (touched len tweak key i)" using touched_position Cons.prems by blast
  then have "gen_at d q = (if q = touched len tweak key i then gen_code g else gen_at data q)"
    unfolding d_def using set_generation_at [of data _ _ q g] Cons.prems(3) assms(1) by (simp add: touched_def)
  moreover have "shaped d" "position d q" using l Cons.prems by (auto simp: shaped_def position_def)
  ultimately show ?case using Cons.IH [of d] l Cons.prems(2) by (auto simp: d_def [symmetric] Let_def)
qed simp

lemma length_wipe [simp]: "length (wipe g data) = length data"
  by (induction g data rule: wipe.induct) (simp_all add: Let_def)

lemma wipe_at:
  "even (length data) \<Longrightarrow> position data q \<Longrightarrow> g < 4 \<Longrightarrow>
   gen_at (wipe g data) q = (if gen_at data q = gen_code g then (False, False) else gen_at data q)"
proof (induction g data arbitrary: q rule: wipe.induct)
  case (1 g p1 p2 data)
  have m: "bit (0 - of_nat (g mod 2) :: u64) k \<longleftrightarrow> odd g" "bit (0 - of_nat (g div 2) :: u64) k \<longleftrightarrow> odd (g div 2)" if "k < 64" for k
  proof -
    have "g = 0 \<or> g = 1 \<or> g = 2 \<or> g = 3" using 1(4) by linarith
    then show "bit (0 - of_nat (g mod 2) :: u64) k \<longleftrightarrow> odd g" "bit (0 - of_nat (g div 2) :: u64) k \<longleftrightarrow> odd (g div 2)"
      using that by auto
  qed
  define m1 m2 where "m1 = (0 - of_nat (g mod 2) :: u64)" and "m2 = (0 - of_nat (g div 2) :: u64)"
  have w: "wipe g (p1 # p2 # data) = (p1 AND ((p1 XOR m1) OR (p2 XOR m2))) # (p2 AND ((p1 XOR m1) OR (p2 XOR m2))) # wipe g data"
    by (simp add: Let_def m1_def m2_def)
  have mb: "bit m1 k \<longleftrightarrow> odd g" "bit m2 k \<longleftrightarrow> odd (g div 2)" if "k < 64" for k unfolding m1_def m2_def using m that by blast+
  obtain k b where q: "q = (k, b)" by (cases q) auto
  have b: "b < 64" using 1(3) q by (simp add: position_def)
  show ?case
  proof (cases k)
    case 0
    then show ?thesis unfolding w using q b by (auto simp: gen_at_def gen_code_def bit_simps mb)
  next
    case (Suc k')
    have e: "gen_at (x # y # zs) (Suc k', b) = gen_at zs (k', b)" for x y zs by (simp add: gen_at_def)
    have "gen_at (wipe g data) (k', b) = (if gen_at data (k', b) = gen_code g then (False, False) else gen_at data (k', b))"
      using 1(1) [of _ _ _ "(k', b)"] 1(2-4) q Suc by (auto simp: position_def)
    then show ?thesis unfolding q Suc w by (simp only: e)
  qed
qed (auto simp: position_def)

lemma contains_iff: "rolling_contains key f \<longleftrightarrow>
  (\<forall>i < rb_nHashFuncs f. gen_at (rb_data f) (touched (length (rb_data f)) (rb_nTweak f) key i) \<noteq> (False, False))"
proof -
  have "drop_bit b (x OR y) AND 1 \<noteq> 0 \<longleftrightarrow> (bit x b, bit y b) \<noteq> (False, False)" for b and x y :: u64
    by (simp add: and_one_eq odd_iff_mod_2_eq_one [symmetric] bit_iff_odd_drop_bit [symmetric] bit_or_iff flip: drop_bit_or)
  then show ?thesis unfolding rolling_contains_def list_all_iff Let_def gen_at_def touched_def fst_conv snd_conv by (simp add: Ball_def)
qed

section \<open>What the filter remembers\<close>

text \<open>
  The state after the keys \<open>ks\<close>: the number \<open>j\<close> of a key gives its generation \<open>j div P\<close>, counted from 0. A key at most two
  generations old has all its positions marked by its own generation or by a later one.
\<close>

definition now :: "nat \<Rightarrow> bytes list \<Rightarrow> nat" where
  "now P ks = (length ks - 1) div P"

definition remembers :: "nat \<Rightarrow> bytes list \<Rightarrow> CRollingBloomFilter \<Rightarrow> bool" where
  "remembers P ks f \<longleftrightarrow> shaped (rb_data f) \<and> nEntriesPerGeneration f = P \<and>
     nEntriesThisGeneration f = (if ks = [] then 0 else (length ks - 1) mod P + 1) \<and>
     nGeneration f = now P ks mod 3 + 1 \<and>
     (\<forall>j < length ks. now P ks \<le> j div P + 2 \<longrightarrow>
       (\<forall>i < rb_nHashFuncs f. \<exists>e. j div P \<le> e \<and> e \<le> now P ks \<and>
          gen_at (rb_data f) (touched (length (rb_data f)) (rb_nTweak f) (ks ! j) i) = gen_code (e mod 3 + 1)))"

lemma gen_code_inj: "g \<in> {1, 2, 3} \<Longrightarrow> h \<in> {1, 2, 3} \<Longrightarrow> gen_code g = gen_code h \<Longrightarrow> g = h"
  by (auto simp: gen_code_def)

lemma now_step:
  assumes "0 < P"
  shows "ks \<noteq> [] \<Longrightarrow> (length ks - 1) mod P + 1 = P \<Longrightarrow> now P (ks @ [k]) = now P ks + 1 \<and> length ks mod P = 0"
    and "ks = [] \<or> (length ks - 1) mod P + 1 \<noteq> P \<Longrightarrow> now P (ks @ [k]) = now P ks \<and>
      length ks mod P = (if ks = [] then 0 else (length ks - 1) mod P + 1)"
proof -
  show "ks \<noteq> [] \<Longrightarrow> (length ks - 1) mod P + 1 = P \<Longrightarrow> now P (ks @ [k]) = now P ks + 1 \<and> length ks mod P = 0"
    using mod_Suc [of "length ks - 1" P] div_Suc [of "length ks - 1" P] by (simp add: now_def Suc_diff_1)
  show "ks = [] \<or> (length ks - 1) mod P + 1 \<noteq> P \<Longrightarrow> now P (ks @ [k]) = now P ks \<and>
      length ks mod P = (if ks = [] then 0 else (length ks - 1) mod P + 1)"
    using mod_Suc [of "length ks - 1" P] div_Suc [of "length ks - 1" P] by (cases "ks = []") (auto simp: now_def Suc_diff_1)
qed

text \<open>After the check of the generation, before the positions of the new key are set.\<close>

definition turned :: "CRollingBloomFilter \<Rightarrow> CRollingBloomFilter" where
  "turned f = (if nEntriesThisGeneration f = nEntriesPerGeneration f then
     (let g = (if nGeneration f + 1 = 4 then 1 else nGeneration f + 1)
      in f\<lparr>nEntriesThisGeneration := 0, nGeneration := g, rb_data := wipe g (rb_data f)\<rparr>) else f)"

lemma turned_ok:
  assumes "remembers P ks f" "0 < P" and c_def: "c = now P (ks @ [k])"
  shows "shaped (rb_data (turned f)) \<and> length (rb_data (turned f)) = length (rb_data f) \<and> nEntriesPerGeneration (turned f) = P \<and>
    rb_nTweak (turned f) = rb_nTweak f \<and> rb_nHashFuncs (turned f) = rb_nHashFuncs f \<and>
    nEntriesThisGeneration (turned f) = length ks mod P \<and> nGeneration (turned f) = c mod 3 + 1 \<and>
    (\<forall>j < length ks. c \<le> j div P + 2 \<longrightarrow>
       (\<forall>i < rb_nHashFuncs f. \<exists>e. j div P \<le> e \<and> e \<le> c \<and>
          gen_at (rb_data (turned f)) (touched (length (rb_data f)) (rb_nTweak f) (ks ! j) i) = gen_code (e mod 3 + 1)))"
proof -
  note r = assms(1) [unfolded remembers_def]
  show ?thesis
  proof (cases "nEntriesThisGeneration f = P")
    case True
    then have ne: "ks \<noteq> []" "(length ks - 1) mod P + 1 = P" using r assms(2) by (auto split: if_splits)
    then have c: "c = now P ks + 1" "length ks mod P = 0" unfolding c_def using now_step(1) [OF assms(2)] by blast+
    define g where "g = c mod 3 + 1"
    have g: "g = (if nGeneration f + 1 = 4 then 1 else nGeneration f + 1)" "g < 4" using r c(1) by (auto simp: g_def mod_Suc)
    have t: "turned f = f\<lparr>nEntriesThisGeneration := 0, nGeneration := g, rb_data := wipe g (rb_data f)\<rparr>"
      using True r g(1) by (simp add: turned_def Let_def)
    have "\<exists>e. j div P \<le> e \<and> e \<le> c \<and> gen_at (wipe g (rb_data f)) (touched (length (rb_data f)) (rb_nTweak f) (ks ! j) i) = gen_code (e mod 3 + 1)"
      if j: "j < length ks" "c \<le> j div P + 2" "i < rb_nHashFuncs f" for i j
    proof -
      let ?q = "touched (length (rb_data f)) (rb_nTweak f) (ks ! j) i"
      obtain e where e: "j div P \<le> e" "e \<le> now P ks" "gen_at (rb_data f) ?q = gen_code (e mod 3 + 1)" using r j c(1) by fastforce
      have "e < c" "c \<le> e + 2" using e(1,2) j(2) c(1) by linarith+
      then have "e mod 3 \<noteq> c mod 3" by presburger
      moreover have "e mod 3 + 1 \<in> {1, 2, 3}" "c mod 3 + 1 \<in> {1, 2, 3}" by auto
      ultimately have "gen_code (e mod 3 + 1) \<noteq> gen_code g" using gen_code_inj [of "e mod 3 + 1" "c mod 3 + 1"] by (auto simp: g_def)
      moreover have "position (rb_data f) ?q" using touched_position r by blast
      ultimately have "gen_at (wipe g (rb_data f)) ?q = gen_code (e mod 3 + 1)"
        using wipe_at [of "rb_data f" ?q g] g(2) e(3) r by (simp add: shaped_def)
      then show ?thesis using e c(1) by (intro exI [of _ e]) simp
    qed
    moreover have "shaped (wipe g (rb_data f))" using r by (simp add: shaped_def flip: length_greater_0_conv)
    ultimately show ?thesis using r c unfolding t by (simp add: g_def)
  next
    case False
    then have "ks = [] \<or> (length ks - 1) mod P + 1 \<noteq> P" using r by auto
    from now_step(2) [OF assms(2) this] have "c = now P ks" "length ks mod P = nEntriesThisGeneration f" using r by (auto simp: c_def)
    moreover have "turned f = f" using False r by (simp add: turned_def)
    ultimately show ?thesis using r by simp
  qed
qed

lemma rolling_insert_ok:
  assumes "remembers P ks f" "0 < P"
  shows "remembers P (ks @ [k]) (rolling_insert k f)"
proof -
  define t where "t = turned f"
  define c where "c = now P (ks @ [k])"
  define d where "d = insert_positions (nGeneration t) (rb_nTweak t) k [0..<rb_nHashFuncs t] (rb_data t)"
  note T = turned_ok [OF assms c_def, folded t_def]
  have i: "rolling_insert k f = t\<lparr>nEntriesThisGeneration := nEntriesThisGeneration t + 1, rb_data := d\<rparr>"
    by (simp add: rolling_insert_def t_def turned_def d_def Let_def)
  have g: "nGeneration t < 4" "nGeneration t = c mod 3 + 1" using T by auto
  have at: "length d = length (rb_data f) \<and> gen_at d q =
      (if q \<in> touched (length (rb_data f)) (rb_nTweak f) k ` {0..<rb_nHashFuncs f} then gen_code (c mod 3 + 1) else gen_at (rb_data t) q)"
    if "position (rb_data t) q" for q
    using insert_positions_at [OF g(1), of "rb_data t" "length (rb_data f)" q "rb_nTweak t" k "[0..<rb_nHashFuncs t]"] T that g(2)
    by (simp add: d_def)
  have p: "position (rb_data t) (touched (length (rb_data f)) (rb_nTweak f) k' i)" for k' i using touched_position T by blast
  have len: "length d = length (rb_data f)" using at [OF p [of k 0]] by simp
  have "\<exists>e. j div P \<le> e \<and> e \<le> c \<and> gen_at d (touched (length (rb_data f)) (rb_nTweak f) ((ks @ [k]) ! j) i) = gen_code (e mod 3 + 1)"
    if j: "j < length (ks @ [k])" "c \<le> j div P + 2" "i < rb_nHashFuncs f" for i j
  proof (cases "touched (length (rb_data f)) (rb_nTweak f) ((ks @ [k]) ! j) i \<in> touched (length (rb_data f)) (rb_nTweak f) k ` {0..<rb_nHashFuncs f}")
    case True
    have "j \<le> length ks" using j(1) by simp
    then have "j div P \<le> c" by (simp add: c_def now_def div_le_mono)
    then show ?thesis using True at [OF p [of "(ks @ [k]) ! j" i]] by auto
  next
    case False
    then have "j < length ks" using j by (cases "j = length ks") auto
    then obtain e where "j div P \<le> e" "e \<le> c" "gen_at (rb_data t) (touched (length (rb_data f)) (rb_nTweak f) (ks ! j) i) = gen_code (e mod 3 + 1)"
      using T j(2,3) by blast
    then show ?thesis using False at [OF p [of "ks ! j" i]] \<open>j < length ks\<close> by (auto simp: nth_append)
  qed
  moreover have "shaped d" using T len by (auto simp: shaped_def)
  ultimately show ?thesis unfolding remembers_def i using T len g(2) by (simp add: c_def [symmetric])
qed

lemma rolling_fold:
  assumes "0 < P" "remembers P [] f"
  shows "remembers P ks (fold rolling_insert ks f) "
  using assms by (induction ks rule: rev_induct) (simp_all add: rolling_insert_ok)

lemma make_remembers:
  assumes "0 < nFilterBits" "nFilterBits < 2 ^ 31"
  shows "remembers ((nElements + 1) mod 2 ^ 32 div 2) [] (make_CRollingBloomFilter nElements funcs nFilterBits rand)"
proof -
  have m: "(nFilterBits + 63) mod 2 ^ 32 = nFilterBits + 63" using assms(2) by simp
  have "0 < (nFilterBits + 63) div 64" "(nFilterBits + 63) div 64 * 2 \<le> 2 ^ 32" using assms by simp_all
  then show ?thesis
    unfolding remembers_def make_CRollingBloomFilter_def rolling_reset_def m by (simp add: shaped_def now_def)
qed

section \<open>Properties\<close>

text \<open>
  C18. A key that is among the last \<open>nElements\<close> keys inserted is reported as contained, whatever was inserted before and after
  it; the comment in \<open>bloom.h\<close> promises this.
\<close>

theorem rolling_bloom_remembers:
  assumes "0 < nFilterBits" "nFilterBits < 2 ^ 31" "nElements < 2 ^ 31"
    and "j < length ks" "length ks - j \<le> nElements"
  shows "rolling_contains (ks ! j) (fold rolling_insert ks (make_CRollingBloomFilter nElements funcs nFilterBits rand))"
proof -
  define P where "P = (nElements + 1) mod 2 ^ 32 div 2"
  define f where "f = fold rolling_insert ks (make_CRollingBloomFilter nElements funcs nFilterBits rand)"
  have P: "0 < P" "nElements \<le> 2 * P" using assms(3-5) by (simp_all add: P_def)
  then have r: "remembers P ks f" unfolding f_def using make_remembers [OF assms(1,2)] by (intro rolling_fold) (simp_all add: P_def)
  have "length ks - 1 \<le> j + 2 * P" using assms(5) P(2) by linarith
  then have "now P ks \<le> (j + 2 * P) div P" by (simp add: now_def div_le_mono)
  also have "\<dots> = j div P + 2" using P(1) by simp
  finally have "now P ks \<le> j div P + 2" .
  then have "\<exists>e. gen_at (rb_data f) (touched (length (rb_data f)) (rb_nTweak f) (ks ! j) i) = gen_code (e mod 3 + 1)"
    if "i < rb_nHashFuncs f" for i using r assms(4) that unfolding remembers_def by blast
  moreover have "gen_code (e mod 3 + 1) \<noteq> (False, False)" for e
  proof -
    have "e mod 3 = 0 \<or> e mod 3 = 1 \<or> e mod 3 = 2" by presburger
    then show ?thesis by (auto simp: gen_code_def)
  qed
  ultimately show ?thesis unfolding f_def [symmetric] contains_iff by metis
qed

theorem rolling_bloom_remembers_witness:
  "rolling_contains [2] (fold rolling_insert [[1], [2], [3]] (make_CRollingBloomFilter 2 3 100 7))"
  using rolling_bloom_remembers [of 100 2 1 "[[1], [2], [3]]" 3 7] by simp

end
