(* ===== verification/Hasher.thy ===== *)
theory Hasher
  imports Prelude
begin

text \<open>
  The part that the hashers of \<open>src/src/crypto\<close> have in common. \<open>CSHA256\<close>, \<open>CSHA512\<close>, \<open>CSHA1\<close> and \<open>CRIPEMD160\<close>
  have the same three members, and their \<open>Write\<close> methods differ only in the size of a block and in the \<open>Transform\<close>
  that they call; here both are arguments. The buffer keeps its size, and what it holds beyond the bytes
  collected so far is left from before; a fresh hasher has an uninitialised buffer, which is an argument too.

  The locale \<open>block_hasher\<close> holds what follows from that alone: a hasher stands for the bytes written to it, in
  whatever pieces they came, and padding them to whole blocks has the effect of one fold over the blocks.
\<close>

section \<open>Bytes in big-endian order\<close>

definition ReadBE32 :: "bytes \<Rightarrow> u32" where
  "ReadBE32 p = le_decode (rev (take 4 p))"

definition ReadBE64 :: "bytes \<Rightarrow> u64" where
  "ReadBE64 p = le_decode (rev (take 8 p))"

definition WriteBE32 :: "u32 \<Rightarrow> bytes" where
  "WriteBE32 x = rev (le_encode 4 x)"

definition WriteBE64 :: "u64 \<Rightarrow> bytes" where
  "WriteBE64 x = rev (le_encode 8 x)"

lemma length_WriteBE [simp]: "length (WriteBE32 x) = 4" "length (WriteBE64 y) = 8"
  by (simp_all add: WriteBE32_def WriteBE64_def)

section \<open>Writing in pieces\<close>

record 's hasher =
  hs_s :: 's
  hs_buf :: bytes
  hs_bytes :: u64

definition memcpy :: "bytes \<Rightarrow> nat \<Rightarrow> bytes \<Rightarrow> bytes" where
  "memcpy buf off data = take off buf @ data @ drop (off + length data) buf"

text \<open>The loop that processes full blocks directly from the source; it returns what is left.\<close>

function process_full :: "nat \<Rightarrow> ('s \<Rightarrow> bytes \<Rightarrow> 's) \<Rightarrow> bytes \<Rightarrow> 's hasher \<Rightarrow> 's hasher \<times> bytes" where
  "process_full B Transform data h =
     (if 0 < B \<and> B \<le> length data
      then process_full B Transform (drop B data)
             (h\<lparr>hs_s := Transform (hs_s h) (take B data), hs_bytes := hs_bytes h + of_nat B\<rparr>)
      else (h, data))"
  by pat_completeness auto
termination by (relation "measure (\<lambda>(B, T, data, h). length data)") auto

declare process_full.simps [simp del]

definition fill_buffer :: "nat \<Rightarrow> ('s \<Rightarrow> bytes \<Rightarrow> 's) \<Rightarrow> bytes \<Rightarrow> 's hasher \<Rightarrow> 's hasher \<times> bytes \<times> nat" where
  "fill_buffer B Transform data h =
     (let bufsize = unat (hs_bytes h) mod B in
      if bufsize \<noteq> 0 \<and> bufsize + length data \<ge> B then
        let buf = memcpy (hs_buf h) bufsize (take (B - bufsize) data) in
        (h\<lparr>hs_s := Transform (hs_s h) buf, hs_buf := buf, hs_bytes := hs_bytes h + of_nat (B - bufsize)\<rparr>,
         drop (B - bufsize) data, 0)
      else (h, data, bufsize))"

definition hasher_Write :: "nat \<Rightarrow> ('s \<Rightarrow> bytes \<Rightarrow> 's) \<Rightarrow> bytes \<Rightarrow> 's hasher \<Rightarrow> 's hasher" where
  "hasher_Write B Transform data h =
     (let (h, data, bufsize) = fill_buffer B Transform data h;
          (h, data) = process_full B Transform data h
      in if data \<noteq> []
         then h\<lparr>hs_buf := memcpy (hs_buf h) bufsize data, hs_bytes := hs_bytes h + of_nat (length data)\<rparr>
         else h)"

section \<open>Blocks of a message\<close>

function full_blocks :: "nat \<Rightarrow> bytes \<Rightarrow> bytes list" where
  "full_blocks B m = (if 0 < B \<and> B \<le> length m then take B m # full_blocks B (drop B m) else [])"
  by pat_completeness auto
termination by (relation "measure (\<lambda>(B, m). length m)") auto

declare full_blocks.simps [simp del]

definition tail_bytes :: "nat \<Rightarrow> bytes \<Rightarrow> bytes" where
  "tail_bytes B m = drop (length m div B * B) m"

lemma length_tail_bytes [simp]: "length (tail_bytes B m) = length m mod B"
  by (simp add: tail_bytes_def minus_div_mult_eq_mod)

lemma tail_bytes_Nil: "length m mod B = 0 \<Longrightarrow> tail_bytes B m = []"
  by (metis length_0_conv length_tail_bytes)

lemma full_blocks_short [simp]: "length m < B \<Longrightarrow> full_blocks B m = []"
  by (simp add: full_blocks.simps)

lemma tail_bytes_short [simp]: "length m < B \<Longrightarrow> tail_bytes B m = m"
  by (simp add: tail_bytes_def)

lemma tail_bytes_step: "0 < B \<Longrightarrow> B \<le> length m \<Longrightarrow> tail_bytes B (drop B m) = tail_bytes B m"
  by (simp add: tail_bytes_def le_div_geq add.commute)

lemma full_blocks_cons: "0 < B \<Longrightarrow> length b = B \<Longrightarrow> full_blocks B (b @ m) = b # full_blocks B m"
  by (subst full_blocks.simps) simp

lemma full_blocks_append: "0 < B \<Longrightarrow> full_blocks B (m @ d) = full_blocks B m @ full_blocks B (tail_bytes B m @ d)"
proof (induction B m rule: full_blocks.induct)
  case (1 B m)
  show ?case
  proof (cases "B \<le> length m")
    case True
    then have "full_blocks B (drop B m @ d) = full_blocks B (drop B m) @ full_blocks B (tail_bytes B (drop B m) @ d)"
      using 1 by simp
    then show ?thesis using True 1(2) full_blocks.simps [of B m] full_blocks.simps [of B "m @ d"]
      by (simp add: tail_bytes_step)
  qed simp
qed

lemma tail_bytes_append: "0 < B \<Longrightarrow> tail_bytes B (m @ d) = tail_bytes B (tail_bytes B m @ d)"
proof -
  assume "0 < B"
  define q where "q = length m div B"
  have q: "q * B \<le> length m" by (simp add: q_def)
  have l: "length (m @ d) div B = q + (length m mod B + length d) div B"
    by (simp add: q_def div_add1_eq [of "length m" "length d"] div_add1_eq [of "length m mod B" "length d"])
  have "drop (q * B) (m @ d) = tail_bytes B m @ d" using q by (simp add: tail_bytes_def q_def)
  moreover have "tail_bytes B (m @ d) = drop ((length m mod B + length d) div B * B) (drop (q * B) (m @ d))"
    unfolding tail_bytes_def l drop_drop by (simp add: algebra_simps del: drop_append)
  ultimately show ?thesis by (simp add: tail_bytes_def [of B "tail_bytes B m @ d"])
qed

text \<open>The fewest zeros that, after the byte \<open>0x80\<close> and before the length in \<open>L\<close> bytes, fill the last block.\<close>

definition padding_zeros :: "nat \<Rightarrow> nat \<Rightarrow> nat \<Rightarrow> nat" where
  "padding_zeros B L len = hd (filter (\<lambda>z. (len + 1 + z + L) mod B = 0) [0..<B])"

lemma padding_zeros_eq:
  assumes "z < B" "(len + 1 + z + L) mod B = 0"
  shows "padding_zeros B L len = z"
proof -
  have u: "z' = z" if "z' < B" "(len + 1 + z' + L) mod B = 0" for z'
  proof -
    have "(int z' - int z) mod int B = 0"
      using arg_cong [OF that(2), of int] arg_cong [OF assms(2), of int]
        mod_diff_eq [of "int (len + 1 + z' + L)" "int B" "int (len + 1 + z + L)"] by (simp add: of_nat_mod)
    then have "int B dvd int z' - int z" by (simp add: dvd_eq_mod_eq_0)
    moreover have "\<bar>int z' - int z\<bar> < int B" using that(1) assms(1) by simp
    ultimately show ?thesis using dvd_imp_le_int [of "int z' - int z" "int B"] by force
  qed
  have "z \<in> set (filter (\<lambda>z. (len + 1 + z + L) mod B = 0) [0..<B])" using assms by simp
  then have "filter (\<lambda>z. (len + 1 + z + L) mod B = 0) [0..<B] \<noteq> []" by (metis empty_iff list.set(1))
  then have "hd (filter (\<lambda>z. (len + 1 + z + L) mod B = 0) [0..<B]) \<in> set (filter (\<lambda>z. (len + 1 + z + L) mod B = 0) [0..<B])"
    by (rule hd_in_set)
  then show ?thesis unfolding padding_zeros_def by (intro u) auto
qed

lemma pad_length:
  assumes "0 < B" "L < B" "z = (2 * B - 1 - L - n mod B) mod B"
  shows "padding_zeros B L n = z" "z < B"
proof -
  have r: "n mod B < B" using assms(1) by simp
  show "z < B" using assms(1,3) by simp
  have "z + n mod B + 1 + L = (if n mod B + 1 + L \<le> B then B else 2 * B)"
  proof (cases "n mod B + 1 + L \<le> B")
    case True
    then have "2 * B - 1 - L - n mod B = (B - 1 - L - n mod B) + B" by linarith
    moreover have "B - 1 - L - n mod B < B" using assms(1) by linarith
    ultimately have "z = B - 1 - L - n mod B" using assms(3) by (metis mod_add_self2 mod_less)
    then show ?thesis using True by simp
  next
    case False
    then have "2 * B - 1 - L - n mod B < B" using assms(1) by linarith
    then have "z = 2 * B - 1 - L - n mod B" using assms(3) by simp
    then have "z + n mod B + 1 + L = 2 * B" using r assms(2) by linarith
    then show ?thesis using False by (simp only: if_False)
  qed
  then have "(n mod B + (z + 1 + L)) mod B = 0" by (simp add: algebra_simps)
  then have "(n + 1 + z + L) mod B = 0" using mod_add_left_eq [of n B "z + 1 + L"] by (simp add: algebra_simps)
  then show "padding_zeros B L n = z" by (rule padding_zeros_eq [OF \<open>z < B\<close>])
qed

text \<open>The length in bits as bytes.\<close>

lemma length_bytes_le: "le_encode 8 (push_bit 3 (of_nat n :: u64)) = map (\<lambda>i. of_nat (8 * n div 256 ^ i)) [0..<8]"
proof -
  have "ucast (drop_bit (8 * i) (push_bit 3 (of_nat n :: u64))) = (of_nat (8 * n div 256 ^ i) :: u8)" if "i < 8" for i
  proof -
    have "push_bit 3 (of_nat n :: u64) = of_nat (8 * n)" by (simp add: push_bit_eq_mult)
    moreover have "ucast (drop_bit (8 * i) (of_nat m :: u64)) = (of_nat (m div 256 ^ i) :: u8)" for m
    proof -
      have "(256 :: nat) ^ i = 2 ^ (8 * i)" by (simp add: power_mult)
      then have "of_nat (m div 256 ^ i) = (of_nat (drop_bit (8 * i) m) :: u8)" by (simp add: drop_bit_eq_div)
      moreover have "ucast (drop_bit (8 * i) (of_nat m :: u64)) = (of_nat (drop_bit (8 * i) m) :: u8)"
        using that by (intro bit_word_eqI) (auto simp: bit_simps)
      ultimately show ?thesis by simp
    qed
    ultimately show ?thesis by (simp only:)
  qed
  then show ?thesis by (simp add: le_encode_def)
qed

lemma length_bytes: "WriteBE64 (push_bit 3 (of_nat n)) = map (\<lambda>i. of_nat (8 * n div 256 ^ i)) (rev [0..<8])"
  by (simp only: WriteBE64_def length_bytes_le rev_map)

lemma map_constant: "(\<And>x. x \<in> set xs \<Longrightarrow> f x = c) \<Longrightarrow> map f xs = replicate (length xs) c"
  by (induction xs) simp_all

section \<open>What a hasher stands for\<close>

locale block_hasher =
  fixes B :: nat and Transform :: "'s \<Rightarrow> bytes \<Rightarrow> 's" and initial :: 's
  assumes block_size: "0 < B" "B dvd 2 ^ 64"
begin

definition stands_for :: "'s hasher \<Rightarrow> bytes \<Rightarrow> bool" where
  "stands_for h m \<longleftrightarrow> hs_s h = foldl Transform initial (full_blocks B m) \<and> hs_bytes h = of_nat (length m) \<and>
     length (hs_buf h) = B \<and> take (length m mod B) (hs_buf h) = tail_bytes B m"

lemma stands_for_empty: "length junk = B \<Longrightarrow> stands_for \<lparr>hs_s = initial, hs_buf = junk, hs_bytes = 0\<rparr> []"
  using block_size by (simp add: stands_for_def)

lemma bytes_mod: "unat (of_nat k :: u64) mod B = k mod B"
  using block_size(2) by (simp add: unsigned_of_nat take_bit_eq_mod mod_mod_cancel)

lemma stands_for_bufsize: "stands_for h m \<Longrightarrow> unat (hs_bytes h) mod B = length m mod B"
  by (simp add: stands_for_def bytes_mod)

text \<open>Processing full blocks, once the blocks written before are complete.\<close>

lemma stands_for_block:
  assumes "stands_for h m" "length m mod B = 0" "length b = B"
  shows "stands_for (h\<lparr>hs_s := Transform (hs_s h) b, hs_bytes := hs_bytes h + of_nat B\<rparr>) (m @ b)"
proof -
  have "tail_bytes B m = []" using assms(2) by (rule tail_bytes_Nil)
  then have "full_blocks B (m @ b) = full_blocks B m @ [b]"
    using full_blocks_append [OF block_size(1), of m b] full_blocks_cons [OF block_size(1) assms(3), of "[]"] block_size by simp
  moreover have "length (m @ b) mod B = 0" using assms(2,3) by simp
  moreover from this have "tail_bytes B (m @ b) = []" by (rule tail_bytes_Nil)
  ultimately show ?thesis using assms by (simp add: stands_for_def)
qed

lemma process_full_stands:
  assumes "stands_for h m" "length m mod B = 0"
  shows "\<exists>h' d rest. process_full B Transform data h = (h', rest) \<and> data = d @ rest \<and> length d mod B = 0 \<and>
    length rest < B \<and> stands_for h' (m @ d)"
  using assms
proof (induction data arbitrary: h m rule: length_induct)
  case (1 data)
  show ?case
  proof (cases "B \<le> length data")
    case False
    then have "process_full B Transform data h = (h, data)" by (simp add: process_full.simps)
    then show ?thesis using False 1(2) by (intro exI [of _ h] exI [of _ "[]"] exI [of _ data]) simp
  next
    case True
    define h1 where "h1 = h\<lparr>hs_s := Transform (hs_s h) (take B data), hs_bytes := hs_bytes h + of_nat B\<rparr>"
    have "stands_for h1 (m @ take B data)" unfolding h1_def using stands_for_block [OF 1(2,3)] True by simp
    moreover have "length (m @ take B data) mod B = 0" using 1(3) True by (simp add: min_absorb2)
    moreover have "length (drop B data) < length data" using True block_size(1) by simp
    ultimately have "\<exists>h' d rest. process_full B Transform (drop B data) h1 = (h', rest) \<and> drop B data = d @ rest \<and>
        length d mod B = 0 \<and> length rest < B \<and> stands_for h' ((m @ take B data) @ d)"
      by (intro 1(1) [rule_format]) simp_all
    then obtain h' d rest where r: "process_full B Transform (drop B data) h1 = (h', rest)" "drop B data = d @ rest"
      "length d mod B = 0" "length rest < B" "stands_for h' ((m @ take B data) @ d)"
      by (elim exE conjE) rule
    have "process_full B Transform data h = (h', rest)"
      using r(1) True block_size(1) process_full.simps [of B Transform data h] by (simp add: h1_def)
    moreover have "data = (take B data @ d) @ rest" using r(2) append_take_drop_id [of B data] by simp
    moreover have "length (take B data @ d) mod B = 0" using r(3) True by (simp add: min_absorb2)
    ultimately show ?thesis using r(4,5) by (intro exI [of _ h'] exI [of _ "take B data @ d"] exI [of _ rest]) simp
  qed
qed

text \<open>Bytes that do not fill the block only go to the buffer.\<close>

lemma stands_for_buffered:
  assumes "stands_for h m" "length m mod B + length d < B"
  shows "stands_for (h\<lparr>hs_buf := memcpy (hs_buf h) (length m mod B) d, hs_bytes := hs_bytes h + of_nat (length d)\<rparr>) (m @ d)"
proof -
  have l: "length (tail_bytes B m @ d) < B" using assms(2) by simp
  have "full_blocks B (m @ d) = full_blocks B m" "tail_bytes B (m @ d) = tail_bytes B m @ d"
    using full_blocks_append [OF block_size(1), of m d] tail_bytes_append [OF block_size(1), of m d] l by simp_all
  moreover have "length (m @ d) mod B = length m mod B + length d"
    using assms(2) mod_add_left_eq [of "length m" B "length d"] by simp
  ultimately show ?thesis using assms by (simp add: stands_for_def memcpy_def)
qed

lemma fill_buffer_stands:
  assumes "stands_for h m"
  shows "\<exists>h' d rest. fill_buffer B Transform data h = (h', rest, length (m @ d) mod B) \<and> data = d @ rest \<and> stands_for h' (m @ d) \<and>
    (length (m @ d) mod B = 0 \<or> length (m @ d) mod B + length rest < B)"
proof (cases "length m mod B \<noteq> 0 \<and> length m mod B + length data \<ge> B")
  case False
  then have "fill_buffer B Transform data h = (h, data, length m mod B)"
    using stands_for_bufsize [OF assms] by (auto simp: fill_buffer_def Let_def)
  then show ?thesis using False assms by (intro exI [of _ h] exI [of _ "[]"] exI [of _ data]) auto
next
  case True
  define r where "r = length m mod B"
  define d where "d = take (B - r) data"
  have r: "r < B" "length d = B - r" using True block_size by (auto simp: r_def d_def)
  have buf: "memcpy (hs_buf h) r d = tail_bytes B m @ d" using assms r by (simp add: stands_for_def memcpy_def r_def)
  have blk: "length (tail_bytes B m @ d) = B" using r by (simp add: r_def)
  have "full_blocks B (m @ d) = full_blocks B m @ [tail_bytes B m @ d]"
    using full_blocks_append [OF block_size(1), of m d] full_blocks_cons [OF block_size(1) blk, of "[]"] block_size by simp
  moreover have z: "length (m @ d) mod B = 0" using mod_add_left_eq [of "length m" B "length d"] r by (simp add: r_def)
  moreover from this have "tail_bytes B (m @ d) = []" by (rule tail_bytes_Nil)
  ultimately have "stands_for (h\<lparr>hs_s := Transform (hs_s h) (tail_bytes B m @ d), hs_buf := tail_bytes B m @ d,
      hs_bytes := hs_bytes h + of_nat (B - r)\<rparr>) (m @ d)"
    using assms blk r by (simp add: stands_for_def)
  moreover have "fill_buffer B Transform data h = (h\<lparr>hs_s := Transform (hs_s h) (tail_bytes B m @ d), hs_buf := tail_bytes B m @ d,
      hs_bytes := hs_bytes h + of_nat (B - r)\<rparr>, drop (B - r) data, 0)"
    using True stands_for_bufsize [OF assms] buf by (simp add: fill_buffer_def Let_def r_def d_def)
  moreover have "data = d @ drop (B - r) data" by (simp add: d_def)
  ultimately show ?thesis using z by (metis (no_types, lifting))
qed

lemma Write_stands:
  assumes "stands_for h m"
  shows "stands_for (hasher_Write B Transform data h) (m @ data)"
proof -
  obtain h1 d1 r1 where f: "fill_buffer B Transform data h = (h1, r1, length (m @ d1) mod B)" "data = d1 @ r1" "stands_for h1 (m @ d1)"
    "length (m @ d1) mod B = 0 \<or> length (m @ d1) mod B + length r1 < B"
    using fill_buffer_stands [OF assms, of data] by (elim exE conjE) rule
  obtain h2 d2 r2 where p: "process_full B Transform r1 h1 = (h2, r2)" "r1 = d2 @ r2" "length d2 mod B = 0"
    "stands_for h2 ((m @ d1) @ d2)" "length ((m @ d1) @ d2) mod B + length r2 < B"
  proof (cases "length (m @ d1) mod B = 0")
    case z: True
    obtain h2 d2 r2 where "process_full B Transform r1 h1 = (h2, r2)" "r1 = d2 @ r2" "length d2 mod B = 0" "length r2 < B"
      "stands_for h2 ((m @ d1) @ d2)" using process_full_stands [OF f(3) z, of r1] by (elim exE conjE) rule
    moreover have "length ((m @ d1) @ d2) mod B = 0"
      using z \<open>length d2 mod B = 0\<close> mod_add_eq [of "length (m @ d1)" B "length d2"] by (simp add: add.assoc)
    ultimately show ?thesis using that by simp
  next
    case False
    then have "process_full B Transform r1 h1 = (h1, r1)" using f(4) by (simp add: process_full.simps)
    then show ?thesis using that [of h1 r1 "[]"] f(3,4) False by simp
  qed
  have k: "length ((m @ d1) @ d2) mod B = length (m @ d1) mod B"
    using p(3) mod_add_right_eq [of "length (m @ d1)" "length d2" B] by (simp add: add.assoc)
  have w: "hasher_Write B Transform data h =
      (if r2 \<noteq> [] then h2\<lparr>hs_buf := memcpy (hs_buf h2) (length (m @ d1) mod B) r2, hs_bytes := hs_bytes h2 + of_nat (length r2)\<rparr> else h2)"
    by (simp add: hasher_Write_def f(1) p(1))
  have e: "m @ data = ((m @ d1) @ d2) @ r2" by (simp add: f(2) p(2))
  show ?thesis
  proof (cases "r2 = []")
    case True
    then show ?thesis using p(4) w e by simp
  next
    case False
    then show ?thesis using stands_for_buffered [OF p(4,5)] unfolding w e k by simp
  qed
qed

lemma Write_pieces: "stands_for h m \<Longrightarrow> stands_for (fold (hasher_Write B Transform) pieces h) (m @ concat pieces)"
  by (induction pieces arbitrary: h m) (use Write_stands in fastforce)+

text \<open>Whole blocks leave nothing in the buffer: the state is the fold over them.\<close>

lemma padded_state:
  assumes "stands_for h m" "0 < L" "L < B" "length desc = L" "k = 2 * B - 1 - L"
  shows "hs_s (hasher_Write B Transform desc
      (hasher_Write B Transform (take (1 + (k - unat (hs_bytes h) mod B) mod B) (0x80 # replicate (B - 1) 0)) h)) =
    foldl Transform initial (full_blocks B (m @ [0x80] @ replicate (padding_zeros B L (length m)) 0 @ desc))"
proof -
  define z where "z = (2 * B - 1 - L - length m mod B) mod B"
  have z: "padding_zeros B L (length m) = z" "z < B" using pad_length [OF block_size(1) assms(3) z_def] by simp_all
  have "take (1 + (k - unat (hs_bytes h) mod B) mod B) (0x80 # replicate (B - 1) 0) = 0x80 # replicate z (0 :: u8)"
    using z(2) stands_for_bufsize [OF assms(1)] by (simp add: z_def assms(5) min_absorb1)
  moreover have "stands_for (hasher_Write B Transform desc (hasher_Write B Transform (0x80 # replicate z 0) h))
      ((m @ 0x80 # replicate z 0) @ desc)"
    by (intro Write_stands assms(1))
  ultimately show ?thesis by (simp add: stands_for_def z(1))
qed

end

end
