(* ===== verification/Sha2.thy ===== *)
theory Sha2
  imports Hasher
begin

text \<open>
  SHA-256 and SHA-512: \<open>src/src/crypto/sha256.cpp\<close> and \<open>sha512.cpp\<close>. The two files differ in the width of a word, the
  rotations and the constants, so the operations are written once for words of any width.

  \<open>Transform\<close> is a sequence of calls of \<open>Round\<close>, each with the eight registers in an order that is rotated by one
  against the call before, and with sixteen message words that are updated in place. Here the calls are a
  fold over their number \<open>t\<close>: argument \<open>j\<close> of the call is the register \<open>Round_arg t j\<close>, and the message
  word is number \<open>t mod 16\<close>; the last two calls do not store the word.

  The reference is the standard FIPS 180-4: the message schedule by its recurrence, registers that move in every round,
  and the padding of a message. The theorems say that the hashers compute it, however the message is written.
\<close>

section \<open>One block\<close>

definition Ch :: "'a::len word \<Rightarrow> 'a word \<Rightarrow> 'a word \<Rightarrow> 'a word" where
  "Ch x y z = z XOR (x AND (y XOR z))"

definition Maj :: "'a::len word \<Rightarrow> 'a word \<Rightarrow> 'a word \<Rightarrow> 'a word" where
  "Maj x y z = (x AND y) OR (z AND (x OR y))"

text \<open>The functions and constants in which the two hashes differ; the constants are in groups of eight rounds, one turn of the registers.\<close>

record 'w sha2 =
  Sigma0 :: "'w \<Rightarrow> 'w"
  Sigma1 :: "'w \<Rightarrow> 'w"
  sigma0 :: "'w \<Rightarrow> 'w"
  sigma1 :: "'w \<Rightarrow> 'w"
  round_k :: "'w list"

definition sha2_Round :: "'a::len word sha2 \<Rightarrow> 'a word \<Rightarrow> 'a word \<Rightarrow> 'a word \<Rightarrow> 'a word \<Rightarrow> 'a word \<Rightarrow> 'a word \<Rightarrow> 'a word \<Rightarrow> 'a word \<Rightarrow>
    'a word \<Rightarrow> 'a word \<Rightarrow> 'a word \<times> 'a word" where
  "sha2_Round P a b c d e f g h k w =
     (let t1 = h + Sigma1 P e + Ch e f g + k + w;
          t2 = Sigma0 P a + Maj a b c
      in (d + t1, t1 + t2))"

definition Round_arg :: "nat \<Rightarrow> nat \<Rightarrow> nat" where
  "Round_arg t j = (j + 8 - t mod 8) mod 8"

definition sha2_call :: "'a::len word sha2 \<Rightarrow> nat \<Rightarrow> 'a word \<Rightarrow> 'a word list \<Rightarrow> 'a word list" where
  "sha2_call P t x r =
     (let arg = (\<lambda>j. r ! Round_arg t j);
          (d, h) = sha2_Round P (arg 0) (arg 1) (arg 2) (arg 3) (arg 4) (arg 5) (arg 6) (arg 7) (round_k P ! t) x
      in r[Round_arg t 3 := d, Round_arg t 7 := h])"

definition sha2_word :: "'a::len word sha2 \<Rightarrow> (nat \<Rightarrow> 'a word) \<Rightarrow> nat \<Rightarrow> 'a word list \<Rightarrow> 'a word" where
  "sha2_word P M t w =
     (if t < 16 then M t
      else w ! (t mod 16) + (sigma1 P (w ! ((t + 14) mod 16)) + w ! ((t + 9) mod 16) + sigma0 P (w ! ((t + 1) mod 16))))"

definition sha2_step :: "'a::len word sha2 \<Rightarrow> (nat \<Rightarrow> 'a word) \<Rightarrow> nat \<Rightarrow> 'a word list \<times> 'a word list \<Rightarrow> 'a word list \<times> 'a word list" where
  "sha2_step P M t = (\<lambda>(r, w).
     let x = sha2_word P M t w in
     (sha2_call P t x r, if t + 2 < length (round_k P) then w[t mod 16 := x] else w))"

definition sha2_Transform :: "'a::len word sha2 \<Rightarrow> (nat \<Rightarrow> 'a word) \<Rightarrow> 'a word list \<Rightarrow> 'a word list" where
  "sha2_Transform P M s = map2 (+) s (fst (fold (sha2_step P M) [0..<length (round_k P)] (s, replicate 16 0)))"

section \<open>SHA-256\<close>

definition sha256 :: "u32 sha2" where
  "sha256 = \<lparr>
     Sigma0 = (\<lambda>x. (drop_bit 2 x OR push_bit 30 x) XOR (drop_bit 13 x OR push_bit 19 x) XOR (drop_bit 22 x OR push_bit 10 x)),
     Sigma1 = (\<lambda>x. (drop_bit 6 x OR push_bit 26 x) XOR (drop_bit 11 x OR push_bit 21 x) XOR (drop_bit 25 x OR push_bit 7 x)),
     sigma0 = (\<lambda>x. (drop_bit 7 x OR push_bit 25 x) XOR (drop_bit 18 x OR push_bit 14 x) XOR drop_bit 3 x),
     sigma1 = (\<lambda>x. (drop_bit 17 x OR push_bit 15 x) XOR (drop_bit 19 x OR push_bit 13 x) XOR drop_bit 10 x),
     round_k = concat
    [[0x428a2f98, 0x71374491, 0xb5c0fbcf, 0xe9b5dba5, 0x3956c25b, 0x59f111f1, 0x923f82a4, 0xab1c5ed5],
     [0xd807aa98, 0x12835b01, 0x243185be, 0x550c7dc3, 0x72be5d74, 0x80deb1fe, 0x9bdc06a7, 0xc19bf174],
     [0xe49b69c1, 0xefbe4786, 0x0fc19dc6, 0x240ca1cc, 0x2de92c6f, 0x4a7484aa, 0x5cb0a9dc, 0x76f988da],
     [0x983e5152, 0xa831c66d, 0xb00327c8, 0xbf597fc7, 0xc6e00bf3, 0xd5a79147, 0x06ca6351, 0x14292967],
     [0x27b70a85, 0x2e1b2138, 0x4d2c6dfc, 0x53380d13, 0x650a7354, 0x766a0abb, 0x81c2c92e, 0x92722c85],
     [0xa2bfe8a1, 0xa81a664b, 0xc24b8b70, 0xc76c51a3, 0xd192e819, 0xd6990624, 0xf40e3585, 0x106aa070],
     [0x19a4c116, 0x1e376c08, 0x2748774c, 0x34b0bcb5, 0x391c0cb3, 0x4ed8aa4a, 0x5b9cca4f, 0x682e6ff3],
     [0x748f82ee, 0x78a5636f, 0x84c87814, 0x8cc70208, 0x90befffa, 0xa4506ceb, 0xbef9a3f7, 0xc67178f2]]\<rparr>"

definition sha256_Initialize :: "u32 list" where
  "sha256_Initialize = [0x6a09e667, 0xbb67ae85, 0x3c6ef372, 0xa54ff53a, 0x510e527f, 0x9b05688c, 0x1f83d9ab, 0x5be0cd19]"

definition sha256_Transform :: "u32 list \<Rightarrow> bytes \<Rightarrow> u32 list" where
  "sha256_Transform s chunk = sha2_Transform sha256 (\<lambda>i. ReadBE32 (drop (4 * i) chunk)) s"

type_synonym CSHA256 = "u32 list hasher"

text \<open>The constructor leaves the buffer as it is, here \<open>junk\<close>.\<close>

definition make_CSHA256 :: "bytes \<Rightarrow> CSHA256" where
  "make_CSHA256 junk = \<lparr>hs_s = sha256_Initialize, hs_buf = junk, hs_bytes = 0\<rparr>"

definition CSHA256_Write :: "bytes \<Rightarrow> CSHA256 \<Rightarrow> CSHA256" where
  "CSHA256_Write = hasher_Write 64 sha256_Transform"

definition CSHA256_Finalize :: "CSHA256 \<Rightarrow> bytes \<times> CSHA256" where
  "CSHA256_Finalize h =
     (let pad = 0x80 # replicate 63 0;
          sizedesc = WriteBE64 (push_bit 3 (hs_bytes h));
          h1 = CSHA256_Write (take (1 + (119 - unat (hs_bytes h) mod 64) mod 64) pad) h;
          h2 = CSHA256_Write sizedesc h1
      in (concat (map WriteBE32 (hs_s h2)), h2))"

definition CSHA256_Reset :: "CSHA256 \<Rightarrow> CSHA256" where
  "CSHA256_Reset h = h\<lparr>hs_bytes := 0, hs_s := sha256_Initialize\<rparr>"

section \<open>SHA-512\<close>

definition sha512 :: "u64 sha2" where
  "sha512 = \<lparr>
     Sigma0 = (\<lambda>x. (drop_bit 28 x OR push_bit 36 x) XOR (drop_bit 34 x OR push_bit 30 x) XOR (drop_bit 39 x OR push_bit 25 x)),
     Sigma1 = (\<lambda>x. (drop_bit 14 x OR push_bit 50 x) XOR (drop_bit 18 x OR push_bit 46 x) XOR (drop_bit 41 x OR push_bit 23 x)),
     sigma0 = (\<lambda>x. (drop_bit 1 x OR push_bit 63 x) XOR (drop_bit 8 x OR push_bit 56 x) XOR drop_bit 7 x),
     sigma1 = (\<lambda>x. (drop_bit 19 x OR push_bit 45 x) XOR (drop_bit 61 x OR push_bit 3 x) XOR drop_bit 6 x),
     round_k = concat
    [[0x428a2f98d728ae22, 0x7137449123ef65cd, 0xb5c0fbcfec4d3b2f, 0xe9b5dba58189dbbc,
      0x3956c25bf348b538, 0x59f111f1b605d019, 0x923f82a4af194f9b, 0xab1c5ed5da6d8118],
     [0xd807aa98a3030242, 0x12835b0145706fbe, 0x243185be4ee4b28c, 0x550c7dc3d5ffb4e2,
      0x72be5d74f27b896f, 0x80deb1fe3b1696b1, 0x9bdc06a725c71235, 0xc19bf174cf692694],
     [0xe49b69c19ef14ad2, 0xefbe4786384f25e3, 0x0fc19dc68b8cd5b5, 0x240ca1cc77ac9c65,
      0x2de92c6f592b0275, 0x4a7484aa6ea6e483, 0x5cb0a9dcbd41fbd4, 0x76f988da831153b5],
     [0x983e5152ee66dfab, 0xa831c66d2db43210, 0xb00327c898fb213f, 0xbf597fc7beef0ee4,
      0xc6e00bf33da88fc2, 0xd5a79147930aa725, 0x06ca6351e003826f, 0x142929670a0e6e70],
     [0x27b70a8546d22ffc, 0x2e1b21385c26c926, 0x4d2c6dfc5ac42aed, 0x53380d139d95b3df,
      0x650a73548baf63de, 0x766a0abb3c77b2a8, 0x81c2c92e47edaee6, 0x92722c851482353b],
     [0xa2bfe8a14cf10364, 0xa81a664bbc423001, 0xc24b8b70d0f89791, 0xc76c51a30654be30,
      0xd192e819d6ef5218, 0xd69906245565a910, 0xf40e35855771202a, 0x106aa07032bbd1b8],
     [0x19a4c116b8d2d0c8, 0x1e376c085141ab53, 0x2748774cdf8eeb99, 0x34b0bcb5e19b48a8,
      0x391c0cb3c5c95a63, 0x4ed8aa4ae3418acb, 0x5b9cca4f7763e373, 0x682e6ff3d6b2b8a3],
     [0x748f82ee5defb2fc, 0x78a5636f43172f60, 0x84c87814a1f0ab72, 0x8cc702081a6439ec,
      0x90befffa23631e28, 0xa4506cebde82bde9, 0xbef9a3f7b2c67915, 0xc67178f2e372532b],
     [0xca273eceea26619c, 0xd186b8c721c0c207, 0xeada7dd6cde0eb1e, 0xf57d4f7fee6ed178,
      0x06f067aa72176fba, 0x0a637dc5a2c898a6, 0x113f9804bef90dae, 0x1b710b35131c471b],
     [0x28db77f523047d84, 0x32caab7b40c72493, 0x3c9ebe0a15c9bebc, 0x431d67c49c100d4c,
      0x4cc5d4becb3e42b6, 0x597f299cfc657e2a, 0x5fcb6fab3ad6faec, 0x6c44198c4a475817]]\<rparr>"

definition sha512_Initialize :: "u64 list" where
  "sha512_Initialize = [0x6a09e667f3bcc908, 0xbb67ae8584caa73b, 0x3c6ef372fe94f82b, 0xa54ff53a5f1d36f1,
     0x510e527fade682d1, 0x9b05688c2b3e6c1f, 0x1f83d9abfb41bd6b, 0x5be0cd19137e2179]"

definition sha512_Transform :: "u64 list \<Rightarrow> bytes \<Rightarrow> u64 list" where
  "sha512_Transform s chunk = sha2_Transform sha512 (\<lambda>i. ReadBE64 (drop (8 * i) chunk)) s"

type_synonym CSHA512 = "u64 list hasher"

definition make_CSHA512 :: "bytes \<Rightarrow> CSHA512" where
  "make_CSHA512 junk = \<lparr>hs_s = sha512_Initialize, hs_buf = junk, hs_bytes = 0\<rparr>"

definition CSHA512_Write :: "bytes \<Rightarrow> CSHA512 \<Rightarrow> CSHA512" where
  "CSHA512_Write = hasher_Write 128 sha512_Transform"

definition CSHA512_Finalize :: "CSHA512 \<Rightarrow> bytes \<times> CSHA512" where
  "CSHA512_Finalize h =
     (let pad = 0x80 # replicate 127 0;
          sizedesc = replicate 8 0 @ WriteBE64 (push_bit 3 (hs_bytes h));
          h1 = CSHA512_Write (take (1 + (239 - unat (hs_bytes h) mod 128) mod 128) pad) h;
          h2 = CSHA512_Write sizedesc h1
      in (concat (map WriteBE64 (hs_s h2)), h2))"

definition CSHA512_Reset :: "CSHA512 \<Rightarrow> CSHA512" where
  "CSHA512_Reset h = h\<lparr>hs_bytes := 0, hs_s := sha512_Initialize\<rparr>"

section \<open>The standard\<close>

definition fips_Ch :: "'a::len word \<Rightarrow> 'a word \<Rightarrow> 'a word \<Rightarrow> 'a word" where
  "fips_Ch x y z = (x AND y) XOR (NOT x AND z)"

definition fips_Maj :: "'a::len word \<Rightarrow> 'a word \<Rightarrow> 'a word \<Rightarrow> 'a word" where
  "fips_Maj x y z = (x AND y) XOR (x AND z) XOR (y AND z)"

fun fips_W :: "('a::len word \<Rightarrow> 'a word) \<Rightarrow> ('a word \<Rightarrow> 'a word) \<Rightarrow> (nat \<Rightarrow> 'a word) \<Rightarrow> nat \<Rightarrow> 'a word" where
  "fips_W s0 s1 M t =
     (if t < 16 then M t
      else s1 (fips_W s0 s1 M (t - 2)) + fips_W s0 s1 M (t - 7) + s0 (fips_W s0 s1 M (t - 15)) + fips_W s0 s1 M (t - 16))"

declare fips_W.simps [simp del]

fun fips_round :: "('a::len word \<Rightarrow> 'a word) \<Rightarrow> ('a word \<Rightarrow> 'a word) \<Rightarrow> 'a word \<Rightarrow> 'a word \<Rightarrow> 'a word list \<Rightarrow> 'a word list" where
  "fips_round S0 S1 k w [a, b, c, d, e, f, g, h] =
     (let t1 = h + S1 e + fips_Ch e f g + k + w;
          t2 = S0 a + fips_Maj a b c
      in [t1 + t2, a, b, c, d + t1, e, f, g])"
| "fips_round S0 S1 k w v = v"

definition fips_vars :: "('a::len word \<Rightarrow> 'a word) \<Rightarrow> ('a word \<Rightarrow> 'a word) \<Rightarrow> ('a word \<Rightarrow> 'a word) \<Rightarrow> ('a word \<Rightarrow> 'a word) \<Rightarrow>
    'a word list \<Rightarrow> (nat \<Rightarrow> 'a word) \<Rightarrow> 'a word list \<Rightarrow> nat \<Rightarrow> 'a word list" where
  "fips_vars S0 S1 s0 s1 K M H n = fold (\<lambda>t. fips_round S0 S1 (K ! t) (fips_W s0 s1 M t)) [0..<n] H"

definition fips_compress :: "('a::len word \<Rightarrow> 'a word) \<Rightarrow> ('a word \<Rightarrow> 'a word) \<Rightarrow> ('a word \<Rightarrow> 'a word) \<Rightarrow> ('a word \<Rightarrow> 'a word) \<Rightarrow>
    'a word list \<Rightarrow> (nat \<Rightarrow> 'a word) \<Rightarrow> 'a word list \<Rightarrow> 'a word list" where
  "fips_compress S0 S1 s0 s1 K M H = map2 (+) (fips_vars S0 S1 s0 s1 K M H (length K)) H"

definition fips_pad :: "nat \<Rightarrow> nat \<Rightarrow> bytes \<Rightarrow> bytes" where
  "fips_pad B L m = m @ [0x80] @ replicate (padding_zeros B L (length m)) 0 @
     map (\<lambda>i. of_nat (8 * length m div 256 ^ i)) (rev [0..<L])"

definition fips_SHA256_block :: "u32 list \<Rightarrow> bytes \<Rightarrow> u32 list" where
  "fips_SHA256_block H block =
     fips_compress
       (\<lambda>x. word_rotr 2 x XOR word_rotr 13 x XOR word_rotr 22 x) (\<lambda>x. word_rotr 6 x XOR word_rotr 11 x XOR word_rotr 25 x)
       (\<lambda>x. word_rotr 7 x XOR word_rotr 18 x XOR drop_bit 3 x) (\<lambda>x. word_rotr 17 x XOR word_rotr 19 x XOR drop_bit 10 x)
       (round_k sha256) (\<lambda>i. ReadBE32 (drop (4 * i) block)) H"

definition fips_SHA256 :: "bytes \<Rightarrow> bytes" where
  "fips_SHA256 m = concat (map WriteBE32 (foldl fips_SHA256_block sha256_Initialize (full_blocks 64 (fips_pad 64 8 m))))"

definition fips_SHA512_block :: "u64 list \<Rightarrow> bytes \<Rightarrow> u64 list" where
  "fips_SHA512_block H block =
     fips_compress
       (\<lambda>x. word_rotr 28 x XOR word_rotr 34 x XOR word_rotr 39 x) (\<lambda>x. word_rotr 14 x XOR word_rotr 18 x XOR word_rotr 41 x)
       (\<lambda>x. word_rotr 1 x XOR word_rotr 8 x XOR drop_bit 7 x) (\<lambda>x. word_rotr 19 x XOR word_rotr 61 x XOR drop_bit 6 x)
       (round_k sha512) (\<lambda>i. ReadBE64 (drop (8 * i) block)) H"

definition fips_SHA512 :: "bytes \<Rightarrow> bytes" where
  "fips_SHA512 m = concat (map WriteBE64 (foldl fips_SHA512_block sha512_Initialize (full_blocks 128 (fips_pad 128 16 m))))"

section \<open>The rotated registers\<close>

lemma Ch_fips: "Ch x y z = fips_Ch x y z"
  by (rule bit_word_eqI) (auto simp: Ch_def fips_Ch_def bit_simps)

lemma Maj_fips: "Maj x y z = fips_Maj x y z"
  by (rule bit_word_eqI) (auto simp: Maj_def fips_Maj_def bit_simps)

lemma rotation:
  assumes "0 < k" "k < LENGTH('a)"
  shows "drop_bit k x OR push_bit (LENGTH('a) - k) x = word_rotr k (x :: 'a::len word)"
proof (rule bit_word_eqI)
  fix i
  assume i: "i < LENGTH('a)"
  show "bit (drop_bit k x OR push_bit (LENGTH('a) - k) x) i \<longleftrightarrow> bit (word_rotr k x) i"
  proof (cases "i + k < LENGTH('a)")
    case True
    then show ?thesis using i assms by (auto simp: bit_simps add.commute)
  next
    case False
    then have "(i + k) mod LENGTH('a) = i + k - LENGTH('a)" using i assms by (simp add: le_mod_geq)
    moreover have "i - (LENGTH('a) - k) = i + k - LENGTH('a)" using False assms by linarith
    moreover have "\<not> bit x (k + i)" using False bit_imp_le_length [of x "k + i"] by auto
    ultimately show ?thesis using i assms False by (auto simp: bit_simps)
  qed
qed

lemma Round_arg_mod: "Round_arg (t mod 8) = Round_arg t" "Round_arg (Suc (t mod 8)) = Round_arg (Suc t)"
  by (simp_all add: Round_arg_def fun_eq_iff mod_Suc_eq)

lemma Round_arg_table:
  "list_all (\<lambda>q. Round_arg (Suc q) 0 = Round_arg q 7 \<and> list_all (\<lambda>j. Round_arg (Suc q) (Suc j) = Round_arg q j) [0..<7] \<and>
     list_all (\<lambda>i. list_all (\<lambda>j. Round_arg q i = Round_arg q j \<longrightarrow> i = j) [0..<8]) [0..<8]) [0..<8]"
  by code_simp

lemma Round_arg_Suc:
  "Round_arg (Suc t) 0 = Round_arg t 7"
  "j < 7 \<Longrightarrow> Round_arg (Suc t) (Suc j) = Round_arg t j"
  using Round_arg_table [unfolded list_all_iff, rule_format, of "t mod 8"] by (simp_all add: Round_arg_mod)

lemma Round_arg_lt [simp]: "Round_arg t j < 8"
  by (simp add: Round_arg_def)

lemma Round_arg_inj: "i < 8 \<Longrightarrow> j < 8 \<Longrightarrow> Round_arg t i = Round_arg t j \<longleftrightarrow> i = j"
  using Round_arg_table [unfolded list_all_iff, rule_format, of "t mod 8"] by (auto simp: Round_arg_mod)

lemma Round_arg_aligned: "n mod 8 = 0 \<Longrightarrow> j < 8 \<Longrightarrow> Round_arg n j = j"
  by (simp add: Round_arg_def)

text \<open>The registers in the order of the arguments of call \<open>t\<close>.\<close>

definition registers :: "nat \<Rightarrow> 'w list \<Rightarrow> 'w list" where
  "registers t r = map (\<lambda>j. r ! Round_arg t j) [0..<8]"

lemma upt8: "[0..<8] = [0, 1, 2, 3, 4, 5, 6, 7 :: nat]"
  by (simp add: upt_conv_Cons)

lemma registers_list: "registers t r = [r ! Round_arg t 0, r ! Round_arg t 1, r ! Round_arg t 2, r ! Round_arg t 3,
    r ! Round_arg t 4, r ! Round_arg t 5, r ! Round_arg t 6, r ! Round_arg t 7]"
  by (simp add: registers_def upt8)

lemma registers_aligned: "n mod 8 = 0 \<Longrightarrow> length r = 8 \<Longrightarrow> registers n r = r"
  by (rule nth_equalityI) (simp_all add: registers_def Round_arg_aligned)

lemma Round_arg_shift:
  "Round_arg (Suc t) (Suc 0) = Round_arg t 0" "Round_arg (Suc t) 2 = Round_arg t (Suc 0)" "Round_arg (Suc t) 3 = Round_arg t 2"
  "Round_arg (Suc t) 4 = Round_arg t 3" "Round_arg (Suc t) 5 = Round_arg t 4" "Round_arg (Suc t) 6 = Round_arg t 5"
  "Round_arg (Suc t) 7 = Round_arg t 6"
  using Round_arg_Suc(2) [of 0 t] Round_arg_Suc(2) [of 1 t] Round_arg_Suc(2) [of 2 t] Round_arg_Suc(2) [of 3 t]
    Round_arg_Suc(2) [of 4 t] Round_arg_Suc(2) [of 5 t] Round_arg_Suc(2) [of 6 t] by (simp_all add: numeral_eq_Suc)

lemma sha2_call_fips:
  assumes "length r = 8"
  shows "registers (Suc t) (sha2_call P t x r) = fips_round (Sigma0 P) (Sigma1 P) (round_k P ! t) x (registers t r)"
  using assms by (simp add: registers_list sha2_call_def sha2_Round_def Let_def Round_arg_Suc(1) Round_arg_shift nth_list_update
      Round_arg_inj Ch_fips Maj_fips)

lemma length_sha2_call [simp]: "length (sha2_call P t x r) = length r"
  by (simp add: sha2_call_def Let_def split: prod.splits)

text \<open>The message words in place are those of the schedule, as far as they are still needed.\<close>

lemma schedule_index:
  "16 \<le> t \<Longrightarrow> (t + 14) mod 16 = (t - 2) mod 16" "16 \<le> t \<Longrightarrow> (t + 9) mod 16 = (t - 7) mod 16"
  "16 \<le> t \<Longrightarrow> (t + 1) mod 16 = (t - 15) mod 16" "16 \<le> t \<Longrightarrow> t mod 16 = (t - 16) mod (16 :: nat)"
proof -
  have "(t + 14) mod 16 = (t - 2) mod 16 \<and> (t + 9) mod 16 = (t - 7) mod 16 \<and> (t + 1) mod 16 = (t - 15) mod 16 \<and>
      t mod 16 = (t - 16) mod 16" if "16 \<le> t"
  proof -
    obtain u where "t = u + 16" using \<open>16 \<le> t\<close> le_Suc_ex [of 16 t] by (auto simp: add.commute)
    then show ?thesis
      using mod_add_self2 [of "u + 14" 16] mod_add_self2 [of "u + 9" 16] mod_add_self2 [of "u + 1" 16] by (simp add: add.commute)
  qed
  then show "16 \<le> t \<Longrightarrow> (t + 14) mod 16 = (t - 2) mod 16" "16 \<le> t \<Longrightarrow> (t + 9) mod 16 = (t - 7) mod 16"
    "16 \<le> t \<Longrightarrow> (t + 1) mod 16 = (t - 15) mod 16" "16 \<le> t \<Longrightarrow> t mod 16 = (t - 16) mod 16" by blast+
qed

lemma distinct_slots: "u < t \<Longrightarrow> t < u + 16 \<Longrightarrow> u mod 16 \<noteq> t mod (16 :: nat)"
  using mod_eq_dvd_iff_nat [of u t 16] nat_dvd_not_less [of "t - u" 16] by force

lemma sha2_word_fips:
  assumes "\<And>u. u < t \<Longrightarrow> u + 2 < N \<Longrightarrow> t \<le> u + 16 \<Longrightarrow> w ! (u mod 16) = fips_W (sigma0 P) (sigma1 P) M u" "t < N"
  shows "sha2_word P M t w = fips_W (sigma0 P) (sigma1 P) M t"
proof (cases "t < 16")
  case True
  then show ?thesis by (simp add: sha2_word_def fips_W.simps)
next
  case False
  then have "w ! ((t - k) mod 16) = fips_W (sigma0 P) (sigma1 P) M (t - k)" if "2 \<le> k" "k \<le> 16" for k
    using assms(1) [of "t - k"] assms(2) that by simp
  from this [of 2] this [of 7] this [of 15] this [of 16] show ?thesis
    using False schedule_index [of t] fips_W.simps [of "sigma0 P" "sigma1 P" M t] by (simp add: sha2_word_def add.commute)
qed

lemma sha2_rounds_fips:
  assumes "length s = 8" "t \<le> length (round_k P)"
  shows "\<exists>r w. fold (sha2_step P M) [0..<t] (s, replicate 16 0) = (r, w) \<and> length r = 8 \<and> length w = 16 \<and>
    registers t r = fips_vars (Sigma0 P) (Sigma1 P) (sigma0 P) (sigma1 P) (round_k P) M s t \<and>
    (\<forall>u. u < t \<longrightarrow> u + 2 < length (round_k P) \<longrightarrow> t \<le> u + 16 \<longrightarrow> w ! (u mod 16) = fips_W (sigma0 P) (sigma1 P) M u)"
  using assms(2)
proof (induction t)
  case 0
  show ?case using assms(1) by (simp add: registers_aligned fips_vars_def)
next
  case (Suc t)
  then obtain r w where IH: "fold (sha2_step P M) [0..<t] (s, replicate 16 0) = (r, w)" "length r = 8" "length w = 16"
    "registers t r = fips_vars (Sigma0 P) (Sigma1 P) (sigma0 P) (sigma1 P) (round_k P) M s t"
    "\<And>u. u < t \<Longrightarrow> u + 2 < length (round_k P) \<Longrightarrow> t \<le> u + 16 \<Longrightarrow> w ! (u mod 16) = fips_W (sigma0 P) (sigma1 P) M u"
    by fastforce
  have x: "sha2_word P M t w = fips_W (sigma0 P) (sigma1 P) M t" using sha2_word_fips [OF IH(5)] Suc.prems by simp
  define w' where "w' = (if t + 2 < length (round_k P) then w[t mod 16 := fips_W (sigma0 P) (sigma1 P) M t] else w)"
  have "w' ! (u mod 16) = fips_W (sigma0 P) (sigma1 P) M u" if "u < Suc t" "u + 2 < length (round_k P)" "Suc t \<le> u + 16" for u
  proof (cases "u = t")
    case False
    then have "u mod 16 \<noteq> t mod 16" using that distinct_slots [of u t] by simp
    then show ?thesis using False that IH(5) [of u] by (simp add: w'_def)
  qed (use that IH(3) in \<open>simp add: w'_def\<close>)
  moreover have "fold (sha2_step P M) [0..<Suc t] (s, replicate 16 0) = (sha2_call P t (fips_W (sigma0 P) (sigma1 P) M t) r, w')"
    using IH(1) x by (simp add: w'_def sha2_step_def [of P M t] Let_def)
  moreover have "registers (Suc t) (sha2_call P t (fips_W (sigma0 P) (sigma1 P) M t) r) =
      fips_vars (Sigma0 P) (Sigma1 P) (sigma0 P) (sigma1 P) (round_k P) M s (Suc t)"
    using IH(4) sha2_call_fips [OF IH(2)] by (simp add: fips_vars_def)
  ultimately show ?case using IH(2,3) by (simp add: w'_def)
qed

lemma sha2_Transform_fips:
  assumes "length s = 8" "length (round_k P) mod 8 = 0"
  shows "sha2_Transform P M s = fips_compress (Sigma0 P) (Sigma1 P) (sigma0 P) (sigma1 P) (round_k P) M s"
proof -
  obtain r w where "fold (sha2_step P M) [0..<length (round_k P)] (s, replicate 16 0) = (r, w)" "length r = 8"
    "registers (length (round_k P)) r = fips_vars (Sigma0 P) (Sigma1 P) (sigma0 P) (sigma1 P) (round_k P) M s (length (round_k P))"
    using sha2_rounds_fips [OF assms(1), of "length (round_k P)" P M] by fastforce
  moreover have "map2 (+) s r = map2 (+) r s" by (rule nth_equalityI) (simp_all add: add.commute)
  ultimately show ?thesis using assms(2) by (simp add: sha2_Transform_def fips_compress_def registers_aligned)
qed

section \<open>The hashers compute the standard\<close>

lemma sha256_fips: "length s = 8 \<Longrightarrow> sha256_Transform s block = fips_SHA256_block s block"
proof -
  have r: "drop_bit k x OR push_bit m x = word_rotr k x" if "0 < k" "k < 32" "m = 32 - k" for k m and x :: u32
    using rotation [of k x] that by simp
  have "Sigma0 sha256 = (\<lambda>x. word_rotr 2 x XOR word_rotr 13 x XOR word_rotr 22 x)"
    "Sigma1 sha256 = (\<lambda>x. word_rotr 6 x XOR word_rotr 11 x XOR word_rotr 25 x)"
    "sigma0 sha256 = (\<lambda>x. word_rotr 7 x XOR word_rotr 18 x XOR drop_bit 3 x)"
    "sigma1 sha256 = (\<lambda>x. word_rotr 17 x XOR word_rotr 19 x XOR drop_bit 10 x)"
    unfolding sha256_def by (simp_all add: r)
  moreover have "length (round_k sha256) = 64" by (simp add: sha256_def)
  ultimately show "length s = 8 \<Longrightarrow> ?thesis" by (simp add: sha256_Transform_def sha2_Transform_fips fips_SHA256_block_def)
qed

lemma sha512_fips: "length s = 8 \<Longrightarrow> sha512_Transform s block = fips_SHA512_block s block"
proof -
  have r: "drop_bit k x OR push_bit m x = word_rotr k x" if "0 < k" "k < 64" "m = 64 - k" for k m and x :: u64
    using rotation [of k x] that by simp
  have "Sigma0 sha512 = (\<lambda>x. word_rotr 28 x XOR word_rotr 34 x XOR word_rotr 39 x)"
    "Sigma1 sha512 = (\<lambda>x. word_rotr 14 x XOR word_rotr 18 x XOR word_rotr 41 x)"
    "sigma0 sha512 = (\<lambda>x. word_rotr 1 x XOR word_rotr 8 x XOR drop_bit 7 x)"
    "sigma1 sha512 = (\<lambda>x. word_rotr 19 x XOR word_rotr 61 x XOR drop_bit 6 x)"
    unfolding sha512_def by (simp_all add: r)
  moreover have "length (round_k sha512) = 80" by (simp add: sha512_def)
  ultimately show "length s = 8 \<Longrightarrow> ?thesis" by (simp add: sha512_Transform_def sha2_Transform_fips fips_SHA512_block_def)
qed

lemma length_sha2_Transform:
  assumes "length s = 8"
  shows "length (sha2_Transform P M s) = 8"
proof -
  obtain r w where "fold (sha2_step P M) [0..<length (round_k P)] (s, replicate 16 0) = (r, w)" "length r = 8"
    using sha2_rounds_fips [OF assms order_refl, of P M] by fastforce
  then show ?thesis using assms by (simp add: sha2_Transform_def)
qed

text \<open>Folding over blocks with functions that agree on states of the right size.\<close>

lemma foldl_agree:
  assumes "\<And>s b. Q s \<Longrightarrow> f s b = g s b \<and> Q (f s b)" "Q s"
  shows "foldl f s bs = foldl g s bs \<and> Q (foldl f s bs)"
  using assms(2)
proof (induction bs arbitrary: s)
  case (Cons b bs)
  have "foldl f (f s b) bs = foldl g (f s b) bs \<and> Q (foldl f (f s b) bs)" using assms(1) [OF Cons.prems, of b] Cons.IH by blast
  then show ?case using assms(1) [OF Cons.prems, of b] by (metis foldl_Cons)
qed simp

interpretation sha256_blocks: block_hasher 64 sha256_Transform sha256_Initialize
  by unfold_locales simp_all

interpretation sha512_blocks: block_hasher 128 sha512_Transform sha512_Initialize
  by unfold_locales simp_all

lemma sha256_fold:
  "foldl sha256_Transform sha256_Initialize bs = foldl fips_SHA256_block sha256_Initialize bs \<and>
    length (foldl sha256_Transform sha256_Initialize bs) = 8"
  by (rule foldl_agree) (simp_all add: sha256_fips [symmetric], simp_all add: sha256_Transform_def length_sha2_Transform sha256_Initialize_def)

lemma CSHA256_stands:
  assumes "sha256_blocks.stands_for h m"
  shows "fst (CSHA256_Finalize h) = fips_SHA256 m"
proof -
  have "hs_bytes h = of_nat (length m)" using assms by (simp add: sha256_blocks.stands_for_def)
  then have "m @ [0x80] @ replicate (padding_zeros 64 8 (length m)) 0 @ WriteBE64 (push_bit 3 (hs_bytes h)) = fips_pad 64 8 m"
    by (simp only: fips_pad_def length_bytes)
  then show ?thesis
    using sha256_blocks.padded_state [OF assms, of 8 "WriteBE64 (push_bit 3 (hs_bytes h))" 119] sha256_fold
    by (simp add: CSHA256_Finalize_def CSHA256_Write_def fips_SHA256_def Let_def)
qed

lemma CSHA256_message:
  assumes "length junk = 64"
  shows "fst (CSHA256_Finalize (fold CSHA256_Write pieces (make_CSHA256 junk))) = fips_SHA256 (concat pieces)"
proof -
  have "sha256_blocks.stands_for (make_CSHA256 junk) []"
    unfolding make_CSHA256_def using assms by (rule sha256_blocks.stands_for_empty)
  from sha256_blocks.Write_pieces [OF this, of pieces] show ?thesis
    by (intro CSHA256_stands) (simp add: CSHA256_Write_def)
qed

text \<open>
  C10. However a message is split into pieces that are written to a \<open>CSHA256\<close>, \<open>Finalize\<close> gives the SHA-256 hash of the
  message as FIPS 180-4 defines it: the buffering, the rotation of the registers, the reuse of sixteen message words
  and the padding are right, and the uninitialised buffer does not matter.
\<close>

theorem CSHA256_correct:
  assumes "length junk = 64"
  shows "fst (CSHA256_Finalize (fold CSHA256_Write pieces (make_CSHA256 junk))) = fips_SHA256 (concat pieces)"
  using assms by (rule CSHA256_message)

theorem CSHA256_correct_witness:
  "fst (CSHA256_Finalize (CSHA256_Write [99] (CSHA256_Write [97, 98] (make_CSHA256 (replicate 64 7))))) = fips_SHA256 [97, 98, 99]"
  using CSHA256_correct [of "replicate 64 7" "[[97, 98], [99]]"] by simp

lemma sha512_fold:
  "foldl sha512_Transform sha512_Initialize bs = foldl fips_SHA512_block sha512_Initialize bs \<and>
    length (foldl sha512_Transform sha512_Initialize bs) = 8"
  by (rule foldl_agree) (simp_all add: sha512_fips [symmetric], simp_all add: sha512_Transform_def length_sha2_Transform sha512_Initialize_def)

lemma CSHA512_stands:
  assumes "sha512_blocks.stands_for h m" "length m < 2 ^ 61"
  shows "fst (CSHA512_Finalize h) = fips_SHA512 m"
proof -
  define desc where "desc = replicate 8 0 @ WriteBE64 (push_bit 3 (hs_bytes h))"
  have b: "hs_bytes h = of_nat (length m)" using assms by (simp add: sha512_blocks.stands_for_def)
  have high: "map (\<lambda>i. of_nat (8 * length m div 256 ^ i) :: u8) (rev [8..<16]) = replicate 8 0"
  proof -
    have "of_nat (8 * length m div 256 ^ i) = (0 :: u8)" if "8 \<le> i" for i
      using assms(2) power_increasing [OF that, of "256 :: nat"] by (subst div_less) simp_all
    then have "map (\<lambda>i. of_nat (8 * length m div 256 ^ i) :: u8) (rev [8..<16]) = replicate (length (rev [8..<16 :: nat])) 0"
      by (intro map_constant) (simp only: set_rev set_upt atLeastLessThan_iff)
    then show ?thesis by (simp only: length_rev length_upt) simp
  qed
  have "[0..<16] = [0..<8] @ [8..<16 :: nat]" using upt_add_eq_append [of 0 8 8] by simp
  then have "desc = map (\<lambda>i. of_nat (8 * length m div 256 ^ i)) (rev [0..<16])"
    unfolding desc_def b length_bytes high [symmetric] by (simp only: rev_append map_append)
  then have "m @ [0x80] @ replicate (padding_zeros 128 16 (length m)) 0 @ desc = fips_pad 128 16 m"
    by (simp only: fips_pad_def)
  then show ?thesis
    using sha512_blocks.padded_state [OF assms(1), of 16 desc 239] sha512_fold
    by (simp add: CSHA512_Finalize_def CSHA512_Write_def fips_SHA512_def Let_def desc_def)
qed

lemma CSHA512_correct:
  assumes "length junk = 128" "length (concat pieces) < 2 ^ 61"
  shows "fst (CSHA512_Finalize (fold CSHA512_Write pieces (make_CSHA512 junk))) = fips_SHA512 (concat pieces)"
proof -
  have "sha512_blocks.stands_for (make_CSHA512 junk) []"
    unfolding make_CSHA512_def using assms(1) by (rule sha512_blocks.stands_for_empty)
  from sha512_blocks.Write_pieces [OF this, of pieces] show ?thesis using assms(2)
    by (intro CSHA512_stands) (simp_all add: CSHA512_Write_def)
qed

text \<open>\<open>Reset\<close> starts over, whatever was written or finalized before.\<close>

lemma CSHA256_Reset_stands:
  assumes "sha256_blocks.stands_for h m"
  shows "sha256_blocks.stands_for (CSHA256_Reset (snd (CSHA256_Finalize h))) []"
proof -
  have "sha256_blocks.stands_for (snd (CSHA256_Finalize h)) ((m @
      take (1 + (119 - unat (hs_bytes h) mod 64) mod 64) (0x80 # replicate 63 0)) @ WriteBE64 (push_bit 3 (hs_bytes h)))"
    unfolding CSHA256_Finalize_def CSHA256_Write_def Let_def snd_conv by (intro sha256_blocks.Write_stands assms)
  then show ?thesis by (simp add: sha256_blocks.stands_for_def CSHA256_Reset_def)
qed

lemma concat_length:
  "length s = 8 \<Longrightarrow> length (concat (map WriteBE32 s)) = 32" "length s' = 8 \<Longrightarrow> length (concat (map WriteBE64 s')) = 64"
  by (simp_all add: length_concat o_def sum_list_triv)

lemma sha256_size: "length (fips_SHA256 m) = 32"
  using sha256_fold [of "full_blocks 64 (fips_pad 64 8 m)"] by (metis fips_SHA256_def concat_length(1))

lemma sha512_size: "length (fips_SHA512 m) = 64"
  using sha512_fold [of "full_blocks 128 (fips_pad 128 16 m)"] by (metis fips_SHA512_def concat_length(2))

end
