(* ===== verification/Sha1_Ripemd160.thy ===== *)
theory Sha1_Ripemd160
  imports Sha2 Uint256_Compact
begin

text \<open>
  SHA-1 and RIPEMD-160: \<open>src/src/crypto/sha1.cpp\<close> and \<open>ripemd160.cpp\<close>. As in \<open>Sha2\<close>, the calls of \<open>Round\<close> are a
  fold over their number, with the five registers renamed from call to call. RIPEMD-160 has two lines of calls, each
  with its own order of the message words and its own rotations, which are the tables below.

  The references are FIPS 180-4 for SHA-1 and, for RIPEMD-160, the definition by its authors: the order of the words by
  the permutations \<open>\<rho>\<close> and \<open>\<pi>\<close>, and the rotations by round and message word.
\<close>

section \<open>Five registers\<close>

definition five_arg :: "nat \<Rightarrow> nat \<Rightarrow> nat" where
  "five_arg t j = (j + 5 - t mod 5) mod 5"

definition five :: "nat \<Rightarrow> 'w list \<Rightarrow> 'w list" where
  "five t r = map (\<lambda>j. r ! five_arg t j) [0..<5]"

lemma five_arg_mod: "five_arg (t mod 5) = five_arg t" "five_arg (Suc (t mod 5)) = five_arg (Suc t)"
  by (simp_all add: five_arg_def fun_eq_iff mod_Suc_eq)

lemma five_arg_table:
  "list_all (\<lambda>q. five_arg (Suc q) 0 = five_arg q 4 \<and> list_all (\<lambda>j. five_arg (Suc q) (Suc j) = five_arg q j) [0..<4] \<and>
     list_all (\<lambda>i. list_all (\<lambda>j. five_arg q i = five_arg q j \<longrightarrow> i = j) [0..<5]) [0..<5]) [0..<5]"
  by code_simp

lemma five_arg_Suc:
  "five_arg (Suc t) 0 = five_arg t 4" "j < 4 \<Longrightarrow> five_arg (Suc t) (Suc j) = five_arg t j"
  using five_arg_table [unfolded list_all_iff, rule_format, of "t mod 5"] by (simp_all add: five_arg_mod)

lemma five_arg_shift:
  "five_arg (Suc t) (Suc 0) = five_arg t 0" "five_arg (Suc t) 2 = five_arg t (Suc 0)" "five_arg (Suc t) 3 = five_arg t 2"
  "five_arg (Suc t) 4 = five_arg t 3"
  using five_arg_Suc(2) [of 0 t] five_arg_Suc(2) [of 1 t] five_arg_Suc(2) [of 2 t] five_arg_Suc(2) [of 3 t]
  by (simp_all add: numeral_eq_Suc)

lemma five_arg_lt [simp]: "five_arg t j < 5"
  by (simp add: five_arg_def)

lemma five_arg_inj: "i < 5 \<Longrightarrow> j < 5 \<Longrightarrow> five_arg t i = five_arg t j \<longleftrightarrow> i = j"
  using five_arg_table [unfolded list_all_iff, rule_format, of "t mod 5"] by (auto simp: five_arg_mod)

lemma five_list: "five t r = [r ! five_arg t 0, r ! five_arg t 1, r ! five_arg t 2, r ! five_arg t 3, r ! five_arg t 4]"
proof -
  have "[0..<5] = [0, 1, 2, 3, 4 :: nat]" by (simp add: upt_conv_Cons)
  then show ?thesis by (simp add: five_def)
qed

lemma five_aligned: "n mod 5 = 0 \<Longrightarrow> length r = 5 \<Longrightarrow> five n r = r"
  by (rule nth_equalityI) (simp_all add: five_def five_arg_def)

lemma rotation_left:
  assumes "0 < k" "k < LENGTH('a)"
  shows "push_bit k x OR drop_bit (LENGTH('a) - k) x = word_rotl k (x :: 'a::len word)"
proof -
  have "word_rotl k x = word_rotr (LENGTH('a) - k) x" using assms by (simp add: word_rotl_eq_word_rotr)
  then show ?thesis using rotation [of "LENGTH('a) - k" x] assms by (simp add: or.commute)
qed

section \<open>SHA-1\<close>

definition sha1_f1 :: "u32 \<Rightarrow> u32 \<Rightarrow> u32 \<Rightarrow> u32" where
  "sha1_f1 b c d = d XOR (b AND (c XOR d))"

definition sha1_f2 :: "u32 \<Rightarrow> u32 \<Rightarrow> u32 \<Rightarrow> u32" where
  "sha1_f2 b c d = b XOR c XOR d"

definition sha1_f3 :: "u32 \<Rightarrow> u32 \<Rightarrow> u32 \<Rightarrow> u32" where
  "sha1_f3 b c d = (b AND c) OR (d AND (b OR c))"

definition sha1_left :: "u32 \<Rightarrow> u32" where
  "sha1_left x = push_bit 1 x OR drop_bit 31 x"

definition sha1_Initialize :: "u32 list" where
  "sha1_Initialize = [0x67452301, 0xEFCDAB89, 0x98BADCFE, 0x10325476, 0xC3D2E1F0]"

text \<open>The new values of the registers \<open>b\<close> and \<open>e\<close>.\<close>

definition sha1_Round :: "u32 \<Rightarrow> u32 \<Rightarrow> u32 \<Rightarrow> u32 \<Rightarrow> u32 \<Rightarrow> u32 \<Rightarrow> u32 \<Rightarrow> u32 \<Rightarrow> u32 \<times> u32" where
  "sha1_Round a b c d e f k w = (push_bit 30 b OR drop_bit 2 b, e + ((push_bit 5 a OR drop_bit 27 a) + f + k + w))"

definition sha1_f :: "nat \<Rightarrow> u32 \<Rightarrow> u32 \<Rightarrow> u32 \<Rightarrow> u32" where
  "sha1_f t = (if t < 20 then sha1_f1 else if t < 40 then sha1_f2 else if t < 60 then sha1_f3 else sha1_f2)"

definition sha1_k :: "nat \<Rightarrow> u32" where
  "sha1_k t = (if t < 20 then 0x5A827999 else if t < 40 then 0x6ED9EBA1 else if t < 60 then 0x8F1BBCDC else 0xCA62C1D6)"

definition sha1_call :: "nat \<Rightarrow> u32 \<Rightarrow> u32 list \<Rightarrow> u32 list" where
  "sha1_call t x r =
     (let arg = (\<lambda>j. r ! five_arg t j);
          (b, e) = sha1_Round (arg 0) (arg 1) (arg 2) (arg 3) (arg 4) (sha1_f t (arg 1) (arg 2) (arg 3)) (sha1_k t) x
      in r[five_arg t 1 := b, five_arg t 4 := e])"

definition sha1_word :: "(nat \<Rightarrow> u32) \<Rightarrow> nat \<Rightarrow> u32 list \<Rightarrow> u32" where
  "sha1_word M t w =
     (if t < 16 then M t
      else sha1_left (w ! (t mod 16) XOR w ! ((t + 13) mod 16) XOR w ! ((t + 8) mod 16) XOR w ! ((t + 2) mod 16)))"

definition sha1_step :: "(nat \<Rightarrow> u32) \<Rightarrow> nat \<Rightarrow> u32 list \<times> u32 list \<Rightarrow> u32 list \<times> u32 list" where
  "sha1_step M t = (\<lambda>(r, w). let x = sha1_word M t w in (sha1_call t x r, if t < 77 then w[t mod 16 := x] else w))"

definition sha1_Transform :: "u32 list \<Rightarrow> bytes \<Rightarrow> u32 list" where
  "sha1_Transform s chunk =
     map2 (+) s (fst (fold (sha1_step (\<lambda>i. ReadBE32 (drop (4 * i) chunk))) [0..<80] (s, replicate 16 0)))"

type_synonym CSHA1 = "u32 list hasher"

definition make_CSHA1 :: "bytes \<Rightarrow> CSHA1" where
  "make_CSHA1 junk = \<lparr>hs_s = sha1_Initialize, hs_buf = junk, hs_bytes = 0\<rparr>"

definition CSHA1_Write :: "bytes \<Rightarrow> CSHA1 \<Rightarrow> CSHA1" where
  "CSHA1_Write = hasher_Write 64 sha1_Transform"

definition CSHA1_Finalize :: "CSHA1 \<Rightarrow> bytes \<times> CSHA1" where
  "CSHA1_Finalize h =
     (let pad = 0x80 # replicate 63 0;
          sizedesc = WriteBE64 (push_bit 3 (hs_bytes h));
          h1 = CSHA1_Write (take (1 + (119 - unat (hs_bytes h) mod 64) mod 64) pad) h;
          h2 = CSHA1_Write sizedesc h1
      in (concat (map WriteBE32 (hs_s h2)), h2))"

definition CSHA1_Reset :: "CSHA1 \<Rightarrow> CSHA1" where
  "CSHA1_Reset h = h\<lparr>hs_bytes := 0, hs_s := sha1_Initialize\<rparr>"

section \<open>RIPEMD-160\<close>

definition ripemd_f1 :: "u32 \<Rightarrow> u32 \<Rightarrow> u32 \<Rightarrow> u32" where "ripemd_f1 x y z = x XOR y XOR z"
definition ripemd_f2 :: "u32 \<Rightarrow> u32 \<Rightarrow> u32 \<Rightarrow> u32" where "ripemd_f2 x y z = (x AND y) OR (NOT x AND z)"
definition ripemd_f3 :: "u32 \<Rightarrow> u32 \<Rightarrow> u32 \<Rightarrow> u32" where "ripemd_f3 x y z = (x OR NOT y) XOR z"
definition ripemd_f4 :: "u32 \<Rightarrow> u32 \<Rightarrow> u32 \<Rightarrow> u32" where "ripemd_f4 x y z = (x AND z) OR (y AND NOT z)"
definition ripemd_f5 :: "u32 \<Rightarrow> u32 \<Rightarrow> u32 \<Rightarrow> u32" where "ripemd_f5 x y z = x XOR (y OR NOT z)"

definition ripemd160_Initialize :: "u32 list" where
  "ripemd160_Initialize = [0x67452301, 0xEFCDAB89, 0x98BADCFE, 0x10325476, 0xC3D2E1F0]"

definition rol :: "u32 \<Rightarrow> nat \<Rightarrow> u32" where
  "rol x i = push_bit i x OR drop_bit (32 - i) x"

text \<open>The new values of the registers \<open>a\<close> and \<open>c\<close>.\<close>

definition ripemd_Round :: "u32 \<Rightarrow> u32 \<Rightarrow> u32 \<Rightarrow> u32 \<Rightarrow> u32 \<Rightarrow> u32 \<Rightarrow> u32 \<Rightarrow> u32 \<Rightarrow> nat \<Rightarrow> u32 \<times> u32" where
  "ripemd_Round a b c d e f x k r = (rol (a + f + x + k) r + e, rol c 10)"

text \<open>\<open>R11\<close> to \<open>R51\<close> and \<open>R12\<close> to \<open>R52\<close>: the function and the constant of each group of sixteen calls.\<close>

definition ripemd_R1 :: "((u32 \<Rightarrow> u32 \<Rightarrow> u32 \<Rightarrow> u32) \<times> u32) list" where
  "ripemd_R1 = [(ripemd_f1, 0), (ripemd_f2, 0x5A827999), (ripemd_f3, 0x6ED9EBA1), (ripemd_f4, 0x8F1BBCDC), (ripemd_f5, 0xA953FD4E)]"

definition ripemd_R2 :: "((u32 \<Rightarrow> u32 \<Rightarrow> u32 \<Rightarrow> u32) \<times> u32) list" where
  "ripemd_R2 = [(ripemd_f5, 0x50A28BE6), (ripemd_f4, 0x5C4DD124), (ripemd_f3, 0x6D703EF3), (ripemd_f2, 0x7A6D76E9), (ripemd_f1, 0)]"

text \<open>The message word and the rotation of each call of the two lines.\<close>

definition ripemd_calls1 :: "(nat \<times> nat) list" where
  "ripemd_calls1 = [
     (0, 11), (1, 14), (2, 15), (3, 12), (4, 5), (5, 8), (6, 7), (7, 9), (8, 11), (9, 13), (10, 14), (11, 15), (12, 6), (13, 7), (14, 9), (15, 8),
     (7, 7), (4, 6), (13, 8), (1, 13), (10, 11), (6, 9), (15, 7), (3, 15), (12, 7), (0, 12), (9, 15), (5, 9), (2, 11), (14, 7), (11, 13), (8, 12),
     (3, 11), (10, 13), (14, 6), (4, 7), (9, 14), (15, 9), (8, 13), (1, 15), (2, 14), (7, 8), (0, 13), (6, 6), (13, 5), (11, 12), (5, 7), (12, 5),
     (1, 11), (9, 12), (11, 14), (10, 15), (0, 14), (8, 15), (12, 9), (4, 8), (13, 9), (3, 14), (7, 5), (15, 6), (14, 8), (5, 6), (6, 5), (2, 12),
     (4, 9), (0, 15), (5, 5), (9, 11), (7, 6), (12, 8), (2, 13), (10, 12), (14, 5), (1, 12), (3, 13), (8, 14), (11, 11), (6, 8), (15, 5), (13, 6)]"

definition ripemd_calls2 :: "(nat \<times> nat) list" where
  "ripemd_calls2 = [
     (5, 8), (14, 9), (7, 9), (0, 11), (9, 13), (2, 15), (11, 15), (4, 5), (13, 7), (6, 7), (15, 8), (8, 11), (1, 14), (10, 14), (3, 12), (12, 6),
     (6, 9), (11, 13), (3, 15), (7, 7), (0, 12), (13, 8), (5, 9), (10, 11), (14, 7), (15, 7), (8, 12), (12, 7), (4, 6), (9, 15), (1, 13), (2, 11),
     (15, 9), (5, 7), (1, 15), (3, 11), (7, 8), (14, 6), (6, 6), (9, 14), (11, 12), (8, 13), (12, 5), (2, 14), (10, 13), (0, 13), (4, 7), (13, 5),
     (8, 15), (6, 5), (4, 8), (1, 11), (3, 14), (11, 14), (15, 6), (0, 14), (5, 6), (12, 9), (2, 12), (13, 9), (9, 12), (7, 5), (10, 15), (14, 8),
     (12, 8), (15, 5), (10, 12), (4, 9), (1, 12), (5, 5), (8, 14), (7, 6), (6, 8), (2, 13), (13, 6), (14, 5), (0, 15), (3, 13), (9, 11), (11, 11)]"

definition ripemd_call :: "((u32 \<Rightarrow> u32 \<Rightarrow> u32 \<Rightarrow> u32) \<times> u32) list \<Rightarrow> (nat \<times> nat) list \<Rightarrow> (nat \<Rightarrow> u32) \<Rightarrow> nat \<Rightarrow> u32 list \<Rightarrow> u32 list" where
  "ripemd_call R calls W t r =
     (let arg = (\<lambda>j. r ! five_arg t j);
          (f, k) = R ! (t div 16);
          (i, rot) = calls ! t;
          (a, c) = ripemd_Round (arg 0) (arg 1) (arg 2) (arg 3) (arg 4) (f (arg 1) (arg 2) (arg 3)) (W i) k rot
      in r[five_arg t 0 := a, five_arg t 2 := c])"

definition ripemd160_Transform :: "u32 list \<Rightarrow> bytes \<Rightarrow> u32 list" where
  "ripemd160_Transform s chunk =
     (let W = (\<lambda>i. ReadLE32 (drop (4 * i) chunk));
          (r1, r2) = fold (\<lambda>t (r1, r2). (ripemd_call ripemd_R1 ripemd_calls1 W t r1, ripemd_call ripemd_R2 ripemd_calls2 W t r2))
                       [0..<80] (s, s)
      in [s ! 1 + r1 ! 2 + r2 ! 3, s ! 2 + r1 ! 3 + r2 ! 4, s ! 3 + r1 ! 4 + r2 ! 0, s ! 4 + r1 ! 0 + r2 ! 1, s ! 0 + r1 ! 1 + r2 ! 2])"

definition WriteLE64 :: "u64 \<Rightarrow> bytes" where
  "WriteLE64 x = le_encode 8 x"

type_synonym CRIPEMD160 = "u32 list hasher"

definition make_CRIPEMD160 :: "bytes \<Rightarrow> CRIPEMD160" where
  "make_CRIPEMD160 junk = \<lparr>hs_s = ripemd160_Initialize, hs_buf = junk, hs_bytes = 0\<rparr>"

definition CRIPEMD160_Write :: "bytes \<Rightarrow> CRIPEMD160 \<Rightarrow> CRIPEMD160" where
  "CRIPEMD160_Write = hasher_Write 64 ripemd160_Transform"

definition CRIPEMD160_Finalize :: "CRIPEMD160 \<Rightarrow> bytes \<times> CRIPEMD160" where
  "CRIPEMD160_Finalize h =
     (let pad = 0x80 # replicate 63 0;
          sizedesc = WriteLE64 (push_bit 3 (hs_bytes h));
          h1 = CRIPEMD160_Write (take (1 + (119 - unat (hs_bytes h) mod 64) mod 64) pad) h;
          h2 = CRIPEMD160_Write sizedesc h1
      in (concat (map WriteLE32 (hs_s h2)), h2))"

definition CRIPEMD160_Reset :: "CRIPEMD160 \<Rightarrow> CRIPEMD160" where
  "CRIPEMD160_Reset h = h\<lparr>hs_bytes := 0, hs_s := ripemd160_Initialize\<rparr>"

section \<open>The standards\<close>

fun fips_W1 :: "(nat \<Rightarrow> u32) \<Rightarrow> nat \<Rightarrow> u32" where
  "fips_W1 M t =
     (if t < 16 then M t
      else word_rotl 1 (fips_W1 M (t - 3) XOR fips_W1 M (t - 8) XOR fips_W1 M (t - 14) XOR fips_W1 M (t - 16)))"

declare fips_W1.simps [simp del]

definition fips_f :: "nat \<Rightarrow> u32 \<Rightarrow> u32 \<Rightarrow> u32 \<Rightarrow> u32" where
  "fips_f t x y z = (if t < 20 then fips_Ch x y z else if 40 \<le> t \<and> t < 60 then fips_Maj x y z else x XOR y XOR z)"

fun fips_round1 :: "nat \<Rightarrow> u32 \<Rightarrow> u32 list \<Rightarrow> u32 list" where
  "fips_round1 t w [a, b, c, d, e] = [word_rotl 5 a + fips_f t b c d + e + sha1_k t + w, a, word_rotl 30 b, c, d]"
| "fips_round1 t w v = v"

definition fips_SHA1_block :: "u32 list \<Rightarrow> bytes \<Rightarrow> u32 list" where
  "fips_SHA1_block H block =
     map2 (+) (fold (\<lambda>t. fips_round1 t (fips_W1 (\<lambda>i. ReadBE32 (drop (4 * i) block)) t)) [0..<80] H) H"

definition fips_SHA1 :: "bytes \<Rightarrow> bytes" where
  "fips_SHA1 m = concat (map WriteBE32 (foldl fips_SHA1_block sha1_Initialize (full_blocks 64 (fips_pad 64 8 m))))"

definition rmd_rho :: "nat \<Rightarrow> nat" where
  "rmd_rho i = [7, 4, 13, 1, 10, 6, 15, 3, 12, 0, 9, 5, 2, 14, 11, 8] ! i"

definition rmd_pi :: "nat \<Rightarrow> nat" where
  "rmd_pi i = (9 * i + 5) mod 16"

definition rmd_shift :: "nat \<Rightarrow> nat \<Rightarrow> nat" where
  "rmd_shift j i =
     [[11, 14, 15, 12, 5, 8, 7, 9, 11, 13, 14, 15, 6, 7, 9, 8],
      [12, 13, 11, 15, 6, 9, 9, 7, 12, 15, 11, 13, 7, 8, 7, 7],
      [13, 15, 14, 11, 7, 7, 6, 8, 13, 14, 13, 12, 5, 5, 6, 9],
      [14, 11, 12, 14, 8, 6, 5, 5, 15, 12, 15, 14, 9, 9, 8, 6],
      [15, 12, 13, 13, 9, 5, 8, 6, 14, 11, 12, 11, 8, 6, 5, 5]] ! j ! i"

definition rmd_word :: "nat \<Rightarrow> nat \<Rightarrow> nat" where
  "rmd_word line t = (rmd_rho ^^ (t div 16)) (if line = 1 then t mod 16 else rmd_pi (t mod 16))"

definition rmd_f :: "nat \<Rightarrow> u32 \<Rightarrow> u32 \<Rightarrow> u32 \<Rightarrow> u32" where
  "rmd_f j x y z =
     (if j = 0 then x XOR y XOR z else if j = 1 then (x AND y) OR (NOT x AND z) else if j = 2 then (x OR NOT y) XOR z
      else if j = 3 then (x AND z) OR (y AND NOT z) else x XOR (y OR NOT z))"

definition rmd_K :: "nat \<Rightarrow> nat \<Rightarrow> u32" where
  "rmd_K line j =
     (if line = 1 then [0, 0x5A827999, 0x6ED9EBA1, 0x8F1BBCDC, 0xA953FD4E] else [0x50A28BE6, 0x5C4DD124, 0x6D703EF3, 0x7A6D76E9, 0]) ! j"

fun rmd_round :: "nat \<Rightarrow> (nat \<Rightarrow> u32) \<Rightarrow> nat \<Rightarrow> u32 list \<Rightarrow> u32 list" where
  "rmd_round line X t [A, B, C, D, E] =
     (let j = t div 16; i = rmd_word line t in
      [E, word_rotl (rmd_shift j i) (A + rmd_f (if line = 1 then j else 4 - j) B C D + X i + rmd_K line j) + E, B, word_rotl 10 C, D])"
| "rmd_round line X t v = v"

fun rmd_combine :: "u32 list \<Rightarrow> u32 list \<Rightarrow> u32 list \<Rightarrow> u32 list" where
  "rmd_combine [h0, h1, h2, h3, h4] [A, B, C, D, E] [A', B', C', D', E'] = [h1 + C + D', h2 + D + E', h3 + E + A', h4 + A + B', h0 + B + C']"
| "rmd_combine h v v' = h"

definition rmd_block :: "u32 list \<Rightarrow> bytes \<Rightarrow> u32 list" where
  "rmd_block h block =
     (let X = (\<lambda>i. ReadLE32 (drop (4 * i) block)) in
      rmd_combine h (fold (rmd_round 1 X) [0..<80] h) (fold (rmd_round 2 X) [0..<80] h))"

definition rmd_pad :: "bytes \<Rightarrow> bytes" where
  "rmd_pad m = m @ [0x80] @ replicate (padding_zeros 64 8 (length m)) 0 @ map (\<lambda>i. of_nat (8 * length m div 256 ^ i)) [0..<8]"

definition rmd_RIPEMD160 :: "bytes \<Rightarrow> bytes" where
  "rmd_RIPEMD160 m = concat (map WriteLE32 (foldl rmd_block ripemd160_Initialize (full_blocks 64 (rmd_pad m))))"

section \<open>SHA-1 computes the standard\<close>

lemma sha1_f_fips: "sha1_f t x y z = fips_f t x y z"
  by (rule bit_word_eqI) (auto simp: sha1_f_def fips_f_def sha1_f1_def sha1_f2_def sha1_f3_def fips_Ch_def fips_Maj_def bit_simps)

lemma sha1_rotations:
  "push_bit 30 b OR drop_bit 2 b = word_rotl 30 (b :: u32)" "push_bit 5 a OR drop_bit 27 a = word_rotl 5 (a :: u32)"
  "sha1_left x = word_rotl 1 x"
  using rotation_left [of 30 b] rotation_left [of 5 a] rotation_left [of 1 x] by (simp_all add: sha1_left_def)

lemma sha1_call_fips:
  assumes "length r = 5"
  shows "five (Suc t) (sha1_call t x r) = fips_round1 t x (five t r)"
  using assms by (simp add: five_list sha1_call_def sha1_Round_def Let_def five_arg_Suc(1) five_arg_shift nth_list_update
      five_arg_inj sha1_f_fips sha1_rotations algebra_simps)

lemma length_sha1_call [simp]: "length (sha1_call t x r) = length r"
  by (simp add: sha1_call_def Let_def split: prod.splits)

lemma schedule_index1:
  "16 \<le> t \<Longrightarrow> (t + 13) mod 16 = (t - 3) mod 16" "16 \<le> t \<Longrightarrow> (t + 8) mod 16 = (t - 8) mod 16"
  "16 \<le> t \<Longrightarrow> (t + 2) mod 16 = (t - 14) mod (16 :: nat)"
proof -
  have "(t + 13) mod 16 = (t - 3) mod 16 \<and> (t + 8) mod 16 = (t - 8) mod 16 \<and> (t + 2) mod 16 = (t - 14) mod 16" if "16 \<le> t"
  proof -
    obtain u where "t = u + 16" using \<open>16 \<le> t\<close> le_Suc_ex [of 16 t] by (auto simp: add.commute)
    then show ?thesis
      using mod_add_self2 [of "u + 13" 16] mod_add_self2 [of "u + 8" 16] mod_add_self2 [of "u + 2" 16] by (simp add: add.commute)
  qed
  then show "16 \<le> t \<Longrightarrow> (t + 13) mod 16 = (t - 3) mod 16" "16 \<le> t \<Longrightarrow> (t + 8) mod 16 = (t - 8) mod 16"
    "16 \<le> t \<Longrightarrow> (t + 2) mod 16 = (t - 14) mod 16" by blast+
qed

lemma sha1_word_fips:
  assumes "\<And>u. u < t \<Longrightarrow> u < 77 \<Longrightarrow> t \<le> u + 16 \<Longrightarrow> w ! (u mod 16) = fips_W1 M u" "t < 80"
  shows "sha1_word M t w = fips_W1 M t"
proof (cases "t < 16")
  case True
  then show ?thesis by (simp add: sha1_word_def fips_W1.simps)
next
  case False
  then have "w ! ((t - k) mod 16) = fips_W1 M (t - k)" if "3 \<le> k" "k \<le> 16" for k
    using assms(1) [of "t - k"] assms(2) that by simp
  from this [of 3] this [of 8] this [of 14] this [of 16] show ?thesis
    using False schedule_index1 [of t] schedule_index(4) [of t] fips_W1.simps [of M t] by (simp add: sha1_word_def sha1_rotations ac_simps)
qed

lemma sha1_rounds_fips:
  assumes "length s = 5" "t \<le> 80"
  shows "\<exists>r w. fold (sha1_step M) [0..<t] (s, replicate 16 0) = (r, w) \<and> length r = 5 \<and> length w = 16 \<and>
    five t r = fold (\<lambda>t. fips_round1 t (fips_W1 M t)) [0..<t] s \<and>
    (\<forall>u. u < t \<longrightarrow> u < 77 \<longrightarrow> t \<le> u + 16 \<longrightarrow> w ! (u mod 16) = fips_W1 M u)"
  using assms(2)
proof (induction t)
  case 0
  show ?case using assms(1) by (simp add: five_aligned)
next
  case (Suc t)
  then obtain r w where IH: "fold (sha1_step M) [0..<t] (s, replicate 16 0) = (r, w)" "length r = 5" "length w = 16"
    "five t r = fold (\<lambda>t. fips_round1 t (fips_W1 M t)) [0..<t] s"
    "\<And>u. u < t \<Longrightarrow> u < 77 \<Longrightarrow> t \<le> u + 16 \<Longrightarrow> w ! (u mod 16) = fips_W1 M u"
    by fastforce
  have x: "sha1_word M t w = fips_W1 M t" using sha1_word_fips [OF IH(5)] Suc.prems by simp
  define w' where "w' = (if t < 77 then w[t mod 16 := fips_W1 M t] else w)"
  have "w' ! (u mod 16) = fips_W1 M u" if "u < Suc t" "u < 77" "Suc t \<le> u + 16" for u
  proof (cases "u = t")
    case False
    then have "u mod 16 \<noteq> t mod 16" using that distinct_slots [of u t] by simp
    then show ?thesis using False that IH(5) [of u] by (simp add: w'_def)
  qed (use that IH(3) in \<open>simp add: w'_def\<close>)
  moreover have "fold (sha1_step M) [0..<Suc t] (s, replicate 16 0) = (sha1_call t (fips_W1 M t) r, w')"
    using IH(1) x by (simp add: w'_def sha1_step_def [of M t] Let_def)
  moreover have "five (Suc t) (sha1_call t (fips_W1 M t) r) = fold (\<lambda>t. fips_round1 t (fips_W1 M t)) [0..<Suc t] s"
    using IH(4) sha1_call_fips [OF IH(2)] by simp
  ultimately show ?case using IH(2,3) by (simp add: w'_def)
qed

lemma sha1_Transform_fips:
  assumes "length s = 5"
  shows "sha1_Transform s block = fips_SHA1_block s block \<and> length (sha1_Transform s block) = 5"
proof -
  define M where "M = (\<lambda>i. ReadBE32 (drop (4 * i) block))"
  obtain r w where r: "fold (sha1_step M) [0..<80] (s, replicate 16 0) = (r, w)" "length r = 5"
    "five 80 r = fold (\<lambda>t. fips_round1 t (fips_W1 M t)) [0..<80] s"
    using sha1_rounds_fips [OF assms, of 80 M] by fastforce
  have "map2 (+) s r = map2 (+) r s" by (rule nth_equalityI) (simp_all add: add.commute)
  moreover have "five 80 r = r" using r(2) by (simp add: five_aligned)
  ultimately show ?thesis unfolding sha1_Transform_def fips_SHA1_block_def M_def [symmetric] using r assms by simp
qed

interpretation sha1_blocks: block_hasher 64 sha1_Transform sha1_Initialize
  by unfold_locales simp_all

lemma sha1_fold:
  "foldl sha1_Transform sha1_Initialize bs = foldl fips_SHA1_block sha1_Initialize bs \<and>
    length (foldl sha1_Transform sha1_Initialize bs) = 5"
  by (rule foldl_agree, erule sha1_Transform_fips) (simp add: sha1_Initialize_def)

lemma CSHA1_stands:
  assumes "sha1_blocks.stands_for h m"
  shows "fst (CSHA1_Finalize h) = fips_SHA1 m"
proof -
  have "hs_bytes h = of_nat (length m)" using assms by (simp add: sha1_blocks.stands_for_def)
  then have "m @ [0x80] @ replicate (padding_zeros 64 8 (length m)) 0 @ WriteBE64 (push_bit 3 (hs_bytes h)) = fips_pad 64 8 m"
    by (simp only: fips_pad_def length_bytes)
  then show ?thesis
    using sha1_blocks.padded_state [OF assms, of 8 "WriteBE64 (push_bit 3 (hs_bytes h))" 119] sha1_fold
    by (simp add: CSHA1_Finalize_def CSHA1_Write_def fips_SHA1_def Let_def)
qed

lemma CSHA1_correct:
  assumes "length junk = 64"
  shows "fst (CSHA1_Finalize (fold CSHA1_Write pieces (make_CSHA1 junk))) = fips_SHA1 (concat pieces)"
proof -
  have "sha1_blocks.stands_for (make_CSHA1 junk) []"
    unfolding make_CSHA1_def using assms by (rule sha1_blocks.stands_for_empty)
  from sha1_blocks.Write_pieces [OF this, of pieces] show ?thesis by (intro CSHA1_stands) (simp add: CSHA1_Write_def)
qed

section \<open>RIPEMD-160 computes its definition\<close>

lemma rol_rotl: "0 < k \<Longrightarrow> k < 32 \<Longrightarrow> rol x k = word_rotl k x"
  using rotation_left [of k x] by (simp add: rol_def)

text \<open>The tables are the orders and rotations of the definition.\<close>

lemma ripemd_tables:
  "list_all (\<lambda>t. ripemd_calls1 ! t = (rmd_word 1 t, rmd_shift (t div 16) (rmd_word 1 t)) \<and>
     ripemd_calls2 ! t = (rmd_word 2 t, rmd_shift (t div 16) (rmd_word 2 t)) \<and>
     0 < rmd_shift (t div 16) (rmd_word 1 t) \<and> rmd_shift (t div 16) (rmd_word 1 t) < 32 \<and>
     0 < rmd_shift (t div 16) (rmd_word 2 t) \<and> rmd_shift (t div 16) (rmd_word 2 t) < 32) [0..<80]"
  by code_simp

lemma group_cases:
  assumes "t < (80 :: nat)"
  obtains "t div 16 = 0" | "t div 16 = 1" | "t div 16 = 2" | "t div 16 = 3" | "t div 16 = 4"
proof -
  have "t div 16 < 5" using assms by (simp add: less_mult_imp_div_less)
  then show ?thesis using that by linarith
qed

lemma ripemd_functions:
  assumes "t < 80"
  shows "ripemd_R1 ! (t div 16) = (rmd_f (t div 16), rmd_K 1 (t div 16))"
    and "ripemd_R2 ! (t div 16) = (rmd_f (4 - t div 16), rmd_K 2 (t div 16))"
  using group_cases [OF assms]
  by (cases; simp add: ripemd_R1_def ripemd_R2_def rmd_f_def rmd_K_def fun_eq_iff ripemd_f1_def ripemd_f2_def ripemd_f3_def
      ripemd_f4_def ripemd_f5_def)+

lemma length_ripemd_call [simp]: "length (ripemd_call R calls W t r) = length r"
  by (simp add: ripemd_call_def Let_def split: prod.splits)

lemma ripemd_call_spec:
  assumes "length r = 5" "t < 80"
  shows "five (Suc t) (ripemd_call ripemd_R1 ripemd_calls1 W t r) = rmd_round 1 W t (five t r)"
    and "five (Suc t) (ripemd_call ripemd_R2 ripemd_calls2 W t r) = rmd_round 2 W t (five t r)"
  using ripemd_tables [unfolded list_all_iff, rule_format, of t] assms
  by (simp_all add: five_list ripemd_call_def ripemd_functions ripemd_Round_def Let_def five_arg_Suc(1) five_arg_shift
      nth_list_update five_arg_inj rol_rotl)

lemma ripemd_lines:
  assumes "length s = 5" "t \<le> 80"
  shows "\<exists>r1 r2. fold (\<lambda>t (r1, r2). (ripemd_call ripemd_R1 ripemd_calls1 W t r1, ripemd_call ripemd_R2 ripemd_calls2 W t r2))
      [0..<t] (s, s) = (r1, r2) \<and> length r1 = 5 \<and> length r2 = 5 \<and>
    five t r1 = fold (rmd_round 1 W) [0..<t] s \<and> five t r2 = fold (rmd_round 2 W) [0..<t] s"
  using assms(2)
proof (induction t)
  case 0
  show ?case using assms(1) by (simp add: five_aligned)
next
  case (Suc t)
  then show ?case using ripemd_call_spec [where t = t and W = W] by fastforce
qed

lemma list_of_5:
  assumes "length xs = 5"
  obtains a b c d e where "xs = [a, b, c, d, e]"
proof -
  have "length xs = Suc (Suc (Suc (Suc (Suc 0))))" using assms by simp
  then show ?thesis using that by (auto simp: length_Suc_conv)
qed

lemma ripemd160_Transform_spec:
  assumes "length s = 5"
  shows "ripemd160_Transform s block = rmd_block s block \<and> length (ripemd160_Transform s block) = 5"
proof -
  define W where "W = (\<lambda>i. ReadLE32 (drop (4 * i) block))"
  obtain r1 r2 where r: "fold (\<lambda>t (r1, r2). (ripemd_call ripemd_R1 ripemd_calls1 W t r1, ripemd_call ripemd_R2 ripemd_calls2 W t r2))
      [0..<80] (s, s) = (r1, r2)" "length r1 = 5" "length r2 = 5"
    "five 80 r1 = fold (rmd_round 1 W) [0..<80] s" "five 80 r2 = fold (rmd_round 2 W) [0..<80] s"
    using ripemd_lines [OF assms, of 80 W] by fastforce
  have "five 80 r1 = r1" "five 80 r2 = r2" using r(2,3) by (simp_all add: five_aligned)
  moreover obtain h0 h1 h2 h3 h4 where "s = [h0, h1, h2, h3, h4]" using assms by (rule list_of_5)
  moreover obtain a b c d e where "r1 = [a, b, c, d, e]" using r(2) by (rule list_of_5)
  moreover obtain a' b' c' d' e' where "r2 = [a', b', c', d', e']" using r(3) by (rule list_of_5)
  ultimately show ?thesis unfolding ripemd160_Transform_def rmd_block_def Let_def W_def [symmetric] r(1) r(4,5) [symmetric]
    by simp
qed

interpretation ripemd_blocks: block_hasher 64 ripemd160_Transform ripemd160_Initialize
  by unfold_locales simp_all

lemma ripemd_fold:
  "foldl ripemd160_Transform ripemd160_Initialize bs = foldl rmd_block ripemd160_Initialize bs \<and>
    length (foldl ripemd160_Transform ripemd160_Initialize bs) = 5"
  by (rule foldl_agree, erule ripemd160_Transform_spec) (simp add: ripemd160_Initialize_def)

lemma CRIPEMD160_stands:
  assumes "ripemd_blocks.stands_for h m"
  shows "fst (CRIPEMD160_Finalize h) = rmd_RIPEMD160 m"
proof -
  have "hs_bytes h = of_nat (length m)" using assms by (simp add: ripemd_blocks.stands_for_def)
  then have "m @ [0x80] @ replicate (padding_zeros 64 8 (length m)) 0 @ WriteLE64 (push_bit 3 (hs_bytes h)) = rmd_pad m"
    by (simp only: rmd_pad_def WriteLE64_def length_bytes_le)
  then show ?thesis
    using ripemd_blocks.padded_state [OF assms, of 8 "WriteLE64 (push_bit 3 (hs_bytes h))" 119] ripemd_fold
    by (simp add: CRIPEMD160_Finalize_def CRIPEMD160_Write_def rmd_RIPEMD160_def Let_def WriteLE64_def)
qed

lemma ripemd160_size: "length (rmd_RIPEMD160 m) = 20"
proof -
  have "length (concat (map WriteLE32 s)) = 4 * length s" for s
    by (simp add: length_concat o_def sum_list_triv WriteLE32_def)
  moreover have "length (foldl rmd_block ripemd160_Initialize (full_blocks 64 (rmd_pad m))) = 5"
    using ripemd_fold [of "full_blocks 64 (rmd_pad m)"] by (elim conjE) (simp only:)
  ultimately show ?thesis by (simp add: rmd_RIPEMD160_def)
qed

text \<open>
  However a message is split into pieces that are written to a \<open>CRIPEMD160\<close>, \<open>Finalize\<close> gives its RIPEMD-160 hash as defined
  by the permutations of the message words and the rotations by round and word: the 160 unrolled calls are in order.
\<close>

theorem CRIPEMD160_correct:
  assumes "length junk = 64"
  shows "fst (CRIPEMD160_Finalize (fold CRIPEMD160_Write pieces (make_CRIPEMD160 junk))) = rmd_RIPEMD160 (concat pieces)"
proof -
  have "ripemd_blocks.stands_for (make_CRIPEMD160 junk) []"
    unfolding make_CRIPEMD160_def using assms by (rule ripemd_blocks.stands_for_empty)
  from ripemd_blocks.Write_pieces [OF this, of pieces] show ?thesis by (intro CRIPEMD160_stands) (simp add: CRIPEMD160_Write_def)
qed

theorem CRIPEMD160_correct_witness:
  "fst (CRIPEMD160_Finalize (CRIPEMD160_Write [99] (CRIPEMD160_Write [97, 98] (make_CRIPEMD160 (replicate 64 7))))) = rmd_RIPEMD160 [97, 98, 99]"
  using CRIPEMD160_correct [of "replicate 64 7" "[[97, 98], [99]]"] by simp

end
