(* ===== verification/Hash_Functions.thy ===== *)
theory Hash_Functions
  imports Sha1_Ripemd160
begin

text \<open>
  The hashes that the node computes with the hashers of \<open>src/src/crypto\<close>: \<open>CHash256\<close>, \<open>CHash160\<close>, \<open>Hash\<close>, \<open>Hash160\<close> and
  \<open>SerializeHash\<close> of \<open>src/src/hash.h\<close>, the keyed hashes of \<open>crypto/hmac_sha256.cpp\<close> and \<open>hmac_sha512.cpp\<close>, and \<open>BIP32Hash\<close> of
  \<open>hash.cpp\<close>. The hashers they create have uninitialised buffers; \<open>junk\<close> stands for their contents.
\<close>

section \<open>Double hashes\<close>

type_synonym CHash256 = CSHA256
type_synonym CHash160 = CSHA256

definition CHash256_Write :: "bytes \<Rightarrow> CHash256 \<Rightarrow> CHash256" where
  "CHash256_Write data sha = CSHA256_Write data sha"

definition CHash256_Finalize :: "CHash256 \<Rightarrow> bytes \<times> CHash256" where
  "CHash256_Finalize sha =
     (let (buf, sha) = CSHA256_Finalize sha in CSHA256_Finalize (CSHA256_Write buf (CSHA256_Reset sha)))"

definition CHash256_Reset :: "CHash256 \<Rightarrow> CHash256" where
  "CHash256_Reset sha = CSHA256_Reset sha"

definition CHash160_Write :: "bytes \<Rightarrow> CHash160 \<Rightarrow> CHash160" where
  "CHash160_Write data sha = CSHA256_Write data sha"

definition CHash160_Finalize :: "bytes \<Rightarrow> CHash160 \<Rightarrow> bytes" where
  "CHash160_Finalize junk sha =
     (let (buf, sha) = CSHA256_Finalize sha in fst (CRIPEMD160_Finalize (CRIPEMD160_Write buf (make_CRIPEMD160 junk))))"

text \<open>\<open>Hash\<close> of one to six objects: each is written in turn.\<close>

definition Hash_objects :: "bytes \<Rightarrow> bytes list \<Rightarrow> bytes" where
  "Hash_objects junk objects = fst (CHash256_Finalize (fold CHash256_Write objects (make_CSHA256 junk)))"

definition Hash160_object :: "bytes \<Rightarrow> bytes \<Rightarrow> bytes" where
  "Hash160_object junk vch = CHash160_Finalize junk (CHash160_Write vch (make_CSHA256 junk))"

text \<open>A \<open>CHashWriter\<close> is a stream: what is serialized to it goes to the hasher in pieces.\<close>

definition SerializeHash :: "bytes \<Rightarrow> bytes list \<Rightarrow> bytes" where
  "SerializeHash junk writes = fst (CHash256_Finalize (fold CHash256_Write writes (make_CSHA256 junk)))"

section \<open>Keyed hashes\<close>

record 's hmac =
  hmac_outer :: "'s hasher"
  hmac_inner :: "'s hasher"

definition CHMAC_SHA256 :: "bytes \<Rightarrow> bytes \<Rightarrow> u32 list hmac" where
  "CHMAC_SHA256 junk key =
     (let rkey = (if length key \<le> 64 then key @ replicate (64 - length key) 0
                  else fst (CSHA256_Finalize (CSHA256_Write key (make_CSHA256 junk))) @ replicate 32 0);
          rkey = map (\<lambda>b. b XOR 0x5c) rkey;
          outer = CSHA256_Write rkey (make_CSHA256 junk);
          rkey = map (\<lambda>b. b XOR (0x5c XOR 0x36)) rkey;
          inner = CSHA256_Write rkey (make_CSHA256 junk)
      in \<lparr>hmac_outer = outer, hmac_inner = inner\<rparr>)"

definition CHMAC_SHA256_Write :: "bytes \<Rightarrow> u32 list hmac \<Rightarrow> u32 list hmac" where
  "CHMAC_SHA256_Write data h = h\<lparr>hmac_inner := CSHA256_Write data (hmac_inner h)\<rparr>"

definition CHMAC_SHA256_Finalize :: "u32 list hmac \<Rightarrow> bytes" where
  "CHMAC_SHA256_Finalize h =
     (let temp = fst (CSHA256_Finalize (hmac_inner h)) in fst (CSHA256_Finalize (CSHA256_Write temp (hmac_outer h))))"

definition CHMAC_SHA512 :: "bytes \<Rightarrow> bytes \<Rightarrow> u64 list hmac" where
  "CHMAC_SHA512 junk key =
     (let rkey = (if length key \<le> 128 then key @ replicate (128 - length key) 0
                  else fst (CSHA512_Finalize (CSHA512_Write key (make_CSHA512 junk))) @ replicate 64 0);
          rkey = map (\<lambda>b. b XOR 0x5c) rkey;
          outer = CSHA512_Write rkey (make_CSHA512 junk);
          rkey = map (\<lambda>b. b XOR (0x5c XOR 0x36)) rkey;
          inner = CSHA512_Write rkey (make_CSHA512 junk)
      in \<lparr>hmac_outer = outer, hmac_inner = inner\<rparr>)"

definition CHMAC_SHA512_Write :: "bytes \<Rightarrow> u64 list hmac \<Rightarrow> u64 list hmac" where
  "CHMAC_SHA512_Write data h = h\<lparr>hmac_inner := CSHA512_Write data (hmac_inner h)\<rparr>"

definition CHMAC_SHA512_Finalize :: "u64 list hmac \<Rightarrow> bytes" where
  "CHMAC_SHA512_Finalize h =
     (let temp = fst (CSHA512_Finalize (hmac_inner h)) in fst (CSHA512_Finalize (CSHA512_Write temp (hmac_outer h))))"

definition BIP32Hash :: "bytes \<Rightarrow> bytes \<Rightarrow> u32 \<Rightarrow> u8 \<Rightarrow> bytes \<Rightarrow> bytes" where
  "BIP32Hash junk chainCode nChild header data =
     (let num = [ucast (drop_bit 24 nChild AND 0xFF), ucast (drop_bit 16 nChild AND 0xFF),
                 ucast (drop_bit 8 nChild AND 0xFF), ucast (drop_bit 0 nChild AND 0xFF)]
      in CHMAC_SHA512_Finalize (CHMAC_SHA512_Write num (CHMAC_SHA512_Write data (CHMAC_SHA512_Write [header] (CHMAC_SHA512 junk chainCode)))))"

section \<open>What they compute\<close>

definition sha256d :: "bytes \<Rightarrow> bytes" where
  "sha256d m = fips_SHA256 (fips_SHA256 m)"

definition hash160 :: "bytes \<Rightarrow> bytes" where
  "hash160 m = rmd_RIPEMD160 (fips_SHA256 m)"

text \<open>The keyed hash of RFC 2104 over a hash with blocks of \<open>B\<close> bytes.\<close>

definition rfc2104 :: "nat \<Rightarrow> (bytes \<Rightarrow> bytes) \<Rightarrow> bytes \<Rightarrow> bytes \<Rightarrow> bytes" where
  "rfc2104 B H key m =
     (let k0 = (if length key > B then H key else key);
          k = k0 @ replicate (B - length k0) 0
      in H (map (\<lambda>b. b XOR 0x5c) k @ H (map (\<lambda>b. b XOR 0x36) k @ m)))"

lemma make_CSHA256_stands: "length junk = 64 \<Longrightarrow> sha256_blocks.stands_for (make_CSHA256 junk) []"
  unfolding make_CSHA256_def by (rule sha256_blocks.stands_for_empty)

lemma CHash256_stands:
  assumes "sha256_blocks.stands_for sha m"
  shows "fst (CHash256_Finalize sha) = sha256d m"
proof -
  have "sha256_blocks.stands_for (CSHA256_Write (fst (CSHA256_Finalize sha)) (CSHA256_Reset (snd (CSHA256_Finalize sha))))
      ([] @ fst (CSHA256_Finalize sha))"
    unfolding CSHA256_Write_def by (intro sha256_blocks.Write_stands CSHA256_Reset_stands [OF assms])
  from CSHA256_stands [OF this] CSHA256_stands [OF assms] show ?thesis
    by (simp add: CHash256_Finalize_def sha256d_def split_beta)
qed

lemma fold_CHash256: "fold CHash256_Write = fold CSHA256_Write"
  by (simp add: CHash256_Write_def [abs_def])

lemma Hash_objects_concat: "length junk = 64 \<Longrightarrow> Hash_objects junk objects = sha256d (concat objects)"
  unfolding Hash_objects_def fold_CHash256 CSHA256_Write_def
  using sha256_blocks.Write_pieces [OF make_CSHA256_stands, of junk objects] CHash256_stands by simp

lemma Hash160_object_eq: "length junk = 64 \<Longrightarrow> Hash160_object junk vch = hash160 vch"
proof -
  assume j: "length junk = 64"
  have "sha256_blocks.stands_for (CSHA256_Write vch (make_CSHA256 junk)) ([] @ vch)"
    unfolding CSHA256_Write_def by (intro sha256_blocks.Write_stands make_CSHA256_stands j)
  then show ?thesis using CSHA256_stands CRIPEMD160_stands
      ripemd_blocks.Write_stands [OF ripemd_blocks.stands_for_empty [OF j], of "fips_SHA256 vch"]
    by (simp add: Hash160_object_def CHash160_Finalize_def CHash160_Write_def hash160_def split_beta make_CRIPEMD160_def CRIPEMD160_Write_def)
qed

text \<open>
  C22. Whatever the uninitialised buffers hold, \<open>Hash\<close> of any objects is SHA-256 applied twice to their concatenation,
  so that it does not depend on how a string is divided among the objects, and \<open>Hash160\<close> is RIPEMD-160 of SHA-256; they have 32 and 20 bytes.
\<close>

theorem node_hashes_correct:
  assumes "length junk = 64"
  shows "Hash_objects junk objects = fips_SHA256 (fips_SHA256 (concat objects)) \<and>
    SerializeHash junk objects = Hash_objects junk [concat objects] \<and>
    Hash160_object junk vch = rmd_RIPEMD160 (fips_SHA256 vch) \<and>
    length (Hash_objects junk objects) = 32 \<and> length (Hash160_object junk vch) = 20"
  using Hash_objects_concat [OF assms] Hash160_object_eq [OF assms]
  by (simp add: SerializeHash_def Hash_objects_def [symmetric] sha256d_def hash160_def sha256_size ripemd160_size)

theorem node_hashes_correct_witness:
  "Hash_objects (replicate 64 1) [[1, 2], [], [3]] = fips_SHA256 (fips_SHA256 [1, 2, 3])"
  using node_hashes_correct [of "replicate 64 1" "[[1, 2], [], [3]]" "[]"] by simp

section \<open>The keyed hashes\<close>

lemma xor_pads: "(b XOR 0x5c) XOR (0x5c XOR 0x36) = (b XOR 0x36 :: u8)"
  by (simp add: xor.assoc xor.left_commute)

lemma CHMAC_SHA256_rfc:
  assumes "length junk = 64"
  shows "CHMAC_SHA256_Finalize (fold CHMAC_SHA256_Write pieces (CHMAC_SHA256 junk key)) = rfc2104 64 fips_SHA256 key (concat pieces)"
proof -
  define k0 where "k0 = (if length key > 64 then fips_SHA256 key else key)"
  define k where "k = k0 @ replicate (64 - length k0) 0"
  have kf: "fst (CSHA256_Finalize (CSHA256_Write key (make_CSHA256 junk))) = fips_SHA256 key"
    using CSHA256_message [OF assms, of "[key]"] by simp
  have rkey: "(if length key \<le> 64 then key @ replicate (64 - length key) 0
      else fst (CSHA256_Finalize (CSHA256_Write key (make_CSHA256 junk))) @ replicate 32 0) = k"
    by (simp add: k_def k0_def kf sha256_size)
  have c: "CHMAC_SHA256 junk key = \<lparr>hmac_outer = CSHA256_Write (map (\<lambda>b. b XOR 0x5c) k) (make_CSHA256 junk),
      hmac_inner = CSHA256_Write (map (\<lambda>b. b XOR 0x36) k) (make_CSHA256 junk)\<rparr>"
    unfolding CHMAC_SHA256_def rkey Let_def map_map o_def xor_pads ..
  have w: "fold CHMAC_SHA256_Write ps h = h\<lparr>hmac_inner := fold CSHA256_Write ps (hmac_inner h)\<rparr>" for ps h
    by (induction ps arbitrary: h) (simp_all add: CHMAC_SHA256_Write_def)
  have "fst (CSHA256_Finalize (fold CSHA256_Write pieces (CSHA256_Write (map (\<lambda>b. b XOR 0x36) k) (make_CSHA256 junk)))) =
      fips_SHA256 (map (\<lambda>b. b XOR 0x36) k @ concat pieces)"
    using CSHA256_message [OF assms, of "map (\<lambda>b. b XOR 0x36) k # pieces"] by simp
  moreover have "fst (CSHA256_Finalize (CSHA256_Write t (CSHA256_Write (map (\<lambda>b. b XOR 0x5c) k) (make_CSHA256 junk)))) =
      fips_SHA256 (map (\<lambda>b. b XOR 0x5c) k @ t)" for t
    using CSHA256_message [OF assms, of "[map (\<lambda>b. b XOR 0x5c) k, t]"] by simp
  ultimately show ?thesis by (simp add: CHMAC_SHA256_Finalize_def w c rfc2104_def Let_def k_def k0_def)
qed

lemma CHMAC_SHA512_rfc:
  assumes "length junk = 128" "length key < 2 ^ 61" "128 + length (concat pieces) < 2 ^ 61"
  shows "CHMAC_SHA512_Finalize (fold CHMAC_SHA512_Write pieces (CHMAC_SHA512 junk key)) = rfc2104 128 fips_SHA512 key (concat pieces)"
proof -
  define k0 where "k0 = (if length key > 128 then fips_SHA512 key else key)"
  define k where "k = k0 @ replicate (128 - length k0) 0"
  have k: "length k = 128" by (simp add: k_def k0_def sha512_size)
  have kf: "fst (CSHA512_Finalize (CSHA512_Write key (make_CSHA512 junk))) = fips_SHA512 key"
    using CSHA512_correct [OF assms(1), of "[key]"] assms(2) by simp
  have rkey: "(if length key \<le> 128 then key @ replicate (128 - length key) 0
      else fst (CSHA512_Finalize (CSHA512_Write key (make_CSHA512 junk))) @ replicate 64 0) = k"
    by (simp add: k_def k0_def kf sha512_size)
  have c: "CHMAC_SHA512 junk key = \<lparr>hmac_outer = CSHA512_Write (map (\<lambda>b. b XOR 0x5c) k) (make_CSHA512 junk),
      hmac_inner = CSHA512_Write (map (\<lambda>b. b XOR 0x36) k) (make_CSHA512 junk)\<rparr>"
    unfolding CHMAC_SHA512_def rkey Let_def map_map o_def xor_pads ..
  have w: "fold CHMAC_SHA512_Write ps h = h\<lparr>hmac_inner := fold CSHA512_Write ps (hmac_inner h)\<rparr>" for ps h
    by (induction ps arbitrary: h) (simp_all add: CHMAC_SHA512_Write_def)
  have "fst (CSHA512_Finalize (fold CSHA512_Write pieces (CSHA512_Write (map (\<lambda>b. b XOR 0x36) k) (make_CSHA512 junk)))) =
      fips_SHA512 (map (\<lambda>b. b XOR 0x36) k @ concat pieces)"
    using CSHA512_correct [OF assms(1), of "map (\<lambda>b. b XOR 0x36) k # pieces"] assms(3) k by simp
  moreover have "fst (CSHA512_Finalize (CSHA512_Write t (CSHA512_Write (map (\<lambda>b. b XOR 0x5c) k) (make_CSHA512 junk)))) =
      fips_SHA512 (map (\<lambda>b. b XOR 0x5c) k @ t)" if "length t = 64" for t
    using CSHA512_correct [OF assms(1), of "[map (\<lambda>b. b XOR 0x5c) k, t]"] k that by simp
  ultimately show ?thesis by (simp add: CHMAC_SHA512_Finalize_def w c rfc2104_def Let_def k_def k0_def sha512_size)
qed

text \<open>
  C23. The keyed hashes, with a key of any length and the data in any pieces, are those of RFC 2104 over SHA-256 and SHA-512, as
  long as the length in bits fits in 64 bits; \<open>BIP32Hash\<close> is the keyed SHA-512 of the header byte, the data and the child number.
\<close>

theorem hmac_correct:
  assumes "length junk = 64" "length junk' = 128" "length key < 2 ^ 61" "128 + length (concat pieces) < 2 ^ 61" "length data = 32"
  shows "CHMAC_SHA256_Finalize (fold CHMAC_SHA256_Write pieces (CHMAC_SHA256 junk key)) = rfc2104 64 fips_SHA256 key (concat pieces) \<and>
    CHMAC_SHA512_Finalize (fold CHMAC_SHA512_Write pieces (CHMAC_SHA512 junk' key)) = rfc2104 128 fips_SHA512 key (concat pieces) \<and>
    BIP32Hash junk' key nChild header data = rfc2104 128 fips_SHA512 key ([header] @ data @ WriteBE32 nChild)"
proof -
  have "ucast (x AND 0xFF) = (ucast x :: u8)" for x :: u32
    by (rule bit_word_eqI) (auto simp: bit_simps numeral_eq_Suc less_Suc_eq)
  then have "WriteBE32 nChild = [ucast (drop_bit 24 nChild AND 0xFF), ucast (drop_bit 16 nChild AND 0xFF),
                 ucast (drop_bit 8 nChild AND 0xFF), ucast (drop_bit 0 nChild AND 0xFF)]"
    by (simp add: WriteBE32_def le_encode_def upt_conv_Cons)
  then have "BIP32Hash junk' key nChild header data =
      CHMAC_SHA512_Finalize (fold CHMAC_SHA512_Write [[header], data, WriteBE32 nChild] (CHMAC_SHA512 junk' key))"
    by (simp add: BIP32Hash_def Let_def)
  then show ?thesis
    using CHMAC_SHA256_rfc [OF assms(1), of pieces key] CHMAC_SHA512_rfc [OF assms(2-4)]
      CHMAC_SHA512_rfc [OF assms(2,3), of "[[header], data, WriteBE32 nChild]"] assms(5) by simp
qed

theorem hmac_correct_witness:
  "BIP32Hash (replicate 128 0) (replicate 32 9) 5 2 (replicate 32 7) =
     rfc2104 128 fips_SHA512 (replicate 32 9) ([2] @ replicate 32 7 @ WriteBE32 5)"
  using hmac_correct [of "replicate 64 0" "replicate 128 0" "replicate 32 9" "[]" "replicate 32 7" 5 2] by simp

end
