(* ===== verification/Block.thy ===== *)
theory Block
  imports Bloom_Filter Partial_Merkle Hash_Functions
begin

text \<open>
  Blocks: \<open>src/src/primitives/block.h\<close> and \<open>block.cpp\<close>, the hash of a transaction in \<open>primitives/transaction.cpp\<close>, the Merkle root of
  a block in \<open>consensus/merkle.cpp\<close>, \<open>CMerkleBlock\<close> of \<open>merkleblock.h\<close> and \<open>merkleblock.cpp\<close>, and the entries of the block
  index on disk, \<open>CDiskBlockIndex\<close>, \<open>CBlockFileInfo\<close> and \<open>CDiskBlockPos\<close> of \<open>chain.h\<close>.

  Here the double hash is no longer a parameter: it is the one of \<open>Hash_Functions\<close>. The X11 hash of a header, a chain of
  eleven vendored hash functions, is a parameter, and so is the version number of the stream that \<open>CBlockLocator\<close> and
  \<open>CDiskBlockIndex\<close> store.
\<close>

section \<open>Headers and blocks\<close>

record CBlockHeader =
  bh_nVersion :: u32
  hashPrevBlock :: bytes
  hashMerkleRoot :: bytes
  bh_nTime :: u32
  bh_nBits :: u32
  bh_nNonce :: u32
  RandomXKey :: bytes
  RandomXData :: bytes

definition null_header :: CBlockHeader where
  "null_header = \<lparr>bh_nVersion = 0, hashPrevBlock = null_hash, hashMerkleRoot = null_hash, bh_nTime = 0, bh_nBits = 0, bh_nNonce = 0,
     RandomXKey = null_hash, RandomXData = []\<rparr>"

definition header_IsNull :: "CBlockHeader \<Rightarrow> bool" where
  "header_IsNull h \<longleftrightarrow> bh_nBits h = 0"

text \<open>The signed version is compared with an \<open>unsigned long\<close>, so a negative one is large.\<close>

definition randomx_version :: "u32 \<Rightarrow> bool" where
  "randomx_version v \<longleftrightarrow> 0x50000000 \<le> (scast v :: u64) \<and> (scast v :: u64) < 0x60000000"

definition ser_header :: "CBlockHeader \<Rightarrow> bytes" where
  "ser_header h = ser_writedata32 (bh_nVersion h) @ hashPrevBlock h @ hashMerkleRoot h @ ser_writedata32 (bh_nTime h) @
     ser_writedata32 (bh_nBits h) @ ser_writedata32 (bh_nNonce h) @
     (if randomx_version (bh_nVersion h) then RandomXKey h @ write_blob (RandomXData h) else [])"

definition deser_header :: "CBlockHeader reader" where
  "deser_header s =
     sbind (ser_readdata32 s) (\<lambda>(v, s).
     sbind (read_bytes 32 s) (\<lambda>(prev, s).
     sbind (read_bytes 32 s) (\<lambda>(root, s).
     sbind (ser_readdata32 s) (\<lambda>(time, s).
     sbind (ser_readdata32 s) (\<lambda>(nbits, s).
     sbind (ser_readdata32 s) (\<lambda>(nonce, s).
     sbind (if randomx_version v
            then sbind (read_bytes 32 s) (\<lambda>(key, s). sbind (read_blob s) (\<lambda>(data, s). Inr ((key, data), s)))
            else Inr ((null_hash, []), s)) (\<lambda>((key, data), s).
       Inr (\<lparr>bh_nVersion = v, hashPrevBlock = prev, hashMerkleRoot = root, bh_nTime = time, bh_nBits = nbits, bh_nNonce = nonce,
             RandomXKey = key, RandomXData = data\<rparr>, s))))))))"

definition header_ok :: "CBlockHeader \<Rightarrow> bool" where
  "header_ok h \<longleftrightarrow> length (hashPrevBlock h) = 32 \<and> length (hashMerkleRoot h) = 32 \<and> length (RandomXKey h) = 32 \<and>
     length (RandomXData h) \<le> MAX_SIZE \<and> (\<not> randomx_version (bh_nVersion h) \<longrightarrow> RandomXKey h = null_hash \<and> RandomXData h = [])"

text \<open>\<open>CBlockHeader::GetHash\<close>: the X11 hash of eighty bytes.\<close>

definition header_GetHash :: "(bytes \<Rightarrow> bytes) \<Rightarrow> CBlockHeader \<Rightarrow> bytes" where
  "header_GetHash HashX11 h =
     HashX11 (ser_writedata32 (bh_nVersion h) @ hashPrevBlock h @ hashMerkleRoot h @ ser_writedata32 (bh_nTime h) @
              ser_writedata32 (bh_nBits h) @ ser_writedata32 (bh_nNonce h))"

record CBlock =
  block_header :: CBlockHeader
  vtx :: "CTransaction list"

definition ser_block :: "CBlock \<Rightarrow> bytes" where
  "ser_block b = ser_header (block_header b) @ write_vector ser_tx (vtx b)"

definition deser_block :: "CBlock reader" where
  "deser_block s =
     sbind (deser_header s) (\<lambda>(h, s). sbind (read_vector deser_tx s) (\<lambda>(txs, s). Inr (\<lparr>block_header = h, vtx = txs\<rparr>, s)))"

definition cblock_ok :: "CBlock \<Rightarrow> bool" where
  "cblock_ok b \<longleftrightarrow> header_ok (block_header b) \<and> vector_ok tx_ok (vtx b)"

definition ser_locator :: "u32 \<Rightarrow> bytes list \<Rightarrow> bytes" where
  "ser_locator version vHave = ser_writedata32 version @ write_vector (\<lambda>h. h) vHave"

definition deser_locator :: "bytes list reader" where
  "deser_locator s = sbind (ser_readdata32 s) (\<lambda>(version, s). read_vector (read_bytes 32) s)"

section \<open>Hashes of transactions and blocks\<close>

definition ComputeHash :: "bytes \<Rightarrow> CTransaction \<Rightarrow> bytes" where
  "ComputeHash junk tx = SerializeHash junk [ser_tx tx]"

definition node_Hash :: "bytes \<Rightarrow> bytes \<Rightarrow> bytes" where
  "node_Hash junk x = Hash_objects junk [x]"

definition BlockMerkleRoot :: "bytes \<Rightarrow> CBlock \<Rightarrow> (bytes \<times> bool) option" where
  "BlockMerkleRoot junk b = ComputeMerkleRoot (node_Hash junk) (map (ComputeHash junk) (vtx b))"

definition BlockMerkleBranch :: "bytes \<Rightarrow> CBlock \<Rightarrow> nat \<Rightarrow> bytes list option" where
  "BlockMerkleBranch junk b position = ComputeMerkleBranch (node_Hash junk) (map (ComputeHash junk) (vtx b)) position"

section \<open>Blocks for light clients\<close>

record CMerkleBlock =
  mb_header :: CBlockHeader
  mb_txn :: CPartialMerkleTree
  vMatchedTxn :: "(nat \<times> bytes) list"

definition allowedTxTypes :: "u16 list" where
  "allowedTxTypes = [0, 1, 2, 3, 4, 5]"

text \<open>The loop over the transactions; \<open>None\<close> is a remainder modulo zero in the filter.\<close>

fun match_loop :: "(bytes \<Rightarrow> bytes option) \<Rightarrow> (CTransaction \<Rightarrow> bytes) \<Rightarrow> nat \<Rightarrow> CTransaction list \<Rightarrow> CBloomFilter \<Rightarrow>
    (bool list \<times> (nat \<times> bytes) list \<times> CBloomFilter) option" where
  "match_loop bls GetHash i [] f = Some ([], [], f)"
| "match_loop bls GetHash i (tx # txs) f =
     (let isAllowedType = (tx_nVersion tx \<noteq> 3 \<or> nType tx \<in> set allowedTxTypes) in
      case (if isAllowedType then IsRelevantAndUpdate bls GetHash tx f else Some (False, f)) of
        None \<Rightarrow> None
      | Some (m, f) \<Rightarrow>
          (case match_loop bls GetHash (i + 1) txs f of
             None \<Rightarrow> None
           | Some (vMatch, matched, f) \<Rightarrow> Some (m # vMatch, if m then (i, GetHash tx) # matched else matched, f)))"

definition CMerkleBlock_filter :: "(bytes \<Rightarrow> bytes option) \<Rightarrow> bytes \<Rightarrow> CBlock \<Rightarrow> CBloomFilter \<Rightarrow> (CMerkleBlock \<times> CBloomFilter) option" where
  "CMerkleBlock_filter bls junk b f =
     (case match_loop bls (ComputeHash junk) 0 (vtx b) f of
        None \<Rightarrow> None
      | Some (vMatch, matched, f) \<Rightarrow>
          (case make_tree (node_Hash junk) (map (ComputeHash junk) (vtx b)) vMatch of
             None \<Rightarrow> None
           | Some t \<Rightarrow> Some (\<lparr>mb_header = block_header b, mb_txn = t, vMatchedTxn = matched\<rparr>, f)))"

definition CMerkleBlock_txids :: "bytes \<Rightarrow> CBlock \<Rightarrow> bytes set \<Rightarrow> CMerkleBlock option" where
  "CMerkleBlock_txids junk b ids =
     (let vHashes = map (ComputeHash junk) (vtx b); vMatch = map (\<lambda>h. h \<in> ids) vHashes in
      case make_tree (node_Hash junk) vHashes vMatch of
        None \<Rightarrow> None
      | Some t \<Rightarrow> Some \<lparr>mb_header = block_header b, mb_txn = t, vMatchedTxn = []\<rparr>)"

definition ser_CMerkleBlock :: "CMerkleBlock \<Rightarrow> bytes" where
  "ser_CMerkleBlock m = ser_header (mb_header m) @ ser_tree (mb_txn m)"

definition deser_CMerkleBlock :: "CMerkleBlock reader" where
  "deser_CMerkleBlock s =
     sbind (deser_header s) (\<lambda>(h, s). sbind (deser_tree s) (\<lambda>(t, s). Inr (\<lparr>mb_header = h, mb_txn = t, vMatchedTxn = []\<rparr>, s)))"

section \<open>The block index on disk\<close>

definition BLOCK_HAVE_DATA :: u32 where "BLOCK_HAVE_DATA = 8"
definition BLOCK_HAVE_UNDO :: u32 where "BLOCK_HAVE_UNDO = 16"

record CDiskBlockIndex =
  di_nHeight :: u32
  di_nStatus :: u32
  di_nTx :: u32
  di_nFile :: u32
  di_nDataPos :: u32
  di_nUndoPos :: u32
  di_hash :: bytes
  di_header :: CBlockHeader

definition write_var32 :: "u32 \<Rightarrow> bytes" where
  "write_var32 x = WriteVarInt (unat x)"

text \<open>\<open>VARINT\<close> of an \<open>int\<close>, whose bits are \<open>x\<close>: the loop of \<open>WriteVarInt\<close> ends at once for a negative number.\<close>

definition write_var_int :: "u32 \<Rightarrow> bytes" where
  "write_var_int x = (if sint x < 0 then [ucast (x AND 0x7f)] else WriteVarInt (unat x))"

definition ser_disk_index :: "u32 \<Rightarrow> CDiskBlockIndex \<Rightarrow> bytes" where
  "ser_disk_index version d =
     write_var_int version @ write_var_int (di_nHeight d) @ write_var32 (di_nStatus d) @ write_var32 (di_nTx d) @
     (if di_nStatus d AND (BLOCK_HAVE_DATA OR BLOCK_HAVE_UNDO) \<noteq> 0 then write_var_int (di_nFile d) else []) @
     (if di_nStatus d AND BLOCK_HAVE_DATA \<noteq> 0 then write_var32 (di_nDataPos d) else []) @
     (if di_nStatus d AND BLOCK_HAVE_UNDO \<noteq> 0 then write_var32 (di_nUndoPos d) else []) @
     di_hash d @ ser_writedata32 (bh_nVersion (di_header d)) @ hashPrevBlock (di_header d) @ hashMerkleRoot (di_header d) @
     ser_writedata32 (bh_nTime (di_header d)) @ ser_writedata32 (bh_nBits (di_header d)) @ ser_writedata32 (bh_nNonce (di_header d)) @
     RandomXKey (di_header d) @ write_blob (RandomXData (di_header d))"

definition read_if :: "bool \<Rightarrow> u32 reader" where
  "read_if b s = (if b then ReadVarInt s else Inr (0, s))"

definition deser_disk_index :: "CDiskBlockIndex reader" where
  "deser_disk_index s =
     sbind (ReadVarInt s :: ser_error + u32 \<times> bytes) (\<lambda>(version, s).
     sbind (ReadVarInt s) (\<lambda>(height, s).
     sbind (ReadVarInt s) (\<lambda>(status, s).
     sbind (ReadVarInt s) (\<lambda>(ntx, s).
     sbind (read_if (status AND (BLOCK_HAVE_DATA OR BLOCK_HAVE_UNDO) \<noteq> 0) s) (\<lambda>(file, s).
     sbind (read_if (status AND BLOCK_HAVE_DATA \<noteq> 0) s) (\<lambda>(dpos, s).
     sbind (read_if (status AND BLOCK_HAVE_UNDO \<noteq> 0) s) (\<lambda>(upos, s).
     sbind (read_bytes 32 s) (\<lambda>(h, s).
     sbind (ser_readdata32 s) (\<lambda>(v, s).
     sbind (read_bytes 32 s) (\<lambda>(prev, s).
     sbind (read_bytes 32 s) (\<lambda>(root, s).
     sbind (ser_readdata32 s) (\<lambda>(time, s).
     sbind (ser_readdata32 s) (\<lambda>(nbits, s).
     sbind (ser_readdata32 s) (\<lambda>(nonce, s).
     sbind (read_bytes 32 s) (\<lambda>(key, s).
     sbind (read_limited 2000 s) (\<lambda>(data, s).
       Inr (\<lparr>di_nHeight = height, di_nStatus = status, di_nTx = ntx, di_nFile = file, di_nDataPos = dpos, di_nUndoPos = upos, di_hash = h,
             di_header = \<lparr>bh_nVersion = v, hashPrevBlock = prev, hashMerkleRoot = root, bh_nTime = time, bh_nBits = nbits,
               bh_nNonce = nonce, RandomXKey = key, RandomXData = data\<rparr>\<rparr>, s)))))))))))))))))"

definition disk_index_ok :: "CDiskBlockIndex \<Rightarrow> bool" where
  "disk_index_ok d \<longleftrightarrow> 0 \<le> sint (di_nHeight d) \<and> 0 \<le> sint (di_nFile d) \<and> length (di_hash d) = 32 \<and> header_ok (di_header d) \<and>
     (di_nStatus d AND (BLOCK_HAVE_DATA OR BLOCK_HAVE_UNDO) = 0 \<longrightarrow> di_nFile d = 0) \<and>
     (di_nStatus d AND BLOCK_HAVE_DATA = 0 \<longrightarrow> di_nDataPos d = 0) \<and> (di_nStatus d AND BLOCK_HAVE_UNDO = 0 \<longrightarrow> di_nUndoPos d = 0)"

text \<open>\<open>CBlockIndex::GetBlockPos\<close> and \<open>GetUndoPos\<close>: a file number of -1 is the null position.\<close>

record CDiskBlockPos =
  pos_nFile :: int
  pos_nPos :: u32

definition GetBlockPos :: "CDiskBlockIndex \<Rightarrow> CDiskBlockPos" where
  "GetBlockPos d = (if di_nStatus d AND BLOCK_HAVE_DATA \<noteq> 0 then \<lparr>pos_nFile = sint (di_nFile d), pos_nPos = di_nDataPos d\<rparr>
     else \<lparr>pos_nFile = -1, pos_nPos = 0\<rparr>)"

definition GetUndoPos :: "CDiskBlockIndex \<Rightarrow> CDiskBlockPos" where
  "GetUndoPos d = (if di_nStatus d AND BLOCK_HAVE_UNDO \<noteq> 0 then \<lparr>pos_nFile = sint (di_nFile d), pos_nPos = di_nUndoPos d\<rparr>
     else \<lparr>pos_nFile = -1, pos_nPos = 0\<rparr>)"

record CBlockFileInfo =
  nBlocks :: u32
  fi_nSize :: u32
  nUndoSize :: u32
  nHeightFirst :: u32
  nHeightLast :: u32
  nTimeFirst :: u64
  nTimeLast :: u64

definition null_file_info :: CBlockFileInfo where
  "null_file_info = \<lparr>nBlocks = 0, fi_nSize = 0, nUndoSize = 0, nHeightFirst = 0, nHeightLast = 0, nTimeFirst = 0, nTimeLast = 0\<rparr>"

definition AddBlock :: "u32 \<Rightarrow> u64 \<Rightarrow> CBlockFileInfo \<Rightarrow> CBlockFileInfo" where
  "AddBlock nHeightIn nTimeIn f =
     (let f = (if nBlocks f = 0 \<or> nHeightFirst f > nHeightIn then f\<lparr>nHeightFirst := nHeightIn\<rparr> else f);
          f = (if nBlocks f = 0 \<or> nTimeFirst f > nTimeIn then f\<lparr>nTimeFirst := nTimeIn\<rparr> else f);
          f = f\<lparr>nBlocks := nBlocks f + 1\<rparr>;
          f = (if nHeightIn > nHeightLast f then f\<lparr>nHeightLast := nHeightIn\<rparr> else f)
      in if nTimeIn > nTimeLast f then f\<lparr>nTimeLast := nTimeIn\<rparr> else f)"

definition ser_file_info :: "CBlockFileInfo \<Rightarrow> bytes" where
  "ser_file_info f = write_var32 (nBlocks f) @ write_var32 (fi_nSize f) @ write_var32 (nUndoSize f) @ write_var32 (nHeightFirst f) @
     write_var32 (nHeightLast f) @ WriteVarInt (unat (nTimeFirst f)) @ WriteVarInt (unat (nTimeLast f))"

definition deser_file_info :: "CBlockFileInfo reader" where
  "deser_file_info s =
     sbind (ReadVarInt s) (\<lambda>(b, s). sbind (ReadVarInt s) (\<lambda>(z, s). sbind (ReadVarInt s) (\<lambda>(u, s). sbind (ReadVarInt s) (\<lambda>(hf, s).
     sbind (ReadVarInt s) (\<lambda>(hl, s). sbind (ReadVarInt s) (\<lambda>(tf, s). sbind (ReadVarInt s) (\<lambda>(tl, s).
       Inr (\<lparr>nBlocks = b, fi_nSize = z, nUndoSize = u, nHeightFirst = hf, nHeightLast = hl, nTimeFirst = tf, nTimeLast = tl\<rparr>, s))))))))"

section \<open>Codecs\<close>

interpretation header: canonical_codec header_ok ser_header deser_header
proof unfold_locales
  fix h s x t
  show "header_ok h \<Longrightarrow> deser_header (ser_header h @ s) = Inr (h, s)"
    by (cases "randomx_version (bh_nVersion h)")
      (auto simp: deser_header_def ser_header_def header_ok_def read_bytes_append u32.dec_enc blob.dec_enc)
  show "deser_header s = Inr (x, t) \<Longrightarrow> header_ok x \<and> s = ser_header x @ t"
    by (auto simp: deser_header_def ser_header_def header_ok_def sbind_Inr_iff null_hash_def split: if_splits
        dest!: read_bytes_only u32.dec_only blob.dec_only)
qed

interpretation tx: codec tx_ok ser_tx deser_tx
  by unfold_locales (rule deser_ser_tx)

lemma read_txs: "vector_ok tx_ok txs \<Longrightarrow> read_vector deser_tx (write_vector ser_tx txs @ s) = Inr (txs, s)"
  using tx.read_items_enc [of txs s] by (simp add: read_vector_def write_vector_def vector_ok_def cs.dec_enc)

interpretation block: codec cblock_ok ser_block deser_block
  by unfold_locales (simp add: deser_block_def ser_block_def cblock_ok_def header.dec_enc read_txs)

lemma read_var32: "ReadVarInt (write_var32 x @ s) = Inr (x, s)"
  unfolding write_var32_def by (subst ReadVarInt_Write) (use unat_u32_lt [of x] in simp_all)

lemma read_var_int: "0 \<le> sint x \<Longrightarrow> ReadVarInt (write_var_int x @ s) = Inr (x, s)"
  using read_var32 [of x s] by (simp add: write_var_int_def write_var32_def)

lemma skip_var_int: "sbind (ReadVarInt (write_var_int x @ s) :: ser_error + u32 \<times> bytes) (\<lambda>(v, s). f s) = f s"
proof (cases "sint x < 0")
  case True
  have "\<not> bit (ucast (x AND 0x7f) :: u8) 7" by (simp add: bit_simps)
  then have "(ucast (x AND 0x7f) :: u8) AND 0x80 = 0" using test_bit_mask [of "ucast (x AND 0x7f) :: u8" 7] by simp
  then show ?thesis using True by (simp add: write_var_int_def ReadVarInt_def Let_def)
next
  case False
  then show ?thesis using read_var_int [of x s] by simp
qed

lemma read_var64: "ReadVarInt (WriteVarInt (unat (x :: u64)) @ s) = Inr (x, s)"
  by (subst ReadVarInt_Write) (use unat_u64_lt [of x] in simp_all)

interpretation file_info: codec "\<lambda>_. True" ser_file_info deser_file_info
  by unfold_locales (simp add: deser_file_info_def ser_file_info_def read_var32 read_var64)

lemma read_if_write: "(\<not> b \<Longrightarrow> x = 0) \<Longrightarrow> read_if b ((if b then write_var32 x else []) @ s) = Inr (x, s)"
  by (simp add: read_if_def read_var32)

lemma read_if_write_int:
  "0 \<le> sint x \<Longrightarrow> (\<not> b \<Longrightarrow> x = 0) \<Longrightarrow> read_if b ((if b then write_var_int x else []) @ s) = Inr (x, s)"
  by (simp add: read_if_def read_var_int)

section \<open>The root commits to the transactions\<close>

lemma node_Hash_eq: "length junk = 64 \<Longrightarrow> node_Hash junk = sha256d"
  by (simp add: fun_eq_iff node_Hash_def Hash_objects_concat)

lemma ComputeHash_eq: "length junk = 64 \<Longrightarrow> ComputeHash junk tx = sha256d (ser_tx tx)"
  using Hash_objects_concat [of junk "[ser_tx tx]"] by (simp add: ComputeHash_def SerializeHash_def Hash_objects_def)

lemma sha256d_size [simp]: "length (sha256d m) = 32"
  by (simp add: sha256d_def sha256_size)

text \<open>Everything that is hashed for the Merkle root of a block.\<close>

definition block_strings :: "CBlock \<Rightarrow> bytes set" where
  "block_strings b = ser_tx ` set (vtx b) \<union> hashed_strings sha256d (map (sha256d \<circ> ser_tx) (vtx b))"

lemma txids_hashes [simp]: "txids (map (sha256d \<circ> ser_tx) txs)"
  by (simp add: txids_def)

lemma collision_mono: "collision Hash A \<Longrightarrow> A \<subseteq> B \<Longrightarrow> collision Hash B"
  by (auto simp: collision_def)

lemma same_transactions:
  assumes "\<not> collision sha256d (ser_tx ` set xs \<union> ser_tx ` set ys)" "\<forall>tx \<in> set xs \<union> set ys. tx_ok tx"
    and "map (sha256d \<circ> ser_tx) xs = map (sha256d \<circ> ser_tx) ys"
  shows "xs = ys"
proof (rule nth_equalityI)
  show l: "length xs = length ys" using assms(3) by (rule map_eq_imp_length_eq)
  fix i
  assume i: "i < length xs"
  then have "sha256d (ser_tx (xs ! i)) = sha256d (ser_tx (ys ! i))" using assms(3) l by (metis nth_map o_apply)
  moreover have "ser_tx (xs ! i) \<in> ser_tx ` set xs" "ser_tx (ys ! i) \<in> ser_tx ` set ys" using i l by simp_all
  ultimately have "ser_tx (xs ! i) = ser_tx (ys ! i)" using assms(1) by (auto simp: collision_def)
  then show "xs ! i = ys ! i" using tx.enc_prefix_free [of "xs ! i" "ys ! i" "[]" "[]"] assms(2) i l by simp
qed

text \<open>A tree that is higher than the other needs a transaction of 64 bytes, the size of two hashes.\<close>

lemma not_higher:
  assumes "\<not> collision sha256d (block_strings a \<union> block_strings b)" "vtx a \<noteq> []" "\<forall>tx \<in> set (vtx a). length (ser_tx tx) \<noteq> 64"
    and "tree_height (length (vtx a)) h" "tree_height (length (vtx b)) k"
    and "CalcHash sha256d (map (sha256d \<circ> ser_tx) (vtx a)) h 0 = CalcHash sha256d (map (sha256d \<circ> ser_tx) (vtx b)) k 0"
  shows "\<not> h < k"
proof
  assume "h < k"
  let ?xs = "map (sha256d \<circ> ser_tx) (vtx a)" and ?ys = "map (sha256d \<circ> ser_tx) (vtx b)"
  have "\<not> collision sha256d (hashed_strings sha256d ?xs \<union> hashed_strings sha256d ?ys)"
    using assms(1) by (rule contrapos_nn) (erule collision_mono, auto simp: block_strings_def)
  from higher_tree_node [OF this txids_hashes txids_hashes sha256d_size _ _ assms(6) \<open>h < k\<close>] assms(4,5)
  obtain s where s: "s \<in> hashed_strings sha256d ?ys" "CalcHash sha256d ?xs 0 0 = sha256d s" "length s = 64" by auto
  obtain tx txs where v: "vtx a = tx # txs" using assms(2) by (cases "vtx a") auto
  then have "sha256d (ser_tx tx) = sha256d s" using s(2) by simp
  moreover have "ser_tx tx \<in> block_strings a" "s \<in> block_strings b" using v s(1) by (auto simp: block_strings_def)
  ultimately have "ser_tx tx = s" using assms(1) by (auto simp: collision_def)
  then show False using assms(3) v s(3) by simp
qed

lemma BlockMerkleRoot_eq:
  assumes "length junk = 64"
  shows "BlockMerkleRoot junk b = ComputeMerkleRoot sha256d (map (sha256d \<circ> ser_tx) (vtx b))"
proof -
  have "ComputeHash junk = sha256d \<circ> ser_tx" using ComputeHash_eq [OF assms] by (simp add: fun_eq_iff)
  then show ?thesis by (simp only: BlockMerkleRoot_def node_Hash_eq [OF assms])
qed

lemma BlockMerkleRoot_unmutated:
  assumes "length junk = 64" "BlockMerkleRoot junk b = Some (root, False)" "vtx b \<noteq> []" "length (vtx b) \<le> 2 ^ 31"
  shows "\<exists>h. tree_height (length (vtx b)) h \<and> CalcHash sha256d (map (sha256d \<circ> ser_tx) (vtx b)) h 0 = root \<and>
    \<not> mutated_tree sha256d (map (sha256d \<circ> ser_tx) (vtx b))"
  using MerkleComputation_ok [of "map (sha256d \<circ> ser_tx) (vtx b)" sha256d "2 ^ 32 - 1"] assms
  by (auto simp: BlockMerkleRoot_eq ComputeMerkleRoot_def)

text \<open>
  C7. Two blocks with the same Merkle root, neither reported as mutated, contain the same transactions in the same order, unless
  two different strings hashed for them have the same double SHA-256 hash or one of them contains a transaction that is
  serialized in exactly 64 bytes, which could pass for an inner node of the tree.
\<close>

theorem block_root_binds:
  assumes "length junk = 64" "BlockMerkleRoot junk a = Some (root, False)" "BlockMerkleRoot junk b = Some (root, False)"
    and "vtx a \<noteq> []" "vtx b \<noteq> []" "length (vtx a) \<le> 2 ^ 31" "length (vtx b) \<le> 2 ^ 31"
    and "\<forall>tx \<in> set (vtx a) \<union> set (vtx b). tx_ok tx \<and> length (ser_tx tx) \<noteq> 64"
    and "\<not> collision sha256d (block_strings a \<union> block_strings b)"
  shows "vtx a = vtx b"
proof -
  let ?xs = "map (sha256d \<circ> ser_tx) (vtx a)" and ?ys = "map (sha256d \<circ> ser_tx) (vtx b)"
  obtain h where h: "tree_height (length (vtx a)) h" "CalcHash sha256d ?xs h 0 = root" "\<not> mutated_tree sha256d ?xs"
    using BlockMerkleRoot_unmutated [OF assms(1,2,4,6)] by blast
  obtain k where k: "tree_height (length (vtx b)) k" "CalcHash sha256d ?ys k 0 = root" "\<not> mutated_tree sha256d ?ys"
    using BlockMerkleRoot_unmutated [OF assms(1,3,5,7)] by blast
  have "\<not> h < k" using not_higher [OF assms(9,4) _ h(1) k(1)] assms(8) h(2) k(2) by simp
  moreover have "\<not> k < h" using not_higher [of b a, OF _ assms(5) _ k(1) h(1)] assms(8,9) h(2) k(2) by (simp add: Un_commute)
  ultimately have kh: "k = h" by simp
  have c: "\<not> collision sha256d (hashed_strings sha256d ?xs \<union> hashed_strings sha256d ?ys)"
    using assms(9) by (rule contrapos_nn) (erule collision_mono, auto simp: block_strings_def)
  have "level_eq sha256d ?xs ?ys h" using h k kh by (simp add: level_eq_def tree_height_def)
  then have "?xs = ?ys"
    using root_binds [OF c txids_hashes txids_hashes sha256d_size h(3) k(3), of h h] h(1) k(1) kh by simp
  moreover have "\<not> collision sha256d (ser_tx ` set (vtx a) \<union> ser_tx ` set (vtx b))"
    using assms(9) by (rule contrapos_nn) (erule collision_mono, auto simp: block_strings_def)
  ultimately show ?thesis using same_transactions assms(8) by blast
qed

definition example_block :: "u32 \<Rightarrow> CBlock" where
  "example_block nonce = \<lparr>block_header = null_header\<lparr>bh_nNonce := nonce\<rparr>, vtx = [example_tx]\<rparr>"

lemma example_block_root:
  assumes "length junk = 64"
  shows "BlockMerkleRoot junk (example_block nonce) = Some (sha256d (ser_tx example_tx), False)"
proof -
  have h: "tree_height 1 0" by (rule tree_heightI) simp_all
  have "\<not> mutated_tree sha256d [sha256d (ser_tx example_tx)]"
  proof
    assume "mutated_tree sha256d [sha256d (ser_tx example_tx)]"
    then obtain j p :: nat where "(p + 1) * 2 ^ Suc j \<le> 1" unfolding mutated_tree_def by auto
    moreover have "2 ^ Suc j \<le> (p + 1) * (2 :: nat) ^ Suc j" by simp
    moreover have "(1 :: nat) < 2 ^ Suc j" by (rule one_less_power) simp_all
    ultimately show False by linarith
  qed
  moreover obtain k b where "tree_height 1 k" "MerkleComputation sha256d [sha256d (ser_tx example_tx)] (2 ^ 32 - 1) =
      Some (CalcHash sha256d [sha256d (ser_tx example_tx)] k 0, mutated_tree sha256d [sha256d (ser_tx example_tx)], b)"
    using MerkleComputation_ok [of "[sha256d (ser_tx example_tx)]" sha256d "2 ^ 32 - 1"] by auto
  moreover from this have "k = 0" using tree_height_unique [OF h] by blast
  ultimately show ?thesis by (simp add: BlockMerkleRoot_eq [OF assms] example_block_def ComputeMerkleRoot_def)
qed

lemma example_block_strings: "block_strings (example_block nonce) = {ser_tx example_tx}"
proof -
  have "\<not> 1 < CalcTreeWidth 1 h" for h using CalcTreeWidth_antimono [of 0 h 1] by simp
  then show ?thesis by (simp add: block_strings_def example_block_def hashed_strings_def)
qed

lemma example_tx_ok: "tx_ok example_tx"
  by (simp add: tx_ok_def example_tx_def vector_ok_def txin_ok_def txout_ok_def outpoint_ok_def
      SetNull_outpoint_def MAX_SIZE_def COIN_def has_payload_def)

lemma example_tx_size: "length (ser_tx example_tx) \<noteq> 64"
  by (simp add: example_tx_def ser_tx_def write_vector_def ser_txin_def ser_txout_def ser_outpoint_def SetNull_outpoint_def has_payload_def
      write_blob_def WriteCompactSize_def int_codec_defs)

theorem block_root_binds_witness:
  "BlockMerkleRoot (replicate 64 0) (example_block 1) = BlockMerkleRoot (replicate 64 0) (example_block 2) \<and>
   vtx (example_block 1) = vtx (example_block 2)"
proof -
  have "\<not> collision sha256d (block_strings (example_block 1) \<union> block_strings (example_block 2))"
    by (simp add: example_block_strings collision_def)
  then have "vtx (example_block 1) = vtx (example_block 2)"
    using block_root_binds [of "replicate 64 0" "example_block 1" "sha256d (ser_tx example_tx)" "example_block 2"]
      example_block_root [of "replicate 64 0" 1] example_block_root [of "replicate 64 0" 2] example_tx_ok example_tx_size
    by (simp add: example_block_def)
  then show ?thesis by (simp add: example_block_root)
qed

section \<open>What the hash of a header leaves out\<close>

text \<open>
  The hash that identifies a block covers neither \<open>RandomXKey\<close> nor \<open>RandomXData\<close>, although the proof of work is
  computed from them: two different well-formed headers have the same hash, whatever the hash function.
\<close>

lemma block_hash_malleable:
  "\<exists>h h'. header_ok h \<and> header_ok h' \<and> ser_header h \<noteq> ser_header h' \<and> (\<forall>HashX11. header_GetHash HashX11 h = header_GetHash HashX11 h')"
proof -
  let ?h = "\<lambda>d. null_header\<lparr>bh_nVersion := 0x50000000, RandomXData := d\<rparr>"
  have "randomx_version 0x50000000" by (simp add: randomx_version_def)
  then have "header_ok (?h [1]) \<and> header_ok (?h [2]) \<and> ser_header (?h [1]) \<noteq> ser_header (?h [2])"
    by (simp add: header_ok_def null_header_def null_hash_def MAX_SIZE_def ser_header_def write_blob_def)
  then show ?thesis by (intro exI [of _ "?h [1]"] exI [of _ "?h [2]"]) (simp add: header_GetHash_def)
qed

section \<open>Entries of the block index\<close>

text \<open>
  C24. An entry of the block index, with a height and a file number that are not negative, that was written is read back as it was if its \<open>RandomXData\<close> has at most 2000
  bytes; if it is longer, which neither the network format of headers nor the writer of the entry prevents, reading the
  entry throws, so that the index cannot be loaded.
\<close>

theorem disk_index_reads_back:
  assumes "disk_index_ok d"
  shows "deser_disk_index (ser_disk_index version d @ s) =
    (if length (RandomXData (di_header d)) \<le> 2000 then Inr (d, s) else Inl LimitExceeded)"
proof -
  have len: "length (di_hash d) = 32" "length (hashPrevBlock (di_header d)) = 32" "length (hashMerkleRoot (di_header d)) = 32"
    "length (RandomXKey (di_header d)) = 32" "length (RandomXData (di_header d)) \<le> MAX_SIZE"
    using assms by (simp_all add: disk_index_ok_def header_ok_def)
  have lim: "read_limited 2000 (write_blob x @ s) = (if length x \<le> 2000 then Inr (x, s) else Inl LimitExceeded)"
    if "length x \<le> MAX_SIZE" for x
    using that limited.dec_enc [of x 2000 s] by (simp add: read_limited_def write_blob_def cs.dec_enc)
  have opt: "read_if (di_nStatus d AND (BLOCK_HAVE_DATA OR BLOCK_HAVE_UNDO) \<noteq> 0)
      ((if di_nStatus d AND (BLOCK_HAVE_DATA OR BLOCK_HAVE_UNDO) \<noteq> 0 then write_var_int (di_nFile d) else []) @ r) = Inr (di_nFile d, r)"
    "read_if (di_nStatus d AND BLOCK_HAVE_DATA \<noteq> 0)
      ((if di_nStatus d AND BLOCK_HAVE_DATA \<noteq> 0 then write_var32 (di_nDataPos d) else []) @ r) = Inr (di_nDataPos d, r)"
    "read_if (di_nStatus d AND BLOCK_HAVE_UNDO \<noteq> 0)
      ((if di_nStatus d AND BLOCK_HAVE_UNDO \<noteq> 0 then write_var32 (di_nUndoPos d) else []) @ r) = Inr (di_nUndoPos d, r)" for r
    by ((rule read_if_write_int read_if_write; use assms in \<open>simp add: disk_index_ok_def\<close>)+)
  have height: "ReadVarInt (write_var_int (di_nHeight d) @ r) = Inr (di_nHeight d, r)" for r
    using assms by (intro read_var_int) (simp add: disk_index_ok_def)
  show ?thesis unfolding deser_disk_index_def ser_disk_index_def append_assoc skip_var_int height read_var32 sbind.simps split_conv opt
    using len by (simp add: read_bytes_append u32.dec_enc lim)
qed

definition long_entry :: CDiskBlockIndex where
  "long_entry = \<lparr>di_nHeight = 9, di_nStatus = 8, di_nTx = 1, di_nFile = 0, di_nDataPos = 0, di_nUndoPos = 0, di_hash = null_hash,
     di_header = null_header\<lparr>bh_nVersion := 0x50000000, RandomXData := replicate 2001 65\<rparr>\<rparr>"

theorem disk_index_reads_back_witness:
  "deser_header (ser_header (di_header long_entry) @ []) = Inr (di_header long_entry, []) \<and>
   deser_disk_index (ser_disk_index 70000 long_entry @ []) = Inl LimitExceeded"
  using disk_index_reads_back [of long_entry 70000 "[]"] header.dec_enc [of "di_header long_entry" "[]"]
  by (simp add: disk_index_ok_def long_entry_def header_ok_def null_header_def null_hash_def MAX_SIZE_def randomx_version_def)

section \<open>Statistics of a block file\<close>

lemma AddBlock_next:
  assumes "nBlocks f \<noteq> 0"
  shows "nBlocks (AddBlock h t f) = nBlocks f + 1" "nHeightFirst (AddBlock h t f) = min (nHeightFirst f) h"
    "nHeightLast (AddBlock h t f) = max (nHeightLast f) h" "nTimeFirst (AddBlock h t f) = min (nTimeFirst f) t"
    "nTimeLast (AddBlock h t f) = max (nTimeLast f) t"
  using assms unfolding AddBlock_def Let_def min_def max_def linorder_not_less [symmetric] by (simp_all split del: if_split)
    (auto split: if_split)

lemma AddBlock_statistics:
  assumes "bs \<noteq> []" "length bs < 2 ^ 32"
  shows "nBlocks (fold (\<lambda>(h, t). AddBlock h t) bs null_file_info) = of_nat (length bs) \<and>
    nHeightFirst (fold (\<lambda>(h, t). AddBlock h t) bs null_file_info) = Min (fst ` set bs) \<and>
    nHeightLast (fold (\<lambda>(h, t). AddBlock h t) bs null_file_info) = Max (fst ` set bs) \<and>
    nTimeFirst (fold (\<lambda>(h, t). AddBlock h t) bs null_file_info) = Min (snd ` set bs) \<and>
    nTimeLast (fold (\<lambda>(h, t). AddBlock h t) bs null_file_info) = Max (snd ` set bs)"
  using assms
proof (induction bs rule: rev_induct)
  case (snoc b bs)
  obtain h t where b: "b = (h, t)" by (rule prod.exhaust)
  show ?case
  proof (cases "bs = []")
    case True
    then show ?thesis by (auto simp: b AddBlock_def null_file_info_def Let_def word_neq_0_conv [symmetric])
  next
    case False
    have "unat (of_nat (length bs) :: u32) = length bs" using snoc.prems(2) by (simp add: unat_of_nat)
    then have "(of_nat (length bs) :: u32) \<noteq> 0" using False by (metis unat_0 length_0_conv)
    then have ne: "nBlocks (fold (\<lambda>(h, t). AddBlock h t) bs null_file_info) \<noteq> 0" using False snoc by simp
    show ?thesis using False snoc by (simp add: b AddBlock_next [OF ne] min.commute max.commute)
  qed
qed simp

section \<open>Serving light clients\<close>

lemma unmutated_no_twins:
  assumes "\<not> collision Hash (hashed_strings Hash ys)" "txids ys" "\<And>x. length (Hash x) = 32" "\<not> mutated_tree Hash ys"
  shows "no_twins Hash ys"
  unfolding no_twins_def
proof (intro allI impI notI)
  fix h p
  assume w: "p * 2 + 1 < CalcTreeWidth (length ys) h" and eq: "CalcHash Hash ys h (p * 2) = CalcHash Hash ys h (p * 2 + 1)"
  have l: "(p * 2 + 1) * 2 ^ h < length ys" using w by (simp add: CalcTreeWidth_less)
  show False
  proof (cases "(p * 2 + 2) * 2 ^ h \<le> length ys")
    case True
    then have "(p + 1) * 2 ^ Suc h \<le> length ys" by (simp add: algebra_simps)
    then show False using assms(4) eq by (auto simp: mutated_tree_def mult.commute)
  next
    case False
    then show False using partial_equal [OF assms(1-3), of "p * 2" h "p * 2 + 1"] l eq assms(4) by (simp add: algebra_simps)
  qed
qed

definition allowed_type :: "CTransaction \<Rightarrow> bool" where
  "allowed_type tx \<longleftrightarrow> tx_nVersion tx \<noteq> 3 \<or> nType tx \<in> set allowedTxTypes"

text \<open>A transaction that concerns the owner of the filter: it spends an outpoint in it or pays to a script in it.\<close>

definition concerns :: "CBloomFilter \<Rightarrow> CTransaction \<Rightarrow> bool" where
  "concerns f tx \<longleftrightarrow> (\<exists>i \<in> set (vin tx). contains_outpoint (prevout i) f = Some True) \<or>
     (\<not> isEmpty f \<and> (\<exists>out \<in> set (vout tx). CheckScript (scriptPubKey out) f = Some True))"

lemma concerns_grows: "grows f f' \<Longrightarrow> usable f \<Longrightarrow> concerns f tx \<Longrightarrow> concerns f' tx"
  unfolding concerns_def contains_outpoint_def using contains_grows CheckScript_grows by (meson grows_def)

lemma concerns_relevant:
  assumes "usable f"
  shows "\<exists>b f'. IsRelevantAndUpdate bls GetHash tx f = Some (b, f') \<and> grows f f' \<and> (concerns f tx \<longrightarrow> b)"
proof -
  obtain b f' where r: "IsRelevantAndUpdate bls GetHash tx f = Some (b, f')" "grows f f'"
    "\<forall>i \<in> set (vin tx). contains_outpoint (prevout i) f = Some True \<longrightarrow> b"
    "\<forall>j < length (vout tx). CheckScript (scriptPubKey (vout tx ! j)) f = Some True \<and> \<not> isEmpty f \<longrightarrow> b"
    using relevant_ok [OF assms, of bls GetHash tx] by blast
  have "concerns f tx \<longrightarrow> b" using r(3,4) unfolding concerns_def by (metis in_set_conv_nth)
  then show ?thesis using r(1,2) by blast
qed

lemma filter_upt_Suc: "List.filter P [0..<Suc k] = (if P 0 then [0] else []) @ map Suc (List.filter (P \<circ> Suc) [0..<k])"
  by (simp add: upt_conv_Cons map_Suc_upt [symmetric] filter_map del: upt_Suc)

lemma match_loop_ok:
  assumes "usable f"
  shows "\<exists>vm f'. match_loop bls GetHash i txs f =
      Some (vm, map (\<lambda>p. (i + p, GetHash (txs ! p))) (filter ((!) vm) [0..<length txs]), f') \<and>
    length vm = length txs \<and> grows f f' \<and> (\<forall>p < length txs. allowed_type (txs ! p) \<and> concerns f (txs ! p) \<longrightarrow> vm ! p)"
  using assms
proof (induction txs arbitrary: i f)
  case (Cons tx txs)
  obtain m g where m: "(if allowed_type tx then IsRelevantAndUpdate bls GetHash tx f else Some (False, f)) = Some (m, g)"
    "grows f g" "allowed_type tx \<and> concerns f tx \<longrightarrow> m"
  proof (cases "allowed_type tx")
    case True
    then show ?thesis using concerns_relevant [OF Cons.prems, of bls GetHash tx] that by (elim exE conjE) simp
  next
    case False
    then show ?thesis using that [of False f] by simp
  qed
  have u: "usable g" using grows_usable [OF m(2)] Cons.prems by simp
  obtain vm f' where IH: "match_loop bls GetHash (i + 1) txs g =
      Some (vm, map (\<lambda>p. (i + 1 + p, GetHash (txs ! p))) (filter ((!) vm) [0..<length txs]), f')"
    "length vm = length txs" "grows g f'" "\<forall>p < length txs. allowed_type (txs ! p) \<and> concerns g (txs ! p) \<longrightarrow> vm ! p"
    using Cons.IH [OF u, of "i + 1"] by (elim exE conjE) rule
  have "map (\<lambda>p. (i + p, GetHash ((tx # txs) ! p))) (filter ((!) (m # vm)) [0..<length (tx # txs)]) =
      (if m then [(i, GetHash tx)] else []) @ map (\<lambda>p. (i + 1 + p, GetHash (txs ! p))) (filter ((!) vm) [0..<length txs])"
    by (simp add: filter_upt_Suc comp_def del: upt_Suc)
  then have "match_loop bls GetHash i (tx # txs) f =
      Some (m # vm, map (\<lambda>p. (i + p, GetHash ((tx # txs) ! p))) (filter ((!) (m # vm)) [0..<length (tx # txs)]), f')"
    using m(1) IH(1) by (simp add: allowed_type_def Let_def)
  moreover have "\<forall>p < length (tx # txs). allowed_type ((tx # txs) ! p) \<and> concerns f ((tx # txs) ! p) \<longrightarrow> (m # vm) ! p"
    using m(3) IH(4) concerns_grows [OF m(2) Cons.prems] by (auto simp: nth_Cons split: nat.splits)
  moreover have "length (m # vm) = length (tx # txs)" using IH(2) by simp
  ultimately show ?case using grows_trans [OF m(2) IH(3)] by blast
qed simp

text \<open>
  C8. A node that serves a block to a light client makes, without dividing by zero, a message that the client reads back; from it
  the client extracts the Merkle root of the header it received and transactions of the block with their positions, among
  them every transaction of an allowed type that spends an outpoint in its filter or pays to a script in it, unless two
  different strings hashed for the block have the same hash.
\<close>

theorem merkle_block_served:
  assumes "length junk = 64" "usable f" "header_ok (block_header b)" "vtx b \<noteq> []" "length (vtx b) \<le> 33333"
    and "BlockMerkleRoot junk b = Some (hashMerkleRoot (block_header b), False)" "\<not> collision sha256d (block_strings b)"
  shows "\<exists>m f' m' ps. CMerkleBlock_filter bls junk b f = Some (m, f') \<and> grows f f' \<and>
    deser_CMerkleBlock (ser_CMerkleBlock m @ s) = Inr (m', s) \<and> mb_header m' = block_header b \<and>
    ExtractMatches (node_Hash junk) (mb_txn m') = (hashMerkleRoot (mb_header m'), map (\<lambda>p. ComputeHash junk (vtx b ! p)) ps, ps) \<and>
    vMatchedTxn m = map (\<lambda>p. (p, ComputeHash junk (vtx b ! p))) ps \<and> set ps \<subseteq> {..<length (vtx b)} \<and>
    (\<forall>p < length (vtx b). allowed_type (vtx b ! p) \<and> concerns f (vtx b ! p) \<longrightarrow> p \<in> set ps)"
proof -
  let ?ids = "map (ComputeHash junk) (vtx b)"
  obtain vm f' where m: "match_loop bls (ComputeHash junk) 0 (vtx b) f =
      Some (vm, map (\<lambda>p. (0 + p, ComputeHash junk (vtx b ! p))) (filter ((!) vm) [0..<length (vtx b)]), f')"
    "length vm = length (vtx b)" "grows f f'" "\<forall>p < length (vtx b). allowed_type (vtx b ! p) \<and> concerns f (vtx b ! p) \<longrightarrow> vm ! p"
    using match_loop_ok [OF assms(2)] by blast
  define ps where "ps = filter ((!) vm) [0..<length (vtx b)]"
  have ids: "?ids = map (sha256d \<circ> ser_tx) (vtx b)" using ComputeHash_eq [OF assms(1)] by simp
  have "\<not> mutated_tree sha256d ?ids"
    unfolding ids using BlockMerkleRoot_unmutated [OF assms(1,6,4)] assms(5) by auto
  moreover have "\<not> collision sha256d (hashed_strings sha256d ?ids)"
    using assms(7) by (rule contrapos_nn) (erule collision_mono, simp add: block_strings_def ids)
  ultimately have nt: "no_twins sha256d ?ids" using unmutated_no_twins [of sha256d ?ids] by (simp add: ids)
  have "?ids \<noteq> []" "length ?ids \<le> 33333" "txids ?ids" using assms(4,5) by (simp_all add: ids)
  from partial_tree_roundtrip [OF this(1,2) nt this(3), of vm s]
  obtain t t' root mutated where t: "make_tree sha256d ?ids vm = Some t" "deser_tree (ser_tree t @ s) = Inr (t', s)"
    "ComputeMerkleRoot sha256d ?ids = Some (root, mutated)"
    "ExtractMatches sha256d t' = (root, map ((!) ?ids) (filter ((!) vm) [0..<length ?ids]), filter ((!) vm) [0..<length ?ids])"
    by auto
  have root: "root = hashMerkleRoot (block_header b)" using t(3) assms(6) by (simp add: BlockMerkleRoot_def node_Hash_eq [OF assms(1)])
  have c: "CMerkleBlock_filter bls junk b f =
      Some (\<lparr>mb_header = block_header b, mb_txn = t, vMatchedTxn = map (\<lambda>p. (p, ComputeHash junk (vtx b ! p))) ps\<rparr>, f')"
    using m(1) t(1) by (simp add: CMerkleBlock_filter_def node_Hash_eq [OF assms(1)] ps_def)
  moreover have "deser_CMerkleBlock (ser_CMerkleBlock \<lparr>mb_header = block_header b, mb_txn = t, vMatchedTxn = v\<rparr> @ s) =
      Inr (\<lparr>mb_header = block_header b, mb_txn = t', vMatchedTxn = []\<rparr>, s)" for v
    using t(2) header.dec_enc [OF assms(3)] by (simp add: deser_CMerkleBlock_def ser_CMerkleBlock_def)
  moreover have "map ((!) ?ids) ps = map (\<lambda>p. ComputeHash junk (vtx b ! p)) ps" by (auto simp: ps_def)
  moreover have "set ps \<subseteq> {..<length (vtx b)}" "\<forall>p < length (vtx b). allowed_type (vtx b ! p) \<and> concerns f (vtx b ! p) \<longrightarrow> p \<in> set ps"
    using m(4) by (auto simp: ps_def)
  ultimately show ?thesis using t(4) m(3) root by (simp add: node_Hash_eq [OF assms(1)] ps_def)
qed

definition client_filter :: CBloomFilter where
  "client_filter = \<lparr>vData = [0xff], isFull = False, isEmpty = False, nHashFuncs = 1, nTweak = 0, nFlags = 1\<rparr>"

definition served_block :: CBlock where
  "served_block = \<lparr>block_header = null_header\<lparr>hashMerkleRoot := sha256d (ser_tx example_tx)\<rparr>, vtx = [example_tx]\<rparr>"

theorem merkle_block_served_witness:
  "\<exists>m f' m' ps. CMerkleBlock_filter (\<lambda>_. None) (replicate 64 0) served_block client_filter = Some (m, f') \<and>
    deser_CMerkleBlock (ser_CMerkleBlock m @ []) = Inr (m', []) \<and> mb_header m' = block_header served_block \<and> set ps \<subseteq> {..<1} \<and>
    ExtractMatches (node_Hash (replicate 64 0)) (mb_txn m') =
      (sha256d (ser_tx example_tx), map (\<lambda>p. ComputeHash (replicate 64 0) (vtx served_block ! p)) ps, ps)"
proof -
  have h: "header_ok (block_header served_block)"
    by (simp add: served_block_def null_header_def header_ok_def null_hash_def MAX_SIZE_def)
  have "BlockMerkleRoot (replicate 64 0) served_block = BlockMerkleRoot (replicate 64 0) (example_block 0)"
    by (simp add: BlockMerkleRoot_def served_block_def example_block_def)
  then have r: "BlockMerkleRoot (replicate 64 0) served_block = Some (hashMerkleRoot (block_header served_block), False)"
    using example_block_root [of "replicate 64 0" 0] by (simp add: served_block_def)
  have "block_strings served_block = block_strings (example_block 0)" by (simp add: block_strings_def served_block_def example_block_def)
  then have c: "\<not> collision sha256d (block_strings served_block)" by (simp add: example_block_strings collision_def)
  have v: "vtx served_block = [example_tx]" "hashMerkleRoot (block_header served_block) = sha256d (ser_tx example_tx)"
    by (simp_all add: served_block_def)
  have u: "usable client_filter" by (simp add: usable_def client_filter_def)
  have l: "length (replicate 64 (0 :: u8)) = 64" "vtx served_block \<noteq> []" "length (vtx served_block) \<le> 33333" using v(1) by simp_all
  obtain m f' m' ps where "CMerkleBlock_filter (\<lambda>_. None) (replicate 64 0) served_block client_filter = Some (m, f')"
    "deser_CMerkleBlock (ser_CMerkleBlock m @ []) = Inr (m', [])" "mb_header m' = block_header served_block"
    "ExtractMatches (node_Hash (replicate 64 0)) (mb_txn m') =
      (hashMerkleRoot (mb_header m'), map (\<lambda>p. ComputeHash (replicate 64 0) (vtx served_block ! p)) ps, ps)"
    "set ps \<subseteq> {..<length (vtx served_block)}"
    using merkle_block_served [OF l(1) u h l(2,3) r c, of "\<lambda>_. None" "[]"] by (elim exE conjE) rule
  then show ?thesis using v by (intro exI [of _ m] exI [of _ f'] exI [of _ m'] exI [of _ ps]) simp
qed

end
