(* ===== verification/Spec2Isabelle.thy ===== *)
theory Spec2Isabelle
  imports Active_Chain Chain_Work Version_Bits Proof_Of_Work Pay_To_Pubkey_Hash Signature_Hash Locks Money_Supply Partial_Merkle
    Compressor Bloom_Filter Rolling_Bloom Block
begin

text \<open>
  A verification development for the core of the node in \<open>src/src\<close>, a cryptocurrency node in C++ that descends from
  Bitcoin and Dash. File names below are relative to \<open>src/src\<close>.

  \<^bold>\<open>The program.\<close> A node keeps a tree of block headers (\<open>chain.h\<close>, the block index) and, on its best branch, the active
  chain. A header is accepted if its target is the one that \<open>pow.cpp\<close> prescribes from the headers before it and its
  hash meets the target; the arithmetic is that of \<open>arith_uint256\<close>. New rules are switched on by the miners'
  version bits (\<open>versionbits.cpp\<close>). A block commits to its transactions by a Merkle root (\<open>consensus/merkle.cpp\<close>). When a
  block is connected (\<open>validation.cpp\<close>), each transaction is checked on its own, then against the set of unspent outputs
  (\<open>coins.cpp\<close>) that it spends, its lock times are checked, and the script interpreter (\<open>script/interpreter.cpp\<close>) decides
  whether each input may spend its output, checking signatures of the signature hash. Then the set of coins is updated
  through a cache, and an undo record is kept to reverse that when the chain is reorganised; both are written to disk in
  compact form (\<open>compressor.h\<close>, \<open>undo.h\<close>). Light clients send Bloom filters (\<open>bloom.cpp\<close>) and receive partial Merkle
  trees (\<open>merkleblock.cpp\<close>). Special transactions carry payloads about masternodes (\<open>evo/providertx.h\<close>), coinbases
  (\<open>evo/cbtx.h\<close>) and quorums (\<open>llmq/quorums_commitment.h\<close>).

  \<^bold>\<open>Theories and sources.\<close> Definitions carry the names of the functions and types that they translate; the order of a
  theory is that of the source.

  \<^item> \<open>Prelude\<close>: word types, positional notation, lemma collections.
  \<^item> \<open>Arith_Uint256\<close>, \<open>Uint256_Compact\<close>: \<open>arith_uint256.h\<close>, \<open>arith_uint256.cpp\<close>. The limbs are a list of 32-bit words; the
    loops with their carries are shown to compute on the denoted number modulo \<open>2 ^ 256\<close>, division to be exact, and
    the compact code to round down and to be stable.
  \<^item> \<open>Chain_Index\<close>, \<open>Active_Chain\<close>, \<open>Chain_Work\<close>: \<open>chain.h\<close>, \<open>chain.cpp\<close>. Pointers are addresses in an explicit store. The
    skip list agrees with the walk along predecessors; \<open>SetTip\<close> establishes the invariant of the active chain.
  \<^item> \<open>Consensus_Params\<close>, \<open>Version_Bits\<close>: \<open>consensus/params.h\<close>, \<open>versionbits.cpp\<close>. The cached state machine refines the
    cache-free one, and the changed version prefix makes locking in impossible.
  \<^item> \<open>Proof_Of_Work\<close>: \<open>pow.cpp\<close> and helpers of \<open>rpcpog.cpp\<close>. Both retargeting rules are total and stay below the limit; what
    the eased checks of the RandomX era accept.
  \<^item> \<open>Script\<close>, \<open>Interpreter\<close>, \<open>Script_Safety\<close>, \<open>Pay_To_Pubkey_Hash\<close>, \<open>Standard\<close>: \<open>script/script.h\<close>, \<open>script/interpreter.cpp\<close>,
    \<open>script/standard.cpp\<close>. Every operation with its error branches; the resource limits, the completeness of the greedy
    loop of multisignatures, unspendability, who can spend a standard payment, and which scripts are standard.
  \<^item> \<open>Serialization\<close>, \<open>Transaction\<close>, \<open>Signature_Hash\<close>: \<open>serialize.h\<close>, \<open>primitives/transaction.h\<close>, \<open>script/interpreter.cpp\<close>. Round
    trips and canonicity; a signature of all inputs and outputs commits to the transaction.
  \<^item> \<open>Coins_View\<close>, \<open>Coins_Update\<close>, \<open>Tx_Checks\<close>, \<open>Money_Supply\<close>, \<open>Locks\<close>: \<open>coins.cpp\<close>, \<open>txdb.cpp\<close>, \<open>validation.cpp\<close>. A stack of
    caches refines a map from outpoints to coins; connecting and disconnecting are inverse; the checks accept exactly
    the transactions that they should; lock times asked for by scripts are enforced.
  \<^item> \<open>Compressor\<close>: \<open>compressor.cpp\<close>, \<open>undo.h\<close>, and parts of \<open>coins.h\<close>, \<open>txdb.cpp\<close> and \<open>pubkey.cpp\<close>. What is read back from disk.
  \<^item> \<open>Merkle\<close>, \<open>Partial_Merkle\<close>: \<open>consensus/merkle.cpp\<close>, \<open>merkleblock.cpp\<close>. The constant-space computation is the recursive
    root; a root binds the transactions and a partial tree proves inclusion, up to collisions.
  \<^item> \<open>Hash_Tables\<close>, \<open>Bloom_Filter\<close>, \<open>Rolling_Bloom\<close>: \<open>hash.cpp\<close>, \<open>bloom.cpp\<close> and the filter messages of
    \<open>net_processing.cpp\<close>. No false negatives, no division by zero in any reachable state of a peer.
  \<^item> \<open>Provider_Tx\<close>: \<open>evo/providertx.h\<close>, \<open>evo/cbtx.h\<close>, \<open>llmq/quorums_commitment.h\<close>, \<open>evo/specialtx.h\<close>, \<open>netaddress.h\<close>, \<open>bls/bls.h\<close>. The
    payloads of all seven kinds of special transactions are read exactly as written.
  \<^item> \<open>Hasher\<close>, \<open>Sha2\<close>, \<open>Sha1_Ripemd160\<close>, \<open>Hash_Functions\<close>: \<open>crypto/sha256.cpp\<close>, \<open>crypto/sha512.cpp\<close>, \<open>crypto/sha1.cpp\<close>,
    \<open>crypto/ripemd160.cpp\<close>, the keyed hashes and \<open>hash.h\<close>. The buffered hashers with their unrolled rounds compute the
    padded, block-wise functions of the standards for every way of cutting the data into pieces.
  \<^item> \<open>Block\<close>: \<open>primitives/block.h\<close>, \<open>CMerkleBlock\<close> of \<open>merkleblock.h\<close>, \<open>CDiskBlockIndex\<close> of \<open>chain.h\<close>. What a root says of a block,
    what a light client reads from a merkle block, and what is read back from the block index on disk.
  \<^item> This theory: properties that join transaction checks, the update of the coins and the money supply.

  \<^bold>\<open>State, errors and loops.\<close> A method that changes its object takes the state and returns the new one. A return of false
  with a reason, an exception and a failed assertion are different values of a sum type. Unsigned integers that can
  wrap around are words, or numbers with the remainder written out. A loop that need not end on malformed data is a
  \<^theory_text>\<open>partial_function\<close> into \<open>option\<close> and the theorems say that it returns; all other loops are total functions with a
  measure, so there is no fuel anywhere. Undefined behaviour (a shift by too many bits, an access outside a vector, a
  remainder modulo zero) is a separate value, and the theorems exclude it.

  \<^bold>\<open>Interfaces.\<close> The locales state what one component relies on in another, and each is interpreted on the model:
  \<open>modular_uint\<close> (\<open>u256\<close>, for the difficulty code), \<open>ancestor_index\<close> (\<open>idx\<close>, for the periods of the version bits),
  \<open>codec\<close> and \<open>canonical_codec\<close> (one interpretation for every serialized type), \<open>coins_backend\<close> (\<open>db\<close> the database,
  \<open>tip\<close> the cache over it, \<open>scratch\<close> the cache over that in which a block is connected; the cache over any back end is a back
  end again), \<open>strict_weak_order\<close> (the comparators given to \<open>std::sort\<close>), \<open>block_hasher\<close> (the buffer of a hasher over its
  transform, interpreted on the four hash functions).

  \<^bold>\<open>Parameters.\<close> Libraries and services that the code calls are arguments: ECDSA and the curve
  (\<open>secp256k1\<close>), the BLS library, BibleHash and RandomX, the clock, random numbers, the memory a script occupies, and the
  sizes that constructors compute in floating point. The cryptographic hashes are arguments of the scripts and the Merkle
  trees too, since nothing there depends on which function it is; \<open>Block\<close> puts in the double hash of \<open>Hash_Functions\<close>. What is used of them is a named hypothesis (\<open>curve_keys\<close>, a
  hash of 32 bytes), shown satisfiable by the witnesses; freedom from collisions is never assumed, but a
  collision among the strings actually hashed is an alternative of the conclusion.

  \<^bold>\<open>Not modelled.\<close> The vendored libraries (\<open>leveldb\<close>, \<open>secp256k1\<close>, \<open>univalue\<close>, \<open>immer\<close>, \<open>crypto/RandomX\<close>) and the generated
  text tables (\<open>kjv.cpp\<close>, \<open>cnv.cpp\<close>, \<open>rst.cpp\<close>, \<open>uto.cpp\<close>, \<open>crypto/pobh.c\<close>). The user interface (\<open>qt\<close>), the remote
  calls (\<open>rpc\<close>, \<open>rpcpog.cpp\<close>, \<open>rpcpodc.cpp\<close>) and start-up, which are glue around the parts above. The networking threads, block
  download and the scheduling of script checks, which are concurrent I/O. The wallet, the governance objects, the
  quorums (\<open>llmq\<close>) and the deterministic masternode list, which are protocols of their own above the consensus core. Code
  that computes in floating point (fee estimation, \<open>KimotoGravityWell\<close>, subsidies by percentages).
\<close>

section \<open>Properties that span components\<close>

text \<open>
  C1. A transaction other than a coinbase that \<open>CheckTransaction\<close> and \<open>CheckTxInputs\<close> accept on the view in
  which a block is connected, and whose outputs are new, is applied by \<open>UpdateCoins\<close> without a failed assertion or an
  exception, and the money in the set of coins never grows: it falls by the fee and by the value of the unspendable
  outputs.
\<close>

theorem accepted_tx_creates_no_money:
  assumes "block_inv usage c" "usage [] = 0" "\<not> IsCoinBase tx" "CheckTransaction tx = Inr ()"
    and "CheckTxInputs usage (GetCoin usage db_GetCoin) tx nSpendHeight c = Inr c'"
    and "\<forall>j < length (vout tx). block_view c (outpoint_at txid j) = None"
  shows "\<exists>undo c2 fee. UpdateCoins usage (GetCoin usage db_GetCoin) tx txid height c' = Inr (undo, c2) \<and> block_inv usage c2 \<and>
    0 \<le> fee \<and> fee = inputs_total (block_view c) (vin tx) - sum_list (map nValue (vout tx)) \<and>
    money_supply (block_view c2) = money_supply (block_view c) - fee -
      (sum_list (map nValue (vout tx)) - sum_list (map nValue (spendable_outputs (vout tx)))) \<and>
    money_supply (block_view c2) \<le> money_supply (block_view c)"
proof -
  have c': "block_inv usage c'" "block_view c' = block_view c" and pay: "inputs_pay nSpendHeight (block_view c) tx"
    using tip.CheckTxInputs_ok [OF assms(1,3), of nSpendHeight] assms(5) by auto
  have outs: "\<forall>out \<in> set (vout tx). MoneyRange (nValue out)" and d: "distinct (map prevout (vin tx))"
    using CheckTransactionD [OF assms(4)] by blast+
  have len: "length (vout tx) \<le> 2 ^ 32" using CheckTransactionD(3) [OF assms(4)] outputs_le_size [of tx] by simp
  have here: "\<forall>i \<in> set (vin tx). block_view c' (prevout i) \<noteq> None" using pay c'(2) by (simp add: inputs_pay_def)
  have new: "\<forall>k \<in> own txid 0 (length (vout tx)). block_view c' k = None" using assms(6) c'(2) by (auto simp: own_def)
  have pos: "\<forall>out \<in> set (vout tx). 0 \<le> nValue out" using outs by (auto simp: MoneyRange_def)
  then have "\<forall>out \<in> set (vout tx). nValue out \<noteq> -1" by fastforce
  from tip.UpdateCoins_shown [OF c'(1) assms(2,3) d this len here new, of height]
  obtain undo c2 where c2: "UpdateCoins usage (GetCoin usage db_GetCoin) tx txid height c' = Inr (undo, c2)" "block_inv usage c2"
    "block_view c2 = put_outputs txid height False (vout tx) 0 (minus_inputs (vin tx) (block_view c'))" by blast
  have "finite (dom (minus_inputs (vin tx) (block_view c')))"
    by (rule finite_subset [OF _ finite_block_view [of c']]) (auto simp: minus_inputs_def split: if_splits)
  moreover have "\<forall>k \<in> own txid 0 (length (vout tx)). minus_inputs (vin tx) (block_view c') k = None"
    using new by (simp add: minus_inputs_def)
  ultimately have "money_supply (block_view c2) = money_supply (block_view c) - inputs_total (block_view c) (vin tx) +
      sum_list (map nValue (spendable_outputs (vout tx)))"
    using supply_put_outputs [of _ 0 "vout tx" txid height False] len
      supply_minus_inputs [OF finite_block_view d here] c'(2) c2(3) by simp
  then show ?thesis using c2(1,2) pay spendable_outputs_le [OF pos] by (fastforce simp: inputs_pay_def)
qed

theorem accepted_tx_creates_no_money_witness:
  "\<exists>c' undo c2. CheckTxInputs length (GetCoin length db_GetCoin) spending_tx 9 example_view = Inr c' \<and>
     UpdateCoins length (GetCoin length db_GetCoin) spending_tx [2] 9 c' = Inr (undo, c2) \<and>
     money_supply (block_view c2) = 4 \<and> money_supply (block_view example_view) = 5"
proof -
  obtain c' where c': "CheckTxInputs length (GetCoin length db_GetCoin) spending_tx 9 example_view = Inr c'"
    using tip.CheckTxInputs_ok [OF example_view_ok(1) spending_tx_not_coinbase, of 9] spending_tx_pays by blast
  have new: "\<forall>j < length (vout spending_tx). block_view example_view (outpoint_at [2] j) = None"
    by (simp add: example_view_ok outpoint_at_def)
  have "dom (block_view example_view) = {outpoint_at [1] 0}" by (auto simp: example_view_ok split: if_splits)
  then have "money_supply (block_view example_view) = 5" by (simp add: money_supply_def example_view_ok old_coin_def)
  moreover have "inputs_total (block_view example_view) (vin spending_tx) = 5"
    by (simp add: inputs_total_def spending_tx_def example_view_ok old_coin_def)
  moreover have "sum_list (map nValue (vout spending_tx)) = 4" "spendable_outputs (vout spending_tx) = vout spending_tx"
    by (simp_all add: spending_tx_def spendable_outputs_def IsUnspendable_def)
  ultimately show ?thesis
    using accepted_tx_creates_no_money [OF example_view_ok(1) _ spending_tx_not_coinbase spending_tx_accepted c' new, of 9] c'
    by fastforce
qed

end
